(* ===== verification/SOC_Prelude.thy ===== *)
theory SOC_Prelude
  imports Main "HOL-Library.Word" "HOL-Library.List_Lexorder" "HOL-Library.Char_ord"
begin

section \<open>Shared vocabulary\<close>

text \<open>
  The types, the error monad and the list lemmas the components share.

  \<^item> An instant (Go's \<open>time.Time\<close>) is an \<open>int\<close>, the nanoseconds since Go's zero time, so the
    zero time is \<open>0\<close> and \<open>IsZero\<close> is \<open>is_zero_time\<close>; \<open>UTC\<close> is the identity on instants. A
    duration is an \<open>int\<close> of nanoseconds. The saturation of \<open>time.Time.Sub\<close> beyond 292 years is
    not modelled.
  \<^item> Go's \<open>uint64\<close> is \<open>u64\<close>, 64-bit words whose addition wraps.
  \<^item> Go's strings are \<open>string\<close>: lists of bytes compared in byte order.
\<close>

type_synonym u64 = "64 word"
type_synonym time = int
type_synonym duration = int

abbreviation (input) is_zero_time :: "time \<Rightarrow> bool" where
  "is_zero_time t \<equiv> t = 0"

subsection \<open>Collections of rewrite rules\<close>

named_theorems frame_simps \<open>which parts of a state an operation leaves alone\<close>
named_theorems guard_simps \<open>the guard of an operation, unfolded\<close>

subsection \<open>Programs that may fail or be interrupted\<close>

text \<open>
  A step of a component threads its world and ends in one of three ways: with a value, with an
  error the code sees and handles, or in the crash of the process, which no handler sees. The
  world after a crash is what durable storage held at that moment.
\<close>

datatype ('e, 'a) outcome = Ok 'a | Err 'e | Crashed

type_synonym ('w, 'e, 'a) prog = "'w \<Rightarrow> ('e, 'a) outcome \<times> 'w"

definition retP :: "'a \<Rightarrow> ('w, 'e, 'a) prog" where
  "retP a w = (Ok a, w)"

definition errP :: "'e \<Rightarrow> ('w, 'e, 'a) prog" where
  "errP e w = (Err e, w)"

definition bindP :: "('w, 'e, 'a) prog \<Rightarrow> ('a \<Rightarrow> ('w, 'e, 'b) prog) \<Rightarrow> ('w, 'e, 'b) prog" where
  "bindP m f w = (case m w of (Ok a, w') \<Rightarrow> f a w' | (Err e, w') \<Rightarrow> (Err e, w') | (Crashed, w') \<Rightarrow> (Crashed, w'))"

definition handleP :: "('w, 'e, 'a) prog \<Rightarrow> ('e \<Rightarrow> ('w, 'e, 'a) prog) \<Rightarrow> ('w, 'e, 'a) prog" where
  "handleP m h w = (case m w of (Err e, w') \<Rightarrow> h e w' | r \<Rightarrow> r)"

text \<open>
  A triple: from a world satisfying \<open>P\<close> the program ends with a value and a world related by
  \<open>Q\<close>, or with an error and a world related by \<open>E\<close>, or it crashes in a world satisfying \<open>C\<close>.
\<close>

definition triple ::
  "('w \<Rightarrow> bool) \<Rightarrow> ('w, 'e, 'a) prog \<Rightarrow> ('a \<Rightarrow> 'w \<Rightarrow> bool) \<Rightarrow> ('e \<Rightarrow> 'w \<Rightarrow> bool) \<Rightarrow> ('w \<Rightarrow> bool) \<Rightarrow> bool" where
  "triple P m Q E C \<longleftrightarrow> (\<forall>w. P w \<longrightarrow>
     (case m w of (Ok a, w') \<Rightarrow> Q a w' | (Err e, w') \<Rightarrow> E e w' | (Crashed, w') \<Rightarrow> C w'))"

lemma triple_ret: "(\<And>w. P w \<Longrightarrow> Q a w) \<Longrightarrow> triple P (retP a) Q E C"
  by (simp add: triple_def retP_def)

lemma triple_err: "(\<And>w. P w \<Longrightarrow> E e w) \<Longrightarrow> triple P (errP e) Q E C"
  by (simp add: triple_def errP_def)

lemma triple_bind:
  assumes "triple P m R E C" and "\<And>a. triple (R a) (f a) Q E C"
  shows "triple P (bindP m f) Q E C"
  using assms unfolding triple_def bindP_def by (fastforce split: outcome.splits prod.splits)

lemma triple_handle:
  assumes "triple P m Q R C" and "\<And>e. triple (R e) (h e) Q E C"
  shows "triple P (handleP m h) Q E C"
  using assms unfolding triple_def handleP_def by (fastforce split: outcome.splits prod.splits)

lemma triple_conseq:
  assumes "triple P m Q E C" "\<And>w. P' w \<Longrightarrow> P w" "\<And>a w. Q a w \<Longrightarrow> Q' a w"
    "\<And>e w. E e w \<Longrightarrow> E' e w" "\<And>w. C w \<Longrightarrow> C' w"
  shows "triple P' m Q' E' C'"
  using assms unfolding triple_def by (fastforce split: outcome.splits prod.splits)

lemma triple_pre: "triple P m Q E C \<Longrightarrow> (\<And>w. P' w \<Longrightarrow> P w) \<Longrightarrow> triple P' m Q E C"
  by (rule triple_conseq)

lemma triple_if:
  "(b \<Longrightarrow> triple P m Q E C) \<Longrightarrow> (\<not> b \<Longrightarrow> triple P n Q E C) \<Longrightarrow> triple P (if b then m else n) Q E C"
  by simp

lemma triple_D:
  assumes "triple P m Q E C" "P w"
  shows "m w = (Ok a, w') \<Longrightarrow> Q a w'" "m w = (Err e, w') \<Longrightarrow> E e w'" "m w = (Crashed, w') \<Longrightarrow> C w'"
  using assms unfolding triple_def by fastforce+

subsection \<open>Lists\<close>

lemma fold_swap:
  assumes "\<And>y s. y \<in> set ys \<Longrightarrow> J s \<Longrightarrow> f x (f y s) = f y (f x s)"
    and "\<And>y s. y \<in> set ys \<Longrightarrow> J s \<Longrightarrow> J (f y s)" and "J s"
  shows "f x (fold f ys s) = fold f ys (f x s)"
  using assms
proof (induction ys arbitrary: s)
  case (Cons y ys)
  have "J (f y s)" using Cons.prems by simp
  then have "f x (fold f ys (f y s)) = fold f ys (f x (f y s))"
    using Cons by (metis list.set_intros(2))
  then show ?case using Cons.prems by simp
qed simp

end
