(* ===== verification/Held_Back.thy ===== *)
theory Held_Back
  imports SOC_Prelude
begin

section \<open>Delivery in any order\<close>

text \<open>
  What a replica that holds back operations needs from them: an operation becomes ready once and
  stays ready, two ready operations of one history commute, and an operation that has been
  applied is finished, after which applying it again changes nothing. Under that contract the
  state a replica reaches depends only on the set of operations it was given: not on their
  order, not on repetitions, and not on when each one left the hold-back queue.
\<close>

locale held_back =
  fixes apply_op :: "'op \<Rightarrow> 's \<Rightarrow> 's"
    and ready :: "'s \<Rightarrow> 'op \<Rightarrow> bool"
    and finished :: "'s \<Rightarrow> 'op \<Rightarrow> bool"
    and compatible :: "'op \<Rightarrow> 'op \<Rightarrow> bool"
  assumes ready_mono: "ready s x \<Longrightarrow> ready (apply_op y s) x"
    and commute: "x \<noteq> y \<Longrightarrow> compatible x y \<Longrightarrow> ready s x \<Longrightarrow> ready s y \<Longrightarrow>
      apply_op x (apply_op y s) = apply_op y (apply_op x s)"
    and finishes: "ready s x \<Longrightarrow> finished (apply_op x s) x"
    and finished_mono: "finished s x \<Longrightarrow> finished (apply_op y s) x"
    and finished_noop: "finished s x \<Longrightarrow> apply_op x s = s"
begin

definition run :: "'op list \<Rightarrow> 's \<Rightarrow> 's" where
  "run xs s = fold apply_op xs s"

fun causal :: "'s \<Rightarrow> 'op list \<Rightarrow> bool" where
  "causal s [] \<longleftrightarrow> True"
| "causal s (x # xs) \<longleftrightarrow> ready s x \<and> causal (apply_op x s) xs"

definition one_history :: "'op set \<Rightarrow> bool" where
  "one_history X \<longleftrightarrow> (\<forall>x \<in> X. \<forall>y \<in> X. x \<noteq> y \<longrightarrow> compatible x y)"

lemma run_simps [simp]: "run [] s = s" "run (x # xs) s = run xs (apply_op x s)"
  "run (xs @ ys) s = run ys (run xs s)"
  by (simp_all add: run_def)

lemma causal_append [simp]: "causal s (xs @ ys) \<longleftrightarrow> causal s xs \<and> causal (run xs s) ys"
  by (induction xs arbitrary: s) auto

lemma ready_run: "ready s x \<Longrightarrow> ready (run ys s) x"
  by (induction ys arbitrary: s) (auto intro: ready_mono)

lemma finished_run: "finished s x \<Longrightarrow> finished (run ys s) x"
  by (induction ys arbitrary: s) (auto intro: finished_mono)

lemma causal_finished: "causal s xs \<Longrightarrow> x \<in> set xs \<Longrightarrow> finished (run xs s) x"
  by (induction xs arbitrary: s) (auto intro: finished_run finishes)

lemma apply_past_run:
  assumes "ready s x" "causal s ys" "\<And>y. y \<in> set ys \<Longrightarrow> y \<noteq> x \<Longrightarrow> compatible x y"
  shows "run ys (apply_op x s) = apply_op x (run ys s) \<and> causal (apply_op x s) ys"
  using assms
proof (induction ys arbitrary: s)
  case (Cons y ys)
  show ?case
  proof (cases "y = x")
    case True
    have fin: "finished (apply_op x s) x" using Cons.prems by (simp add: finishes)
    then have "apply_op x (run ys (apply_op x s)) = run ys (apply_op x s)"
      by (intro finished_noop finished_run)
    then show ?thesis using True Cons.prems fin by (simp add: finished_noop ready_mono)
  next
    case False
    then have "apply_op x (apply_op y s) = apply_op y (apply_op x s)"
      using Cons.prems by (intro commute) auto
    moreover have "run ys (apply_op x (apply_op y s)) = apply_op x (run ys (apply_op y s))
        \<and> causal (apply_op x (apply_op y s)) ys"
      using Cons.prems by (intro Cons.IH) (auto intro: ready_mono)
    ultimately show ?thesis using Cons.prems by (auto intro: ready_mono)
  qed
qed simp

lemma run_past_run:
  assumes "causal s xs" "causal s ys" "one_history (set xs \<union> set ys)"
  shows "run ys (run xs s) = run xs (run ys s) \<and> causal (run xs s) ys"
  using assms
proof (induction xs arbitrary: s)
  case (Cons x xs)
  have "run ys (apply_op x s) = apply_op x (run ys s) \<and> causal (apply_op x s) ys"
    using Cons.prems by (intro apply_past_run) (auto simp: one_history_def)
  moreover have "one_history (set xs \<union> set ys)"
    using Cons.prems(3) unfolding one_history_def by auto
  ultimately show ?case using Cons.IH [of "apply_op x s"] Cons.prems by auto
qed simp

lemma run_finished: "(\<And>x. x \<in> set xs \<Longrightarrow> finished s x) \<Longrightarrow> run xs s = s"
  by (induction xs) (auto simp: finished_noop)

theorem order_irrelevant:
  assumes "causal s xs" "causal s ys" "set xs = set ys" "one_history (set xs)"
  shows "run xs s = run ys s"
proof -
  have "run ys (run xs s) = run xs (run ys s)"
    using run_past_run [OF assms(1,2)] assms(3,4) by simp
  moreover have "run ys (run xs s) = run xs s" "run xs (run ys s) = run ys s"
    using assms by (auto intro!: run_finished causal_finished)
  ultimately show ?thesis by simp
qed

lemma still_ready:
  assumes "causal s (ps @ [x])" "causal s ys" "set ps \<subseteq> set ys" "one_history (set ys)"
  shows "ready (run ys s) x"
proof -
  have "run ys (run ps s) = run ps (run ys s)"
    using run_past_run [of s ps ys] assms by (simp add: sup.absorb2)
  also have "\<dots> = run ys s"
    using assms by (auto intro!: run_finished causal_finished)
  finally show ?thesis using ready_run [of "run ps s" x ys] assms(1) by simp
qed

lemma stuck_includes:
  assumes "causal s xs" "causal s ys" "set xs \<subseteq> set ys \<union> Q" "one_history (set ys)"
    and "\<And>x. x \<in> Q \<Longrightarrow> \<not> ready (run ys s) x"
  shows "set xs \<subseteq> set ys"
  using assms
proof (induction xs rule: rev_induct)
  case (snoc x xs)
  then have "set xs \<subseteq> set ys" by simp
  then have "ready (run ys s) x" using snoc.prems by (intro still_ready) auto
  then show ?case using snoc.prems \<open>set xs \<subseteq> set ys\<close> by auto
qed simp

text \<open>
  Two replicas that were given the same operations and hold back only what is not ready have
  applied the same operations, so they are in the same state.
\<close>

theorem converge:
  assumes "causal s xs" "causal s ys" "one_history (set xs \<union> P)"
    and "set xs \<union> P = set ys \<union> Q"
    and "\<And>x. x \<in> P \<Longrightarrow> \<not> ready (run xs s) x" "\<And>x. x \<in> Q \<Longrightarrow> \<not> ready (run ys s) x"
  shows "run xs s = run ys s \<and> set xs = set ys"
proof -
  have hist: "one_history (set xs)" "one_history (set ys)"
    using assms(3,4) unfolding one_history_def by blast+
  have "set xs \<subseteq> set ys" "set ys \<subseteq> set xs"
    using stuck_includes [of s xs ys Q] stuck_includes [of s ys xs P] assms hist by auto
  then show ?thesis using order_irrelevant [OF assms(1,2)] hist by auto
qed

end

end
