(* ===== verification/Crdt.thy ===== *)
theory Crdt
  imports Held_Back
begin

section \<open>The canvas's replicated text\<close>

text \<open>
  \<^verbatim>\<open>internal/crdt/sequence.go\<close>: a replicated growable array of characters. The linked list from
  \<^verbatim>\<open>Sequence.head\<close> is the list \<open>chain\<close>, tombstones included; the index \<^verbatim>\<open>Sequence.nodes\<close> holds exactly
  the linked nodes (every place that links a node stores it, nothing else writes it), so a lookup
  in it is a search of \<open>chain\<close> by identifier, and a pointer to a node is its identifier, with
  \<open>None\<close> for the head. Clocks are \<^verbatim>\<open>uint64\<close> and wrap. A string is the list of its code points; a
  string that is not valid UTF-8 is one with an element that is no Unicode scalar value.
\<close>

type_synonym rune = int

datatype cid = CId (replica: string) (clk: u64)

definition zero_id :: cid where
  "zero_id = CId [] 0"

definition is_zero :: "cid \<Rightarrow> bool" where
  "is_zero i \<longleftrightarrow> replica i = [] \<and> clk i = 0"

definition id_less :: "cid \<Rightarrow> cid \<Rightarrow> bool" where
  "id_less a b = (if clk a \<noteq> clk b then clk a < clk b else replica a < replica b)"

instantiation cid :: linorder
begin

definition less_cid :: "cid \<Rightarrow> cid \<Rightarrow> bool" where
  "less_cid a b = id_less a b"

definition less_eq_cid :: "cid \<Rightarrow> cid \<Rightarrow> bool" where
  "less_eq_cid a b \<longleftrightarrow> id_less a b \<or> a = b"

instance
proof
  fix a b c :: cid
  show "(a < b) = (a \<le> b \<and> \<not> b \<le> a)"
    by (auto simp: less_cid_def less_eq_cid_def id_less_def split: if_splits)
  show "a \<le> a" by (simp add: less_eq_cid_def)
  show "a \<le> b \<Longrightarrow> b \<le> c \<Longrightarrow> a \<le> c"
    by (auto simp: less_eq_cid_def id_less_def split: if_splits)
  show "a \<le> b \<Longrightarrow> b \<le> a \<Longrightarrow> a = b"
    by (auto simp: less_eq_cid_def id_less_def split: if_splits)
  show "a \<le> b \<or> b \<le> a"
    by (cases a; cases b) (auto simp: less_eq_cid_def id_less_def)
qed

end

record span =
  sp_replica :: string
  sp_start :: u64
  sp_end :: u64

record crdt_op =
  op_id :: cid
  op_after :: cid
  op_text :: "rune list"
  op_delete :: "span list"

datatype crdt_error =
    InsertOrDelete | NoWriterClock | InvalidText | BadAfter | ClocksOverflow | BadSpan
  | MissingDependency | ClockNotAfter
  | NoWriter | PositionOutside | EmptyOrInvalid
  | StoredMixed | StoredUnheld | StoredTwice

record node =
  nid :: cid
  nval :: rune
  ndel :: bool

record sequence =
  chain :: "node list"
  seq_clock :: u64
  seq_visible :: int
  seq_pending :: "crdt_op list"

subsection \<open>Well-formed operations\<close>

definition replica_char :: "char \<Rightarrow> bool" where
  "replica_char c \<longleftrightarrow>
     (CHR ''A'' \<le> c \<and> c \<le> CHR ''Z'') \<or> (CHR ''a'' \<le> c \<and> c \<le> CHR ''z'') \<or> (CHR ''0'' \<le> c \<and> c \<le> CHR ''9'')
     \<or> c \<in> {CHR ''_'', CHR ''.'', CHR '':'', CHR ''-''}"

definition valid_replica :: "string \<Rightarrow> bool" where
  "valid_replica r \<longleftrightarrow> 1 \<le> length r \<and> length r \<le> 64 \<and> list_all replica_char r"

definition valid_rune :: "rune \<Rightarrow> bool" where
  "valid_rune v \<longleftrightarrow> (0 \<le> v \<and> v < 0xD800) \<or> (0xDFFF < v \<and> v \<le> 0x10FFFF)"

definition valid_text :: "rune list \<Rightarrow> bool" where
  "valid_text = list_all valid_rune"

definition max_clock :: u64 where
  "max_clock = 2 ^ 53 - 1"

definition bad_span :: "span \<Rightarrow> bool" where
  "bad_span sp \<longleftrightarrow> \<not> valid_replica (sp_replica sp) \<or> sp_start sp = 0 \<or> sp_end sp < sp_start sp \<or> sp_end sp > max_clock"

definition op_valid :: "crdt_op \<Rightarrow> crdt_error option" where
  "op_valid op =
     (let inserting = op_text op \<noteq> []; deleting = op_delete op \<noteq> [] in
      if inserting = deleting then Some InsertOrDelete
      else if inserting then
        (if \<not> valid_replica (replica (op_id op)) \<or> clk (op_id op) = 0 then Some NoWriterClock
         else if \<not> valid_text (op_text op) then Some InvalidText
         else if \<not> is_zero (op_after op) \<and> (\<not> valid_replica (replica (op_after op)) \<or> clk (op_after op) = 0)
           then Some BadAfter
         else if clk (op_id op) + of_nat (length (op_text op)) > max_clock then Some ClocksOverflow
         else None)
      else if list_ex bad_span (op_delete op) then Some BadSpan else None)"

subsection \<open>The document\<close>

definition new_sequence :: sequence where
  "new_sequence = \<lparr>chain = [], seq_clock = 0, seq_visible = 0, seq_pending = []\<rparr>"

definition seq_text :: "sequence \<Rightarrow> rune list" where
  "seq_text s = map nval (filter (\<lambda>n. \<not> ndel n) (chain s))"

definition seq_len :: "sequence \<Rightarrow> int" where
  "seq_len s = seq_visible s"

definition has_node :: "sequence \<Rightarrow> cid \<Rightarrow> bool" where
  "has_node s i \<longleftrightarrow> i \<in> nid ` set (chain s)"

definition live :: "sequence \<Rightarrow> cid \<Rightarrow> bool" where
  "live s i \<longleftrightarrow> (\<exists>n \<in> set (chain s). nid n = i \<and> \<not> ndel n)"

text \<open>
  The insertion point: past every following character with a greater identifier. The search
  starts at the head or right after the character the insert names.
\<close>

fun place :: "node \<Rightarrow> node list \<Rightarrow> node list" where
  "place n [] = [n]"
| "place n (x # xs) = (if nid n < nid x then x # place n xs else n # x # xs)"

fun place_after :: "cid option \<Rightarrow> node \<Rightarrow> node list \<Rightarrow> node list" where
  "place_after None n xs = place n xs"
| "place_after (Some a) n [] = []"
| "place_after (Some a) n (x # xs) = (if nid x = a then x # place n xs else x # place_after (Some a) n xs)"

fun insert_runes :: "sequence \<Rightarrow> cid option \<Rightarrow> string \<Rightarrow> u64 \<Rightarrow> rune list \<Rightarrow> bool \<Rightarrow> sequence \<times> bool" where
  "insert_runes s after r c [] changed = (s, changed)"
| "insert_runes s after r c (v # vs) changed =
     (let i = CId r c in
      if has_node s i then insert_runes s (Some i) r (c + 1) vs changed
      else insert_runes
        (s\<lparr>chain := place_after after \<lparr>nid = i, nval = v, ndel = False\<rparr> (chain s),
           seq_visible := seq_visible s + 1, seq_clock := max (seq_clock s) c\<rparr>)
        (Some i) r (c + 1) vs True)"

definition integrate_insert :: "sequence \<Rightarrow> crdt_op \<Rightarrow> crdt_error + sequence \<times> bool" where
  "integrate_insert s op =
     (if \<not> is_zero (op_after op) \<and> \<not> has_node s (op_after op) then Inl MissingDependency
      else
        let after = (if is_zero (op_after op) then None else Some (op_after op));
            after_clock = (if is_zero (op_after op) then 0 else clk (op_after op))
        in if clk (op_id op) \<le> after_clock then Inl ClockNotAfter
           else Inr (insert_runes s after (replica (op_id op)) (clk (op_id op)) (op_text op) False))"

text \<open>
  The characters a delete names, in the order its loops visit them. \<^verbatim>\<open>Op.Valid\<close> has bounded
  every end by \<open>max_clock\<close>, so \<^verbatim>\<open>clock++\<close> does not wrap and the inner loop stops at the end.
\<close>

definition span_ids :: "span \<Rightarrow> cid list" where
  "span_ids sp = map (\<lambda>k. CId (sp_replica sp) (of_nat k)) [unat (sp_start sp) ..< Suc (unat (sp_end sp))]"

definition delete_ids :: "crdt_op \<Rightarrow> cid list" where
  "delete_ids op = concat (map span_ids (op_delete op))"

definition mark_deleted :: "cid \<Rightarrow> node list \<Rightarrow> node list" where
  "mark_deleted i xs = map (\<lambda>n. if nid n = i then n\<lparr>ndel := True\<rparr> else n) xs"

fun delete_runes :: "sequence \<Rightarrow> cid list \<Rightarrow> bool \<Rightarrow> sequence \<times> bool" where
  "delete_runes s [] changed = (s, changed)"
| "delete_runes s (i # is) changed =
     (let s' = (if live s i then s\<lparr>chain := mark_deleted i (chain s), seq_visible := seq_visible s - 1\<rparr> else s)
      in delete_runes (s'\<lparr>seq_clock := max (seq_clock s') (clk i)\<rparr>) is (changed \<or> live s i))"

definition integrate_delete :: "sequence \<Rightarrow> crdt_op \<Rightarrow> crdt_error + sequence \<times> bool" where
  "integrate_delete s op =
     (if list_all (has_node s) (delete_ids op) then Inr (delete_runes s (delete_ids op) False)
      else Inl MissingDependency)"

definition integrate :: "sequence \<Rightarrow> crdt_op \<Rightarrow> crdt_error + sequence \<times> bool" where
  "integrate s op = (if op_text op \<noteq> [] then integrate_insert s op else integrate_delete s op)"

subsection \<open>Applying an operation, with the hold-back queue\<close>

text \<open>
  One pass over the operations that were waiting. The pass starts with an empty queue; a held
  operation still missing its dependency goes back on it. The first operation that fails
  otherwise ends the pass, and the operations behind it are in neither list any more.
\<close>

fun retry_pass :: "sequence \<Rightarrow> crdt_op list \<Rightarrow> bool \<Rightarrow> bool \<Rightarrow> sequence \<times> bool \<times> (crdt_error + bool)" where
  "retry_pass s [] changed progress = (s, changed, Inr progress)"
| "retry_pass s (h # hs) changed progress =
     (case integrate s h of
        Inl MissingDependency \<Rightarrow> retry_pass (s\<lparr>seq_pending := seq_pending s @ [h]\<rparr>) hs changed progress
      | Inl e \<Rightarrow> (s, changed, Inl e)
      | Inr (s', c) \<Rightarrow> retry_pass s' hs (changed \<or> c) True)"

lemma insert_runes_pending [frame_simps]:
  "seq_pending (fst (insert_runes s after r c vs changed)) = seq_pending s"
  by (induction s after r c vs changed rule: insert_runes.induct) (simp_all add: Let_def)

lemma delete_runes_pending [frame_simps]:
  "seq_pending (fst (delete_runes s is changed)) = seq_pending s"
  by (induction s "is" changed rule: delete_runes.induct) (simp_all add: Let_def)

lemma integrate_pending [frame_simps]: "integrate s op = Inr (s', c) \<Longrightarrow> seq_pending s' = seq_pending s"
  by (auto simp: integrate_def integrate_insert_def integrate_delete_def Let_def split: if_splits
      dest!: arg_cong [where f = fst] simp: frame_simps)

lemma retry_pass_length:
  "retry_pass s hs changed progress = (s', changed', Inr progress') \<Longrightarrow>
     length (seq_pending s') + (if progress' \<and> \<not> progress then 1 else 0) \<le> length (seq_pending s) + length hs"
  by (induction hs arbitrary: s changed progress)
     (fastforce split: sum.splits crdt_error.splits prod.splits dest!: integrate_pending)+

function drain_pending :: "sequence \<Rightarrow> bool \<Rightarrow> sequence \<times> bool \<times> crdt_error option" where
  "drain_pending s changed =
     (if seq_pending s = [] then (s, changed, None)
      else case retry_pass (s\<lparr>seq_pending := []\<rparr>) (seq_pending s) changed False of
          (s', changed', Inl e) \<Rightarrow> (s', changed', Some e)
        | (s', changed', Inr progress) \<Rightarrow>
            if progress then drain_pending s' changed' else (s', changed', None))"
  by pat_completeness auto
termination
  by (relation "measure (\<lambda>(s, changed). length (seq_pending s))")
     (auto dest!: sym [where t = "retry_pass _ _ _ _"] retry_pass_length)

declare drain_pending.simps [simp del]

definition seq_apply :: "sequence \<Rightarrow> crdt_op \<Rightarrow> sequence \<times> bool \<times> crdt_error option" where
  "seq_apply s op =
     (case op_valid op of
        Some e \<Rightarrow> (s, False, Some e)
      | None \<Rightarrow>
        (case integrate s op of
           Inl MissingDependency \<Rightarrow> (s\<lparr>seq_pending := seq_pending s @ [op]\<rparr>, False, None)
         | Inl e \<Rightarrow> (s, False, Some e)
         | Inr (s', changed) \<Rightarrow> drain_pending s' changed))"

text \<open>A replica receiving a sequence of operations; the caller reports errors and goes on.\<close>

definition receive :: "crdt_op list \<Rightarrow> sequence \<Rightarrow> sequence" where
  "receive ops s = fold (\<lambda>op s. fst (seq_apply s op)) ops s"

end
