(* ===== verification/Crdt_Convergence.thy ===== *)
theory Crdt_Convergence
  imports Crdt
begin

section \<open>Replicas converge\<close>

text \<open>
  An operation is a list of single-character actions that does not depend on the replica it is
  applied to. Actions of different operations commute, an applied operation is finished, so the
  contract of \<^verbatim>\<open>Held_Back\<close> holds for \<^verbatim>\<open>Sequence.integrate\<close>, and the hold-back queue of
  \<^verbatim>\<open>Sequence.Apply\<close> is what that contract asks for.
\<close>

datatype act = Ins "cid option" cid rune | Del cid

fun do_act :: "act \<Rightarrow> sequence \<Rightarrow> sequence" where
  "do_act (Ins a i v) s =
     (if has_node s i then s
      else s\<lparr>chain := place_after a \<lparr>nid = i, nval = v, ndel = False\<rparr> (chain s),
             seq_visible := seq_visible s + 1, seq_clock := max (seq_clock s) (clk i)\<rparr>)"
| "do_act (Del i) s =
     (let s' = (if live s i then s\<lparr>chain := mark_deleted i (chain s), seq_visible := seq_visible s - 1\<rparr> else s)
      in s'\<lparr>seq_clock := max (seq_clock s') (clk i)\<rparr>)"

fun ins_acts :: "cid option \<Rightarrow> string \<Rightarrow> u64 \<Rightarrow> rune list \<Rightarrow> act list" where
  "ins_acts a r c [] = []"
| "ins_acts a r c (v # vs) = Ins a (CId r c) v # ins_acts (Some (CId r c)) r (c + 1) vs"

definition anchor :: "crdt_op \<Rightarrow> cid option" where
  "anchor op = (if is_zero (op_after op) then None else Some (op_after op))"

definition op_acts :: "crdt_op \<Rightarrow> act list" where
  "op_acts op = (if op_text op \<noteq> [] then ins_acts (anchor op) (replica (op_id op)) (clk (op_id op)) (op_text op)
                 else map Del (delete_ids op))"

definition seq_app :: "crdt_op \<Rightarrow> sequence \<Rightarrow> sequence" where
  "seq_app op = fold do_act (op_acts op)"

definition seq_ready :: "sequence \<Rightarrow> crdt_op \<Rightarrow> bool" where
  "seq_ready s op \<longleftrightarrow> (if op_text op \<noteq> [] then is_zero (op_after op) \<or> has_node s (op_after op)
                       else list_all (has_node s) (delete_ids op))"

fun act_done :: "sequence \<Rightarrow> act \<Rightarrow> bool" where
  "act_done s (Ins a i v) \<longleftrightarrow> has_node s i"
| "act_done s (Del i) \<longleftrightarrow> has_node s i \<and> \<not> live s i \<and> clk i \<le> seq_clock s"

definition seq_done :: "sequence \<Rightarrow> crdt_op \<Rightarrow> bool" where
  "seq_done s op \<longleftrightarrow> (\<forall>a \<in> set (op_acts op). act_done s a)"

fun act_new :: "act \<Rightarrow> cid set" where
  "act_new (Ins a i v) = {i}"
| "act_new (Del i) = {}"

definition new_ids :: "crdt_op \<Rightarrow> cid set" where
  "new_ids op = (\<Union>a \<in> set (op_acts op). act_new a)"

definition distinct_writers :: "crdt_op \<Rightarrow> crdt_op \<Rightarrow> bool" where
  "distinct_writers x y \<longleftrightarrow> new_ids x \<inter> new_ids y = {}"

subsection \<open>Actions on the chain\<close>

lemma set_place [simp]: "set (place n xs) = insert n (set xs)"
  by (induction n xs rule: place.induct) auto

lemma set_place_after: "set (place_after a n xs) =
    (if a = None \<or> the a \<in> nid ` set xs then insert n (set xs) else set xs)"
  by (induction a n xs rule: place_after.induct) auto

lemma set_mark_deleted: "nid ` set (mark_deleted i xs) = nid ` set xs"
  unfolding mark_deleted_def set_map image_image by (rule image_cong) auto

lemma place_commute: "nid m \<noteq> nid n \<Longrightarrow> place m (place n xs) = place n (place m xs)"
  by (induction xs) auto

lemma place_place_after:
  "nid m \<noteq> nid n \<Longrightarrow> a \<noteq> nid n \<Longrightarrow> place_after (Some a) m (place n xs) = place n (place_after (Some a) m xs)"
  by (induction xs) (auto simp: place_commute)

lemma place_after_commute:
  "nid m \<noteq> nid n \<Longrightarrow> a \<noteq> Some (nid n) \<Longrightarrow> b \<noteq> Some (nid m) \<Longrightarrow>
     place_after a m (place_after b n xs) = place_after b n (place_after a m xs)"
proof (cases a; cases b)
  fix i j
  assume "a = Some i" "b = Some j" "nid m \<noteq> nid n" "a \<noteq> Some (nid n)" "b \<noteq> Some (nid m)"
  then show ?thesis
    by (induction xs) (auto simp: place_commute place_place_after)
qed (auto simp: place_commute place_place_after)

lemma mark_deleted_Nil: "mark_deleted i [] = []"
  and mark_deleted_Cons: "mark_deleted i (x # xs) = (if nid x = i then x\<lparr>ndel := True\<rparr> else x) # mark_deleted i xs"
  by (simp_all add: mark_deleted_def)

lemma mark_place: "nid n \<noteq> i \<Longrightarrow> mark_deleted i (place n xs) = place n (mark_deleted i xs)"
  by (induction xs) (auto simp: mark_deleted_def)

lemma mark_place_after: "nid n \<noteq> i \<Longrightarrow> mark_deleted i (place_after a n xs) = place_after a n (mark_deleted i xs)"
  by (induction a n xs rule: place_after.induct) (simp_all add: mark_place mark_deleted_Cons mark_deleted_Nil)

lemma mark_mark: "mark_deleted i (mark_deleted j xs) = mark_deleted j (mark_deleted i xs)"
  by (auto simp: mark_deleted_def)

subsection \<open>Actions on the replica\<close>

lemma has_node_update [simp]:
  "has_node (s\<lparr>seq_visible := v\<rparr>) = has_node s" "has_node (s\<lparr>seq_clock := c\<rparr>) = has_node s"
  "has_node (s\<lparr>seq_pending := p\<rparr>) = has_node s"
  by (auto simp: has_node_def fun_eq_iff)

lemma live_update [simp]:
  "live (s\<lparr>seq_visible := v\<rparr>) = live s" "live (s\<lparr>seq_clock := c\<rparr>) = live s"
  "live (s\<lparr>seq_pending := p\<rparr>) = live s"
  by (auto simp: live_def fun_eq_iff)

lemma has_node_mark [simp]: "has_node (s\<lparr>chain := mark_deleted i (chain s)\<rparr>) = has_node s"
  by (simp add: has_node_def set_mark_deleted fun_eq_iff)

lemma has_node_place_after:
  "has_node (s\<lparr>chain := place_after a n (chain s)\<rparr>) j \<longleftrightarrow>
     has_node s j \<or> (j = nid n \<and> (a = None \<or> has_node s (the a)))"
  by (auto simp: has_node_def set_place_after)

lemma live_place_after:
  "j \<noteq> nid n \<Longrightarrow> live (s\<lparr>chain := place_after a n (chain s)\<rparr>) j = live s j"
  by (auto simp: live_def set_place_after)

lemma live_mark: "live (s\<lparr>chain := mark_deleted i (chain s)\<rparr>) j \<longleftrightarrow> live s j \<and> j \<noteq> i"
  by (auto simp: live_def mark_deleted_def)

lemma live_has_node: "live s i \<Longrightarrow> has_node s i"
  by (auto simp: live_def has_node_def)

lemma do_act_has_mono: "has_node s i \<Longrightarrow> has_node (do_act a s) i"
  by (cases a) (auto simp: has_node_place_after Let_def)

lemma acts_has_mono: "has_node s i \<Longrightarrow> has_node (fold do_act as s) i"
  by (induction as arbitrary: s) (auto intro: do_act_has_mono)

text \<open>Two actions are independent in a replica when neither creates what the other still needs.\<close>

fun independent :: "sequence \<Rightarrow> act \<Rightarrow> act \<Rightarrow> bool" where
  "independent s (Ins a i v) (Ins b j w) \<longleftrightarrow>
     i \<noteq> j \<and> (a = Some j \<longrightarrow> has_node s j) \<and> (b = Some i \<longrightarrow> has_node s i)"
| "independent s (Ins a i v) (Del j) \<longleftrightarrow> (i = j \<longrightarrow> has_node s i)"
| "independent s (Del i) (Ins b j w) \<longleftrightarrow> (i = j \<longrightarrow> has_node s i)"
| "independent s (Del i) (Del j) \<longleftrightarrow> True"

lemma independent_mono: "independent s a b \<Longrightarrow> independent (do_act c s) a b"
  by (cases "(s, a, b)" rule: independent.cases) (auto intro: do_act_has_mono)

lemma ins_ins_commute:
  assumes "independent s (Ins a i v) (Ins b j w)"
  shows "do_act (Ins a i v) (do_act (Ins b j w) s) = do_act (Ins b j w) (do_act (Ins a i v) s)"
proof (cases "has_node s i \<or> has_node s j")
  case True
  then show ?thesis using assms by (auto simp: has_node_place_after)
next
  case False
  then have ab: "a \<noteq> Some j" "b \<noteq> Some i" "i \<noteq> j" using assms by auto
  then have "place_after a \<lparr>nid = i, nval = v, ndel = False\<rparr> (place_after b \<lparr>nid = j, nval = w, ndel = False\<rparr> (chain s))
      = place_after b \<lparr>nid = j, nval = w, ndel = False\<rparr> (place_after a \<lparr>nid = i, nval = v, ndel = False\<rparr> (chain s))"
    by (intro place_after_commute) auto
  then show ?thesis
    using False ab by (simp add: has_node_place_after max.assoc max.commute max.left_commute)
qed

lemma ins_del_commute:
  assumes "i = j \<longrightarrow> has_node s i"
  shows "do_act (Ins a i v) (do_act (Del j) s) = do_act (Del j) (do_act (Ins a i v) s)"
proof (cases "has_node s i")
  case False
  with assms have "j \<noteq> i" by auto
  then show ?thesis
    using False by (auto simp: Let_def has_node_place_after live_place_after mark_place_after max.assoc max.left_commute max.commute)
qed (auto simp: Let_def)

lemma del_del_commute: "do_act (Del i) (do_act (Del j) s) = do_act (Del j) (do_act (Del i) s)"
  by (auto simp: Let_def live_mark mark_mark max.assoc max.left_commute max.commute)

lemma act_commute: "independent s x y \<Longrightarrow> do_act x (do_act y s) = do_act y (do_act x s)"
  by (cases x; cases y) (metis ins_ins_commute, metis independent.simps(2) ins_del_commute,
      metis independent.simps(3) ins_del_commute, metis del_del_commute)

lemma act_past_acts:
  "(\<And>y. y \<in> set ys \<Longrightarrow> independent s x y) \<Longrightarrow> do_act x (fold do_act ys s) = fold do_act ys (do_act x s)"
  by (rule fold_swap [where J = "\<lambda>s. \<forall>y \<in> set ys. independent s x y"])
     (auto intro: act_commute independent_mono)

lemma acts_past_acts:
  "(\<And>x y. x \<in> set xs \<Longrightarrow> y \<in> set ys \<Longrightarrow> independent s x y) \<Longrightarrow>
     fold do_act xs (fold do_act ys s) = fold do_act ys (fold do_act xs s)"
proof (induction xs arbitrary: s)
  case (Cons x xs)
  have "do_act x (fold do_act ys s) = fold do_act ys (do_act x s)"
    using Cons.prems by (intro act_past_acts) auto
  then show ?case
    using Cons.IH [of "do_act x s"] Cons.prems by (auto intro: independent_mono)
qed simp

lemma ins_acts_anchor:
  "Ins b i v \<in> set (ins_acts a r c vs) \<Longrightarrow> b = a \<or> (\<exists>j. b = Some j \<and> (\<exists>x \<in> set (ins_acts a r c vs). j \<in> act_new x))"
  by (induction a r c vs rule: ins_acts.induct) fastforce+

lemma ins_acts_no_del: "Del i \<notin> set (ins_acts a r c vs)"
  by (induction a r c vs rule: ins_acts.induct) auto

lemma op_acts_anchor:
  assumes "Ins b i v \<in> set (op_acts op)" "seq_ready s op" "b = Some j"
  shows "has_node s j \<or> j \<in> new_ids op"
proof -
  have t: "op_text op \<noteq> []" using assms(1) by (auto simp: op_acts_def split: if_splits)
  then have "b = anchor op \<or> (\<exists>j. b = Some j \<and> j \<in> new_ids op)"
    using ins_acts_anchor assms(1) by (auto simp: op_acts_def new_ids_def)
  then show ?thesis
    using t assms(2,3) by (auto simp: anchor_def seq_ready_def split: if_splits)
qed

lemma op_acts_del: "Del i \<in> set (op_acts op) \<Longrightarrow> seq_ready s op \<Longrightarrow> has_node s i"
  using ins_acts_no_del by (auto simp: op_acts_def seq_ready_def list_all_iff split: if_splits)

lemma op_acts_new: "Ins b i v \<in> set (op_acts op) \<Longrightarrow> i \<in> new_ids op"
  by (force simp: new_ids_def)

lemma ops_independent:
  assumes "seq_ready s x" "seq_ready s y" "distinct_writers x y"
    and "a \<in> set (op_acts x)" "b \<in> set (op_acts y)"
  shows "independent s a b"
proof (cases a; cases b)
  fix p i v q j w
  assume ab: "a = Ins p i v" "b = Ins q j w"
  then have "i \<in> new_ids x" "j \<in> new_ids y" using assms op_acts_new by auto
  moreover have "has_node s k \<or> k \<in> new_ids x" if "p = Some k" for k
    using op_acts_anchor assms ab that by blast
  moreover have "has_node s k \<or> k \<in> new_ids y" if "q = Some k" for k
    using op_acts_anchor assms ab that by blast
  ultimately show ?thesis using assms(3) ab by (auto simp: distinct_writers_def)
qed (use assms op_acts_del in auto)

subsection \<open>Operations under the delivery contract\<close>

lemma acts_done_mono: "act_done s a \<Longrightarrow> act_done (do_act b s) a"
proof (cases a)
  case (Del i)
  assume fin: "act_done s a"
  show ?thesis
  proof (cases b)
    case (Ins p j v)
    have "has_node s j \<or> i \<noteq> j" using fin Del by auto
    then show ?thesis using fin Del Ins
      by (auto simp: has_node_place_after live_place_after le_max_iff_disj)
  next
    case (Del j)
    then show ?thesis using fin \<open>a = Del i\<close> by (auto simp: Let_def live_mark le_max_iff_disj)
  qed
qed (auto intro: do_act_has_mono)

lemma act_done_noop: "act_done s a \<Longrightarrow> do_act a s = s"
  by (cases a) (auto simp: Let_def max_absorb1)

lemma fold_done_mono: "act_done s a \<Longrightarrow> act_done (fold do_act bs s) a"
  by (induction bs arbitrary: s) (auto intro: acts_done_mono)

lemma ins_acts_done:
  "(a = None \<or> has_node s (the a)) \<Longrightarrow> x \<in> set (ins_acts a r c vs) \<Longrightarrow> act_done (fold do_act (ins_acts a r c vs) s) x"
proof (induction a r c vs arbitrary: s rule: ins_acts.induct)
  case (2 a r c v vs)
  let ?s = "do_act (Ins a (CId r c) v) s"
  have "has_node ?s (CId r c)" using "2.prems" by (auto simp: has_node_place_after)
  moreover from this have "act_done ?s (Ins a (CId r c) v)" by simp
  ultimately show ?case
    using "2.IH" [of ?s] "2.prems" fold_done_mono [of ?s "Ins a (CId r c) v"] by (auto simp del: do_act.simps act_done.simps)
qed simp

lemma del_acts_done:
  "list_all (has_node s) is \<Longrightarrow> i \<in> set is \<Longrightarrow> act_done (fold do_act (map Del is) s) (Del i)"
proof (induction "is" arbitrary: s)
  case (Cons j js)
  have "act_done (do_act (Del j) s) (Del j)"
    using Cons.prems by (auto simp: Let_def live_mark)
  moreover have "list_all (has_node (do_act (Del j) s)) js"
    using Cons.prems by (auto simp: list_all_iff simp del: do_act.simps intro: do_act_has_mono)
  ultimately show ?case
    using Cons.IH [of "do_act (Del j) s"] Cons.prems by (auto simp del: do_act.simps act_done.simps intro: fold_done_mono)
qed simp

interpretation canvas: held_back seq_app seq_ready seq_done distinct_writers
proof
  show "seq_ready (seq_app y s) x" if "seq_ready s x" for s x y
    using that by (auto simp: seq_ready_def seq_app_def list_all_iff intro: acts_has_mono split: if_splits)
  show "seq_app x (seq_app y s) = seq_app y (seq_app x s)"
    if "x \<noteq> y" "distinct_writers x y" "seq_ready s x" "seq_ready s y" for x y s
    using that unfolding seq_app_def by (intro acts_past_acts ops_independent)
  show "seq_done (seq_app x s) x" if "seq_ready s x" for s x
    using that ins_acts_done [of "anchor x" s] del_acts_done [of s "delete_ids x"]
    unfolding seq_done_def seq_app_def seq_ready_def op_acts_def anchor_def by (auto split: if_splits)
  show "seq_done (seq_app y s) x" if "seq_done s x" for s x y
    using that by (auto simp: seq_done_def seq_app_def intro: fold_done_mono)
  show "seq_app x s = s" if "seq_done s x" for s x
  proof -
    have "fold do_act as s = s" if "\<forall>a \<in> set as. act_done s a" for as
      using that by (induction as) (auto simp: act_done_noop)
    then show ?thesis using that by (simp add: seq_app_def seq_done_def)
  qed
qed

subsection \<open>The code's integration under the contract\<close>

text \<open>
  An operation of a well-behaved writer: one \<^verbatim>\<open>Op.Valid\<close> accepts, and whose clock is greater
  than that of the character it goes after, since its writer had seen that character.
\<close>

definition sound_op :: "crdt_op \<Rightarrow> bool" where
  "sound_op op \<longleftrightarrow> op_valid op = None \<and>
     (op_text op \<noteq> [] \<longrightarrow> \<not> is_zero (op_after op) \<longrightarrow> clk (op_after op) < clk (op_id op))"

lemma insert_runes_acts: "fst (insert_runes s a r c vs ch) = fold do_act (ins_acts a r c vs) s"
  by (induction s a r c vs ch rule: insert_runes.induct) (simp_all add: Let_def)

lemma delete_runes_acts: "fst (delete_runes s is ch) = fold do_act (map Del is) s"
  by (induction s "is" ch rule: delete_runes.induct) (simp_all add: Let_def)

lemma sound_insert_clock: "sound_op op \<Longrightarrow> op_text op \<noteq> [] \<Longrightarrow> clk (op_id op) \<noteq> 0"
  by (auto simp: sound_op_def op_valid_def Let_def split: if_splits)

lemma integrate_sound:
  assumes "sound_op op"
  shows "if seq_ready s op then \<exists>c. integrate s op = Inr (seq_app op s, c)
         else integrate s op = Inl MissingDependency"
proof (cases "op_text op = []")
  case True
  then show ?thesis
    using delete_runes_acts [of s "delete_ids op" False]
    by (auto simp: integrate_def integrate_delete_def seq_ready_def seq_app_def op_acts_def prod_eq_iff)
next
  case False
  then show ?thesis
    using assms sound_insert_clock [OF assms False]
      insert_runes_acts [of s "anchor op" "replica (op_id op)" "clk (op_id op)" "op_text op" False]
    by (auto simp: integrate_def integrate_insert_def seq_ready_def seq_app_def op_acts_def anchor_def
        sound_op_def Let_def prod_eq_iff linorder_not_less word_neq_0_conv split: if_splits)
qed

lemma seq_ready_pending [simp]: "seq_ready (s\<lparr>seq_pending := p\<rparr>) = seq_ready s"
  by (simp add: seq_ready_def fun_eq_iff)

lemma do_act_pending: "do_act a (s\<lparr>seq_pending := p\<rparr>) = (do_act a s)\<lparr>seq_pending := p\<rparr>"
  by (cases a) (simp_all add: Let_def)

lemma seq_app_pending: "seq_app op (s\<lparr>seq_pending := p\<rparr>) = (seq_app op s)\<lparr>seq_pending := p\<rparr>"
proof -
  have "fold do_act as (s\<lparr>seq_pending := p\<rparr>) = (fold do_act as s)\<lparr>seq_pending := p\<rparr>" for as
    by (induction as arbitrary: s) (simp_all add: do_act_pending)
  then show ?thesis by (simp add: seq_app_def)
qed

abbreviation applied :: "crdt_op list \<Rightarrow> crdt_op list \<Rightarrow> sequence" where
  "applied xs p \<equiv> (canvas.run xs new_sequence)\<lparr>seq_pending := p\<rparr>"

lemma integrate_applied:
  assumes "sound_op op"
  shows "if seq_ready (canvas.run xs new_sequence) op then \<exists>c. integrate (applied xs p) op = Inr (applied (xs @ [op]) p, c)
         else integrate (applied xs p) op = Inl MissingDependency"
  using integrate_sound [OF assms, of "applied xs p"] by (auto simp: seq_app_pending split: if_splits)

lemma retry_pass_applied:
  assumes "list_all sound_op hs" "canvas.causal new_sequence xs"
  shows "\<exists>zs p' c. retry_pass (applied xs p) hs ch pr = (applied (xs @ zs) (p @ p'), c, Inr (pr \<or> zs \<noteq> []))
    \<and> canvas.causal new_sequence (xs @ zs) \<and> set zs \<union> set p' = set hs
    \<and> (zs = [] \<longrightarrow> (\<forall>h \<in> set hs. \<not> seq_ready (canvas.run xs new_sequence) h))"
  using assms
proof (induction hs arbitrary: xs p ch pr)
  case (Cons h hs)
  note int = integrate_applied [of h xs p]
  show ?case
  proof (cases "seq_ready (canvas.run xs new_sequence) h")
    case True
    then obtain c where "integrate (applied xs p) h = Inr (applied (xs @ [h]) p, c)"
      using int Cons.prems by auto
    moreover obtain zs p' c' where "retry_pass (applied (xs @ [h]) p) hs (ch \<or> c) True =
        (applied ((xs @ [h]) @ zs) (p @ p'), c', Inr (True \<or> zs \<noteq> []))"
      "canvas.causal new_sequence ((xs @ [h]) @ zs)" "set zs \<union> set p' = set hs"
      using Cons.IH [of "xs @ [h]" p "ch \<or> c" True] Cons.prems True by auto
    ultimately show ?thesis by (intro exI [of _ "h # zs"] exI [of _ p'] exI [of _ c']) auto
  next
    case False
    then have "integrate (applied xs p) h = Inl MissingDependency" using int Cons.prems by auto
    moreover obtain zs p' c' where "retry_pass (applied xs (p @ [h])) hs ch pr =
        (applied (xs @ zs) ((p @ [h]) @ p'), c', Inr (pr \<or> zs \<noteq> []))"
      "canvas.causal new_sequence (xs @ zs)" "set zs \<union> set p' = set hs"
      "zs = [] \<longrightarrow> (\<forall>h \<in> set hs. \<not> seq_ready (canvas.run xs new_sequence) h)"
      using Cons.IH [of xs "p @ [h]" ch pr] Cons.prems by auto
    ultimately show ?thesis using False by (intro exI [of _ zs] exI [of _ "h # p'"] exI [of _ c']) auto
  qed
qed auto

lemma drain_applied:
  assumes "list_all sound_op p" "canvas.causal new_sequence xs"
  shows "\<exists>zs p' c. drain_pending (applied xs p) ch = (applied (xs @ zs) p', c, None)
    \<and> canvas.causal new_sequence (xs @ zs) \<and> set zs \<union> set p' = set p
    \<and> (\<forall>h \<in> set p'. \<not> seq_ready (canvas.run (xs @ zs) new_sequence) h)"
  using assms
proof (induction "length p" arbitrary: xs p ch rule: less_induct)
  case less
  show ?case
  proof (cases "p = []")
    case True
    then show ?thesis using less.prems
      by (intro exI [of _ "[]"] exI [of _ "[]"] exI [of _ ch]) (simp add: drain_pending.simps)
  next
    case False
    obtain zs p' c where pass: "retry_pass (applied xs []) p ch False = (applied (xs @ zs) p', c, Inr (zs \<noteq> []))"
      "canvas.causal new_sequence (xs @ zs)" "set zs \<union> set p' = set p"
      "zs = [] \<longrightarrow> (\<forall>h \<in> set p. \<not> seq_ready (canvas.run xs new_sequence) h)"
      using retry_pass_applied [OF less.prems, of "[]" ch False] by auto
    have step: "drain_pending (applied xs p) ch =
        (if zs \<noteq> [] then drain_pending (applied (xs @ zs) p') c else (applied (xs @ zs) p', c, None))"
      using False pass(1) by (subst drain_pending.simps) simp
    show ?thesis
    proof (cases "zs = []")
      case True
      then show ?thesis using step pass
        by (intro exI [of _ "[]"] exI [of _ p'] exI [of _ c]) auto
    next
      case False
      have "length p' < length p"
        using retry_pass_length [OF pass(1)] False by simp
      moreover have "list_all sound_op p'"
        using less.prems(1) pass(3) by (auto simp: list_all_iff)
      ultimately obtain ws q d where "drain_pending (applied (xs @ zs) p') c = (applied ((xs @ zs) @ ws) q, d, None)"
        "canvas.causal new_sequence ((xs @ zs) @ ws)" "set ws \<union> set q = set p'"
        "\<forall>h \<in> set q. \<not> seq_ready (canvas.run ((xs @ zs) @ ws) new_sequence) h"
        using less.hyps [of p' "xs @ zs" c] pass(2) by blast
      then show ?thesis using step False pass(3)
        by (intro exI [of _ "zs @ ws"] exI [of _ q] exI [of _ d]) auto
    qed
  qed
qed

lemma apply_applied:
  assumes "sound_op op" "list_all sound_op p" "canvas.causal new_sequence xs"
    and "\<forall>h \<in> set p. \<not> seq_ready (canvas.run xs new_sequence) h"
  shows "\<exists>ys q c. seq_apply (applied xs p) op = (applied ys q, c, None) \<and> canvas.causal new_sequence ys
    \<and> set ys \<union> set q = insert op (set xs \<union> set p)
    \<and> (\<forall>h \<in> set q. \<not> seq_ready (canvas.run ys new_sequence) h)"
proof (cases "seq_ready (canvas.run xs new_sequence) op")
  case True
  then obtain c where "integrate (applied xs p) op = Inr (applied (xs @ [op]) p, c)"
    using integrate_applied [OF assms(1), of xs p] by auto
  moreover obtain zs q d where "drain_pending (applied (xs @ [op]) p) c = (applied ((xs @ [op]) @ zs) q, d, None)"
    "canvas.causal new_sequence ((xs @ [op]) @ zs)" "set zs \<union> set q = set p"
    "\<forall>h \<in> set q. \<not> seq_ready (canvas.run ((xs @ [op]) @ zs) new_sequence) h"
    using drain_applied [OF assms(2), of "xs @ [op]" c] assms(3) True by auto
  ultimately show ?thesis
    using assms(1) by (intro exI [of _ "(xs @ [op]) @ zs"] exI [of _ q] exI [of _ d]) (auto simp: seq_apply_def sound_op_def)
next
  case False
  then have "integrate (applied xs p) op = Inl MissingDependency"
    using integrate_applied [OF assms(1), of xs p] by auto
  then show ?thesis
    using assms False by (intro exI [of _ xs] exI [of _ "p @ [op]"] exI [of _ False]) (auto simp: seq_apply_def sound_op_def)
qed

lemma receive_applied:
  assumes "list_all sound_op ops"
  shows "\<exists>ys q. receive ops new_sequence = applied ys q \<and> canvas.causal new_sequence ys
    \<and> set ys \<union> set q = set ops \<and> (\<forall>h \<in> set q. \<not> seq_ready (canvas.run ys new_sequence) h)"
  using assms
proof (induction ops rule: rev_induct)
  case Nil
  show ?case by (intro exI [of _ "[]"]) (simp add: receive_def new_sequence_def)
next
  case (snoc op ops)
  then obtain ys q where "receive ops new_sequence = applied ys q" "canvas.causal new_sequence ys"
    "set ys \<union> set q = set ops" "\<forall>h \<in> set q. \<not> seq_ready (canvas.run ys new_sequence) h" by auto
  moreover have "list_all sound_op q" using snoc.prems calculation(3) by (auto simp: list_all_iff)
  ultimately obtain ys' q' where "fst (seq_apply (receive ops new_sequence) op) = applied ys' q'"
    "canvas.causal new_sequence ys'" "set ys' \<union> set q' = set (ops @ [op])"
    "\<forall>h \<in> set q'. \<not> seq_ready (canvas.run ys' new_sequence) h"
    using apply_applied [of op q ys] snoc.prems by auto
  then show ?case by (auto simp: receive_def)
qed

lemma canvas_causal_ready:
  assumes "canvas.causal new_sequence ys" "y \<in> set ys"
  shows "seq_ready (canvas.run ys new_sequence) y"
proof -
  obtain as bs where "ys = as @ y # bs" using assms(2) by (meson split_list)
  then show ?thesis using assms(1) canvas.ready_run [of "canvas.run as new_sequence" y "y # bs"] by simp
qed

lemma applied_disjoint:
  assumes "canvas.causal new_sequence ys" "\<forall>h \<in> set q. \<not> seq_ready (canvas.run ys new_sequence) h"
  shows "set ys \<inter> set q = {}"
  using canvas_causal_ready [OF assms(1)] assms(2) by blast

subsection \<open>Properties\<close>

text \<open>
  C1. Strong eventual consistency: two replicas that received the same operations of
  well-behaved writers, in any order and with any repetition, hold the same characters in the
  same order with the same tombstones, the same clock and the same length, and wait for the same
  operations.
\<close>

theorem canvas_converges:
  assumes "list_all sound_op ops1" "list_all sound_op ops2" "set ops1 = set ops2"
    and "\<forall>x \<in> set ops1. \<forall>y \<in> set ops1. x \<noteq> y \<longrightarrow> distinct_writers x y"
  shows "chain (receive ops1 new_sequence) = chain (receive ops2 new_sequence)
    \<and> seq_clock (receive ops1 new_sequence) = seq_clock (receive ops2 new_sequence)
    \<and> seq_visible (receive ops1 new_sequence) = seq_visible (receive ops2 new_sequence)
    \<and> set (seq_pending (receive ops1 new_sequence)) = set (seq_pending (receive ops2 new_sequence))"
proof -
  obtain xs p where x: "receive ops1 new_sequence = applied xs p" "canvas.causal new_sequence xs"
    "set xs \<union> set p = set ops1" "\<forall>h \<in> set p. \<not> seq_ready (canvas.run xs new_sequence) h"
    using receive_applied [OF assms(1)] by blast
  obtain ys q where y: "receive ops2 new_sequence = applied ys q" "canvas.causal new_sequence ys"
    "set ys \<union> set q = set ops2" "\<forall>h \<in> set q. \<not> seq_ready (canvas.run ys new_sequence) h"
    using receive_applied [OF assms(2)] by blast
  have "canvas.one_history (set xs \<union> set p)" using x(3) assms(4) by (simp add: canvas.one_history_def)
  then have "canvas.run xs new_sequence = canvas.run ys new_sequence \<and> set xs = set ys"
    using canvas.converge [OF x(2) y(2), of "set p" "set q"] x(3,4) y(3,4) assms(3) by simp
  moreover have "set xs \<inter> set p = {}" "set ys \<inter> set q = {}" using x y applied_disjoint by auto
  ultimately have "set p = set q" using x(3) y(3) assms(3) by blast
  then show ?thesis using x(1) y(1) \<open>canvas.run xs new_sequence = _ \<and> _\<close> by simp
qed

definition wit_a :: crdt_op where
  "wit_a = \<lparr>op_id = CId ''ann'' 1, op_after = zero_id, op_text = [72, 105], op_delete = []\<rparr>"

definition wit_b :: crdt_op where
  "wit_b = \<lparr>op_id = CId ''bob'' 3, op_after = CId ''ann'' 2, op_text = [33], op_delete = []\<rparr>"

definition wit_d :: crdt_op where
  "wit_d = \<lparr>op_id = zero_id, op_after = zero_id, op_text = [],
            op_delete = [\<lparr>sp_replica = ''ann'', sp_start = 1, sp_end = 1\<rparr>]\<rparr>"

lemmas wit_ops = wit_a_def wit_b_def wit_d_def zero_id_def

lemma wit_sound: "sound_op wit_a" "sound_op wit_b" "sound_op wit_d"
  by code_simp+

lemma wit_distinct: "\<forall>x \<in> set [wit_a, wit_b, wit_d]. \<forall>y \<in> set [wit_a, wit_b, wit_d]. x \<noteq> y \<longrightarrow> distinct_writers x y"
  by (simp add: distinct_writers_def new_ids_def op_acts_def wit_ops)

theorem canvas_converges_witness:
  "seq_text (receive [wit_a, wit_b, wit_d] new_sequence) = [105, 33]
   \<and> chain (receive [wit_a, wit_b, wit_d] new_sequence) = chain (receive [wit_d, wit_b, wit_a, wit_b] new_sequence)"
proof -
  have "seq_text (receive [wit_a, wit_b, wit_d] new_sequence) = [105, 33]" by code_simp
  moreover have "chain (receive [wit_a, wit_b, wit_d] new_sequence) = chain (receive [wit_d, wit_b, wit_a, wit_b] new_sequence)"
    using canvas_converges [of "[wit_a, wit_b, wit_d]" "[wit_d, wit_b, wit_a, wit_b]"] wit_sound wit_distinct by auto
  ultimately show ?thesis by simp
qed

end
