(* ===== verification/Crdt_Edits.thy ===== *)
theory Crdt_Edits
  imports Crdt_Convergence
begin

section \<open>Local edits\<close>

text \<open>
  \<^verbatim>\<open>Insert\<close>, \<^verbatim>\<open>Remove\<close>, \<^verbatim>\<open>visibleBefore\<close> and \<^verbatim>\<open>Replace\<close> of \<^verbatim>\<open>internal/crdt/sequence.go\<close>. Positions
  and lengths are Go \<^verbatim>\<open>int\<close>s, so the sum \<^verbatim>\<open>position+length\<close> wraps at 64 bits (\<open>go_int\<close>).
\<close>

definition go_int :: "int \<Rightarrow> int" where
  "go_int x = (x + 2 ^ 63) mod 2 ^ 64 - 2 ^ 63"

fun visible_loop :: "node list \<Rightarrow> int \<Rightarrow> int \<Rightarrow> cid" where
  "visible_loop [] index position = zero_id"
| "visible_loop (n # ns) index position =
     (if ndel n then visible_loop ns index position
      else if index + 1 = position then nid n
      else visible_loop ns (index + 1) position)"

definition visible_before :: "sequence \<Rightarrow> int \<Rightarrow> cid" where
  "visible_before s position = (if position = 0 then zero_id else visible_loop (chain s) 0 position)"

definition seq_insert :: "sequence \<Rightarrow> string \<Rightarrow> int \<Rightarrow> rune list \<Rightarrow> sequence \<times> (crdt_error + crdt_op)" where
  "seq_insert s r position text =
     (if \<not> valid_replica r then (s, Inl NoWriter)
      else if position < 0 \<or> position > seq_visible s then (s, Inl PositionOutside)
      else if text = [] \<or> \<not> valid_text text then (s, Inl EmptyOrInvalid)
      else
        let op = \<lparr>op_id = CId r (seq_clock s + 1), op_after = visible_before s position, op_text = text, op_delete = []\<rparr>
        in case seq_apply s op of
             (s', _, Some e) \<Rightarrow> (s', Inl e)
           | (s', _, None) \<Rightarrow> (s', Inr op))"

definition extend_spans :: "span list \<Rightarrow> cid \<Rightarrow> span list" where
  "extend_spans spans i =
     (if spans \<noteq> [] \<and> sp_replica (last spans) = replica i \<and> sp_end (last spans) + 1 = clk i
      then butlast spans @ [(last spans)\<lparr>sp_end := clk i\<rparr>]
      else spans @ [\<lparr>sp_replica = replica i, sp_start = clk i, sp_end = clk i\<rparr>])"

fun remove_spans :: "node list \<Rightarrow> int \<Rightarrow> int \<Rightarrow> int \<Rightarrow> span list \<Rightarrow> span list" where
  "remove_spans [] index position stop spans = spans"
| "remove_spans (n # ns) index position stop spans =
     (if \<not> index < stop then spans
      else if ndel n then remove_spans ns index position stop spans
      else remove_spans ns (index + 1) position stop
             (if position \<le> index then extend_spans spans (nid n) else spans))"

definition seq_remove :: "sequence \<Rightarrow> int \<Rightarrow> int \<Rightarrow> sequence \<times> (crdt_error + crdt_op)" where
  "seq_remove s position len =
     (if position < 0 \<or> len \<le> 0 \<or> go_int (position + len) > seq_visible s then (s, Inl PositionOutside)
      else
        let op = \<lparr>op_id = zero_id, op_after = zero_id, op_text = [],
                  op_delete = remove_spans (chain s) 0 position (go_int (position + len)) []\<rparr>
        in case seq_apply s op of
             (s', _, Some e) \<Rightarrow> (s', Inl e)
           | (s', _, None) \<Rightarrow> (s', Inr op))"

fun common_prefix :: "rune list \<Rightarrow> rune list \<Rightarrow> nat" where
  "common_prefix (x # xs) (y # ys) = (if x = y then Suc (common_prefix xs ys) else 0)"
| "common_prefix xs ys = 0"

text \<open>
  The suffix loop runs over what the prefix left: it compares the two texts from their ends and
  stops at the prefix.
\<close>

definition seq_replace :: "sequence \<Rightarrow> string \<Rightarrow> rune list \<Rightarrow> sequence \<times> (crdt_error + crdt_op list)" where
  "seq_replace s r text =
     (if \<not> valid_text text then (s, Inl InvalidText)
      else
        let current = seq_text s;
            prefix = common_prefix current text;
            suffix = common_prefix (rev (drop prefix current)) (rev (drop prefix text));
            removed = length current - prefix - suffix;
            inserted = take (length text - suffix - prefix) (drop prefix text);
            removal = (if removed > 0
                       then (case seq_remove s (int prefix) (int removed) of
                               (s', Inl e) \<Rightarrow> (s', Inl e) | (s', Inr op) \<Rightarrow> (s', Inr [op]))
                       else (s, Inr []))
        in case removal of
             (s', Inl e) \<Rightarrow> (s', Inl e)
           | (s', Inr ops) \<Rightarrow>
               if inserted \<noteq> []
               then (case seq_insert s' r (int prefix) inserted of
                       (s'', Inl e) \<Rightarrow> (s'', Inl e) | (s'', Inr op) \<Rightarrow> (s'', Inr (ops @ [op])))
               else (s', Inr ops))"

subsection \<open>The invariant of a replica\<close>

definition visible_nodes :: "node list \<Rightarrow> node list" where
  "visible_nodes = filter (\<lambda>n. \<not> ndel n)"

definition seq_ok :: "sequence \<Rightarrow> bool" where
  "seq_ok s \<longleftrightarrow> distinct (map nid (chain s))
     \<and> (\<forall>n \<in> set (chain s). clk (nid n) \<le> seq_clock s \<and> clk (nid n) \<noteq> 0 \<and> valid_replica (replica (nid n)))
     \<and> seq_visible s = int (length (visible_nodes (chain s)))
     \<and> seq_clock s \<le> max_clock"

lemma seq_ok_ids: "seq_ok s \<longleftrightarrow> distinct (map nid (chain s))
     \<and> (\<forall>i \<in> set (map nid (chain s)). clk i \<le> seq_clock s \<and> clk i \<noteq> 0 \<and> valid_replica (replica i))
     \<and> seq_visible s = int (length (visible_nodes (chain s))) \<and> seq_clock s \<le> max_clock"
  by (simp add: seq_ok_def)

lemma seq_ok_same_ids:
  assumes "seq_ok s" "map nid xs = map nid (chain s)" "int (length (visible_nodes xs)) = v"
  shows "seq_ok (s\<lparr>chain := xs, seq_visible := v\<rparr>)"
  using assms(1) unfolding seq_ok_ids by (simp add: assms(2,3) del: set_map)

lemma seq_text_visible: "seq_text s = map nval (visible_nodes (chain s))"
  by (simp add: seq_text_def visible_nodes_def)

lemma visible_nodes_simps [simp]: "visible_nodes [] = []"
  "visible_nodes (n # ns) = (if ndel n then visible_nodes ns else n # visible_nodes ns)"
  "visible_nodes (xs @ ys) = visible_nodes xs @ visible_nodes ys"
  by (simp_all add: visible_nodes_def)

subsection \<open>Inserting\<close>

fun fresh_nodes :: "string \<Rightarrow> u64 \<Rightarrow> rune list \<Rightarrow> node list" where
  "fresh_nodes r c [] = []"
| "fresh_nodes r c (v # vs) = \<lparr>nid = CId r c, nval = v, ndel = False\<rparr> # fresh_nodes r (c + 1) vs"

lemma visible_fresh [simp]: "visible_nodes (fresh_nodes r c vs) = fresh_nodes r c vs"
  by (induction r c vs rule: fresh_nodes.induct) auto

lemma map_nval_fresh [simp]: "map nval (fresh_nodes r c vs) = vs"
  by (induction r c vs rule: fresh_nodes.induct) auto

lemma length_fresh [simp]: "length (fresh_nodes r c vs) = length vs"
  by (induction r c vs rule: fresh_nodes.induct) auto

lemma place_newest: "\<forall>x \<in> set xs. clk (nid x) < clk (nid n) \<Longrightarrow> place n xs = n # xs"
  by (cases xs) (auto simp: less_cid_def id_less_def)

lemma place_after_newest:
  assumes "\<forall>x \<in> set (pre @ suf). clk (nid x) < clk (nid n)" "distinct (map nid (pre @ suf))"
    and "a = (if pre = [] then None else Some (nid (last pre)))"
  shows "place_after a n (pre @ suf) = pre @ n # suf"
  using assms
proof (induction pre arbitrary: a)
  case Nil
  then show ?case by (simp add: place_newest)
next
  case (Cons x pre)
  then show ?case by (cases "pre = []") (auto simp: place_newest)
qed

lemma insert_runes_fresh:
  assumes "chain s = pre @ suf" "distinct (map nid (chain s))"
    and "a = (if pre = [] then None else Some (nid (last pre)))"
    and "\<forall>n \<in> set (chain s). clk (nid n) < c" "seq_clock s < c" "unat c + length vs < 2 ^ 64"
  shows "insert_runes s a r c vs ch =
    (s\<lparr>chain := pre @ fresh_nodes r c vs @ suf, seq_visible := seq_visible s + int (length vs),
       seq_clock := (if vs = [] then seq_clock s else c + of_nat (length vs) - 1)\<rparr>, ch \<or> vs \<noteq> [])"
  using assms
proof (induction vs arbitrary: s a pre c ch)
  case (Cons v vs)
  let ?n = "\<lparr>nid = CId r c, nval = v, ndel = False\<rparr>"
  let ?s = "s\<lparr>chain := pre @ ?n # suf, seq_visible := seq_visible s + 1, seq_clock := max (seq_clock s) c\<rparr>"
  have fresh: "\<not> has_node s (CId r c)" 
    using Cons.prems(4) by (auto simp: has_node_def dest!: arg_cong [where f = clk])
  have place: "place_after a ?n (chain s) = pre @ ?n # suf"
    unfolding Cons.prems(1) using Cons.prems by (intro place_after_newest) auto
  have c1: "unat (c + 1) = unat c + 1" using Cons.prems(6) by (simp add: unat_word_ariths)
  then have less: "c < c + 1" by (simp add: word_less_nat_alt)
  have clock: "max (seq_clock s) c = c" using Cons.prems(5) by (simp add: max_def less_imp_le)
  have "insert_runes ?s (Some (CId r c)) r (c + 1) vs True =
    (?s\<lparr>chain := (pre @ [?n]) @ fresh_nodes r (c + 1) vs @ suf, seq_visible := seq_visible ?s + int (length vs),
       seq_clock := (if vs = [] then seq_clock ?s else (c + 1) + of_nat (length vs) - 1)\<rparr>, True \<or> vs \<noteq> [])"
  proof (rule Cons.IH)
    show "distinct (map nid (chain ?s))" using Cons.prems(1,2) fresh by (auto simp: has_node_def)
    show "\<forall>n \<in> set (chain ?s). clk (nid n) < c + 1" "seq_clock ?s < c + 1"
      using Cons.prems(1,4) less clock by (auto intro: less_trans)
    show "unat (c + 1) + length vs < 2 ^ 64" using Cons.prems(6) c1 by simp
  qed auto
  then show ?case using fresh place clock by (simp add: Let_def algebra_simps)
qed simp

lemma visible_loop_split:
  assumes "index < position" "position \<le> index + int (length (visible_nodes ns))"
  shows "\<exists>pre suf. ns = pre @ suf \<and> pre \<noteq> [] \<and> visible_loop ns index position = nid (last pre)
    \<and> int (length (visible_nodes pre)) = position - index"
  using assms
proof (induction ns arbitrary: index)
  case (Cons n ns)
  show ?case
  proof (cases "\<not> ndel n \<and> index + 1 = position")
    case True
    then show ?thesis by (intro exI [of _ "[n]"] exI [of _ ns]) auto
  next
    case False
    let ?i = "if ndel n then index else index + 1"
    have "?i < position" "position \<le> ?i + int (length (visible_nodes ns))"
      using Cons.prems False by auto
    then obtain pre suf where "ns = pre @ suf" "pre \<noteq> []" "visible_loop ns ?i position = nid (last pre)"
      "int (length (visible_nodes pre)) = position - ?i"
      using Cons.IH [of ?i] by blast
    then show ?thesis using False
      by (intro exI [of _ "n # pre"] exI [of _ suf]) (auto split: if_splits)
  qed
qed simp

lemma visible_before_split:
  assumes "0 \<le> position" "position \<le> int (length (visible_nodes (chain s)))"
  shows "\<exists>pre suf. chain s = pre @ suf \<and> int (length (visible_nodes pre)) = position
    \<and> visible_before s position = (if pre = [] then zero_id else nid (last pre))"
proof (cases "position = 0")
  case True
  then show ?thesis by (intro exI [of _ "[]"] exI [of _ "chain s"]) (simp add: visible_before_def)
next
  case False
  then show ?thesis
    using visible_loop_split [of 0 position "chain s"] assms by (auto simp: visible_before_def)
qed

lemma nid_fresh: "n \<in> set (fresh_nodes r c vs) \<Longrightarrow> unat c + length vs < 2 ^ 64 \<Longrightarrow>
    replica (nid n) = r \<and> c \<le> clk (nid n) \<and> unat (clk (nid n)) < unat c + length vs"
proof (induction r c vs rule: fresh_nodes.induct)
  case (2 r c v vs)
  have c1: "unat (c + 1) = unat c + 1" using 2(3) by (simp add: unat_word_ariths)
  then show ?case using 2 by (auto simp: word_le_nat_alt)
qed simp

lemma distinct_fresh: "unat c + length vs < 2 ^ 64 \<Longrightarrow> distinct (map nid (fresh_nodes r c vs))"
proof (induction r c vs rule: fresh_nodes.induct)
  case (2 r c v vs)
  have c1: "unat (c + 1) = unat c + 1" using 2(2) by (simp add: unat_word_ariths)
  have "CId r c \<notin> nid ` set (fresh_nodes r (c + 1) vs)"
  proof (rule notI)
    assume "CId r c \<in> nid ` set (fresh_nodes r (c + 1) vs)"
    then obtain n where n: "n \<in> set (fresh_nodes r (c + 1) vs)" "clk (nid n) = c"
      by (metis cid.sel(2) imageE)
    then have "c + 1 \<le> c" using nid_fresh [OF n(1)] 2(2) c1 by simp
    then show False using c1 by (simp add: word_le_nat_alt)
  qed
  then show ?case using 2 c1 by simp
qed simp

subsection \<open>What Insert does\<close>

definition applied_insert :: "sequence \<Rightarrow> string \<Rightarrow> int \<Rightarrow> rune list \<Rightarrow> crdt_op" where
  "applied_insert s r position text =
     \<lparr>op_id = CId r (seq_clock s + 1), op_after = visible_before s position, op_text = text, op_delete = []\<rparr>"

lemma clock_room:
  assumes "unat (seq_clock s) + 1 + length text \<le> unat max_clock"
  shows "unat (seq_clock s + 1) = unat (seq_clock s) + 1" "seq_clock s < seq_clock s + 1"
    "seq_clock s + 1 + of_nat (length text) \<le> max_clock" "seq_clock s + 1 \<noteq> 0"
    "unat (seq_clock s + 1) + length text < 2 ^ 64"
proof -
  have big: "unat max_clock = 2 ^ 53 - 1" by (simp add: max_clock_def)
  show c1: "unat (seq_clock s + 1) = unat (seq_clock s) + 1"
    using assms big by (simp add: unat_word_ariths)
  then show "seq_clock s < seq_clock s + 1" by (simp add: word_less_nat_alt)
  have "unat (seq_clock s + 1 + of_nat (length text)) = unat (seq_clock s) + 1 + length text"
    using assms big c1 by (subst unat_add_lem [THEN iffD1]) (simp_all add: unat_of_nat)
  then show "seq_clock s + 1 + of_nat (length text) \<le> max_clock"
    using assms by (simp add: word_le_nat_alt)
  show "seq_clock s + 1 \<noteq> 0" using c1 by (metis add_is_0 one_neq_zero unat_0)
  show "unat (seq_clock s + 1) + length text < 2 ^ 64" using assms big c1 by simp
qed

lemma seq_apply_fresh_insert:
  assumes ok: "seq_ok s" and pend: "seq_pending s = []" and r: "valid_replica r"
    and tx: "text \<noteq> []" "valid_text text"
    and room: "unat (seq_clock s) + 1 + length text \<le> unat max_clock"
    and pos: "0 \<le> position" "position \<le> seq_visible s"
    and sp: "chain s = pre @ suf" "int (length (visible_nodes pre)) = position"
      "visible_before s position = (if pre = [] then zero_id else nid (last pre))"
  shows "seq_apply s (applied_insert s r position text) =
    (s\<lparr>chain := pre @ fresh_nodes r (seq_clock s + 1) text @ suf, seq_visible := seq_visible s + int (length text),
       seq_clock := seq_clock s + of_nat (length text)\<rparr>, True, None)"
proof -
  let ?op = "applied_insert s r position text"
  let ?last = "nid (last pre)"
  note c = clock_room [OF room]
  have last: "pre \<noteq> [] \<Longrightarrow> last pre \<in> set (chain s)" using sp(1) by auto
  then have last_ok: "pre \<noteq> [] \<Longrightarrow> valid_replica (replica ?last) \<and> clk ?last \<noteq> 0 \<and> clk ?last \<le> seq_clock s"
    using ok unfolding seq_ok_def by blast
  then have nz: "pre \<noteq> [] \<Longrightarrow> \<not> is_zero ?last" by (simp add: is_zero_def)
  have z: "is_zero zero_id" by (simp add: zero_id_def is_zero_def)
  have valid: "op_valid ?op = None"
    using r tx c last_ok z sp(3) by (auto simp: op_valid_def applied_insert_def Let_def)
  have older: "\<forall>n \<in> set (chain s). clk (nid n) < seq_clock s + 1"
    using ok c(2) unfolding seq_ok_def by (blast intro: le_less_trans)
  have runes: "insert_runes s (if pre = [] then None else Some ?last) r (seq_clock s + 1) text False =
     (s\<lparr>chain := pre @ fresh_nodes r (seq_clock s + 1) text @ suf, seq_visible := seq_visible s + int (length text),
       seq_clock := seq_clock s + 1 + of_nat (length text) - 1\<rparr>, False \<or> text \<noteq> [])"
    using older insert_runes_fresh [OF sp(1), of _ "seq_clock s + 1" "text" r False] ok tx c
    by (auto simp: seq_ok_def)
  have "integrate s ?op =
     Inr (s\<lparr>chain := pre @ fresh_nodes r (seq_clock s + 1) text @ suf, seq_visible := seq_visible s + int (length text),
       seq_clock := seq_clock s + 1 + of_nat (length text) - 1\<rparr>, True)"
  proof (cases "pre = []")
    case True
    then show ?thesis using runes tx c(4) sp(3) z
      by (simp add: integrate_def integrate_insert_def applied_insert_def word_le_0_iff)
  next
    case False
    moreover have "has_node s ?last" using last [OF False] by (simp add: has_node_def)
    moreover have "\<not> seq_clock s + 1 \<le> clk ?last" using last_ok [OF False] c(2) by auto
    ultimately show ?thesis using runes tx sp(3) nz
      by (simp add: integrate_def integrate_insert_def applied_insert_def)
  qed
  then show ?thesis using valid pend
    by (simp add: seq_apply_def drain_pending.simps)
qed

lemma seq_ok_insert:
  assumes ok: "seq_ok s" and sp: "chain s = pre @ suf" and r: "valid_replica r"
    and room: "unat (seq_clock s) + 1 + length text \<le> unat max_clock"
  shows "seq_ok (s\<lparr>chain := pre @ fresh_nodes r (seq_clock s + 1) text @ suf,
    seq_visible := seq_visible s + int (length text), seq_clock := seq_clock s + of_nat (length text)\<rparr>)"
proof -
  note c = clock_room [OF room]
  have big: "unat max_clock = 2 ^ 53 - 1" by (simp add: max_clock_def)
  have top: "unat (seq_clock s + of_nat (length text)) = unat (seq_clock s) + length text"
    using room big by (subst unat_add_lem [THEN iffD1]) (simp_all add: unat_of_nat)
  have old: "clk (nid n) \<le> seq_clock s" if "n \<in> set pre \<union> set suf" for n
    using ok sp that unfolding seq_ok_def by auto
  have new: "replica (nid n) = r \<and> clk (nid n) > seq_clock s \<and> clk (nid n) \<noteq> 0 \<and> clk (nid n) \<le> seq_clock s + of_nat (length text)"
    if "n \<in> set (fresh_nodes r (seq_clock s + 1) text)" for n
    using nid_fresh [OF that c(5)] c top
    by (auto simp: word_le_nat_alt word_less_nat_alt)
  have "nid ` (set pre \<union> set suf) \<inter> nid ` set (fresh_nodes r (seq_clock s + 1) text) = {}"
  proof (rule equals0I)
    fix i assume "i \<in> nid ` (set pre \<union> set suf) \<inter> nid ` set (fresh_nodes r (seq_clock s + 1) text)"
    then obtain m n where "m \<in> set pre \<union> set suf" "n \<in> set (fresh_nodes r (seq_clock s + 1) text)" "nid m = nid n"
      by auto
    then show False using old [of m] new [of n] by (simp add: leD)
  qed
  then have "distinct (map nid (pre @ fresh_nodes r (seq_clock s + 1) text @ suf))"
    using ok sp distinct_fresh [OF c(5)] unfolding seq_ok_def by auto
  moreover have "seq_clock s \<le> seq_clock s + of_nat (length text)" using top by (simp add: word_le_nat_alt)
  moreover have "seq_clock s + of_nat (length text) \<le> max_clock" using top room by (simp add: word_le_nat_alt)
  ultimately show ?thesis using ok sp new r unfolding seq_ok_def by (auto intro: order_trans)
qed

lemma seq_insert_result:
  assumes ok: "seq_ok s" and pend: "seq_pending s = []" and r: "valid_replica r"
    and tx: "text \<noteq> []" "valid_text text" and pos: "0 \<le> position" "position \<le> seq_len s"
    and room: "unat (seq_clock s) + 1 + length text \<le> unat max_clock"
  shows "\<exists>s'. seq_insert s r position text = (s', Inr (applied_insert s r position text)) \<and> seq_ok s'
    \<and> seq_pending s' = []
    \<and> seq_text s' = take (nat position) (seq_text s) @ text @ drop (nat position) (seq_text s)"
proof -
  obtain pre suf where sp: "chain s = pre @ suf" "int (length (visible_nodes pre)) = position"
      "visible_before s position = (if pre = [] then zero_id else nid (last pre))"
    using visible_before_split [of position s] ok pos by (auto simp: seq_ok_def seq_len_def)
  let ?s = "s\<lparr>chain := pre @ fresh_nodes r (seq_clock s + 1) text @ suf,
    seq_visible := seq_visible s + int (length text), seq_clock := seq_clock s + of_nat (length text)\<rparr>"
  have "seq_apply s (applied_insert s r position text) = (?s, True, None)"
    using seq_apply_fresh_insert [OF ok pend r tx room pos(1) _ sp] pos by (simp add: seq_len_def)
  then have "seq_insert s r position text = (?s, Inr (applied_insert s r position text))"
    using r tx pos by (simp add: seq_insert_def seq_len_def applied_insert_def)
  moreover have "nat position = length (map nval (visible_nodes pre))" using sp(2) by auto
  then have "seq_text ?s = take (nat position) (seq_text s) @ text @ drop (nat position) (seq_text s)"
    using sp(1) by (simp add: seq_text_visible)
  ultimately show ?thesis using seq_ok_insert [OF ok sp(1) r room] pend by auto
qed

subsection \<open>What Remove does\<close>

lemma clk_step: "clk i \<noteq> 0 \<Longrightarrow> e + 1 = clk i \<Longrightarrow> unat (clk i) = Suc (unat e)"
  for e :: u64
  by (metis Suc_eq_plus1 unatSuc add.commute)

definition good_spans :: "span list \<Rightarrow> bool" where
  "good_spans spans \<longleftrightarrow> (\<forall>sp \<in> set spans. \<not> bad_span sp)"

lemma extend_spans_ok:
  assumes "good_spans spans" "clk i \<noteq> 0" "valid_replica (replica i)" "clk i \<le> max_clock"
  shows "good_spans (extend_spans spans i)
    \<and> concat (map span_ids (extend_spans spans i)) = concat (map span_ids spans) @ [i]
    \<and> extend_spans spans i \<noteq> []"
proof (cases "spans \<noteq> [] \<and> sp_replica (last spans) = replica i \<and> sp_end (last spans) + 1 = clk i")
  case True
  then obtain front l where fl: "spans = front @ [l]" by (metis append_butlast_last_id)
  then have l: "sp_replica l = replica i" "sp_end l + 1 = clk i" "\<not> bad_span l" using True assms(1)
    by (auto simp: good_spans_def)
  note e = clk_step [OF assms(2) l(2)]
  have le: "unat (sp_start l) \<le> unat (sp_end l)" using l(3) by (simp add: bad_span_def word_le_nat_alt not_less)
  have "[unat (sp_start l) ..< Suc (unat (clk i))] = [unat (sp_start l) ..< Suc (unat (sp_end l))] @ [unat (clk i)]"
    using e le by simp
  then have "span_ids (l\<lparr>sp_end := clk i\<rparr>) = span_ids l @ [i]"
    using l(1) by (cases i) (simp add: span_ids_def del: upt_Suc)
  moreover have "\<not> bad_span (l\<lparr>sp_end := clk i\<rparr>)"
    using l(1,3) e le assms by (auto simp: bad_span_def word_le_nat_alt word_less_nat_alt not_less)
  ultimately show ?thesis using True fl assms(1) by (auto simp: extend_spans_def good_spans_def)
next
  case False
  then have "extend_spans spans i = spans @ [\<lparr>sp_replica = replica i, sp_start = clk i, sp_end = clk i\<rparr>]"
    by (auto simp: extend_spans_def)
  then show ?thesis using assms by (cases i) (auto simp: good_spans_def bad_span_def span_ids_def)
qed

lemma remove_spans_ids:
  assumes "\<forall>n \<in> set ns. clk (nid n) \<noteq> 0 \<and> valid_replica (replica (nid n)) \<and> clk (nid n) \<le> max_clock"
    and "good_spans spans" "0 \<le> position" "position \<le> stop"
  shows "good_spans (remove_spans ns index position stop spans)
    \<and> concat (map span_ids (remove_spans ns index position stop spans)) = concat (map span_ids spans)
        @ map nid (drop (nat (position - index)) (take (nat (stop - index)) (visible_nodes ns)))"
  using assms
proof (induction ns arbitrary: index spans)
  case (Cons n ns)
  show ?case
  proof (cases "\<not> index < stop \<or> ndel n")
    case True
    then show ?thesis using Cons by auto
  next
    case False
    then have t: "nat (stop - index) = Suc (nat (stop - (index + 1)))" by auto
    have d: "\<not> position \<le> index \<Longrightarrow> nat (position - index) = Suc (nat (position - (index + 1)))"
      "position \<le> index \<Longrightarrow> nat (position - index) = 0 \<and> nat (position - (index + 1)) = 0" by auto
    let ?spans = "if position \<le> index then extend_spans spans (nid n) else spans"
    have e: "good_spans ?spans" "concat (map span_ids ?spans) = concat (map span_ids spans) @ (if position \<le> index then [nid n] else [])"
      using extend_spans_ok [OF Cons.prems(2), of "nid n"] Cons.prems(1,2) by auto
    show ?thesis using Cons.IH [of ?spans "index + 1"] Cons.prems False e t d by auto
  qed
qed simp

lemma delete_runes_all:
  assumes "distinct (map nid (chain s))" "\<forall>i \<in> set is. live s i \<and> clk i \<le> seq_clock s" "distinct is"
  shows "delete_runes s is ch =
    (s\<lparr>chain := map (\<lambda>n. if nid n \<in> set is then n\<lparr>ndel := True\<rparr> else n) (chain s),
       seq_visible := seq_visible s - int (length is)\<rparr>, ch \<or> is \<noteq> [])"
  using assms
proof (induction "is" arbitrary: s ch)
  case (Cons i "is")
  let ?s = "s\<lparr>chain := mark_deleted i (chain s), seq_visible := seq_visible s - 1\<rparr>"
  have nids: "map nid (mark_deleted i (chain s)) = map nid (chain s)" by (simp add: mark_deleted_def)
  have "delete_runes ?s is True =
    (?s\<lparr>chain := map (\<lambda>n. if nid n \<in> set is then n\<lparr>ndel := True\<rparr> else n) (chain ?s),
       seq_visible := seq_visible ?s - int (length is)\<rparr>, True \<or> is \<noteq> [])"
    using Cons.prems nids by (intro Cons.IH) (auto simp: live_mark)
  moreover have "max (seq_clock s) (clk i) = seq_clock s" using Cons.prems by (simp add: max_def antisym)
  ultimately show ?case using Cons.prems
    by (auto simp: Let_def mark_deleted_def comp_def intro!: map_cong)
qed simp

lemma visible_marked:
  "visible_nodes (map (\<lambda>n. if nid n \<in> X then n\<lparr>ndel := True\<rparr> else n) ns) = filter (\<lambda>n. nid n \<notin> X) (visible_nodes ns)"
  by (induction ns) auto

lemma filter_out_slice:
  assumes "distinct (map f (xs @ ys @ zs))"
  shows "filter (\<lambda>n. f n \<notin> f ` set ys) (xs @ ys @ zs) = xs @ zs"
proof -
  have "filter (\<lambda>n. f n \<notin> f ` set ys) xs = xs" "filter (\<lambda>n. f n \<notin> f ` set ys) ys = []"
    "filter (\<lambda>n. f n \<notin> f ` set ys) zs = zs"
    using assms by (auto simp: filter_id_conv filter_empty_conv)
  then show ?thesis by simp
qed

lemma slice_removed:
  assumes "vs = xs @ ys @ zs" "distinct (map f vs)"
  shows "filter (\<lambda>n. f n \<notin> f ` set ys) vs = xs @ zs"
  using filter_out_slice assms by blast

lemma seq_remove_result:
  assumes ok: "seq_ok s" and pend: "seq_pending s = []"
    and range: "0 \<le> position" "0 < len" "position + len \<le> seq_len s" and small: "seq_len s < 2 ^ 63"
  shows "\<exists>s' op. seq_remove s position len = (s', Inr op) \<and> seq_ok s' \<and> seq_pending s' = []
    \<and> delete_ids op = map nid (take (nat len) (drop (nat position) (visible_nodes (chain s))))
    \<and> seq_clock s' = seq_clock s
    \<and> seq_text s' = take (nat position) (seq_text s) @ drop (nat (position + len)) (seq_text s)"
proof -
  have go: "go_int (position + len) = position + len" using range small by (simp add: go_int_def)
  let ?vis = "visible_nodes (chain s)"
  let ?slice = "take (nat len) (drop (nat position) ?vis)"
  let ?spans = "remove_spans (chain s) 0 position (position + len) []"
  let ?op = "\<lparr>op_id = zero_id, op_after = zero_id, op_text = [], op_delete = ?spans\<rparr>"
  let ?ids = "map nid ?slice"
  have slice: "drop (nat position) (take (nat (position + len)) ?vis) = ?slice"
    using range by (simp add: take_drop nat_add_distrib add.commute)
  have spans: "good_spans ?spans" "concat (map span_ids ?spans) = ?ids"
    using remove_spans_ids [of "chain s" "[]" position "position + len" 0] ok range slice
    by (auto simp: good_spans_def seq_ok_def intro: order_trans)
  have vlen: "int (length ?vis) = seq_len s" using ok by (simp add: seq_ok_def seq_len_def)
  have slen: "length ?slice = nat len" using range vlen by auto
  then have ne: "?ids \<noteq> []" using range by (metis length_map list.size(3) zero_less_nat_eq less_irrefl)
  have vis_set: "set ?slice \<subseteq> set ?vis" by (meson in_set_dropD in_set_takeD subsetI)
  have dist: "distinct (map nid ?vis)" using ok by (simp add: seq_ok_def visible_nodes_def distinct_map_filter)
  have parts: "?vis = take (nat position) ?vis @ ?slice @ drop (nat (position + len)) ?vis"
    using range by (simp add: nat_add_distrib flip: append_assoc take_add)
  have live: "\<forall>i \<in> set ?ids. live s i \<and> clk i \<le> seq_clock s"
    using vis_set ok by (fastforce simp: live_def visible_nodes_def seq_ok_def)
  have del_ids: "delete_ids ?op = ?ids" using spans(2) by (simp add: delete_ids_def)
  have "?spans \<noteq> []" using spans(2) ne by auto
  then have valid: "op_valid ?op = None" using spans(1) by (auto simp: op_valid_def Let_def good_spans_def list_ex_iff)
  let ?chain = "map (\<lambda>n. if nid n \<in> set ?ids then n\<lparr>ndel := True\<rparr> else n) (chain s)"
  let ?s = "s\<lparr>chain := ?chain, seq_visible := seq_visible s - int (length ?ids)\<rparr>"
  have dids: "distinct ?ids" using dist parts by (metis distinct_append map_append)
  have "integrate s ?op = Inr (?s, True)"
    using delete_runes_all [OF _ live dids, of False] ok ne live live_has_node
    by (auto simp: integrate_def integrate_delete_def del_ids seq_ok_def list_all_iff simp del: set_map)
  then have "seq_apply s ?op = (?s, True, None)" using valid pend by (simp add: seq_apply_def drain_pending.simps)
  then have result: "seq_remove s position len = (?s, Inr ?op)"
    using go range by (simp add: seq_remove_def seq_len_def)
  have vis': "visible_nodes ?chain = take (nat position) ?vis @ drop (nat (position + len)) ?vis"
    unfolding visible_marked set_map
    by (rule slice_removed [OF parts dist])
  have "map nid ?chain = map nid (chain s)" by (simp add: comp_def if_distrib)
  moreover have "int (length (visible_nodes ?chain)) = seq_visible s - int (length ?ids)"
    using arg_cong [OF parts, of length] vis' vlen by (simp add: seq_len_def)
  ultimately have "seq_ok ?s" by (rule seq_ok_same_ids [OF ok])
  then show ?thesis using result pend del_ids vis' by (auto simp: seq_text_visible take_map drop_map)
qed

subsection \<open>What Replace does\<close>

lemma common_prefix_le: "common_prefix xs ys \<le> length xs \<and> common_prefix xs ys \<le> length ys"
  by (induction xs ys rule: common_prefix.induct) auto

lemma common_prefix_take: "take (common_prefix xs ys) xs = take (common_prefix xs ys) ys"
  by (induction xs ys rule: common_prefix.induct) auto

lemma common_suffix_drop:
  assumes "k = common_prefix (rev xs) (rev ys)"
  shows "drop (length xs - k) xs = drop (length ys - k) ys"
proof -
  have "rev (take k (rev xs)) = rev (take k (rev ys))" using common_prefix_take assms by simp
  then show ?thesis by (simp add: take_rev)
qed

lemma two_ends:
  assumes "p = common_prefix xs ys" "q = common_prefix (rev (drop p xs)) (rev (drop p ys))"
  shows "p + q \<le> length xs" "p + q \<le> length ys" "take p xs = take p ys"
    "drop (length xs - q) xs = drop (length ys - q) ys"
proof -
  have "p \<le> length xs" "p \<le> length ys" using common_prefix_le assms(1) by auto
  moreover have "q \<le> length xs - p" "q \<le> length ys - p"
    using common_prefix_le [of "rev (drop p xs)" "rev (drop p ys)"] assms(2) by auto
  ultimately show "p + q \<le> length xs" "p + q \<le> length ys" by auto
  moreover have "drop (length xs - p - q) (drop p xs) = drop (length ys - p - q) (drop p ys)"
    using common_suffix_drop [OF assms(2)] by simp
  ultimately show "drop (length xs - q) xs = drop (length ys - q) ys" by simp
  show "take p xs = take p ys" using common_prefix_take assms(1) by simp
qed

lemma seq_replace_result:
  assumes ok: "seq_ok s" and pend: "seq_pending s = []" and r: "valid_replica r" and tx: "valid_text text"
    and small: "seq_len s < 2 ^ 63" and room: "unat (seq_clock s) + 1 + length text \<le> unat max_clock"
  shows "\<exists>s' ops. seq_replace s r text = (s', Inr ops) \<and> seq_text s' = text \<and> seq_ok s' \<and> seq_pending s' = []"
proof -
  obtain p where p: "p = common_prefix (seq_text s) text" by simp
  obtain q where q: "q = common_prefix (rev (drop p (seq_text s))) (rev (drop p text))" by simp
  note ends = two_ends [OF p q]
  let ?cur = "seq_text s"
  let ?removed = "length ?cur - p - q"
  let ?inserted = "take (length text - q - p) (drop p text)"
  have len: "seq_len s = int (length ?cur)" using ok by (simp add: seq_ok_def seq_len_def seq_text_visible)
  have "\<exists>s' ops. (if ?removed > 0 then (case seq_remove s (int p) (int ?removed) of
        (s', Inl e) \<Rightarrow> (s', Inl e) | (s', Inr op) \<Rightarrow> (s', Inr [op])) else (s, Inr [])) = (s', Inr ops)
      \<and> seq_ok s' \<and> seq_pending s' = [] \<and> seq_clock s' = seq_clock s
      \<and> seq_text s' = take p ?cur @ drop (length ?cur - q) ?cur"
  proof (cases "?removed > 0")
    case True
    moreover have "nat (int p + int ?removed) = length ?cur - q" using ends(1) True by simp
    ultimately show ?thesis
      using seq_remove_result [OF ok pend, of "int p" "int ?removed"] len small ends(1) by auto
  next
    case False
    then have "length ?cur - q = p" using ends(1) by simp
    then show ?thesis using False ok pend by auto
  qed
  then obtain s' ops where rem: "(if ?removed > 0 then (case seq_remove s (int p) (int ?removed) of
        (s', Inl e) \<Rightarrow> (s', Inl e) | (s', Inr op) \<Rightarrow> (s', Inr [op])) else (s, Inr [])) = (s', Inr ops)"
    and s': "seq_ok s'" "seq_pending s' = []" "seq_clock s' = seq_clock s"
    and text': "seq_text s' = take p ?cur @ drop (length ?cur - q) ?cur" by blast
  have parts: "take p text @ ?inserted @ drop (length text - q) text = text"
  proof -
    have "drop (length text - q) text = drop (length text - q - p) (drop p text)" using ends(2) by simp
    then show ?thesis by (metis append_take_drop_id)
  qed
  have len': "seq_len s' = int (length (seq_text s'))" using s'(1) by (simp add: seq_ok_def seq_len_def seq_text_visible)
  have pl: "length (take p ?cur) = p" using ends(1) by simp
  show ?thesis
  proof (cases "?inserted = []")
    case True
    have "take p text @ drop (length text - q) text = text" using parts unfolding True by simp
    then have "seq_text s' = text" using text' ends(3,4) by simp
    then show ?thesis using s' True tx
      unfolding seq_replace_def Let_def p [symmetric] q [symmetric] rem by simp
  next
    case False
    have "valid_text ?inserted" using tx by (auto simp: valid_text_def list_all_iff dest!: in_set_takeD in_set_dropD)
    moreover have "unat (seq_clock s') + 1 + length ?inserted \<le> unat max_clock" using room s'(3) by simp
    moreover have "int p \<le> seq_len s'" unfolding len' text' using pl by simp
    ultimately obtain s'' where ins: "seq_insert s' r (int p) ?inserted = (s'', Inr (applied_insert s' r (int p) ?inserted))"
      "seq_ok s''" "seq_pending s'' = []"
      "seq_text s'' = take p (seq_text s') @ ?inserted @ drop p (seq_text s')"
      using seq_insert_result [OF s'(1,2) r False, of "int p"] by auto
    have "seq_text s'' = text" using ins(4) parts ends(3,4) text' pl by simp
    then show ?thesis using ins False tx
      unfolding seq_replace_def Let_def p [symmetric] q [symmetric] rem by simp
  qed
qed

subsection \<open>An operation delivered again\<close>

lemma insert_runes_repeat:
  "\<forall>a \<in> set (ins_acts a r c vs). act_done s a \<Longrightarrow> insert_runes s a r c vs ch = (s, ch)"
  by (induction s a r c vs ch rule: insert_runes.induct) (simp_all add: Let_def)

lemma delete_runes_repeat:
  "\<forall>i \<in> set is. act_done s (Del i) \<Longrightarrow> delete_runes s is ch = (s, ch)"
  by (induction s "is" ch rule: delete_runes.induct) (simp_all add: Let_def max.absorb1)

lemma act_done_pending [simp]: "act_done (s\<lparr>seq_pending := p\<rparr>) a = act_done s a"
  by (cases a) (simp_all add: has_node_def live_def)

lemma seq_done_pending [simp]: "seq_done (s\<lparr>seq_pending := p\<rparr>) op = seq_done s op"
  by (simp add: seq_done_def)

lemma integrate_repeat:
  assumes "sound_op op" "seq_ready s op" "seq_done s op"
  shows "integrate s op = Inr (s, False)"
proof (cases "op_text op = []")
  case True
  then show ?thesis
    using assms delete_runes_repeat [of "delete_ids op" s False]
    by (auto simp: integrate_def integrate_delete_def seq_ready_def seq_done_def op_acts_def)
next
  case False
  have "insert_runes s (anchor op) (replica (op_id op)) (clk (op_id op)) (op_text op) False = (s, False)"
    using assms(3) False by (intro insert_runes_repeat) (auto simp: seq_done_def op_acts_def)
  then show ?thesis using assms False sound_insert_clock [OF assms(1) False]
    by (auto simp: integrate_def integrate_insert_def seq_ready_def anchor_def sound_op_def Let_def
        linorder_not_less word_neq_0_conv split: if_splits)
qed

lemma retry_pass_stuck:
  "\<forall>h \<in> set hs. sound_op h \<and> \<not> seq_ready s h \<Longrightarrow>
     retry_pass s hs ch progress = (s\<lparr>seq_pending := seq_pending s @ hs\<rparr>, ch, Inr progress)"
proof (induction hs arbitrary: s)
  case (Cons h hs)
  then have "integrate s h = Inl MissingDependency" using integrate_sound [of h s] by simp
  then show ?case using Cons by simp
qed simp

lemma apply_repeat:
  assumes "list_all sound_op ops" "op \<in> set ops" "op \<notin> set (seq_pending (receive ops new_sequence))"
  shows "seq_apply (receive ops new_sequence) op = (receive ops new_sequence, False, None)"
proof -
  obtain ys q where r: "receive ops new_sequence = applied ys q" "canvas.causal new_sequence ys"
    "set ys \<union> set q = set ops" "\<forall>h \<in> set q. \<not> seq_ready (canvas.run ys new_sequence) h"
    using receive_applied [OF assms(1)] by blast
  let ?s = "receive ops new_sequence"
  have sound: "sound_op op" "\<forall>h \<in> set q. sound_op h" using assms(1,2) r(3) by (auto simp: list_all_iff)
  have "op \<in> set ys" using assms(2,3) r(1,3) by auto
  then have "seq_done (canvas.run ys new_sequence) op" "seq_ready (canvas.run ys new_sequence) op"
    using canvas.causal_finished [OF r(2)] canvas_causal_ready [OF r(2)] by auto
  then have "integrate ?s op = Inr (?s, False)"
    using integrate_repeat [OF sound(1), of ?s] r(1) by simp
  moreover have "drain_pending ?s False = (?s, False, None)"
    using retry_pass_stuck [of q "?s\<lparr>seq_pending := []\<rparr>" False False] sound(2) r(1,4)
    by (subst drain_pending.simps) simp
  ultimately show ?thesis using sound(1) by (simp add: seq_apply_def sound_op_def)
qed

subsection \<open>Properties\<close>

text \<open>
  \<^verbatim>\<open>Insert\<close> puts exactly the given characters at the given position of the text as it reads,
  deleted characters notwithstanding, and leaves a replica that satisfies the invariant again: as
  long as the 53 bits of the clock last, it never fails on a position inside the document.
\<close>

theorem insert_edits_text:
  assumes "seq_ok s" "seq_pending s = []" "valid_replica r" "text \<noteq> []" "valid_text text"
    and "0 \<le> position" "position \<le> seq_len s" "unat (seq_clock s) + 1 + length text \<le> unat max_clock"
  shows "\<exists>s' op. seq_insert s r position text = (s', Inr op) \<and> seq_ok s' \<and> op_id op = CId r (seq_clock s + 1)
    \<and> seq_text s' = take (nat position) (seq_text s) @ text @ drop (nat position) (seq_text s)"
  using seq_insert_result [OF assms] by (auto simp: applied_insert_def)

text \<open>
  \<^verbatim>\<open>Remove\<close> deletes exactly the characters of the given stretch of the text as it reads: the
  operation it hands to the other replicas names those characters, in order and no other, packed
  into spans, and the text loses that stretch.
\<close>

theorem remove_deletes_exactly:
  assumes "seq_ok s" "seq_pending s = []" "0 \<le> position" "0 < len" "position + len \<le> seq_len s" "seq_len s < 2 ^ 63"
  shows "\<exists>s' op. seq_remove s position len = (s', Inr op) \<and> seq_ok s'
    \<and> delete_ids op = map nid (take (nat len) (drop (nat position) (filter (\<lambda>n. \<not> ndel n) (chain s))))
    \<and> seq_text s' = take (nat position) (seq_text s) @ drop (nat (position + len)) (seq_text s)"
  using seq_remove_result [OF assms] by (auto simp: visible_nodes_def)


text \<open>
  An operation that has been applied can be delivered again at any later time: \<^verbatim>\<open>Apply\<close> then
  reports no change and leaves the whole replica, its queue of held operations included, as it was.
\<close>

theorem apply_twice_changes_nothing:
  assumes "list_all sound_op ops" "op \<in> set ops" "op \<notin> set (seq_pending (receive ops new_sequence))"
  shows "seq_apply (receive ops new_sequence) op = (receive ops new_sequence, False, None)"
  using apply_repeat [OF assms] .

subsection \<open>The properties on a document\<close>

definition wit_doc :: sequence where
  "wit_doc = receive [wit_a, wit_b, wit_d] new_sequence"

lemma wit_doc_ok: "seq_ok wit_doc" "seq_pending wit_doc = []" "seq_len wit_doc = 2" "seq_clock wit_doc = 3"
  "seq_text wit_doc = [105, 33]"
  by code_simp+

lemma wit_writer: "valid_replica ''eve''" "valid_text [65, 33]" "unat max_clock = 9007199254740991"
  by (simp_all add: valid_replica_def replica_char_def valid_text_def valid_rune_def max_clock_def)

theorem insert_edits_text_witness:
  "\<exists>s' op. seq_insert wit_doc ''eve'' 1 [65, 33] = (s', Inr op) \<and> seq_text s' = [105, 65, 33, 33]"
  using insert_edits_text [of wit_doc "''eve''" "[65, 33]" 1] wit_doc_ok wit_writer by auto

theorem remove_deletes_exactly_witness:
  "\<exists>s' op. seq_remove wit_doc 0 1 = (s', Inr op) \<and> seq_text s' = [33]"
  using remove_deletes_exactly [of wit_doc 0 1] wit_doc_ok by auto


theorem apply_twice_changes_nothing_witness: "seq_apply wit_doc wit_a = (wit_doc, False, None)"
  using apply_twice_changes_nothing [of "[wit_a, wit_b, wit_d]" wit_a] wit_sound wit_doc_ok(2)
  by (simp add: wit_doc_def)

subsection \<open>What the overflow guard lets through\<close>

text \<open>
  The guard of \<^verbatim>\<open>Op.Valid\<close> adds in 64 bits before it compares, so an insert of two characters
  whose first clock is the largest 64-bit number passes it, and integrating it creates a character
  with clock 0 and one beyond \<^verbatim>\<open>maxClock\<close>.
\<close>

lemma overflow_guard_wraps:
  "let op = \<lparr>op_id = CId ''eve'' (2 ^ 64 - 1), op_after = zero_id, op_text = [65, 66], op_delete = []\<rparr>
   in op_valid op = None \<and> map nid (chain (receive [op] new_sequence)) = [CId ''eve'' (2 ^ 64 - 1), CId ''eve'' 0]"
  by code_simp

end
