(* ===== verification/Crdt_Storage.thy ===== *)
theory Crdt_Storage
  imports Crdt_Edits
begin

section \<open>The stored form of a document\<close>

text \<open>
  \<^verbatim>\<open>Snapshot\<close> and \<^verbatim>\<open>Load\<close> of \<^verbatim>\<open>internal/crdt/sequence.go\<close>: the document as runs of consecutive
  characters of one writer. Reading a stored document back gives the replica that was stored, less
  the text of its deleted characters and less the operations it was holding back.
\<close>

record run =
  run_replica :: string
  run_clock :: u64
  run_text :: "rune list"
  run_deleted :: int

definition flush :: "run list \<Rightarrow> rune list \<Rightarrow> run list" where
  "flush runs text =
     (if runs \<noteq> [] \<and> run_deleted (last runs) = 0 then butlast runs @ [(last runs)\<lparr>run_text := text\<rparr>] else runs)"

definition continues :: "node option \<Rightarrow> node \<Rightarrow> bool" where
  "continues previous n = (case previous of None \<Rightarrow> False | Some p \<Rightarrow>
     replica (nid p) = replica (nid n) \<and> clk (nid p) + 1 = clk (nid n) \<and> ndel p = ndel n)"

definition snapshot_step :: "node \<Rightarrow> run list \<times> rune list \<times> node option \<Rightarrow> run list \<times> rune list \<times> node option" where
  "snapshot_step n = (\<lambda>(runs, text, previous).
     let (runs, text) =
           (if continues previous n then (runs, text)
            else (flush runs text @ [\<lparr>run_replica = replica (nid n), run_clock = clk (nid n), run_text = [], run_deleted = 0\<rparr>], []))
     in if ndel n then (butlast runs @ [(last runs)\<lparr>run_deleted := run_deleted (last runs) + 1\<rparr>], text, Some n)
        else (runs, text @ [nval n], Some n))"

definition snapshot :: "sequence \<Rightarrow> run list" where
  "snapshot s = (let (runs, text, _) = fold snapshot_step (chain s) ([], [], None) in flush runs text)"

definition run_count :: "run \<Rightarrow> int" where
  "run_count r = (if run_text r \<noteq> [] then int (length (run_text r)) else run_deleted r)"

definition run_error :: "run \<Rightarrow> crdt_error option" where
  "run_error r =
     (if run_text r \<noteq> [] \<and> (run_deleted r \<noteq> 0 \<or> \<not> valid_text (run_text r)) then Some StoredMixed
      else if \<not> valid_replica (run_replica r) \<or> run_clock r = 0 \<or> run_count r \<le> 0
              \<or> run_clock r + of_int (run_count r) - 1 > max_clock then Some StoredUnheld
      else None)"

definition run_nodes :: "run \<Rightarrow> node list" where
  "run_nodes r = map (\<lambda>k. \<lparr>nid = CId (run_replica r) (run_clock r + of_nat k),
       nval = (if run_text r = [] then 0 else run_text r ! k), ndel = (run_text r = [])\<rparr>) [0 ..< nat (run_count r)]"

fun load_nodes :: "node list \<Rightarrow> sequence \<Rightarrow> crdt_error + sequence" where
  "load_nodes [] s = Inr s"
| "load_nodes (n # ns) s =
     (if has_node s (nid n) then Inl StoredTwice
      else load_nodes ns (s\<lparr>chain := chain s @ [n], seq_visible := (if ndel n then seq_visible s else seq_visible s + 1),
                            seq_clock := max (seq_clock s) (clk (nid n))\<rparr>))"

fun load_runs :: "run list \<Rightarrow> sequence \<Rightarrow> crdt_error + sequence" where
  "load_runs [] s = Inr s"
| "load_runs (r # rs) s =
     (case run_error r of
        Some e \<Rightarrow> Inl e
      | None \<Rightarrow> (case load_nodes (run_nodes r) s of Inl e \<Rightarrow> Inl e | Inr s' \<Rightarrow> load_runs rs s'))"

definition load :: "run list \<Rightarrow> crdt_error + sequence" where
  "load runs = load_runs runs new_sequence"

subsection \<open>The runs of a snapshot\<close>

definition erased :: "node \<Rightarrow> node" where
  "erased n = (if ndel n then n\<lparr>nval := 0\<rparr> else n)"

definition storable :: "node \<Rightarrow> bool" where
  "storable n \<longleftrightarrow> valid_replica (replica (nid n)) \<and> clk (nid n) \<noteq> 0 \<and> clk (nid n) \<le> max_clock \<and> valid_rune (nval n)"

definition expand :: "run list \<Rightarrow> node list" where
  "expand rs = concat (map run_nodes rs)"

text \<open>
  What the loop of \<^verbatim>\<open>Snapshot\<close> has written after the characters \<open>seen\<close>: everything but the last
  run is final, and the last run with the text gathered so far describes the rest, up to the
  character before, and can still grow.
\<close>

definition snap_inv :: "node list \<Rightarrow> run list \<times> rune list \<times> node option \<Rightarrow> bool" where
  "snap_inv seen st \<longleftrightarrow> (case st of
       (runs, text, None) \<Rightarrow> runs = [] \<and> text = [] \<and> seen = []
     | (runs, text, Some p) \<Rightarrow> (\<exists>front r. runs = front @ [r] \<and> run_text r = []
          \<and> list_all (\<lambda>q. run_error q = None) front
          \<and> valid_replica (run_replica r) \<and> run_clock r \<noteq> 0 \<and> clk (nid p) \<le> max_clock
          \<and> replica (nid p) = run_replica r \<and> valid_text text
          \<and> (if ndel p then text = [] \<and> 0 < run_deleted r \<and> clk (nid p) + 1 = run_clock r + of_int (run_deleted r)
             else text \<noteq> [] \<and> run_deleted r = 0 \<and> clk (nid p) + 1 = run_clock r + of_nat (length text))
          \<and> expand front @ run_nodes (r\<lparr>run_text := text\<rparr>) = map erased seen))"

lemma run_nodes_empty: "run_nodes \<lparr>run_replica = a, run_clock = c, run_text = [], run_deleted = 0\<rparr> = []"
  by (simp add: run_nodes_def run_count_def)

lemma run_nodes_text:
  assumes "run_deleted r = 0" "run_text r = []"
  shows "run_nodes (r\<lparr>run_text := text @ [v]\<rparr>) = run_nodes (r\<lparr>run_text := text\<rparr>)
    @ [\<lparr>nid = CId (run_replica r) (run_clock r + of_nat (length text)), nval = v, ndel = False\<rparr>]"
proof -
  have "nat (1 + int (length text)) = Suc (length text)" by simp
  then show ?thesis using assms by (auto simp: run_nodes_def run_count_def nth_append)
qed

lemma run_nodes_deleted:
  assumes "run_text r = []" "0 \<le> run_deleted r"
  shows "run_nodes (r\<lparr>run_deleted := run_deleted r + 1\<rparr>) = run_nodes r
    @ [\<lparr>nid = CId (run_replica r) (run_clock r + of_int (run_deleted r)), nval = 0, ndel = True\<rparr>]"
proof -
  have "nat (run_deleted r + 1) = Suc (nat (run_deleted r))" using assms(2) by simp
  then show ?thesis using assms by (simp add: run_nodes_def run_count_def)
qed

lemma snap_inv_flush:
  assumes "snap_inv seen (runs, text, Some p)"
  shows "list_all (\<lambda>q. run_error q = None) (flush runs text) \<and> expand (flush runs text) = map erased seen"
proof -
  obtain front r where i: "runs = front @ [r]" "run_text r = []" "list_all (\<lambda>q. run_error q = None) front"
    "valid_replica (run_replica r)" "run_clock r \<noteq> 0" "clk (nid p) \<le> max_clock" "valid_text text"
    "if ndel p then text = [] \<and> 0 < run_deleted r \<and> clk (nid p) + 1 = run_clock r + of_int (run_deleted r)
     else text \<noteq> [] \<and> run_deleted r = 0 \<and> clk (nid p) + 1 = run_clock r + of_nat (length text)"
    "expand front @ run_nodes (r\<lparr>run_text := text\<rparr>) = map erased seen"
    using assms by (auto simp: snap_inv_def)
  let ?r = "r\<lparr>run_text := text\<rparr>"
  have flush: "flush runs text = front @ [?r]" using i by (auto simp: flush_def split: if_splits)
  have "clk (nid p) = run_clock r + of_int (run_count ?r) - 1"
    using i(8) by (auto simp: run_count_def algebra_simps split: if_splits)
  then have "run_error ?r = None" using i(2,4-8) by (auto simp: run_error_def run_count_def split: if_splits)
  then show ?thesis using i(3,9) flush by (simp add: expand_def)
qed

lemma flush_ok:
  assumes "snap_inv seen (runs, text, previous)"
  shows "list_all (\<lambda>q. run_error q = None) (flush runs text) \<and> expand (flush runs text) = map erased seen"
  using assms snap_inv_flush by (cases previous) (auto simp: snap_inv_def flush_def expand_def)

lemma erased_node: "ndel n \<Longrightarrow> erased n = \<lparr>nid = CId (replica (nid n)) (clk (nid n)), nval = 0, ndel = True\<rparr>"
  "\<not> ndel n \<Longrightarrow> erased n = \<lparr>nid = CId (replica (nid n)) (clk (nid n)), nval = nval n, ndel = False\<rparr>"
  by (simp_all add: erased_def)

lemma snap_inv_open:
  assumes "snap_inv seen (runs, text, previous)" "\<not> continues previous n" "storable n"
  shows "snap_inv (seen @ [n]) (snapshot_step n (runs, text, previous))"
proof -
  let ?r = "\<lparr>run_replica = replica (nid n), run_clock = clk (nid n), run_text = [], run_deleted = 0\<rparr>"
  note front = flush_ok [OF assms(1)]
  have empty: "run_nodes ?r = []" by (rule run_nodes_empty)
  show ?thesis
  proof (cases "ndel n")
    case True
    then show ?thesis using assms(2,3) front run_nodes_deleted [of ?r] empty
      by (simp add: snapshot_step_def snap_inv_def storable_def erased_node expand_def valid_text_def)
  next
    case False
    then show ?thesis using assms(2,3) front run_nodes_text [of ?r "[]" "nval n"] empty
      by (simp add: snapshot_step_def snap_inv_def storable_def erased_node expand_def valid_text_def)
  qed
qed

lemma snap_inv_grow:
  assumes "snap_inv seen (runs, text, Some p)" "continues (Some p) n" "storable n"
  shows "snap_inv (seen @ [n]) (snapshot_step n (runs, text, Some p))"
proof -
  obtain front r where i: "runs = front @ [r]" "run_text r = []" "list_all (\<lambda>q. run_error q = None) front"
    "valid_replica (run_replica r)" "run_clock r \<noteq> 0" "replica (nid p) = run_replica r" "valid_text text"
    "if ndel p then text = [] \<and> 0 < run_deleted r \<and> clk (nid p) + 1 = run_clock r + of_int (run_deleted r)
     else text \<noteq> [] \<and> run_deleted r = 0 \<and> clk (nid p) + 1 = run_clock r + of_nat (length text)"
    "expand front @ run_nodes (r\<lparr>run_text := text\<rparr>) = map erased seen"
    using assms(1) by (auto simp: snap_inv_def)
  have c: "replica (nid n) = run_replica r" "clk (nid n) = clk (nid p) + 1" "ndel n = ndel p"
    using assms(2) i(6) by (auto simp: continues_def)
  show ?thesis
  proof (cases "ndel n")
    case True
    then have d: "text = []" "0 < run_deleted r" "clk (nid n) = run_clock r + of_int (run_deleted r)" using i(8) c by auto
    have same: "r\<lparr>run_text := []\<rparr> = r" using i(2) by simp
    have nodes: "expand front @ run_nodes (r\<lparr>run_deleted := run_deleted r + 1\<rparr>) = map erased seen @ [erased n]"
      using run_nodes_deleted [OF i(2)] i(9) d True c same by (simp add: erased_node)
    have "r\<lparr>run_deleted := run_deleted r + 1, run_text := []\<rparr> = r\<lparr>run_deleted := run_deleted r + 1\<rparr>"
      using i(2) by simp
    then have "expand front @ run_nodes (r\<lparr>run_deleted := run_deleted r + 1, run_text := []\<rparr>) = map erased seen @ [erased n]"
      using nodes by (simp only:)
    then show ?thesis using i(1-5) d c True assms by (simp add: snapshot_step_def snap_inv_def storable_def valid_text_def)
  next
    case False
    then have d: "text \<noteq> []" "run_deleted r = 0" "clk (nid n) = run_clock r + of_nat (length text)" using i(8) c by auto
    have "expand front @ run_nodes (r\<lparr>run_text := text @ [nval n]\<rparr>) = map erased seen @ [erased n]"
      using run_nodes_text [OF d(2) i(2)] i(9) d(3) False c by (simp add: erased_node)
    then show ?thesis using i(1-5,7) d c False assms
      by (simp add: snapshot_step_def snap_inv_def storable_def valid_text_def)
  qed
qed

lemma snap_inv_fold:
  "\<forall>n \<in> set ns. storable n \<Longrightarrow> snap_inv seen st \<Longrightarrow> snap_inv (seen @ ns) (fold snapshot_step ns st)"
proof (induction ns arbitrary: seen st)
  case (Cons n ns)
  obtain runs tx previous where st: "st = (runs, tx, previous)" by (cases st)
  have "snap_inv (seen @ [n]) (snapshot_step n st)"
  proof (cases "continues previous n")
    case True
    then obtain p where "previous = Some p" by (auto simp: continues_def split: option.splits)
    then show ?thesis using snap_inv_grow True Cons.prems st by auto
  next
    case False
    then show ?thesis using snap_inv_open Cons.prems st by auto
  qed
  then show ?case using Cons.IH [of "seen @ [n]"] Cons.prems(1) by simp
qed simp

lemma snapshot_runs:
  assumes "\<forall>n \<in> set (chain s). storable n"
  shows "list_all (\<lambda>q. run_error q = None) (snapshot s) \<and> expand (snapshot s) = map erased (chain s)"
proof -
  obtain runs tx previous where st: "fold snapshot_step (chain s) ([], [], None) = (runs, tx, previous)"
    by (cases "fold snapshot_step (chain s) ([], [], None)")
  have "snap_inv (chain s) (runs, tx, previous)"
    using snap_inv_fold [OF assms, of "[]" "([], [], None)"] st by (simp add: snap_inv_def)
  then show ?thesis using flush_ok st by (simp add: snapshot_def)
qed

subsection \<open>Reading it back\<close>

lemma load_nodes_distinct:
  assumes "distinct (map nid (chain s @ ns))"
  shows "load_nodes ns s = Inr (s\<lparr>chain := chain s @ ns,
    seq_visible := seq_visible s + int (length (visible_nodes ns)),
    seq_clock := fold max (map (clk \<circ> nid) ns) (seq_clock s)\<rparr>)"
  using assms
proof (induction ns arbitrary: s)
  case (Cons n ns)
  then show ?case by (simp add: has_node_def max.commute algebra_simps)
qed simp

lemma load_runs_distinct:
  assumes "list_all (\<lambda>q. run_error q = None) rs" "distinct (map nid (chain s @ expand rs))"
  shows "load_runs rs s = Inr (s\<lparr>chain := chain s @ expand rs,
    seq_visible := seq_visible s + int (length (visible_nodes (expand rs))),
    seq_clock := fold max (map (clk \<circ> nid) (expand rs)) (seq_clock s)\<rparr>)"
  using assms
proof (induction rs arbitrary: s)
  case Nil
  then show ?case by (simp add: expand_def)
next
  case (Cons r rs)
  have e: "expand (r # rs) = run_nodes r @ expand rs" by (simp add: expand_def)
  let ?s = "s\<lparr>chain := chain s @ run_nodes r, seq_visible := seq_visible s + int (length (visible_nodes (run_nodes r))),
    seq_clock := fold max (map (clk \<circ> nid) (run_nodes r)) (seq_clock s)\<rparr>"
  have "distinct (map nid (chain s @ run_nodes r))" using Cons.prems(2) e by auto
  then have "load_nodes (run_nodes r) s = Inr ?s" by (rule load_nodes_distinct)
  moreover have "load_runs rs ?s = Inr (?s\<lparr>chain := chain ?s @ expand rs,
    seq_visible := seq_visible ?s + int (length (visible_nodes (expand rs))),
    seq_clock := fold max (map (clk \<circ> nid) (expand rs)) (seq_clock ?s)\<rparr>)"
    using Cons.prems e by (intro Cons.IH) (simp_all add: Int_Un_distrib Int_Un_distrib2 Un_assoc disjoint_iff)
  ultimately show ?case using Cons.prems(1) e by (simp add: comp_def add.assoc)
qed

subsection \<open>Documents that can be stored\<close>

text \<open>
  What every document built from operations that fit below \<^verbatim>\<open>maxClock\<close> satisfies: the invariant of
  local edits, a clock that is the greatest of its characters', and values that are characters.
\<close>

definition stored_ok :: "sequence \<Rightarrow> bool" where
  "stored_ok s \<longleftrightarrow> seq_ok s \<and> (\<forall>n \<in> set (chain s). valid_rune (nval n))
     \<and> seq_clock s \<in> insert 0 (clk ` set (map nid (chain s)))"

definition op_fits :: "crdt_op \<Rightarrow> bool" where
  "op_fits op \<longleftrightarrow> (op_text op \<noteq> [] \<longrightarrow> unat (clk (op_id op)) + length (op_text op) \<le> unat max_clock)"

fun act_fits :: "sequence \<Rightarrow> act \<Rightarrow> bool" where
  "act_fits s (Ins a i v) \<longleftrightarrow> (a = None \<or> has_node s (the a)) \<and> valid_replica (replica i) \<and> clk i \<noteq> 0 \<and> clk i \<le> max_clock \<and> valid_rune v"
| "act_fits s (Del i) \<longleftrightarrow> has_node s i"

lemma place_split: "\<exists>pre suf. xs = pre @ suf \<and> place n xs = pre @ n # suf"
proof (induction xs)
  case (Cons x xs)
  then obtain pre suf where "xs = pre @ suf" "place n xs = pre @ n # suf" by blast
  then show ?case
    by (cases "nid n < nid x") (auto intro: exI [of _ "x # pre"] exI [of _ "[]"])
qed simp

lemma place_after_split:
  "a = None \<or> the a \<in> nid ` set xs \<Longrightarrow> \<exists>pre suf. xs = pre @ suf \<and> place_after a n xs = pre @ n # suf"
proof (induction a n xs rule: place_after.induct)
  case (1 n xs)
  then show ?case by (simp add: place_split)
next
  case (2 a n)
  then show ?case by simp
next
  case (3 a n x xs)
  have "\<exists>pre suf. xs = pre @ suf \<and> (if nid x = a then place n xs else place_after (Some a) n xs) = pre @ n # suf"
    using 3 place_split by auto
  then obtain pre suf where "xs = pre @ suf" "(if nid x = a then place n xs else place_after (Some a) n xs) = pre @ n # suf"
    by blast
  then show ?case by (intro exI [of _ "x # pre"] exI [of _ suf]) auto
qed

lemma stored_ok_ins:
  assumes ok: "stored_ok s" and fits: "act_fits s (Ins a i v)"
  shows "stored_ok (do_act (Ins a i v) s)"
proof (cases "has_node s i")
  case False
  let ?n = "\<lparr>nid = i, nval = v, ndel = False\<rparr>"
  obtain pre suf where sp: "chain s = pre @ suf" "place_after a ?n (chain s) = pre @ ?n # suf"
    using place_after_split [of a "chain s" ?n] fits by (auto simp: has_node_def)
  have "seq_clock s \<le> max (seq_clock s) (clk i)" "clk i \<le> max (seq_clock s) (clk i)" by auto
  then show ?thesis using False ok fits sp
    by (auto simp: stored_ok_def seq_ok_def has_node_def max_def intro: order_trans)
qed (use ok in simp)

lemma mark_absent: "i \<notin> nid ` set xs \<Longrightarrow> mark_deleted i xs = xs"
  by (auto simp: mark_deleted_def intro!: map_idI)

lemma visible_mark_deleted:
  assumes "distinct (map nid xs)" "\<exists>n \<in> set xs. nid n = i \<and> \<not> ndel n"
  shows "int (length (visible_nodes (mark_deleted i xs))) = int (length (visible_nodes xs)) - 1"
  using assms
proof (induction xs)
  case (Cons x xs)
  show ?case
  proof (cases "nid x = i")
    case True
    then have "\<not> ndel x" "i \<notin> nid ` set xs" using Cons.prems by (auto intro: rev_image_eqI)
    then show ?thesis using True mark_absent [of i xs] by (simp add: mark_deleted_def)
  next
    case False
    then show ?thesis using Cons by (auto simp: mark_deleted_def)
  qed
qed simp

lemma stored_ok_del:
  assumes ok: "stored_ok s" and fits: "act_fits s (Del i)"
  shows "stored_ok (do_act (Del i) s)"
proof -
  have clock: "max (seq_clock s) (clk i) = seq_clock s"
    using ok fits by (auto simp: stored_ok_def seq_ok_def has_node_def max_def antisym)
  show ?thesis
  proof (cases "live s i")
    case True
    have ids: "map nid (mark_deleted i (chain s)) = map nid (chain s)" by (simp add: mark_deleted_def)
    have "\<forall>n \<in> set (mark_deleted i (chain s)). valid_rune (nval n)"
      using ok by (auto simp: stored_ok_def mark_deleted_def)
    moreover have "int (length (visible_nodes (mark_deleted i (chain s)))) = seq_visible s - 1"
      using visible_mark_deleted [of "chain s" i] ok True by (simp add: stored_ok_def seq_ok_def live_def)
    ultimately show ?thesis using ok True clock seq_ok_same_ids [OF _ ids] ids
      by (simp add: stored_ok_def del: set_map)
  next
    case False
    then show ?thesis using ok clock by simp
  qed
qed

lemma stored_ok_runes:
  assumes "stored_ok s" "a = None \<or> has_node s (the a)" "valid_replica r" "valid_text vs"
    and "c \<noteq> 0" "unat c + length vs \<le> unat max_clock"
  shows "stored_ok (fold do_act (ins_acts a r c vs) s)"
  using assms
proof (induction vs arbitrary: s a c)
  case (Cons v vs)
  let ?s = "do_act (Ins a (CId r c) v) s"
  have small: "unat c + 1 < 2 ^ 64" using Cons.prems(6) by (simp add: max_clock_def)
  then have c1: "unat (c + 1) = unat c + 1" by (simp add: unat_word_ariths)
  then have "c + 1 \<noteq> 0" by (metis add_is_0 one_neq_zero unat_0)
  moreover have "act_fits s (Ins a (CId r c) v)"
    using Cons.prems by (auto simp: valid_text_def word_le_nat_alt)
  then have "stored_ok ?s" using stored_ok_ins Cons.prems(1) by blast
  moreover have "has_node ?s (CId r c)" using Cons.prems(2) by (auto simp: has_node_place_after)
  moreover have "unat (c + 1) + length vs \<le> unat max_clock" using Cons.prems(6) c1 by simp
  ultimately show ?case using Cons.IH [of ?s "Some (CId r c)" "c + 1"] Cons.prems
    by (simp add: valid_text_def del: do_act.simps)
qed simp

lemma stored_ok_dels:
  "stored_ok s \<Longrightarrow> list_all (has_node s) is \<Longrightarrow> stored_ok (fold do_act (map Del is) s)"
proof (induction "is" arbitrary: s)
  case (Cons i "is")
  then show ?case
    by (auto simp: list_all_iff simp del: do_act.simps intro!: Cons.IH stored_ok_del do_act_has_mono)
qed simp

lemma stored_ok_app:
  assumes "stored_ok s" "sound_op op" "op_fits op" "seq_ready s op"
  shows "stored_ok (seq_app op s)"
proof (cases "op_text op = []")
  case True
  then show ?thesis using assms stored_ok_dels by (auto simp: seq_app_def op_acts_def seq_ready_def)
next
  case False
  then show ?thesis
    using assms stored_ok_runes [of s "anchor op" "replica (op_id op)" "op_text op" "clk (op_id op)"]
      sound_insert_clock [OF assms(2) False]
    by (auto simp: seq_app_def op_acts_def seq_ready_def anchor_def op_fits_def sound_op_def op_valid_def Let_def split: if_splits)
qed

lemma stored_ok_causal:
  assumes "canvas.causal s ys" "stored_ok s" "\<forall>y \<in> set ys. sound_op y \<and> op_fits y"
  shows "stored_ok (canvas.run ys s)"
  using assms by (induction ys arbitrary: s) (auto intro: stored_ok_app)

lemma stored_ok_pending [simp]: "stored_ok (s\<lparr>seq_pending := p\<rparr>) = stored_ok s"
  by (simp add: stored_ok_def seq_ok_def)

lemma received_stored_ok:
  assumes "list_all sound_op ops" "list_all op_fits ops"
  shows "stored_ok (receive ops new_sequence)"
proof -
  obtain ys q where r: "receive ops new_sequence = applied ys q" "canvas.causal new_sequence ys"
    "set ys \<union> set q = set ops"
    using receive_applied [OF assms(1)] by blast
  have "stored_ok new_sequence" by (simp add: stored_ok_def seq_ok_def new_sequence_def)
  moreover have "\<forall>y \<in> set ys. sound_op y \<and> op_fits y" using assms r(3) by (auto simp: list_all_iff)
  ultimately show ?thesis using stored_ok_causal [OF r(2)] r(1) by simp
qed

lemma fold_max_le: "\<forall>x \<in> set xs. x \<le> m \<Longrightarrow> a \<le> m \<Longrightarrow> fold max xs a \<le> m"
  for m :: "'a::linorder"
  by (induction xs arbitrary: a) auto

lemma fold_max_ge: "a \<le> fold max xs a \<and> (\<forall>x \<in> set xs. x \<le> fold max xs a)"
  for a :: "'a::linorder"
proof (induction xs arbitrary: a)
  case (Cons x xs)
  have "max x a \<le> fold max xs (max x a)" "\<forall>y \<in> set xs. y \<le> fold max xs (max x a)" using Cons by blast+
  then show ?case by simp
qed simp

lemma load_snapshot:
  assumes "stored_ok s"
  shows "load (snapshot s) = Inr (s\<lparr>chain := map erased (chain s), seq_pending := []\<rparr>)"
proof -
  have storable: "\<forall>n \<in> set (chain s). storable n"
    using assms by (auto simp: stored_ok_def seq_ok_def storable_def intro: order_trans)
  note runs = snapshot_runs [OF storable]
  have nid: "map nid (map erased (chain s)) = map nid (chain s)" by (simp add: erased_def)
  have clks: "map (clk \<circ> nid) (map erased (chain s)) = map clk (map nid (chain s))" by (simp add: erased_def)
  have vis: "length (visible_nodes (map erased ns)) = length (visible_nodes ns)" for ns
    by (induction ns) (auto simp: erased_def)
  have "fold max (map clk (map nid (chain s))) 0 = seq_clock s"
  proof (rule antisym)
    show "fold max (map clk (map nid (chain s))) 0 \<le> seq_clock s"
      using assms by (intro fold_max_le) (auto simp: stored_ok_def seq_ok_def)
    show "seq_clock s \<le> fold max (map clk (map nid (chain s))) 0"
      using assms fold_max_ge [of 0 "map clk (map nid (chain s))"] by (auto simp: stored_ok_def)
  qed
  moreover have "distinct (map nid (chain s))" using assms by (simp add: stored_ok_def seq_ok_def)
  ultimately show ?thesis
    using load_runs_distinct [of "snapshot s" new_sequence] runs nid clks vis [of "chain s"] assms
    by (simp add: load_def new_sequence_def stored_ok_def seq_ok_def del: map_map)
qed

subsection \<open>Properties\<close>

text \<open>
  C9. Whatever well-formed operations a replica has received, storing its document and loading it
  back gives the same characters in the same order with the same tombstones, the same clock and
  the same length: only the text of deleted characters and the operations held back are dropped,
  and the document reads the same.
\<close>

theorem stored_document_survives:
  assumes "list_all sound_op ops" "list_all op_fits ops"
  shows "load (snapshot (receive ops new_sequence)) = Inr ((receive ops new_sequence)
      \<lparr>chain := map (\<lambda>n. if ndel n then n\<lparr>nval := 0\<rparr> else n) (chain (receive ops new_sequence)), seq_pending := []\<rparr>)"
  using load_snapshot [OF received_stored_ok [OF assms]] unfolding erased_def .

theorem stored_document_survives_witness:
  "load (snapshot (receive [wit_a, wit_b, wit_d] new_sequence)) = Inr ((receive [wit_a, wit_b, wit_d] new_sequence)
      \<lparr>chain := map (\<lambda>n. if ndel n then n\<lparr>nval := 0\<rparr> else n) (chain (receive [wit_a, wit_b, wit_d] new_sequence)), seq_pending := []\<rparr>)"
  by (rule stored_document_survives)
     (use wit_sound in \<open>simp_all add: op_fits_def wit_ops max_clock_def\<close>)

text \<open>
  Every document built from well-formed operations, received in any order, satisfies the
  invariant local editing relies on: no character twice, every character named by a real writer
  with a clock between 1 and the document's clock, and a length that is the number of visible
  characters.
\<close>

theorem received_document_consistent:
  assumes "list_all sound_op ops" "list_all op_fits ops"
  shows "seq_ok (receive ops new_sequence)"
  using received_stored_ok [OF assms] by (simp add: stored_ok_def)

theorem received_document_consistent_witness: "seq_ok (receive [wit_b, wit_d, wit_a] new_sequence)"
  by (rule received_document_consistent)
     (use wit_sound in \<open>simp_all add: op_fits_def wit_ops max_clock_def\<close>)

end
