(* ===== verification/Cas_Register.thy ===== *)
theory Cas_Register
  imports SOC_Prelude
begin

section \<open>A register changed by compare-and-swap\<close>

text \<open>
  The contract between the lifecycle controllers and their control store: a swap either leaves the
  register alone, or found the expected value in it and wrote the next one; it says so only in the
  second case. The clients of one register then move it along the relation their attempts respect,
  however they interleave and whatever each of them believes the register holds.
\<close>

locale cas_register =
  fixes val_of :: "'s \<Rightarrow> 'r"
    and swap :: "'r \<Rightarrow> 'r \<Rightarrow> 's \<Rightarrow> 's \<times> 'e option"
  assumes swap_or_not: "val_of (fst (swap e n s)) = val_of s \<or> val_of s = e \<and> val_of (fst (swap e n s)) = n"
    and swap_done: "snd (swap e n s) = None \<Longrightarrow> val_of s = e \<and> val_of (fst (swap e n s)) = n"
begin

lemma swap_steps:
  assumes "R e n"
  shows "R\<^sup>=\<^sup>= (val_of s) (val_of (fst (swap e n s)))"
  using swap_or_not [of e n s] assms by auto

fun attempts :: "('r \<times> 'r) list \<Rightarrow> 's \<Rightarrow> 's" where
  "attempts [] s = s"
| "attempts ((e, n) # as) s = attempts as (fst (swap e n s))"

lemma attempts_steps:
  assumes "\<forall>(e, n) \<in> set as. R e n"
  shows "R\<^sup>*\<^sup>* (val_of s) (val_of (attempts as s))"
  using assms
proof (induction as arbitrary: s)
  case (Cons a as)
  obtain e n where a: "a = (e, n)" by (cases a)
  have "R\<^sup>*\<^sup>* (val_of s) (val_of (fst (swap e n s)))"
    using swap_or_not [of e n s] Cons.prems a by auto
  then show ?case using Cons a by (auto intro: rtranclp_trans)
qed simp

lemma stale_attempt: "val_of s \<noteq> e \<Longrightarrow> val_of (fst (swap e n s)) = val_of s \<and> snd (swap e n s) \<noteq> None"
  using swap_or_not [of e n s] swap_done [of e n s] by auto

end

end
