(* ===== verification/Lifecycle.thy ===== *)
theory Lifecycle
  imports Cas_Register
begin

section \<open>The lifecycle record and its controller\<close>

text \<open>
  \<^verbatim>\<open>internal/lifecycle/state.go\<close> and \<^verbatim>\<open>sqlite_state.go\<close>: the durable record of a scale-to-zero
  stack, and the fenced transitions a controller makes on it. A controller caches the record; every
  transition is a compare-and-swap of the cached record against the durable one. A controller and
  the store it writes are one state here, so several controllers of one store are modelled by
  exchanging the cached view (\<open>cluster\<close> below). The control store may refuse an operation or
  apply a swap and lose the answer, as an explicit list of faults tells. A deadline's text in the
  database (RFC 3339 with nanoseconds, in UTC) is the instant itself.
\<close>

datatype lstate =
  Hibernated | Waking | Active | Quiescing | Snapshotting | Stopping | Failed | OtherState string

record state_record =
  st :: lstate
  generation :: u64
  wake_deadline :: time
  snap_auth :: bool
  restore_gen :: u64

datatype lc_error =
    InvalidTransition | StaleFence | WakeInProgress | StateConflict | AlreadyActive
  | RecoveryRequired | NotRestorable | StoreDown | InvalidDurable
  | JoinErr lc_error lc_error

datatype store_fault = Fine | Refused | LostReply

record ctl =
  view :: state_record
  persistent :: bool
  row :: state_record
  faults :: "store_fault list"

fun valid_state :: "lstate \<Rightarrow> bool" where
  "valid_state (OtherState _) = False"
| "valid_state _ = True"

definition snapshot_authoritative_for :: "lstate \<Rightarrow> bool" where
  "snapshot_authoritative_for s \<longleftrightarrow> s = Hibernated \<or> s = Stopping"

subsection \<open>The control store\<close>

text \<open>
  Opening the database: the row as an older release may have left it, with columns that did not
  exist yet as \<open>None\<close>, is migrated; the seed is written only where there is no row.
\<close>

record legacy_row =
  lr_state :: lstate
  lr_generation :: u64
  lr_deadline :: "time option"
  lr_authoritative :: "bool option"
  lr_restore :: "u64 option"

definition migrate_row :: "legacy_row \<Rightarrow> state_record" where
  "migrate_row r = \<lparr>st = lr_state r, generation = lr_generation r,
     wake_deadline = (case lr_deadline r of None \<Rightarrow> 0 | Some d \<Rightarrow> d),
     snap_auth = (case lr_authoritative r of None \<Rightarrow> lr_state r \<in> {Hibernated, Stopping} | Some b \<Rightarrow> b),
     restore_gen = (case lr_restore r of None \<Rightarrow> 0 | Some g \<Rightarrow> g)\<rparr>"

definition open_store :: "legacy_row option \<Rightarrow> state_record \<Rightarrow> lc_error + state_record" where
  "open_store present initial =
     (if \<not> valid_state (st initial) then Inl InvalidDurable
      else Inr (case present of None \<Rightarrow> initial | Some r \<Rightarrow> migrate_row r))"

definition next_fault :: "ctl \<Rightarrow> store_fault" where
  "next_fault c = (case faults c of [] \<Rightarrow> Fine | f # _ \<Rightarrow> f)"

definition store_load :: "ctl \<Rightarrow> ctl \<times> (lc_error + state_record)" where
  "store_load c = (let c' = c\<lparr>faults := tl (faults c)\<rparr> in
     if next_fault c \<noteq> Fine then (c', Inl StoreDown)
     else if \<not> valid_state (st (row c)) then (c', Inl InvalidDurable)
     else (c', Inr (row c)))"

definition store_cas :: "state_record \<Rightarrow> state_record \<Rightarrow> ctl \<Rightarrow> ctl \<times> lc_error option" where
  "store_cas expected nxt c =
     (if \<not> valid_state (st expected) \<or> \<not> valid_state (st nxt) then (c, Some InvalidDurable)
      else
        let c' = c\<lparr>faults := tl (faults c)\<rparr>; written = (if row c = expected then c'\<lparr>row := nxt\<rparr> else c')
        in case next_fault c of
             Refused \<Rightarrow> (c', Some StoreDown)
           | LostReply \<Rightarrow> (written, Some StoreDown)
           | Fine \<Rightarrow> (written, if row c = expected then None else Some StateConflict))"

subsection \<open>Reading and writing through the cached view\<close>

definition new_controller :: "lstate \<Rightarrow> ctl" where
  "new_controller initial =
     (let r = \<lparr>st = initial, generation = 0, wake_deadline = 0,
               snap_auth = snapshot_authoritative_for initial, restore_gen = 0\<rparr>
      in \<lparr>view = r, persistent = False, row = r, faults = []\<rparr>)"

definition new_persistent :: "state_record \<Rightarrow> store_fault list \<Rightarrow> lc_error + ctl" where
  "new_persistent r fs =
     (case store_load \<lparr>view = r, persistent = True, row = r, faults = fs\<rparr> of
        (_, Inl e) \<Rightarrow> Inl e
      | (c, Inr rec) \<Rightarrow> if valid_state (st rec) then Inr (c\<lparr>view := rec\<rparr>) else Inl InvalidDurable)"

definition reload :: "ctl \<Rightarrow> ctl \<times> lc_error option" where
  "reload c =
     (if \<not> persistent c then (c, None)
      else case store_load c of
             (c', Inl e) \<Rightarrow> (c', Some e)
           | (c', Inr rec) \<Rightarrow>
               if valid_state (st rec) then (c'\<lparr>view := rec\<rparr>, None) else (c', Some InvalidDurable))"

definition persist :: "state_record \<Rightarrow> ctl \<Rightarrow> ctl \<times> lc_error option" where
  "persist nxt c =
     (if \<not> persistent c then (c, None)
      else case store_cas (view c) nxt c of
             (c', Some StateConflict) \<Rightarrow>
               (case reload c' of
                  (c'', None) \<Rightarrow> (c'', Some StateConflict)
                | (c'', Some e) \<Rightarrow> (c'', Some (JoinErr StateConflict e)))
           | r \<Rightarrow> r)"

definition carry :: "lstate \<Rightarrow> u64 \<Rightarrow> ctl \<Rightarrow> state_record" where
  "carry s g c = (view c)\<lparr>st := s, generation := g\<rparr>"

definition metadata :: "ctl \<Rightarrow> state_record" where
  "metadata c = view c"

subsection \<open>The transitions\<close>

definition set_wake_deadline :: "u64 \<Rightarrow> time \<Rightarrow> ctl \<Rightarrow> ctl \<times> lc_error option" where
  "set_wake_deadline fence deadline c =
     (if fence \<noteq> generation (view c) then (c, Some StaleFence)
      else case persist ((view c)\<lparr>wake_deadline := deadline\<rparr>) c of
             (c', Some e) \<Rightarrow> (c', Some e)
           | (c', None) \<Rightarrow> (c'\<lparr>view := (view c')\<lparr>wake_deadline := deadline\<rparr>\<rparr>, None))"

definition begin_wake :: "ctl \<Rightarrow> ctl \<times> (u64 \<times> lc_error option)" where
  "begin_wake c0 =
     (case reload c0 of
        (c, Some e) \<Rightarrow> (c, 0, Some e)
      | (c, None) \<Rightarrow>
          if st (view c) = Active then (c, generation (view c), Some AlreadyActive)
          else if st (view c) = Failed then (c, 0, Some RecoveryRequired)
          else if st (view c) \<noteq> Hibernated then (c, 0, Some WakeInProgress)
          else
            let g = generation (view c) + 1 in
            case persist ((carry Waking g c)\<lparr>restore_gen := 0\<rparr>) c of
              (c', Some e) \<Rightarrow> (c', 0, Some e)
            | (c', None) \<Rightarrow> (c'\<lparr>view := (view c')\<lparr>generation := g, st := Waking, restore_gen := 0\<rparr>\<rparr>, g, None))"

definition acknowledge_failure :: "u64 \<Rightarrow> ctl \<Rightarrow> ctl \<times> (u64 \<times> lc_error option)" where
  "acknowledge_failure fence c =
     (if fence \<noteq> generation (view c) then (c, 0, Some StaleFence)
      else if st (view c) \<noteq> Failed then (c, 0, Some InvalidTransition)
      else
        let g = generation (view c) + 1 in
        case persist ((carry Hibernated g c)\<lparr>restore_gen := 0\<rparr>) c of
          (c', Some e) \<Rightarrow> (c', 0, Some e)
        | (c', None) \<Rightarrow> (c'\<lparr>view := (view c')\<lparr>generation := g, st := Hibernated, restore_gen := 0\<rparr>\<rparr>, g, None))"

definition begin_operator_restore :: "u64 \<Rightarrow> u64 \<Rightarrow> ctl \<Rightarrow> ctl \<times> (u64 \<times> lc_error option)" where
  "begin_operator_restore fence gen c =
     (if gen = 0 then (c, 0, Some NotRestorable)
      else if fence \<noteq> generation (view c) then (c, 0, Some StaleFence)
      else if st (view c) \<notin> {Failed, Hibernated} then (c, 0, Some InvalidTransition)
      else
        let g = generation (view c) + 1 in
        case persist ((carry Waking g c)\<lparr>restore_gen := gen\<rparr>) c of
          (c', Some e) \<Rightarrow> (c', 0, Some e)
        | (c', None) \<Rightarrow> (c'\<lparr>view := (view c')\<lparr>generation := g, st := Waking, restore_gen := gen\<rparr>\<rparr>, g, None))"

definition declare_snapshot_authoritative :: "u64 \<Rightarrow> ctl \<Rightarrow> ctl \<times> lc_error option" where
  "declare_snapshot_authoritative fence c =
     (if fence \<noteq> generation (view c) then (c, Some StaleFence)
      else if st (view c) \<noteq> Waking then (c, Some InvalidTransition)
      else if snap_auth (view c) then (c, None)
      else case persist ((view c)\<lparr>snap_auth := True\<rparr>) c of
             (c', Some e) \<Rightarrow> (c', Some e)
           | (c', None) \<Rightarrow> (c'\<lparr>view := (view c')\<lparr>snap_auth := True\<rparr>\<rparr>, None))"

definition declare_volume_authoritative :: "u64 \<Rightarrow> ctl \<Rightarrow> ctl \<times> lc_error option" where
  "declare_volume_authoritative fence c =
     (if fence \<noteq> generation (view c) then (c, Some StaleFence)
      else if st (view c) \<noteq> Waking then (c, Some InvalidTransition)
      else if \<not> snap_auth (view c) then (c, None)
      else case persist ((view c)\<lparr>snap_auth := False\<rparr>) c of
             (c', Some e) \<Rightarrow> (c', Some e)
           | (c', None) \<Rightarrow> (c'\<lparr>view := (view c')\<lparr>snap_auth := False\<rparr>\<rparr>, None))"

definition begin_recovery :: "u64 \<Rightarrow> ctl \<Rightarrow> ctl \<times> lc_error option" where
  "begin_recovery fence c =
     (if fence \<noteq> generation (view c) then (c, Some StaleFence)
      else if st (view c) \<notin> {Quiescing, Snapshotting, Stopping} then (c, Some InvalidTransition)
      else case persist (carry Waking fence c) c of
             (c', Some e) \<Rightarrow> (c', Some e)
           | (c', None) \<Rightarrow> (c'\<lparr>view := (view c')\<lparr>st := Waking\<rparr>\<rparr>, None))"

definition transition :: "u64 \<Rightarrow> lstate \<Rightarrow> state_record \<Rightarrow> ctl \<Rightarrow> ctl \<times> lc_error option" where
  "transition fence from_state nxt c =
     (if fence \<noteq> generation (view c) then (c, Some StaleFence)
      else if st (view c) \<noteq> from_state then (c, Some InvalidTransition)
      else case persist nxt c of
             (c', Some e) \<Rightarrow> (c', Some e)
           | (c', None) \<Rightarrow> (c'\<lparr>view := nxt\<rparr>, None))"

definition activate :: "time \<Rightarrow> u64 \<Rightarrow> ctl \<Rightarrow> ctl \<times> lc_error option" where
  "activate now fence c =
     (let nxt = (carry Active (generation (view c)) c)\<lparr>snap_auth := False, restore_gen := 0\<rparr>;
          nxt = (if \<not> is_zero_time (wake_deadline nxt) \<and> \<not> now < wake_deadline nxt
                 then nxt\<lparr>wake_deadline := 0\<rparr> else nxt)
      in transition fence Waking nxt c)"

definition begin_hibernate :: "u64 \<Rightarrow> ctl \<Rightarrow> ctl \<times> (u64 \<times> lc_error option)" where
  "begin_hibernate fence c =
     (if fence \<noteq> generation (view c) then (c, 0, Some StaleFence)
      else if st (view c) \<noteq> Active then (c, 0, Some InvalidTransition)
      else
        let g = generation (view c) + 1 in
        case persist (carry Quiescing g c) c of
          (c', Some e) \<Rightarrow> (c', 0, Some e)
        | (c', None) \<Rightarrow> (c'\<lparr>view := (view c')\<lparr>generation := g, st := Quiescing\<rparr>\<rparr>, g, None))"

definition begin_snapshot :: "u64 \<Rightarrow> ctl \<Rightarrow> ctl \<times> lc_error option" where
  "begin_snapshot fence c = transition fence Quiescing (carry Snapshotting (generation (view c)) c) c"

definition begin_stop :: "u64 \<Rightarrow> ctl \<Rightarrow> ctl \<times> lc_error option" where
  "begin_stop fence c =
     transition fence Snapshotting ((carry Stopping (generation (view c)) c)\<lparr>snap_auth := True\<rparr>) c"

definition complete_hibernate :: "u64 \<Rightarrow> ctl \<Rightarrow> ctl \<times> lc_error option" where
  "complete_hibernate fence c = transition fence Stopping (carry Hibernated (generation (view c)) c) c"

definition fail_attempt :: "u64 \<Rightarrow> ctl \<Rightarrow> ctl \<times> lc_error option" where
  "fail_attempt fence c =
     (if fence \<noteq> generation (view c) then (c, Some StaleFence)
      else if st (view c) \<notin> {Waking, Quiescing, Snapshotting, Stopping} then (c, Some InvalidTransition)
      else case persist ((carry Failed (generation (view c)) c)\<lparr>restore_gen := 0\<rparr>) c of
             (c', Some e) \<Rightarrow> (c', Some e)
           | (c', None) \<Rightarrow> (c'\<lparr>view := (view c')\<lparr>st := Failed, restore_gen := 0\<rparr>\<rparr>, None))"

subsection \<open>The store's contract\<close>

lemma store_load_frame [frame_simps]:
  "view (fst (store_load c)) = view c" "row (fst (store_load c)) = row c" "persistent (fst (store_load c)) = persistent c"
  by (simp_all add: store_load_def Let_def)

lemma store_load_value: "snd (store_load c) = Inr r \<Longrightarrow> r = row c \<and> valid_state (st r)"
  by (auto simp: store_load_def Let_def split: if_splits)

lemma store_cas_frame [frame_simps]:
  "view (fst (store_cas e n c)) = view c" "persistent (fst (store_cas e n c)) = persistent c"
  by (simp_all add: store_cas_def Let_def split: store_fault.split)

interpretation store: cas_register row store_cas
  by unfold_locales (auto simp: store_cas_def Let_def split: store_fault.splits if_splits)

lemma reload_cases:
  obtains (failed) c' e where "reload c = (c', Some e)" "view c' = view c" "row c' = row c" "persistent c' = persistent c"
  | (read) c' where "reload c = (c', None)" "view c' = (if persistent c then row c else view c)"
      "row c' = row c" "persistent c' = persistent c"
  using store_load_frame [of c] store_load_value [of c]
  by (fastforce simp: reload_def split: sum.splits prod.splits if_splits)

lemma persist_frame:
  assumes "persistent c"
  shows "persistent (fst (persist n c))"
    and "row (fst (persist n c)) = row c \<or> row c = view c \<and> row (fst (persist n c)) = n"
    and "snd (persist n c) = None \<Longrightarrow> row c = view c \<and> row (fst (persist n c)) = n \<and> view (fst (persist n c)) = view c"
proof -
  obtain c' e where cas: "store_cas (view c) n c = (c', e)" by (cases "store_cas (view c) n c")
  note s = store.swap_or_not [of "view c" n c] store.swap_done [of "view c" n c] store_cas_frame [of "view c" n c]
  have "persistent (fst (persist n c)) \<and> row (fst (persist n c)) = row c' \<and> (snd (persist n c) = None \<longrightarrow> e = None \<and> fst (persist n c) = c')"
  proof (cases "e = Some StateConflict")
    case True
    have p: "persistent c'" using assms cas s(4) by simp
    show ?thesis
    proof (cases c' rule: reload_cases)
      case (failed c'' e')
      then show ?thesis using True cas assms p by (simp add: persist_def)
    next
      case (read c'')
      then show ?thesis using True cas assms p by (simp add: persist_def)
    qed
  next
    case False
    then have "persist n c = (c', e)" using assms cas
      by (simp add: persist_def split: option.split lc_error.split)
    then show ?thesis using assms cas s(4) by simp
  qed
  then show "persistent (fst (persist n c))"
    and "row (fst (persist n c)) = row c \<or> row c = view c \<and> row (fst (persist n c)) = n"
    and "snd (persist n c) = None \<Longrightarrow> row c = view c \<and> row (fst (persist n c)) = n \<and> view (fst (persist n c)) = view c"
    using s cas by auto
qed

subsection \<open>The calls, and the steps they make\<close>

datatype lc_call =
    SetWakeDeadline u64 time | BeginWake | Acknowledge u64 | OperatorRestore u64 u64
  | DeclareSnapshot u64 | DeclareVolume u64 | Recovery u64 | Activate time u64
  | Hibernate u64 | Snapshot u64 | Stop u64 | Complete u64 | FailAttempt u64

definition plain :: "ctl \<times> lc_error option \<Rightarrow> ctl \<times> (u64 \<times> lc_error option)" where
  "plain r = (fst r, 0, snd r)"

fun perform :: "lc_call \<Rightarrow> ctl \<Rightarrow> ctl \<times> (u64 \<times> lc_error option)" where
  "perform (SetWakeDeadline f d) c = plain (set_wake_deadline f d c)"
| "perform BeginWake c = begin_wake c"
| "perform (Acknowledge f) c = acknowledge_failure f c"
| "perform (OperatorRestore f g) c = begin_operator_restore f g c"
| "perform (DeclareSnapshot f) c = plain (declare_snapshot_authoritative f c)"
| "perform (DeclareVolume f) c = plain (declare_volume_authoritative f c)"
| "perform (Recovery f) c = plain (begin_recovery f c)"
| "perform (Activate now f) c = plain (activate now f c)"
| "perform (Hibernate f) c = begin_hibernate f c"
| "perform (Snapshot f) c = plain (begin_snapshot f c)"
| "perform (Stop f) c = plain (begin_stop f c)"
| "perform (Complete f) c = plain (complete_hibernate f c)"
| "perform (FailAttempt f) c = plain (fail_attempt f c)"

text \<open>
  The abstract life of the durable record: which transitions exist, what each carries and what it
  changes.
\<close>

inductive lc_step :: "state_record \<Rightarrow> state_record \<Rightarrow> bool" where
  deadline: "lc_step r (r\<lparr>wake_deadline := d\<rparr>)"
| wake: "st r = Hibernated \<Longrightarrow> lc_step r (r\<lparr>st := Waking, generation := generation r + 1, restore_gen := 0\<rparr>)"
| operator: "st r \<in> {Failed, Hibernated} \<Longrightarrow> g \<noteq> 0 \<Longrightarrow>
    lc_step r (r\<lparr>st := Waking, generation := generation r + 1, restore_gen := g\<rparr>)"
| acknowledge: "st r = Failed \<Longrightarrow> lc_step r (r\<lparr>st := Hibernated, generation := generation r + 1, restore_gen := 0\<rparr>)"
| restoring: "st r = Waking \<Longrightarrow> lc_step r (r\<lparr>snap_auth := True\<rparr>)"
| running: "st r = Waking \<Longrightarrow> lc_step r (r\<lparr>snap_auth := False\<rparr>)"
| recover: "st r \<in> {Quiescing, Snapshotting, Stopping} \<Longrightarrow> lc_step r (r\<lparr>st := Waking\<rparr>)"
| serve: "st r = Waking \<Longrightarrow> d = wake_deadline r \<or> d = 0 \<Longrightarrow>
    lc_step r (r\<lparr>st := Active, snap_auth := False, restore_gen := 0, wake_deadline := d\<rparr>)"
| quiesce: "st r = Active \<Longrightarrow> lc_step r (r\<lparr>st := Quiescing, generation := generation r + 1\<rparr>)"
| snap: "st r = Quiescing \<Longrightarrow> lc_step r (r\<lparr>st := Snapshotting\<rparr>)"
| stop: "st r = Snapshotting \<Longrightarrow> lc_step r (r\<lparr>st := Stopping, snap_auth := True\<rparr>)"
| complete: "st r = Stopping \<Longrightarrow> lc_step r (r\<lparr>st := Hibernated\<rparr>)"
| failure: "st r \<in> {Waking, Quiescing, Snapshotting, Stopping} \<Longrightarrow> lc_step r (r\<lparr>st := Failed, restore_gen := 0\<rparr>)"

fun mints :: "lc_call \<Rightarrow> bool" where
  "mints BeginWake = True"
| "mints (Acknowledge _) = True"
| "mints (OperatorRestore _ _) = True"
| "mints (Hibernate _) = True"
| "mints _ = False"

text \<open>
  What a call that ends in \<^verbatim>\<open>persistLocked\<close> does to the store: it writes the record it built from
  its view, a step of the record, and only if that view is what the store holds.
\<close>

lemma persist_step:
  assumes "persistent c" "lc_step (view c) n" "persist n c = (c', e)"
  shows "persistent c'" "row c' = row c \<or> row c = view c \<and> row c' = n \<and> lc_step (row c) (row c')"
    "e = None \<Longrightarrow> row c = view c \<and> row c' = n \<and> view c' = view c"
  using persist_frame [OF assms(1), of n] assms(2,3) by auto

definition lawful :: "lc_call \<Rightarrow> ctl \<Rightarrow> ctl \<times> (u64 \<times> lc_error option) \<Rightarrow> bool" where
  "lawful call c = (\<lambda>(c', g, e). persistent c'
     \<and> (row c' = row c \<or> lc_step (row c) (row c') \<and> (call \<noteq> BeginWake \<longrightarrow> row c = view c))
     \<and> (mints call \<longrightarrow> e = None \<longrightarrow> g = generation (row c') \<and> g = generation (row c) + 1)
     \<and> (e = None \<longrightarrow> view c' = row c' \<or> row c' = row c \<and> view c' = view c))"

lemma persist_lawful:
  assumes "persistent c" "lc_step (view c) n" "U (view c) = n"
    and "mints call \<Longrightarrow> g = generation n \<and> g = generation (view c) + 1"
  shows "lawful call c (case persist n c of
      (c', Some e) \<Rightarrow> (c', 0, Some e) | (c', None) \<Rightarrow> (c'\<lparr>view := U (view c')\<rparr>, g, None))"
proof -
  obtain c' e where p: "persist n c = (c', e)" by (cases "persist n c")
  note s = persist_step [OF assms(1,2) p]
  show ?thesis
  proof (cases e)
    case None
    then have "row c = view c" "row c' = n" "view c' = view c" using s(3) by auto
    then show ?thesis using assms s(1) p None by (auto simp: lawful_def)
  next
    case (Some e')
    then show ?thesis using s(1,2) p by (auto simp: lawful_def)
  qed
qed

lemma lawful_refusal: "persistent c \<Longrightarrow> lawful call c (c, g, Some e)"
  by (simp add: lawful_def)

lemma lawful_noop: "persistent c \<Longrightarrow> \<not> mints call \<Longrightarrow> lawful call c (c, g, None)"
  by (simp add: lawful_def)

lemma lawful_if: "(b \<Longrightarrow> lawful call c x) \<Longrightarrow> (\<not> b \<Longrightarrow> lawful call c y) \<Longrightarrow> lawful call c (if b then x else y)"
  by simp

lemma plain_if: "plain (if b then x else y) = (if b then plain x else plain y)"
  by simp

lemma plain_pair: "plain (c, e) = (c, 0, e)"
  by (simp add: plain_def)

lemma plain_case: "plain (case p of (c', Some e) \<Rightarrow> (c', Some e) | (c', None) \<Rightarrow> (h c', None)) =
    (case p of (c', Some e) \<Rightarrow> (c', 0, Some e) | (c', None) \<Rightarrow> (h c', 0, None))"
  by (simp add: plain_def split: prod.split option.split)

lemmas plain_simps = plain_if plain_pair plain_case
lemmas lawful_intros = lawful_if lawful_refusal lawful_noop

lemma transition_lawful:
  assumes "persistent c" "st (view c) = from_state \<Longrightarrow> lc_step (view c) n" "\<not> mints call"
  shows "lawful call c (plain (transition f from_state n c))"
  unfolding transition_def plain_simps
  by (intro lawful_intros persist_lawful [where U = "\<lambda>_. n"]) (use assms in auto)

lemma serve_early: "st r = Waking \<Longrightarrow> lc_step r (r\<lparr>st := Active, snap_auth := False, restore_gen := 0\<rparr>)"
  using lc_step.serve [of r "wake_deadline r"] by simp

lemma deadline_lawful: "persistent c \<Longrightarrow> lawful (SetWakeDeadline f d) c (plain (set_wake_deadline f d c))"
  unfolding set_wake_deadline_def plain_simps
  by (intro lawful_intros persist_lawful [where U = "\<lambda>v. v\<lparr>wake_deadline := d\<rparr>"]) (auto intro: lc_step.deadline)

lemma recovery_lawful: "persistent c \<Longrightarrow> lawful (Recovery f) c (plain (begin_recovery f c))"
  unfolding begin_recovery_def plain_simps carry_def
  by (intro lawful_intros persist_lawful [where U = "\<lambda>v. v\<lparr>st := Waking\<rparr>"]) (auto intro: lc_step.recover)

lemma fail_lawful: "persistent c \<Longrightarrow> lawful (FailAttempt f) c (plain (fail_attempt f c))"
  unfolding fail_attempt_def plain_simps carry_def
  by (intro lawful_intros persist_lawful [where U = "\<lambda>v. v\<lparr>st := Failed, restore_gen := 0\<rparr>"])
     (auto intro: lc_step.failure)

lemma restoring_lawful: "persistent c \<Longrightarrow> lawful (DeclareSnapshot f) c (plain (declare_snapshot_authoritative f c))"
  unfolding declare_snapshot_authoritative_def plain_simps
  by (intro lawful_intros persist_lawful [where U = "\<lambda>v. v\<lparr>snap_auth := True\<rparr>"]) (auto intro: lc_step.restoring)

lemma running_lawful: "persistent c \<Longrightarrow> lawful (DeclareVolume f) c (plain (declare_volume_authoritative f c))"
  unfolding declare_volume_authoritative_def plain_simps
  by (intro lawful_intros persist_lawful [where U = "\<lambda>v. v\<lparr>snap_auth := False\<rparr>"]) (auto intro: lc_step.running)

lemma hibernate_lawful: "persistent c \<Longrightarrow> lawful (Hibernate f) c (begin_hibernate f c)"
  unfolding begin_hibernate_def carry_def Let_def
  by (intro lawful_intros persist_lawful [where U = "\<lambda>v. v\<lparr>generation := generation (view c) + 1, st := Quiescing\<rparr>"])
     (auto dest: lc_step.quiesce)

lemma acknowledge_lawful: "persistent c \<Longrightarrow> lawful (Acknowledge f) c (acknowledge_failure f c)"
  unfolding acknowledge_failure_def carry_def Let_def
  by (intro lawful_intros persist_lawful [where U = "\<lambda>v. v\<lparr>generation := generation (view c) + 1, st := Hibernated, restore_gen := 0\<rparr>"])
     (auto dest: lc_step.acknowledge)

lemma operator_lawful: "persistent c \<Longrightarrow> lawful (OperatorRestore f g) c (begin_operator_restore f g c)"
  unfolding begin_operator_restore_def carry_def Let_def
  by (intro lawful_intros persist_lawful [where U = "\<lambda>v. v\<lparr>generation := generation (view c) + 1, st := Waking, restore_gen := g\<rparr>"])
     (auto intro: lc_step.operator)

definition elect :: "ctl \<Rightarrow> ctl \<times> (u64 \<times> lc_error option)" where
  "elect c =
     (if st (view c) = Active then (c, generation (view c), Some AlreadyActive)
      else if st (view c) = Failed then (c, 0, Some RecoveryRequired)
      else if st (view c) \<noteq> Hibernated then (c, 0, Some WakeInProgress)
      else case persist ((carry Waking (generation (view c) + 1) c)\<lparr>restore_gen := 0\<rparr>) c of
             (c', Some e) \<Rightarrow> (c', 0, Some e)
           | (c', None) \<Rightarrow> (c'\<lparr>view := (view c')\<lparr>generation := generation (view c) + 1, st := Waking, restore_gen := 0\<rparr>\<rparr>,
                           generation (view c) + 1, None))"

lemma begin_wake_elect: "begin_wake c0 = (case reload c0 of (c, Some e) \<Rightarrow> (c, 0, Some e) | (c, None) \<Rightarrow> elect c)"
  unfolding begin_wake_def elect_def Let_def by (rule refl)

lemma elect_lawful: "persistent c \<Longrightarrow> lawful BeginWake c (elect c)"
  unfolding elect_def carry_def
  by (intro lawful_intros persist_lawful [where U = "\<lambda>v. v\<lparr>generation := generation (view c) + 1, st := Waking, restore_gen := 0\<rparr>"])
     (auto dest: lc_step.wake)

lemma wake_lawful:
  assumes "persistent c"
  shows "lawful BeginWake c (begin_wake c)"
proof (cases c rule: reload_cases)
  case (failed c' e)
  then show ?thesis using assms by (simp add: begin_wake_elect lawful_def)
next
  case (read c')
  then show ?thesis using elect_lawful [of c'] assms by (auto simp: begin_wake_elect lawful_def split: prod.splits)
qed

lemma perform_lawful: "persistent c \<Longrightarrow> lawful call c (perform call c)"
proof (cases call)
  case (Activate now f)
  then show "persistent c \<Longrightarrow> ?thesis" unfolding Activate perform.simps activate_def carry_def Let_def
    by (intro transition_lawful) (auto intro: serve_early dest: lc_step.serve [where d = 0])
next
  case (Snapshot f)
  then show "persistent c \<Longrightarrow> ?thesis" unfolding Snapshot perform.simps begin_snapshot_def carry_def
    by (intro transition_lawful) (auto dest: lc_step.snap)
next
  case (Stop f)
  then show "persistent c \<Longrightarrow> ?thesis" unfolding Stop perform.simps begin_stop_def carry_def
    by (intro transition_lawful) (auto dest: lc_step.stop)
next
  case (Complete f)
  then show "persistent c \<Longrightarrow> ?thesis" unfolding Complete perform.simps complete_hibernate_def carry_def
    by (intro transition_lawful) (auto dest: lc_step.complete)
qed (simp_all add: deadline_lawful recovery_lawful fail_lawful restoring_lawful running_lawful hibernate_lawful
       acknowledge_lawful operator_lawful wake_lawful)

subsection \<open>Several controllers of one store\<close>

record cluster =
  cl_row :: state_record
  cl_faults :: "store_fault list"
  cl_views :: "state_record list"

definition controller_of :: "nat \<Rightarrow> cluster \<Rightarrow> ctl" where
  "controller_of i cl = \<lparr>view = cl_views cl ! i, persistent = True, row = cl_row cl, faults = cl_faults cl\<rparr>"

definition on_replica :: "nat \<Rightarrow> lc_call \<Rightarrow> cluster \<Rightarrow> cluster \<times> (u64 \<times> lc_error option)" where
  "on_replica i call cl = (case perform call (controller_of i cl) of
     (c, res) \<Rightarrow> (\<lparr>cl_row = row c, cl_faults = faults c, cl_views = (cl_views cl)[i := view c]\<rparr>, res))"

text \<open>A schedule: which replica makes which call. The generations granted on the way are kept in order.\<close>

fun run_cluster :: "(nat \<times> lc_call) list \<Rightarrow> cluster \<Rightarrow> cluster \<times> u64 list" where
  "run_cluster [] cl = (cl, [])"
| "run_cluster ((i, call) # script) cl =
     (let (cl1, g, e) = on_replica i call cl; (cl2, gs) = run_cluster script cl1
      in (cl2, if mints call \<and> e = None then g # gs else gs))"

lemma stale_caller_moves_nothing_aux:
  assumes "persistent c" "call \<noteq> BeginWake" "row (fst (perform call c)) \<noteq> row c"
  shows "row c = view c"
  using perform_lawful [OF assms(1), of call] assms(2,3) by (auto simp: lawful_def split: prod.splits)

lemma on_replica_lawful:
  assumes "on_replica i call cl = (cl', g, e)"
  shows "cl_row cl' = cl_row cl \<or> lc_step (cl_row cl) (cl_row cl')"
    "mints call \<Longrightarrow> e = None \<Longrightarrow> g = generation (cl_row cl') \<and> g = generation (cl_row cl) + 1"
proof -
  obtain c' g' e' where p: "perform call (controller_of i cl) = (c', g', e')" by (metis prod_cases3)
  have c: "row (controller_of i cl) = cl_row cl" "persistent (controller_of i cl)" by (simp_all add: controller_of_def)
  have l: "row c' = cl_row cl \<or> lc_step (cl_row cl) (row c')"
    "mints call \<longrightarrow> e' = None \<longrightarrow> g' = generation (row c') \<and> g' = generation (cl_row cl) + 1"
    using perform_lawful [OF c(2), of call] unfolding p lawful_def c(1) prod.case by blast+
  have eq: "cl_row cl' = row c'" "g' = g" "e' = e" using assms p by (auto simp: on_replica_def)
  show "cl_row cl' = cl_row cl \<or> lc_step (cl_row cl) (cl_row cl')" using l(1) unfolding eq .
  show "mints call \<Longrightarrow> e = None \<Longrightarrow> g = generation (cl_row cl') \<and> g = generation (cl_row cl) + 1"
    using l(2) unfolding eq by blast
qed

subsection \<open>What holds of the durable record\<close>

definition lc_ok :: "state_record \<Rightarrow> bool" where
  "lc_ok r \<longleftrightarrow> valid_state (st r)
     \<and> (restore_gen r \<noteq> 0 \<longrightarrow> st r = Waking)
     \<and> (st r \<in> {Active, Quiescing, Snapshotting} \<longrightarrow> \<not> snap_auth r)
     \<and> (st r = Stopping \<longrightarrow> snap_auth r)"

lemma lc_step_ok: "lc_step r r' \<Longrightarrow> lc_ok r \<Longrightarrow> lc_ok r'"
  by (induction rule: lc_step.induct) (auto simp: lc_ok_def)

lemma lc_steps_ok: "lc_step\<^sup>*\<^sup>* r r' \<Longrightarrow> lc_ok r \<Longrightarrow> lc_ok r'"
  by (induction rule: rtranclp_induct) (auto intro: lc_step_ok)

lemma lc_step_generation: "lc_step r r' \<Longrightarrow> generation r' = generation r \<or> generation r' = generation r + 1"
  by (induction rule: lc_step.induct) auto

lemma run_cluster_steps: "lc_step\<^sup>*\<^sup>* (cl_row cl) (cl_row (fst (run_cluster script cl)))"
proof (induction script arbitrary: cl)
  case (Cons a script)
  obtain i call where a: "a = (i, call)" by (cases a)
  obtain cl1 g e where one: "on_replica i call cl = (cl1, g, e)" by (cases "on_replica i call cl")
  have "lc_step\<^sup>*\<^sup>* (cl_row cl) (cl_row cl1)" using on_replica_lawful(1) [OF one] by auto
  then show ?case using Cons.IH [of cl1] a one by (auto simp: Let_def split: prod.splits intro: rtranclp_trans)
qed simp

lemma run_cluster_grants:
  assumes "unat (generation (cl_row cl)) + length script < 2 ^ 64"
  shows "sorted_wrt (<) (snd (run_cluster script cl))
    \<and> (\<forall>g \<in> set (snd (run_cluster script cl)). generation (cl_row cl) < g)"
  using assms
proof (induction script arbitrary: cl)
  case (Cons a script)
  obtain i call where a: "a = (i, call)" by (cases a)
  obtain cl1 g e where one: "on_replica i call cl = (cl1, g, e)" by (cases "on_replica i call cl")
  obtain cl2 gs where rest: "run_cluster script cl1 = (cl2, gs)" by (cases "run_cluster script cl1")
  let ?g = "generation (cl_row cl)"
  have next_gen: "unat (?g + 1) = unat ?g + 1" using Cons.prems by (simp add: unat_word_ariths)
  then have up: "?g < ?g + 1" by (simp add: word_less_nat_alt)
  have gen1: "generation (cl_row cl1) = ?g \<or> generation (cl_row cl1) = ?g + 1"
    using on_replica_lawful(1) [OF one] lc_step_generation by auto
  then have "unat (generation (cl_row cl1)) + length script < 2 ^ 64" using Cons.prems next_gen by auto
  then have IH: "sorted_wrt (<) gs" "\<forall>h \<in> set gs. generation (cl_row cl1) < h" using Cons.IH [of cl1] rest by auto
  then have later: "\<forall>h \<in> set gs. ?g < h" using gen1 up by (auto intro: less_trans)
  show ?case
  proof (cases "mints call \<and> e = None")
    case True
    then have "g = generation (cl_row cl1)" "g = ?g + 1" using on_replica_lawful(2) [OF one] by auto
    then show ?thesis using True a one rest IH later up by (simp add: Let_def)
  next
    case False
    then have "snd (run_cluster (a # script) cl) = gs" using a one rest by (auto simp: Let_def)
    then show ?thesis using IH(1) later by simp
  qed
qed simp

fun fence_of :: "lc_call \<Rightarrow> u64 option" where
  "fence_of (SetWakeDeadline f _) = Some f"
| "fence_of BeginWake = None"
| "fence_of (Acknowledge f) = Some f"
| "fence_of (OperatorRestore f _) = Some f"
| "fence_of (DeclareSnapshot f) = Some f"
| "fence_of (DeclareVolume f) = Some f"
| "fence_of (Recovery f) = Some f"
| "fence_of (Activate _ f) = Some f"
| "fence_of (Hibernate f) = Some f"
| "fence_of (Snapshot f) = Some f"
| "fence_of (Stop f) = Some f"
| "fence_of (Complete f) = Some f"
| "fence_of (FailAttempt f) = Some f"

lemmas lc_op_defs = set_wake_deadline_def begin_wake_def acknowledge_failure_def begin_operator_restore_def
  declare_snapshot_authoritative_def declare_volume_authoritative_def begin_recovery_def transition_def
  activate_def begin_hibernate_def begin_snapshot_def begin_stop_def complete_hibernate_def fail_attempt_def

lemma stale_fence_refused:
  "fence_of call = Some f \<Longrightarrow> f \<noteq> generation (view c) \<Longrightarrow>
     fst (perform call c) = c \<and> snd (snd (perform call c)) \<in> {Some StaleFence, Some NotRestorable}"
  by (cases call) (simp_all add: lc_op_defs plain_def Let_def)

subsection \<open>Learning the durable record\<close>

lemma reload_answers:
  assumes "persistent c" "faults c = []" "valid_state (st (row c))"
  shows "reload c = (c\<lparr>view := row c\<rparr>, None)"
  using assms by (simp add: reload_def store_load_def next_fault_def Let_def)

lemma persist_answers:
  assumes "persistent c" "faults c = []" "valid_state (st (row c))" "valid_state (st (view c))" "valid_state (st n)"
  shows "persist n c = (if row c = view c then (c\<lparr>row := n\<rparr>, None) else (c\<lparr>view := row c\<rparr>, Some StateConflict))"
  using assms by (simp add: persist_def store_cas_def next_fault_def reload_answers Let_def)

lemma begin_wake_answers:
  assumes "persistent c" "faults c = []" "valid_state (st (row c))"
  shows "begin_wake c =
    (if st (row c) = Active then (c\<lparr>view := row c\<rparr>, generation (row c), Some AlreadyActive)
     else if st (row c) = Failed then (c\<lparr>view := row c\<rparr>, 0, Some RecoveryRequired)
     else if st (row c) \<noteq> Hibernated then (c\<lparr>view := row c\<rparr>, 0, Some WakeInProgress)
     else let r = (row c)\<lparr>st := Waking, generation := generation (row c) + 1, restore_gen := 0\<rparr>
          in (c\<lparr>view := r, row := r\<rparr>, generation (row c) + 1, None))"
  using assms persist_answers [of "c\<lparr>view := row c\<rparr>"]
  by (simp add: begin_wake_elect reload_answers elect_def carry_def Let_def)

subsection \<open>Properties\<close>


text \<open>
  C13. The durable record never claims what would lose data or consent: a serving, quiescing or
  snapshotting stack has no authoritative snapshot, a stopping one has, and an operator's selection
  of a generation is outstanding only while the attempt it was given for is waking.
\<close>

theorem durable_record_truthful:
  assumes "lc_ok (cl_row cl)" "row' = cl_row (fst (run_cluster script cl))"
  shows "valid_state (st row')
    \<and> (st row' \<in> {Active, Quiescing, Snapshotting} \<longrightarrow> \<not> snap_auth row')
    \<and> (st row' = Stopping \<longrightarrow> snap_auth row')
    \<and> (restore_gen row' \<noteq> 0 \<longrightarrow> st row' = Waking)"
  using lc_steps_ok [OF run_cluster_steps assms(1), of script] assms(2) by (auto simp: lc_ok_def)

text \<open>
  C4. A generation is granted at most once, whoever asks: over any interleaving of fewer than
  \<open>2 ^ 64\<close> calls, the fences handed out for wakes, operator restores, acknowledgements and
  hibernations strictly increase, so no two attempts ever own the same one.
\<close>

theorem generation_granted_once:
  assumes "unat (generation (cl_row cl)) + length script < 2 ^ 64"
  shows "sorted_wrt (<) (snd (run_cluster script cl)) \<and> distinct (snd (run_cluster script cl))
    \<and> generation (cl_row cl) \<notin> set (snd (run_cluster script cl))"
  using run_cluster_grants [OF assms] strict_sorted_iff by blast

text \<open>
  A fenced-out or out-of-date caller cannot move the record: a call naming a fence other than
  the current generation, or made from a view other than the durable record, leaves it as it was.
  Only \<^verbatim>\<open>BeginWake\<close>, which names no fence, reads the record first.
\<close>

theorem stale_caller_moves_nothing:
  assumes "persistent c" "call \<noteq> BeginWake" "row c \<noteq> view c \<or> fence_of call \<noteq> Some (generation (row c))"
  shows "row (fst (perform call c)) = row c"
proof (cases "row c = view c")
  case True
  obtain f where f: "fence_of call = Some f" using assms(2) by (cases call) auto
  then have "f \<noteq> generation (view c)" using assms(3) True by auto
  then show ?thesis using stale_fence_refused [OF f] by auto
next
  case False
  then show ?thesis using stale_caller_moves_nothing_aux [OF assms(1,2)] by blast
qed

text \<open>
  When the store answers, the wake election is a function of the durable record alone, however
  stale the caller's view: it wins exactly when the stack is hibernated, keeps the snapshot authority
  and the scheduled deadline, drops any operator selection, and every outcome leaves the caller
  knowing the record.
\<close>

theorem wake_election_sees_durable_record:
  assumes "persistent c" "faults c = []" "valid_state (st (row c))"
  shows "let r = row c; (c', g, e) = begin_wake c in
    e = (if st r = Hibernated then None else if st r = Active then Some AlreadyActive
         else if st r = Failed then Some RecoveryRequired else Some WakeInProgress)
    \<and> view c' = row c'
    \<and> row c' = (if st r = Hibernated then r\<lparr>st := Waking, generation := generation r + 1, restore_gen := 0\<rparr> else r)
    \<and> (st r = Hibernated \<longrightarrow> g = generation r + 1) \<and> (st r = Active \<longrightarrow> g = generation r)"
  using begin_wake_answers [OF assms] by (simp add: Let_def)

text \<open>
  A controller that lost a race recovers: when the store answers, a call that fails with a
  conflict leaves the caller's view equal to the durable record, so its next call is judged against
  the record and not against its old expectation.
\<close>

theorem conflict_refreshes_view:
  assumes "persistent c" "faults c = []" "valid_state (st (row c))" "valid_state (st (view c))"
    and "perform call c = (c', g, Some StateConflict)"
  shows "view c' = row c' \<and> row c' = row c"
  using assms persist_answers [OF assms(1-4)] begin_wake_answers [OF assms(1-3)]
  by (cases call) (auto simp: lc_op_defs plain_def carry_def Let_def split: if_splits)

subsection \<open>The properties on a deployment\<close>

definition wit_seed :: state_record where
  "wit_seed = \<lparr>st = Hibernated, generation = 4, wake_deadline = 100, snap_auth = True, restore_gen = 0\<rparr>"

definition wit_cluster :: cluster where
  "wit_cluster = \<lparr>cl_row = wit_seed, cl_faults = [], cl_views = [wit_seed, wit_seed]\<rparr>"

definition wit_script :: "(nat \<times> lc_call) list" where
  "wit_script = [(0, BeginWake), (1, BeginWake), (0, DeclareSnapshot 5), (0, DeclareVolume 5), (0, Activate 200 5),
                 (1, Hibernate 5), (1, BeginWake), (1, Hibernate 5)]"

lemma wit_cluster_ok: "lc_ok (cl_row wit_cluster)" "unat (generation (cl_row wit_cluster)) + length wit_script < 2 ^ 64"
  by (simp_all add: wit_cluster_def wit_seed_def lc_ok_def wit_script_def)

theorem durable_record_truthful_witness:
  "\<not> snap_auth (cl_row (fst (run_cluster wit_script wit_cluster)))
   \<and> st (cl_row (fst (run_cluster wit_script wit_cluster))) = Quiescing"
proof -
  have "st (cl_row (fst (run_cluster wit_script wit_cluster))) = Quiescing" by code_simp
  then show ?thesis using durable_record_truthful [OF wit_cluster_ok(1) refl, of wit_script] by simp
qed

theorem generation_granted_once_witness: "distinct (snd (run_cluster wit_script wit_cluster))
    \<and> snd (run_cluster wit_script wit_cluster) = [5, 6]"
proof -
  have "snd (run_cluster wit_script wit_cluster) = [5, 6]" by code_simp
  then show ?thesis using generation_granted_once [OF wit_cluster_ok(2)] by simp
qed

definition wit_ctl :: ctl where
  "wit_ctl = \<lparr>view = wit_seed\<lparr>st := Failed, generation := 3\<rparr>, persistent = True, row = wit_seed, faults = []\<rparr>"

lemma wit_ctl_simps: "view wit_ctl = wit_seed\<lparr>st := Failed, generation := 3\<rparr>" "persistent wit_ctl" "row wit_ctl = wit_seed"
  "faults wit_ctl = []" "valid_state (st wit_seed)" "st wit_seed = Hibernated" "generation wit_seed = 4"
  by (simp_all add: wit_ctl_def wit_seed_def)

theorem stale_caller_moves_nothing_witness: "row (fst (perform (Acknowledge 3) wit_ctl)) = wit_seed"
  using stale_caller_moves_nothing [of wit_ctl "Acknowledge 3"] by (simp add: wit_ctl_simps)

theorem wake_election_sees_durable_record_witness:
  "snd (begin_wake wit_ctl) = (5, None)"
  using wake_election_sees_durable_record [of wit_ctl] by (simp add: wit_ctl_simps Let_def split: prod.splits)

theorem conflict_refreshes_view_witness: "view (fst (perform (Acknowledge 3) wit_ctl)) = wit_seed"
proof -
  have "perform (Acknowledge 3) wit_ctl = (fst (perform (Acknowledge 3) wit_ctl), 0, Some StateConflict)" by code_simp
  then show ?thesis using conflict_refreshes_view [of wit_ctl "Acknowledge 3"] by (simp add: wit_ctl_simps)
qed

subsection \<open>A declaration judged by the cached view\<close>

text \<open>
  \<^verbatim>\<open>DeclareSnapshotAuthoritative\<close> answers from the cached view when that already says the snapshot is
  authoritative: with a view another controller of the same fence has made stale, it reports success
  although the durable record says the volume is the newest copy, and writes nothing.
\<close>

lemma declaration_from_stale_view:
  assumes "st (view c) = Waking" "snap_auth (view c)" "\<not> snap_auth (row c)"
  shows "perform (DeclareSnapshot (generation (view c))) c = (c, 0, None) \<and> \<not> snap_auth (row c)"
  using assms by (simp add: declare_snapshot_authoritative_def plain_def)

end
