(* ===== verification/Coordinator.thy ===== *)
theory Coordinator
  imports Lifecycle
begin

section \<open>Hibernation, wake and recovery\<close>

text \<open>
  \<^verbatim>\<open>internal/lifecycle/coordinator.go\<close>. The runtime driver and the snapshotter are interfaces: what
  they answer is a script of replies (an answer with a manifest, a refusal, or the death of the
  process before or after the call took effect), and each call that was issued is logged. What the
  interfaces document about bytes is tracked beside the code: migrations, workers and servers write
  to the active volume once started; stopping persistence ends the writing; a snapshot created while
  nothing writes holds every byte; a restore and a release destroy what is on the volume. The
  observer \<open>observe\<close> records an operator's consent: when the durable record first calls the snapshot
  authoritative under a selected generation, the writes on the volume are given up. Metrics are
  write-only and left out.
\<close>

record manifest =
  m_generation :: u64
  m_schema :: int

datatype event =
    EInspect u64 | EStartPersistence u64 manifest | EMigrate u64 int | EStartWorkers u64 | EStartServers u64
  | EDrain u64 | EStopWorkers u64 | EStopPersistence u64 | ERelease u64
  | ECreate u64 | ECurrent u64 | ESelect u64 | ELive u64 | ERestore manifest

datatype reply = Answers manifest | Refuses | Dies | DiesBefore

datatype co_error =
    Ctl lc_error | EnvRefused | WithinSafetyWindow | BadTransition | BadGeneration
  | Both co_error "lc_error option"

record world =
  wc :: ctl
  replies :: "reply list"
  events :: "event list"
  writers :: bool
  unsaved :: bool
  lost :: bool

type_synonym 'a co = "(world, co_error, 'a) prog"

subsection \<open>Calls to the outside\<close>

fun effect :: "event \<Rightarrow> bool \<Rightarrow> world \<Rightarrow> world" where
  "effect (EMigrate _ _) ok w = w\<lparr>writers := True, unsaved := True\<rparr>"
| "effect (EStartWorkers _) ok w = w\<lparr>writers := True, unsaved := True\<rparr>"
| "effect (EStartServers _) ok w = w\<lparr>writers := True, unsaved := True\<rparr>"
| "effect (EStopPersistence _) ok w = (if ok then w\<lparr>writers := False\<rparr> else w)"
| "effect (ECreate _) ok w = (if ok \<and> \<not> writers w then w\<lparr>unsaved := False\<rparr> else w)"
| "effect (ERelease _) ok w = w\<lparr>lost := lost w \<or> unsaved w\<rparr>"
| "effect (ERestore _) ok w = w\<lparr>lost := lost w \<or> unsaved w, unsaved := False\<rparr>"
| "effect _ ok w = w"

definition call_env :: "event \<Rightarrow> manifest co" where
  "call_env ev w =
     (let w' = w\<lparr>replies := tl (replies w)\<rparr>; issued = w'\<lparr>events := events w @ [ev]\<rparr> in
      case (case replies w of [] \<Rightarrow> Refuses | r # _ \<Rightarrow> r) of
        DiesBefore \<Rightarrow> (Crashed, w')
      | Dies \<Rightarrow> (Crashed, effect ev False issued)
      | Refuses \<Rightarrow> (Err EnvRefused, effect ev False issued)
      | Answers m \<Rightarrow> (Ok m, effect ev True issued))"

definition observe :: "ctl \<Rightarrow> world \<Rightarrow> world" where
  "observe c' w =
     (if \<not> snap_auth (row (wc w)) \<and> snap_auth (row c') \<and> restore_gen (row c') \<noteq> 0
      then w\<lparr>wc := c', unsaved := False, writers := False\<rparr> else w\<lparr>wc := c'\<rparr>)"

definition ctl_call :: "lc_call \<Rightarrow> u64 co" where
  "ctl_call call w = (case perform call (wc w) of
       (c', g, None) \<Rightarrow> (Ok g, observe c' w)
     | (c', g, Some e) \<Rightarrow> (Err (Ctl e), observe c' w))"

definition read_metadata :: "state_record co" where
  "read_metadata w = (Ok (metadata (wc w)), w)"

definition seqP :: "'a co \<Rightarrow> 'b co \<Rightarrow> 'b co" where
  "seqP m n = bindP m (\<lambda>_. n)"

text \<open>\<^verbatim>\<open>errors.Join(err, c.Controller.Fail(fence))\<close>\<close>

definition join_fail :: "u64 \<Rightarrow> co_error \<Rightarrow> 'a co" where
  "join_fail fence e w = (case ctl_call (FailAttempt fence) w of
       (Ok _, w') \<Rightarrow> (Err (Both e None), w')
     | (Err (Ctl e'), w') \<Rightarrow> (Err (Both e (Some e')), w')
     | (_, w') \<Rightarrow> (Crashed, w'))"

definition or_fail :: "u64 \<Rightarrow> 'a co \<Rightarrow> 'a co" where
  "or_fail fence m = handleP m (join_fail fence)"

subsection \<open>Hibernate\<close>

definition hibernate :: "duration \<Rightarrow> time \<Rightarrow> u64 \<Rightarrow> manifest co" where
  "hibernate margin now fence =
     bindP read_metadata (\<lambda>md.
       let remaining = wake_deadline md - now in
       if remaining > 0 \<and> remaining \<le> margin then errP WithinSafetyWindow
       else
         bindP (ctl_call (Hibernate fence)) (\<lambda>active.
         seqP (or_fail active (call_env (EInspect active)))
        (seqP (or_fail active (call_env (EDrain active)))
        (seqP (or_fail active (call_env (EStopWorkers active)))
        (seqP (or_fail active (ctl_call (Snapshot active)))
        (seqP (or_fail active (call_env (EStopPersistence active)))
        (bindP (or_fail active (call_env (ECreate active))) (\<lambda>m.
         seqP (or_fail active (ctl_call (Stop active)))
        (seqP (or_fail active (call_env (ERelease active)))
        (seqP (or_fail active (ctl_call (Complete active)))
              (retP m)))))))))))"

subsection \<open>Wake\<close>

definition wake_at_manifest :: "u64 \<Rightarrow> manifest \<Rightarrow> bool \<Rightarrow> unit co" where
  "wake_at_manifest fence m restore =
     seqP (call_env (EInspect fence))
    (seqP (if restore
           then seqP (ctl_call (DeclareSnapshot fence)) (seqP (call_env (ERestore m)) (retP ()))
           else retP ())
    (seqP (call_env (EStartPersistence fence m))
    (seqP (ctl_call (DeclareVolume fence))
    (seqP (call_env (EMigrate fence (m_schema m)))
    (seqP (call_env (EStartWorkers fence))
    (seqP (call_env (EStartServers fence))
          (retP ())))))))"

definition wake_at :: "u64 \<Rightarrow> unit co" where
  "wake_at fence =
     bindP read_metadata (\<lambda>md.
       if st md \<noteq> Waking \<or> generation md \<noteq> fence then errP BadTransition
       else if restore_gen md \<noteq> 0 then errP BadTransition
       else if \<not> snap_auth md
       then bindP (call_env (ELive fence)) (\<lambda>live. wake_at_manifest fence live False)
       else bindP (call_env (ECurrent fence)) (\<lambda>m. wake_at_manifest fence m True))"

definition restore_at :: "u64 \<Rightarrow> u64 \<Rightarrow> unit co" where
  "restore_at fence gen =
     (if gen = 0 then errP BadGeneration
      else bindP read_metadata (\<lambda>md.
        if st md \<noteq> Waking \<or> generation md \<noteq> fence then errP BadTransition
        else if restore_gen md \<noteq> gen then errP BadTransition
        else bindP (call_env (ESelect gen)) (\<lambda>m.
          if m_generation m \<noteq> gen then errP BadGeneration
          else wake_at_manifest fence m True)))"

subsection \<open>Recover\<close>

definition recover_interrupted_hibernate :: "time \<Rightarrow> u64 \<Rightarrow> unit co" where
  "recover_interrupted_hibernate now fence =
     seqP (ctl_call (Recovery fence))
    (seqP (or_fail fence (wake_at fence))
    (seqP (ctl_call (Activate now fence)) (retP ())))"

definition recover :: "time \<Rightarrow> unit co" where
  "recover now =
     bindP read_metadata (\<lambda>md.
       let fence = generation md in
       if st md = Active \<or> st md = Hibernated then retP ()
       else if st md = Waking then
         seqP (or_fail fence (if restore_gen md \<noteq> 0 then restore_at fence (restore_gen md) else wake_at fence))
        (seqP (ctl_call (Activate now fence)) (retP ()))
       else if st md \<in> {Quiescing, Snapshotting, Stopping} then recover_interrupted_hibernate now fence
       else if st md = Failed then errP (Ctl RecoveryRequired)
       else errP BadTransition)"

subsection \<open>What a controller call can leave behind\<close>

lemma persist_views:
  assumes "persistent c"
  shows "view (fst (persist n c)) = view c \<or> row (fst (persist n c)) = row c \<and> view (fst (persist n c)) = row c"
proof -
  obtain c' e where cas: "store_cas (view c) n c = (c', e)" by (cases "store_cas (view c) n c")
  have v: "view c' = view c" "persistent c'" using store_cas_frame [of "view c" n c] cas assms by simp_all
  show ?thesis
  proof (cases "e = Some StateConflict")
    case True
    then have "row c' = row c" using cas
      by (auto simp: store_cas_def Let_def split: if_splits store_fault.splits)
    then show ?thesis using True cas assms v
      by (cases c' rule: reload_cases) (simp_all add: persist_def)
  next
    case False
    then have "persist n c = (c', e)" using assms cas by (simp add: persist_def split: option.split lc_error.split)
    then show ?thesis using v by simp
  qed
qed

text \<open>
  After any call the caller's view is the one it had, the record before, or the record after: a lost
  answer leaves it one step behind.
\<close>

definition near :: "ctl \<Rightarrow> ctl \<Rightarrow> bool" where
  "near c c' \<longleftrightarrow> row c' = row c \<and> view c' \<in> {view c, row c} \<or> view c' \<in> {row c, row c'}"

lemma near_persist:
  assumes "persistent c" "U (view c) = n"
  shows "near c (fst (case persist n c of
      (c', Some e) \<Rightarrow> (c', 0 :: u64, Some e) | (c', None) \<Rightarrow> (c'\<lparr>view := U (view c')\<rparr>, g, None)))"
proof -
  obtain c' e where p: "persist n c = (c', e)" by (cases "persist n c")
  show ?thesis
    using persist_frame [OF assms(1), of n] persist_views [OF assms(1), of n] assms(2) p
    by (cases e) (auto simp: near_def)
qed

lemma near_refl: "near c c"
  by (simp add: near_def)

lemma near_if: "(b \<Longrightarrow> near c (fst x)) \<Longrightarrow> (\<not> b \<Longrightarrow> near c (fst y)) \<Longrightarrow> near c (fst (if b then x else y))"
  by simp

lemma near_same: "near c (fst (c, r))"
  by (simp add: near_def)

lemmas near_intros = near_if near_same

lemma near_transition: "persistent c \<Longrightarrow> near c (fst (plain (transition f from_state n c)))"
  unfolding transition_def plain_simps
  by (intro near_intros near_persist [where U = "\<lambda>_. n"]) auto

lemma perform_near: "persistent c \<Longrightarrow> near c (fst (perform call c))"
proof (cases call)
  case BeginWake
  assume p: "persistent c"
  have elect: "near c' (fst (elect c'))" if "persistent c'" for c'
    unfolding elect_def carry_def
    by (intro near_intros near_persist [where U = "\<lambda>v. v\<lparr>generation := generation (view c') + 1, st := Waking, restore_gen := 0\<rparr>"])
       (use that in auto)
  show ?thesis
  proof (cases c rule: reload_cases)
    case (failed c' e)
    then show ?thesis using BeginWake p by (simp add: begin_wake_elect near_def)
  next
    case (read c')
    then have "fst (begin_wake c) = fst (elect c')" by (simp add: begin_wake_elect)
    then show ?thesis using elect [of c'] read p BeginWake by (auto simp: near_def)
  qed
next
  case (SetWakeDeadline f d)
  assume p: "persistent c"
  show ?thesis unfolding SetWakeDeadline perform.simps set_wake_deadline_def plain_simps
    by (intro near_intros near_persist [where U = "\<lambda>v. v\<lparr>wake_deadline := d\<rparr>"]) (use p in auto)
next
  case (Acknowledge f)
  assume p: "persistent c"
  show ?thesis unfolding Acknowledge perform.simps acknowledge_failure_def carry_def Let_def
    by (intro near_intros near_persist [where U = "\<lambda>v. v\<lparr>generation := generation (view c) + 1, st := Hibernated, restore_gen := 0\<rparr>"])
       (use p in auto)
next
  case (OperatorRestore f g)
  assume p: "persistent c"
  show ?thesis unfolding OperatorRestore perform.simps begin_operator_restore_def carry_def Let_def
    by (intro near_intros near_persist [where U = "\<lambda>v. v\<lparr>generation := generation (view c) + 1, st := Waking, restore_gen := g\<rparr>"])
       (use p in auto)
next
  case (DeclareSnapshot f)
  assume p: "persistent c"
  show ?thesis unfolding DeclareSnapshot perform.simps declare_snapshot_authoritative_def plain_simps
    by (intro near_intros near_persist [where U = "\<lambda>v. v\<lparr>snap_auth := True\<rparr>"]) (use p in auto)
next
  case (DeclareVolume f)
  assume p: "persistent c"
  show ?thesis unfolding DeclareVolume perform.simps declare_volume_authoritative_def plain_simps
    by (intro near_intros near_persist [where U = "\<lambda>v. v\<lparr>snap_auth := False\<rparr>"]) (use p in auto)
next
  case (Recovery f)
  assume p: "persistent c"
  show ?thesis unfolding Recovery perform.simps begin_recovery_def plain_simps carry_def
    by (intro near_intros near_persist [where U = "\<lambda>v. v\<lparr>st := Waking\<rparr>"]) (use p in auto)
next
  case (Hibernate f)
  assume p: "persistent c"
  show ?thesis unfolding Hibernate perform.simps begin_hibernate_def carry_def Let_def
    by (intro near_intros near_persist [where U = "\<lambda>v. v\<lparr>generation := generation (view c) + 1, st := Quiescing\<rparr>"])
       (use p in auto)
next
  case (FailAttempt f)
  assume p: "persistent c"
  show ?thesis unfolding FailAttempt perform.simps fail_attempt_def plain_simps carry_def
    by (intro near_intros near_persist [where U = "\<lambda>v. v\<lparr>st := Failed, restore_gen := 0\<rparr>"]) (use p in auto)
qed (auto simp: activate_def begin_snapshot_def begin_stop_def complete_hibernate_def Let_def intro: near_transition)

text \<open>Who can make the snapshot authoritative, and from where.\<close>

lemma persist_low:
  assumes "persistent c" "persist n c = (c', e)"
  shows "snap_auth (row c') \<Longrightarrow> \<not> snap_auth (row c) \<Longrightarrow> snap_auth n"
  using persist_frame(2) [OF assms(1), of n] assms(2) by auto

lemma authority_rises:
  assumes "persistent c" "\<not> snap_auth (row c)" "snap_auth (row (fst (perform call c)))"
  shows "row c = view c \<and> ((\<exists>f. call = DeclareSnapshot f) \<or> (\<exists>f. call = Stop f))"
proof (cases "call = BeginWake")
  case True
  have elect: "snap_auth (row (fst (elect c'))) \<longrightarrow> snap_auth (row c')" if "persistent c'" for c'
    using persist_frame [OF that, of "view c'\<lparr>st := Waking, generation := generation (view c') + 1, restore_gen := 0\<rparr>"]
    by (auto simp: elect_def carry_def split: prod.splits option.splits)
  show ?thesis
  proof (cases c rule: reload_cases)
    case (failed c' e)
    then show ?thesis using True assms by (simp add: begin_wake_elect)
  next
    case (read c')
    then show ?thesis using True assms elect [of c'] by (simp add: begin_wake_elect)
  qed
next
  case False
  have "row (fst (perform call c)) \<noteq> row c" using assms(2,3) by auto
  then have eq: "row c = view c" using stale_caller_moves_nothing_aux [OF assms(1) False] by blast
  then have "\<not> snap_auth (view c)" using assms(2) by simp
  then have "(\<exists>f. call = DeclareSnapshot f) \<or> (\<exists>f. call = Stop f)"
    using assms False
    by (cases call) (auto simp: lc_op_defs plain_def carry_def Let_def split: if_splits prod.splits option.splits
        dest!: persist_low [OF assms(1)])
  then show ?thesis using eq by simp
qed

subsection \<open>No byte is lost\<close>

text \<open>
  What is true of a deployment between any two calls of its coordinator: if the record or the
  coordinator's view of it says the snapshot is authoritative, then nothing writes to the volume and
  it holds nothing a snapshot lacks; and a coordinator about to wake from the volume because its view
  says so agrees with the record.
\<close>

definition agrees :: "state_record \<Rightarrow> state_record \<Rightarrow> bool" where
  "agrees v r \<longleftrightarrow> (st v = Waking \<and> restore_gen v = 0 \<and> \<not> snap_auth v \<longrightarrow> \<not> snap_auth r)"

definition safe :: "world \<Rightarrow> bool" where
  "safe w \<longleftrightarrow> persistent (wc w) \<and> lc_ok (view (wc w)) \<and> lc_ok (row (wc w))
     \<and> (snap_auth (view (wc w)) \<or> snap_auth (row (wc w)) \<longrightarrow> \<not> unsaved w \<and> \<not> writers w)
     \<and> agrees (view (wc w)) (row (wc w)) \<and> \<not> lost w"

definition idle :: "world \<Rightarrow> bool" where
  "idle w \<longleftrightarrow> \<not> unsaved w \<and> \<not> writers w"

definition may_call :: "lc_call \<Rightarrow> world \<Rightarrow> bool" where
  "may_call call w \<longleftrightarrow> (case call of
       Stop _ \<Rightarrow> idle w
     | DeclareSnapshot _ \<Rightarrow> restore_gen (view (wc w)) \<noteq> 0 \<or> snap_auth (view (wc w))
     | _ \<Rightarrow> True)"

lemma observe_simps [simp]: "wc (observe c' w) = c'" "lost (observe c' w) = lost w"
  by (simp_all add: observe_def)

lemma observe_only_clears: "unsaved (observe c' w) \<longrightarrow> unsaved w" "writers (observe c' w) \<longrightarrow> writers w"
  by (simp_all add: observe_def)

lemma observe_idle: "idle w \<Longrightarrow> idle (observe c' w)"
  by (auto simp: idle_def observe_def)

lemma perform_views_ok:
  assumes "persistent c" "lc_ok (view c)" "lc_ok (row c)" "perform call c = (c', r)"
  shows "persistent c'" "lc_ok (row c')" "lc_ok (view c')"
proof -
  obtain g e where r: "r = (g, e)" by (cases r)
  have l: "lawful call c (c', g, e)" using perform_lawful [OF assms(1), of call] assms(4) r by simp
  then have steps: "row c' = row c \<or> lc_step (row c) (row c')" unfolding lawful_def by blast
  show "persistent c'" using l unfolding lawful_def by blast
  show ok: "lc_ok (row c')" using steps lc_step_ok assms(3) by metis
  have "view c' \<in> {view c, row c, row c'}" using perform_near [OF assms(1), of call] assms(4) unfolding near_def by auto
  then show "lc_ok (view c')" using ok assms(2,3) by auto
qed

lemma stop_moves:
  assumes "row (fst (perform (Stop f) c)) \<noteq> row c"
  shows "st (view c) = Snapshotting"
  using assms by (auto simp: begin_stop_def transition_def plain_def split: if_splits)

lemma declare_moves:
  assumes "persistent c" "row (fst (perform (DeclareSnapshot f) c)) \<noteq> row c"
  shows "\<not> snap_auth (view c) \<and> row (fst (perform (DeclareSnapshot f) c)) = (view c)\<lparr>snap_auth := True\<rparr>"
  using assms persist_frame(2) [OF assms(1), of "(view c)\<lparr>snap_auth := True\<rparr>"]
  by (auto simp: declare_snapshot_authoritative_def plain_def split: if_splits prod.splits option.splits)

lemma safe_perform:
  assumes w: "safe w" "may_call call w" and p: "perform call (wc w) = (c', r)"
  shows "safe (observe c' w)"
proof -
  let ?c = "wc w"
  have ok: "persistent c'" "lc_ok (row c')" "lc_ok (view c')"
    using perform_views_ok [OF _ _ _ p] w(1) by (auto simp: safe_def)
  have near: "near ?c c'" using perform_near [of ?c call] w(1) p by (auto simp: safe_def)
  show ?thesis
  proof (cases "snap_auth (row c') \<and> \<not> snap_auth (row ?c)")
    case False
    then have "snap_auth (view c') \<or> snap_auth (row c') \<longrightarrow> snap_auth (view ?c) \<or> snap_auth (row ?c)"
      using near by (auto simp: near_def)
    moreover have "agrees (view c') (row c')"
      using near False w(1) by (auto simp: near_def agrees_def safe_def)
    ultimately show ?thesis using ok w(1) using observe_only_clears [of c' w] by (auto simp: safe_def)
  next
    case True
    then have eq: "row ?c = view ?c" and call: "(\<exists>f. call = DeclareSnapshot f) \<or> (\<exists>f. call = Stop f)"
      using authority_rises [of ?c call] w(1) p by (auto simp: safe_def)
    have moved: "row (fst (perform call ?c)) \<noteq> row ?c" using True p by auto
    have "idle (observe c' w) \<and> (st (row ?c) \<noteq> Waking \<or> restore_gen (row ?c) \<noteq> 0)"
      using call
    proof (elim disjE exE)
      fix f assume f: "call = DeclareSnapshot f"
      then have m: "\<not> snap_auth (view ?c)" "row c' = (view ?c)\<lparr>snap_auth := True\<rparr>"
        using declare_moves [of ?c f] moved w(1) p by (auto simp: safe_def)
      then have "restore_gen (view ?c) \<noteq> 0" using w(2) f by (simp add: may_call_def)
      then show ?thesis using m True eq by (auto simp: observe_def idle_def)
    next
      fix f assume f: "call = Stop f"
      then have "st (view ?c) = Snapshotting" using stop_moves [of f ?c] moved by simp
      then show ?thesis using w(2) f eq by (auto simp: may_call_def intro: observe_idle)
    qed
    moreover have "view c' = row ?c \<or> view c' = row c'" using near eq by (auto simp: near_def)
    ultimately have "idle (observe c' w) \<and> agrees (view c') (row c')"
      by (auto simp: agrees_def)
    then show ?thesis using ok w(1) by (auto simp: safe_def idle_def)
  qed
qed

subsection \<open>Every step keeps the deployment safe\<close>

text \<open>
  A step started safely leaves the deployment safe however it ends, also by the death of the process,
  and establishes \<open>Q\<close> if it succeeds.
\<close>

definition keeps :: "(world \<Rightarrow> bool) \<Rightarrow> 'a co \<Rightarrow> ('a \<Rightarrow> world \<Rightarrow> bool) \<Rightarrow> bool" where
  "keeps P m Q \<longleftrightarrow> triple (\<lambda>w. safe w \<and> P w) m (\<lambda>a w. safe w \<and> Q a w) (\<lambda>_. safe) safe"

lemma keeps_ret: "(\<And>w. P w \<Longrightarrow> Q a w) \<Longrightarrow> keeps P (retP a) Q"
  by (simp add: keeps_def triple_def retP_def)

lemma keeps_err: "keeps P (errP e) Q"
  by (simp add: keeps_def triple_def errP_def)

lemma keeps_bind: "keeps P m R \<Longrightarrow> (\<And>a. keeps (R a) (f a) Q) \<Longrightarrow> keeps P (bindP m f) Q"
  unfolding keeps_def by (rule triple_bind)

lemma keeps_seq: "keeps P m (\<lambda>_. R) \<Longrightarrow> keeps R n Q \<Longrightarrow> keeps P (seqP m n) Q"
  unfolding seqP_def by (rule keeps_bind)

lemma keeps_if: "(b \<Longrightarrow> keeps P m Q) \<Longrightarrow> (\<not> b \<Longrightarrow> keeps P n Q) \<Longrightarrow> keeps P (if b then m else n) Q"
  by simp

lemma keeps_pre: "keeps P m Q \<Longrightarrow> (\<And>w. safe w \<Longrightarrow> P' w \<Longrightarrow> P w) \<Longrightarrow> keeps P' m Q"
  unfolding keeps_def by (erule triple_pre) blast

lemma keeps_post: "keeps P m Q \<Longrightarrow> (\<And>a w. safe w \<Longrightarrow> Q a w \<Longrightarrow> Q' a w) \<Longrightarrow> keeps P m Q'"
  unfolding keeps_def by (erule triple_conseq) blast+

lemma keeps_metadata:
  "(\<And>md. keeps (\<lambda>w. P w \<and> md = view (wc w)) (f md) Q) \<Longrightarrow> keeps P (bindP read_metadata f) Q"
  by (rule keeps_bind [where R = "\<lambda>md w. P w \<and> md = view (wc w)"])
     (auto simp: keeps_def triple_def read_metadata_def metadata_def)

lemma keeps_ctl: "(\<And>w. safe w \<Longrightarrow> P w \<Longrightarrow> may_call call w) \<Longrightarrow> keeps P (ctl_call call) (\<lambda>_ _. True)"
  using safe_perform
  by (fastforce simp: keeps_def triple_def ctl_call_def split: prod.splits option.splits)

lemma keeps_ctl_idle:
  assumes "\<And>w. safe w \<Longrightarrow> idle w \<Longrightarrow> P w \<Longrightarrow> may_call call w"
  shows "keeps (\<lambda>w. idle w \<and> P w) (ctl_call call) (\<lambda>_. idle)"
  using safe_perform assms observe_idle
  by (fastforce simp: keeps_def triple_def ctl_call_def split: prod.splits option.splits)

lemma keeps_or_fail:
  assumes "keeps P m Q"
  shows "keeps P (or_fail fence m) Q"
proof -
  have failed: "safe (observe c' w)" if "safe w" "perform (FailAttempt fence) (wc w) = (c', r)" for w c' r
    using safe_perform [OF that(1) _ that(2)] by (simp add: may_call_def)
  have "triple safe (join_fail fence e :: 'a co) (\<lambda>a w. safe w \<and> Q a w) (\<lambda>_. safe) safe" for e
    using failed by (auto simp: triple_def join_fail_def ctl_call_def simp del: perform.simps split: prod.splits option.splits)
  then show ?thesis using assms unfolding keeps_def or_fail_def by (intro triple_handle) auto
qed

fun env_ok :: "event \<Rightarrow> world \<Rightarrow> bool" where
  "env_ok (EMigrate _ _) w \<longleftrightarrow> \<not> snap_auth (view (wc w)) \<and> \<not> snap_auth (row (wc w))"
| "env_ok (EStartWorkers _) w \<longleftrightarrow> \<not> snap_auth (view (wc w)) \<and> \<not> snap_auth (row (wc w))"
| "env_ok (EStartServers _) w \<longleftrightarrow> \<not> snap_auth (view (wc w)) \<and> \<not> snap_auth (row (wc w))"
| "env_ok (ERelease _) w \<longleftrightarrow> \<not> unsaved w"
| "env_ok (ERestore _) w \<longleftrightarrow> \<not> unsaved w"
| "env_ok _ w \<longleftrightarrow> True"

lemma effect_frame [simp]: "wc (effect ev ok w) = wc w"
  by (cases ev) simp_all

lemma safe_effect: "safe w \<Longrightarrow> env_ok ev w \<Longrightarrow> safe (effect ev ok (w\<lparr>replies := r, events := l\<rparr>))"
  by (cases ev) (auto simp: safe_def)

lemma safe_replies: "safe (w\<lparr>replies := r\<rparr>) = safe w"
  by (simp add: safe_def)

lemma keeps_call:
  assumes "\<And>w. safe w \<Longrightarrow> P w \<Longrightarrow> env_ok ev w"
    and "\<And>w r l. safe w \<Longrightarrow> P w \<Longrightarrow> Q (effect ev True (w\<lparr>replies := r, events := l\<rparr>))"
  shows "keeps P (call_env ev) (\<lambda>_. Q)"
  using safe_effect assms
  by (auto simp: keeps_def triple_def call_env_def Let_def safe_replies simp del: effect.simps split: list.splits reply.splits)

lemma keeps_env:
  assumes "\<And>w. safe w \<Longrightarrow> P (wc w) \<Longrightarrow> env_ok ev w"
  shows "keeps (\<lambda>w. P (wc w)) (call_env ev) (\<lambda>_ w. P (wc w))"
  using assms by (intro keeps_call) auto

lemma keeps_stop_persistence: "keeps P (call_env (EStopPersistence f)) (\<lambda>_ w. \<not> writers w)"
  by (rule keeps_call) auto

lemma keeps_create: "keeps (\<lambda>w. \<not> writers w) (call_env (ECreate f)) (\<lambda>_. idle)"
  by (rule keeps_call) (auto simp: idle_def)

lemma keeps_release: "keeps idle (call_env (ERelease f)) (\<lambda>_ _. True)"
  by (rule keeps_call) (auto simp: idle_def)

lemma keeps_any: "env_ok ev = (\<lambda>_. True) \<Longrightarrow> keeps P (call_env ev) (\<lambda>_ _. True)"
  by (rule keeps_call) auto

lemma keeps_hibernate: "keeps (\<lambda>_. True) (hibernate margin now fence) (\<lambda>_ _. True)"
proof -
  have snap: "keeps P (ctl_call (Snapshot f)) (\<lambda>_ _. True)" for P f by (rule keeps_ctl) (simp add: may_call_def)
  have begins: "keeps P (ctl_call (Hibernate f)) (\<lambda>_ _. True)" for P f by (rule keeps_ctl) (simp add: may_call_def)
  have ends: "keeps P (ctl_call (Complete f)) (\<lambda>_ _. True)" for P f by (rule keeps_ctl) (simp add: may_call_def)
  have stops: "keeps idle (ctl_call (Stop f)) (\<lambda>_. idle)" for f
    using keeps_ctl_idle [of "\<lambda>_. True" "Stop f"] by (simp add: may_call_def)
  show ?thesis
    unfolding hibernate_def Let_def
    by (intro keeps_metadata keeps_if keeps_err keeps_bind [OF begins] keeps_seq [OF keeps_or_fail [OF keeps_any]]
        keeps_seq [OF keeps_or_fail [OF snap]] keeps_seq [OF keeps_or_fail [OF keeps_stop_persistence]]
        keeps_bind [OF keeps_or_fail [OF keeps_create]] keeps_seq [OF keeps_or_fail [OF stops]]
        keeps_seq [OF keeps_or_fail [OF keeps_release]] keeps_seq [OF keeps_or_fail [OF ends]] keeps_ret)
       (auto simp: fun_eq_iff)
qed

lemma declare_snapshot_ok:
  "perform (DeclareSnapshot f) c = (c', g, None) \<Longrightarrow> persistent c \<Longrightarrow> snap_auth (view c')"
  using persist_frame(3) [of c "(view c)\<lparr>snap_auth := True\<rparr>"]
  by (auto simp: declare_snapshot_authoritative_def plain_def split: if_splits prod.splits option.splits)

lemma declare_volume_ok:
  assumes "perform (DeclareVolume f) c = (c', g, None)" "persistent c" "agrees (view c) (row c)"
    and "snap_auth (view c) \<or> restore_gen (view c) = 0"
  shows "\<not> snap_auth (view c') \<and> \<not> snap_auth (row c')"
  using assms persist_frame(3) [of c "(view c)\<lparr>snap_auth := False\<rparr>"]
  by (auto simp: declare_volume_authoritative_def plain_def agrees_def split: if_splits prod.splits option.splits)

definition from_snapshot :: "ctl \<Rightarrow> bool" where
  "from_snapshot c \<longleftrightarrow> restore_gen (view c) \<noteq> 0 \<or> snap_auth (view c)"

definition startable :: "ctl \<Rightarrow> bool" where
  "startable c \<longleftrightarrow> snap_auth (view c) \<or> restore_gen (view c) = 0"

definition volume_newest :: "ctl \<Rightarrow> bool" where
  "volume_newest c \<longleftrightarrow> \<not> snap_auth (view c) \<and> \<not> snap_auth (row c)"

lemma keeps_declare_snapshot:
  "keeps (\<lambda>w. from_snapshot (wc w)) (ctl_call (DeclareSnapshot f)) (\<lambda>_ w. snap_auth (view (wc w)))"
proof -
  have "safe (observe c' w)" if "safe w" "from_snapshot (wc w)" "perform (DeclareSnapshot f) (wc w) = (c', r)" for w c' r
    using safe_perform [OF that(1) _ that(3)] that(2) by (simp add: may_call_def from_snapshot_def)
  moreover have "snap_auth (view c')" if "safe w" "perform (DeclareSnapshot f) (wc w) = (c', g, None)" for w c' g
    using declare_snapshot_ok [OF that(2)] that(1) by (simp add: safe_def)
  ultimately show ?thesis
    by (auto simp: keeps_def triple_def ctl_call_def simp del: perform.simps split: prod.splits option.splits)
qed

lemma keeps_declare_volume:
  "keeps (\<lambda>w. startable (wc w)) (ctl_call (DeclareVolume f)) (\<lambda>_ w. volume_newest (wc w))"
proof -
  have "safe (observe c' w)" if "safe w" "perform (DeclareVolume f) (wc w) = (c', r)" for w c' r
    using safe_perform [OF that(1) _ that(2)] by (simp add: may_call_def)
  moreover have "volume_newest c'"
    if "safe w" "startable (wc w)" "perform (DeclareVolume f) (wc w) = (c', g, None)" for w c' g
    using declare_volume_ok [OF that(3)] that(1,2) by (auto simp: safe_def startable_def volume_newest_def)
  ultimately show ?thesis
    by (auto simp: keeps_def triple_def ctl_call_def simp del: perform.simps split: prod.splits option.splits)
qed

lemma keeps_start:
  "keeps (\<lambda>w. startable (wc w))
    (seqP (call_env (EStartPersistence fence m))
    (seqP (ctl_call (DeclareVolume fence))
    (seqP (call_env (EMigrate fence (m_schema m)))
    (seqP (call_env (EStartWorkers fence))
    (seqP (call_env (EStartServers fence))
          (retP ())))))) (\<lambda>_ _. True)"
proof -
  have w: "keeps (\<lambda>w. volume_newest (wc w)) (call_env ev) (\<lambda>_ w. volume_newest (wc w))"
    if "ev \<in> {EMigrate fence (m_schema m), EStartWorkers fence, EStartServers fence}" for ev
    using that by (intro keeps_env) (auto simp: volume_newest_def)
  have s: "keeps (\<lambda>w. startable (wc w)) (call_env (EStartPersistence fence m)) (\<lambda>_ w. startable (wc w))"
    by (rule keeps_env) simp
  show ?thesis
    by (intro keeps_seq [OF s] keeps_seq [OF keeps_declare_volume] keeps_seq [OF w] keeps_ret) auto
qed

lemma keeps_wake_at_manifest:
  "keeps (\<lambda>w. if restore then from_snapshot (wc w) else startable (wc w)) (wake_at_manifest fence m restore) (\<lambda>_ _. True)"
proof -
  have i: "keeps (\<lambda>w. P (wc w)) (call_env (EInspect fence)) (\<lambda>_ w. P (wc w))" for P
    by (rule keeps_env) simp
  have r: "keeps (\<lambda>w. snap_auth (view (wc w))) (call_env (ERestore m)) (\<lambda>_ w. startable (wc w))"
    by (rule keeps_call) (auto simp: safe_def startable_def)
  show ?thesis
  proof (cases restore)
    case True
    then show ?thesis unfolding wake_at_manifest_def
      by (auto intro!: keeps_seq [OF i] keeps_seq [OF _ keeps_start] keeps_seq [OF keeps_declare_snapshot]
          keeps_seq [OF r] keeps_ret)
  next
    case False
    then show ?thesis unfolding wake_at_manifest_def
      by (auto intro!: keeps_seq [OF i] keeps_seq [OF _ keeps_start] keeps_ret)
  qed
qed

lemma keeps_wake_at: "keeps (\<lambda>_. True) (wake_at fence) (\<lambda>_ _. True)"
proof -
  have wake: "keeps (\<lambda>w. P (wc w)) (bindP (call_env ev) (\<lambda>m. wake_at_manifest fence m restore)) (\<lambda>_ _. True)"
    if "env_ok ev = (\<lambda>_. True)" "\<And>c. P c \<Longrightarrow> if restore then from_snapshot c else startable c" for P ev restore
  proof (rule keeps_bind)
    show "keeps (\<lambda>w. P (wc w)) (call_env ev) (\<lambda>_ w. P (wc w))" by (rule keeps_env) (simp add: that(1))
    show "keeps (\<lambda>w. P (wc w)) (wake_at_manifest fence m restore) (\<lambda>_ _. True)" for m
      by (rule keeps_pre [OF keeps_wake_at_manifest]) (use that(2) in blast)
  qed
  show ?thesis unfolding wake_at_def
  proof (intro keeps_metadata keeps_if keeps_err)
    fix md :: state_record assume a: "\<not> restore_gen md \<noteq> 0" "\<not> snap_auth md"
    show "keeps (\<lambda>w. True \<and> md = view (wc w)) (bindP (call_env (ELive fence)) (\<lambda>live. wake_at_manifest fence live False)) (\<lambda>_ _. True)"
      using wake [of "ELive fence" "\<lambda>c. md = view c" False] a by (auto simp: startable_def fun_eq_iff)
  next
    fix md :: state_record assume a: "\<not> restore_gen md \<noteq> 0" "\<not> \<not> snap_auth md"
    show "keeps (\<lambda>w. True \<and> md = view (wc w)) (bindP (call_env (ECurrent fence)) (\<lambda>m. wake_at_manifest fence m True)) (\<lambda>_ _. True)"
      using wake [of "ECurrent fence" "\<lambda>c. md = view c" True] a by (auto simp: from_snapshot_def fun_eq_iff)
  qed
qed

lemma keeps_restore_at: "keeps (\<lambda>_. True) (restore_at fence gen) (\<lambda>_ _. True)"
  unfolding restore_at_def
proof (intro keeps_if keeps_err keeps_metadata)
  fix md :: state_record assume a: "gen \<noteq> 0" "\<not> restore_gen md \<noteq> gen"
  have s: "keeps (\<lambda>w. md = view (wc w)) (call_env (ESelect gen)) (\<lambda>_ w. md = view (wc w))"
    using keeps_env [of "\<lambda>c. md = view c" "ESelect gen"] by simp
  have m: "keeps (\<lambda>w. md = view (wc w)) (wake_at_manifest fence m True) (\<lambda>_ _. True)" for m
    by (rule keeps_pre [OF keeps_wake_at_manifest]) (use a in \<open>auto simp: from_snapshot_def\<close>)
  show "keeps (\<lambda>w. True \<and> md = view (wc w)) (bindP (call_env (ESelect gen)) (\<lambda>m.
      if m_generation m \<noteq> gen then errP BadGeneration else wake_at_manifest fence m True)) (\<lambda>_ _. True)"
    unfolding simp_thms by (intro keeps_bind [OF s] keeps_if keeps_err m)
qed

lemma keeps_recover: "keeps (\<lambda>_. True) (recover now) (\<lambda>_ _. True)"
proof -
  have c: "keeps P (ctl_call call) (\<lambda>_ _. True)" if "\<forall>f. call \<noteq> Stop f \<and> call \<noteq> DeclareSnapshot f" for P call
    using that by (intro keeps_ctl) (auto simp: may_call_def split: lc_call.splits)
  have act: "keeps P (seqP (ctl_call (Activate now f)) (retP ())) (\<lambda>_ _. True)" for P f
    by (intro keeps_seq [OF c] keeps_ret) auto
  have any: "keeps P (or_fail f m) (\<lambda>_ _. True)" if "keeps (\<lambda>_. True) m (\<lambda>_ _. True)" for P f and m :: "unit co"
    using keeps_or_fail [OF that] by (rule keeps_pre) simp
  have resume: "keeps (\<lambda>_. True) (if b then restore_at f g else wake_at f) (\<lambda>_ _. True)" for b f g
    using keeps_restore_at keeps_wake_at by simp
  have interrupted: "keeps P (recover_interrupted_hibernate now f) (\<lambda>_ _. True)" for P f
    unfolding recover_interrupted_hibernate_def
    by (intro keeps_seq [OF c] keeps_seq [OF any [OF keeps_wake_at]] act) auto
  show ?thesis unfolding recover_def Let_def
    by (intro keeps_metadata keeps_if keeps_err keeps_ret keeps_seq [OF any [OF resume]] act interrupted) auto
qed

subsection \<open>A deployment over time\<close>

text \<open>
  What can happen to a deployment: a call of its coordinator, a direct call of its controller (by the
  activator or an operator), writes of the processes that were started, and a restart of the control
  process, which forgets its view and reads the record again. A process that died is restarted.
\<close>

datatype happening =
    DoHibernate duration time u64 | DoWake u64 | DoRestore u64 u64 | DoRecover time | DoCall lc_call
  | Traffic | Restart

definition restarted :: "world \<Rightarrow> world" where
  "restarted w = w\<lparr>wc := (wc w)\<lparr>view := row (wc w)\<rparr>\<rparr>"

definition settle :: "('e, 'a) outcome \<times> world \<Rightarrow> world" where
  "settle r = (case r of (Crashed, w) \<Rightarrow> restarted w | (_, w) \<Rightarrow> w)"

fun happen :: "happening \<Rightarrow> world \<Rightarrow> world" where
  "happen (DoHibernate margin now f) w = settle (hibernate margin now f w)"
| "happen (DoWake f) w = settle (wake_at f w)"
| "happen (DoRestore f g) w = settle (restore_at f g w)"
| "happen (DoRecover now) w = settle (recover now w)"
| "happen (DoCall call) w = settle (ctl_call call w)"
| "happen Traffic w = (if writers w then w\<lparr>unsaved := True\<rparr> else w)"
| "happen Restart w = restarted w"

text \<open>The three declarations only the coordinator makes are not calls of anyone else.\<close>

fun client_happening :: "happening \<Rightarrow> bool" where
  "client_happening (DoCall call) \<longleftrightarrow> (\<forall>f. call \<noteq> Stop f \<and> call \<noteq> DeclareSnapshot f \<and> call \<noteq> DeclareVolume f)"
| "client_happening _ \<longleftrightarrow> True"

lemma safe_restarted: "safe w \<Longrightarrow> safe (restarted w)"
  by (auto simp: safe_def restarted_def agrees_def)

lemma safe_settle:
  assumes "keeps (\<lambda>_. True) m Q" "safe w"
  shows "safe (settle (m w))"
proof -
  obtain r w' where m: "m w = (r, w')" by (cases "m w")
  have "case m w of (Ok a, w') \<Rightarrow> safe w' \<and> Q a w' | (Err e, w') \<Rightarrow> safe w' | (Crashed, w') \<Rightarrow> safe w'"
    using assms unfolding keeps_def triple_def by simp
  then show ?thesis using m safe_restarted [of w'] by (cases r) (auto simp: settle_def)
qed

lemma safe_happen:
  assumes "safe w" "client_happening h"
  shows "safe (happen h w)"
proof (cases h)
  case (DoCall call)
  then have "keeps (\<lambda>_. True) (ctl_call call) (\<lambda>_ _. True)"
    using assms(2) by (intro keeps_ctl) (auto simp: may_call_def split: lc_call.splits)
  then show ?thesis using DoCall safe_settle assms(1) by simp
next
  case Traffic
  then show ?thesis using assms(1) by (auto simp: safe_def)
qed (use assms(1) in \<open>simp_all add: safe_settle [OF keeps_hibernate] safe_settle [OF keeps_wake_at]
      safe_settle [OF keeps_restore_at] safe_settle [OF keeps_recover] safe_restarted\<close>)

lemma safe_history: "safe w \<Longrightarrow> list_all client_happening hs \<Longrightarrow> safe (fold happen hs w)"
  by (induction hs arbitrary: w) (simp_all add: safe_happen)

subsection \<open>The order of the steps\<close>

lemma call_env_ok: "call_env ev w = (Ok m, w') \<Longrightarrow> events w' = events w @ [ev] \<and> wc w' = wc w"
  by (cases ev) (auto simp: call_env_def Let_def split: list.splits reply.splits if_splits)

lemma observe_events [simp]: "events (observe c' w) = events w"
  by (simp add: observe_def)

lemma ctl_call_ok: "ctl_call call w = (Ok g, w') \<Longrightarrow> events w' = events w \<and> perform call (wc w) = (wc w', g, None)"
  by (auto simp: ctl_call_def simp del: perform.simps split: prod.splits option.splits)

lemma bindP_ok: "bindP m f w = (Ok b, w'') \<Longrightarrow> \<exists>a w'. m w = (Ok a, w') \<and> f a w' = (Ok b, w'')"
  by (auto simp: bindP_def split: prod.splits outcome.splits)

lemma seqP_ok: "seqP m n w = (Ok b, w'') \<Longrightarrow> \<exists>a w'. m w = (Ok a, w') \<and> n w' = (Ok b, w'')"
  unfolding seqP_def by (rule bindP_ok)

lemma or_fail_ok: "or_fail f m w = (Ok a, w') \<Longrightarrow> m w = (Ok a, w')"
  by (auto simp: or_fail_def handleP_def join_fail_def split: prod.splits outcome.splits co_error.splits)

lemma retP_ok: "retP a w = (Ok b, w') \<Longrightarrow> b = a \<and> w' = w"
  by (auto simp: retP_def)

lemmas step_ok = call_env_ok ctl_call_ok or_fail_ok retP_ok

lemma wake_at_manifest_order:
  assumes "wake_at_manifest fence m restore w = (Ok (), w')"
  shows "events w' = events w @ [EInspect fence] @ (if restore then [ERestore m] else [])
    @ [EStartPersistence fence m, EMigrate fence (m_schema m), EStartWorkers fence, EStartServers fence]"
proof (cases restore)
  case True
  show ?thesis using assms True unfolding wake_at_manifest_def
    by (auto dest!: seqP_ok step_ok)
next
  case False
  then show ?thesis using assms unfolding wake_at_manifest_def
    by (auto dest!: seqP_ok step_ok)
qed

lemma wake_at_order:
  assumes "wake_at fence w = (Ok (), w')"
  shows "\<exists>m. events w' = events w @ (if snap_auth (view (wc w)) then [ECurrent fence, EInspect fence, ERestore m] else [ELive fence, EInspect fence])
    @ [EStartPersistence fence m, EMigrate fence (m_schema m), EStartWorkers fence, EStartServers fence]"
  using assms unfolding wake_at_def
  by (auto dest!: bindP_ok step_ok wake_at_manifest_order
      simp: read_metadata_def metadata_def errP_def split: if_splits)

lemma perform_hibernate_ok:
  assumes "perform (Hibernate f) c = (c', g, None)" "persistent c"
  shows "persistent c' \<and> row c = view c \<and> view c' = row c' \<and> st (row c) = Active \<and> g = generation (row c) + 1
    \<and> row c' = (row c)\<lparr>st := Quiescing, generation := generation (row c) + 1\<rparr>"
  using assms persist_frame(1,3) [OF assms(2), of "carry Quiescing (generation (view c) + 1) c"]
  by (auto simp: begin_hibernate_def carry_def Let_def split: if_splits prod.splits option.splits)

lemma transition_ok:
  assumes "plain (transition f s n c) = (c', g, None)" "persistent c"
  shows "persistent c' \<and> row c = view c \<and> view c' = row c' \<and> st (row c) = s \<and> row c' = n"
  using assms persist_frame(1,3) [OF assms(2), of n]
  by (auto simp: transition_def plain_def split: if_splits prod.splits option.splits)

lemma hibernate_result:
  assumes "hibernate margin now fence w = (Ok m, w')" "persistent (wc w)"
  shows "let r = row (wc w); g = generation r + 1 in
    st r = Active \<and> view (wc w) = r \<and> row (wc w') = r\<lparr>st := Hibernated, generation := g, snap_auth := True\<rparr>
    \<and> view (wc w') = row (wc w')
    \<and> events w' = events w @ [EInspect g, EDrain g, EStopWorkers g, EStopPersistence g, ECreate g, ERelease g]"
  using assms unfolding hibernate_def Let_def
  by (auto dest!: bindP_ok seqP_ok step_ok perform_hibernate_ok transition_ok
      simp: read_metadata_def errP_def begin_snapshot_def begin_stop_def complete_hibernate_def carry_def
      split: if_splits)

subsection \<open>Which snapshots are restored\<close>

definition restores_only :: "(manifest \<Rightarrow> bool) \<Rightarrow> event list \<Rightarrow> world \<Rightarrow> bool" where
  "restores_only R l w \<longleftrightarrow> (\<forall>m. ERestore m \<in> set (events w) \<longrightarrow> ERestore m \<in> set l \<or> R m)"

abbreviation only :: "(manifest \<Rightarrow> bool) \<Rightarrow> event list \<Rightarrow> 'a co \<Rightarrow> bool" where
  "only R l m \<equiv> triple (restores_only R l) m (\<lambda>_. restores_only R l) (\<lambda>_. restores_only R l) (restores_only R l)"

lemma effect_events [simp]: "events (effect ev ok w) = events w"
  by (cases ev) simp_all

lemma only_env: "(\<And>m. ev = ERestore m \<Longrightarrow> R m) \<Longrightarrow> only R l (call_env ev)"
  by (auto simp: triple_def call_env_def restores_only_def Let_def split: list.splits reply.splits)

lemma only_ctl: "only R l (ctl_call call)"
  by (auto simp: triple_def ctl_call_def restores_only_def simp del: perform.simps split: prod.splits option.splits)

lemma only_seq: "only R l m \<Longrightarrow> only R l n \<Longrightarrow> only R l (seqP m n)"
  unfolding seqP_def by (rule triple_bind)

lemma only_wake: "(restore \<Longrightarrow> R m) \<Longrightarrow> only R l (wake_at_manifest fence m restore)"
  unfolding wake_at_manifest_def
  by (intro only_seq only_env only_ctl triple_ret triple_if) auto

lemma restore_at_exact:
  assumes "restore_at fence gen w = (r, w')" "ERestore m \<in> set (events w')" "ERestore m \<notin> set (events w)"
  shows "m_generation m = gen \<and> gen \<noteq> 0 \<and> restore_gen (view (wc w)) = gen \<and> generation (view (wc w)) = fence
    \<and> st (view (wc w)) = Waking"
proof -
  let ?R = "\<lambda>m. m_generation m = gen"
  let ?l = "events w"
  have body: "only ?R ?l (bindP (call_env (ESelect gen)) (\<lambda>m.
      if m_generation m \<noteq> gen then errP BadGeneration else wake_at_manifest fence m True))"
    by (intro triple_bind [OF only_env] triple_if triple_err only_wake) auto
  have here: "restores_only ?R ?l w" by (simp add: restores_only_def)
  let ?md = "view (wc w)"
  have guards: "gen \<noteq> 0 \<and> st ?md = Waking \<and> generation ?md = fence \<and> restore_gen ?md = gen"
    using assms by (auto simp: restore_at_def bindP_def read_metadata_def metadata_def errP_def split: if_splits)
  then have "restore_at fence gen w = bindP (call_env (ESelect gen)) (\<lambda>m.
      if m_generation m \<noteq> gen then errP BadGeneration else wake_at_manifest fence m True) w"
    by (simp add: restore_at_def bindP_def read_metadata_def metadata_def)
  then have "restores_only ?R ?l w'"
    using body here assms(1) unfolding triple_def by (cases r) fastforce+
  then show ?thesis using guards assms(2,3) by (auto simp: restores_only_def)
qed

subsection \<open>Recovery succeeds\<close>

lemma call_env_answers: "replies w = Answers m # rs \<Longrightarrow>
    call_env ev w = (Ok m, effect ev True (w\<lparr>replies := rs, events := events w @ [ev]\<rparr>))"
  by (simp add: call_env_def Let_def)

lemma or_fail_answers: "m w = (Ok a, w') \<Longrightarrow> or_fail f m w = (Ok a, w')"
  by (simp add: or_fail_def handleP_def)

lemma seq_runs: "m w = (Ok a, w') \<Longrightarrow> seqP m n w = n w'"
  by (simp add: seqP_def bindP_def)

lemma bind_runs: "m w = (Ok a, w') \<Longrightarrow> bindP m f w = f a w'"
  by (simp add: bindP_def)

text \<open>A controller whose view is the record and whose store answers.\<close>

definition current :: "ctl \<Rightarrow> state_record \<Rightarrow> bool" where
  "current c r \<longleftrightarrow> persistent c \<and> faults c = [] \<and> row c = r \<and> view c = r"

lemma persist_current:
  assumes "current c r" "valid_state (st r)" "valid_state (st n)"
  shows "persist n c = (c\<lparr>row := n\<rparr>, None)"
  using persist_answers [of c n] assms by (simp add: current_def)

lemma declare_snapshot_current:
  assumes "current c r" "st r = Waking" "generation r = f"
  shows "\<exists>c'. perform (DeclareSnapshot f) c = (c', 0, None) \<and> current c' (r\<lparr>snap_auth := True\<rparr>)"
  using assms persist_current [OF assms(1), of "r\<lparr>snap_auth := True\<rparr>"]
  by (auto simp: declare_snapshot_authoritative_def plain_def current_def)

lemma declare_volume_current:
  assumes "current c r" "st r = Waking" "generation r = f"
  shows "\<exists>c'. perform (DeclareVolume f) c = (c', 0, None) \<and> current c' (r\<lparr>snap_auth := False\<rparr>)"
  using assms persist_current [OF assms(1), of "r\<lparr>snap_auth := False\<rparr>"]
  by (auto simp: declare_volume_authoritative_def plain_def current_def)

lemma recovery_current:
  assumes "current c r" "st r \<in> {Quiescing, Snapshotting, Stopping}" "generation r = f"
  shows "\<exists>c'. perform (Recovery f) c = (c', 0, None) \<and> current c' (r\<lparr>st := Waking\<rparr>)"
  using assms persist_current [OF assms(1), of "r\<lparr>st := Waking\<rparr>"]
  by (auto simp: begin_recovery_def plain_def current_def carry_def)

lemma activate_current:
  assumes "current c r" "st r = Waking" "generation r = f"
  shows "\<exists>c' r'. perform (Activate now f) c = (c', 0, None) \<and> current c' r' \<and> st r' = Active
    \<and> generation r' = generation r \<and> \<not> snap_auth r' \<and> restore_gen r' = 0"
  using assms persist_current [OF assms(1)]
  by (auto simp: activate_def transition_def plain_def current_def carry_def Let_def)

lemma ctl_runs: "perform call (wc w) = (c', g, None) \<Longrightarrow> ctl_call call w = (Ok g, observe c' w)"
  by (simp add: ctl_call_def)

lemma observe_replies [simp]: "replies (observe c' w) = replies w"
  by (simp add: observe_def)

lemma effect_replies [simp]: "replies (effect ev ok w) = replies w"
  by (cases ev) simp_all

definition answers :: "nat \<Rightarrow> world \<Rightarrow> bool" where
  "answers n w \<longleftrightarrow> (\<exists>ms rs. length ms = n \<and> replies w = map Answers ms @ rs)"

definition ready_at :: "nat \<Rightarrow> state_record \<Rightarrow> world \<Rightarrow> bool" where
  "ready_at n r w \<longleftrightarrow> answers n w \<and> current (wc w) r"

definition succeeds :: "(world \<Rightarrow> bool) \<Rightarrow> 'a co \<Rightarrow> (world \<Rightarrow> bool) \<Rightarrow> bool" where
  "succeeds P m Q \<longleftrightarrow> (\<forall>w. P w \<longrightarrow> (\<exists>a w'. m w = (Ok a, w') \<and> Q w'))"

lemma succeeds_seq: "succeeds P m R \<Longrightarrow> succeeds R n Q \<Longrightarrow> succeeds P (seqP m n) Q"
  unfolding succeeds_def by (metis seq_runs)

lemma succeeds_bind: "succeeds P m R \<Longrightarrow> (\<And>a. succeeds R (f a) Q) \<Longrightarrow> succeeds P (bindP m f) Q"
  unfolding succeeds_def by (metis bind_runs)

lemma succeeds_or_fail: "succeeds P m Q \<Longrightarrow> succeeds P (or_fail f m) Q"
  unfolding succeeds_def by (metis or_fail_answers)

lemma succeeds_ret: "(\<And>w. P w \<Longrightarrow> Q w) \<Longrightarrow> succeeds P (retP a) Q"
  by (simp add: succeeds_def retP_def)

lemma succeeds_env: "succeeds (ready_at (Suc n) r) (call_env ev) (ready_at n r)"
  unfolding succeeds_def
proof (intro allI impI)
  fix w assume "ready_at (Suc n) r w"
  then obtain m ms rs where "replies w = Answers m # map Answers ms @ rs" "length ms = n" "current (wc w) r"
    by (auto simp: ready_at_def answers_def length_Suc_conv)
  then show "\<exists>a w'. call_env ev w = (Ok a, w') \<and> ready_at n r w'"
    by (auto simp: call_env_answers ready_at_def answers_def)
qed

lemma succeeds_ctl:
  assumes "\<And>c. current c r \<Longrightarrow> \<exists>c'. perform call c = (c', 0, None) \<and> current c' r'"
  shows "succeeds (ready_at n r) (ctl_call call) (ready_at n r')"
  unfolding succeeds_def
proof (intro allI impI)
  fix w assume w: "ready_at n r w"
  then obtain c' where "perform call (wc w) = (c', 0, None)" "current c' r'"
    using assms by (auto simp: ready_at_def)
  then show "\<exists>a w'. ctl_call call w = (Ok a, w') \<and> ready_at n r' w'"
    using w ctl_runs by (auto simp: ready_at_def answers_def simp del: perform.simps)
qed

lemma ready_at_le: "ready_at (Suc n) r w \<Longrightarrow> ready_at n r w"
proof -
  assume "ready_at (Suc n) r w"
  then obtain ms rs where l: "length ms = Suc n" "replies w = map Answers ms @ rs" "current (wc w) r"
    by (auto simp: ready_at_def answers_def)
  then have "replies w = map Answers (butlast ms) @ (Answers (last ms) # rs)" "length (butlast ms) = n"
    by (cases ms rule: rev_cases; simp)+
  then show ?thesis using l(3) unfolding ready_at_def answers_def by blast
qed

lemma succeeds_wake_at_manifest:
  assumes "st r = Waking" "generation r = fence"
  shows "succeeds (ready_at (Suc (Suc (Suc (Suc (Suc (Suc n)))))) r) (wake_at_manifest fence m restore)
    (ready_at n (r\<lparr>snap_auth := False\<rparr>))"
proof -
  have v: "succeeds (ready_at k s) (ctl_call (DeclareVolume fence)) (ready_at k (r\<lparr>snap_auth := False\<rparr>))"
    if "s = r \<or> s = r\<lparr>snap_auth := True\<rparr>" for k s
    using that assms declare_volume_current [of _ s fence] by (intro succeeds_ctl) auto
  have d: "succeeds (ready_at k r) (ctl_call (DeclareSnapshot fence)) (ready_at k (r\<lparr>snap_auth := True\<rparr>))" for k
    using assms declare_snapshot_current [of _ r fence] by (intro succeeds_ctl) auto
  have start: "succeeds (ready_at (Suc (Suc (Suc (Suc k)))) s)
    (seqP (call_env (EStartPersistence fence m))
    (seqP (ctl_call (DeclareVolume fence))
    (seqP (call_env (EMigrate fence (m_schema m)))
    (seqP (call_env (EStartWorkers fence))
    (seqP (call_env (EStartServers fence)) (retP ())))))) (ready_at k (r\<lparr>snap_auth := False\<rparr>))"
    if "s = r \<or> s = r\<lparr>snap_auth := True\<rparr>" for k s
    by (intro succeeds_seq [OF succeeds_env] succeeds_seq [OF v] succeeds_ret that)
  show ?thesis
  proof (cases restore)
    case True
    have h: "succeeds (ready_at (Suc k) r) (if restore then seqP (ctl_call (DeclareSnapshot fence)) (seqP (call_env (ERestore m)) (retP ()))
      else retP ()) (ready_at k (r\<lparr>snap_auth := True\<rparr>))" for k
      unfolding if_P [OF True] by (intro succeeds_seq [OF d] succeeds_seq [OF succeeds_env] succeeds_ret)
    show ?thesis unfolding wake_at_manifest_def
      by (rule succeeds_seq [OF succeeds_env succeeds_seq [OF h start]]) simp
  next
    case False
    have h: "succeeds (ready_at (Suc k) r) (if restore then seqP (ctl_call (DeclareSnapshot fence)) (seqP (call_env (ERestore m)) (retP ()))
      else retP ()) (ready_at k r)" for k
      unfolding if_not_P [OF False] by (rule succeeds_ret) (rule ready_at_le)
    show ?thesis unfolding wake_at_manifest_def
      by (rule succeeds_seq [OF succeeds_env succeeds_seq [OF h start]]) simp
  qed
qed

lemma succeeds_metadata:
  "(\<And>w. P w \<Longrightarrow> view (wc w) = md) \<Longrightarrow> succeeds P (f md) Q \<Longrightarrow> succeeds P (bindP read_metadata f) Q"
  by (auto simp: succeeds_def bindP_def read_metadata_def metadata_def)

lemma succeeds_wake_at:
  assumes "st r = Waking" "generation r = fence" "restore_gen r = 0"
  shows "succeeds (ready_at (Suc (Suc (Suc (Suc (Suc (Suc (Suc n))))))) r) (wake_at fence) (ready_at n (r\<lparr>snap_auth := False\<rparr>))"
  unfolding wake_at_def
proof (rule succeeds_metadata [where md = r])
  show "ready_at k r w \<Longrightarrow> view (wc w) = r" for k w by (simp add: ready_at_def current_def)
qed (use assms in \<open>auto intro!: succeeds_bind [OF succeeds_env] succeeds_wake_at_manifest\<close>)

lemma succeeds_recover:
  assumes "st r \<in> {Quiescing, Snapshotting, Stopping} \<or> st r = Waking" "restore_gen r = 0"
  shows "succeeds (ready_at 7 r) (recover now)
    (\<lambda>w. st (row (wc w)) = Active \<and> view (wc w) = row (wc w) \<and> generation (row (wc w)) = generation r)"
proof -
  let ?f = "generation r"
  let ?Q = "\<lambda>w. st (row (wc w)) = Active \<and> view (wc w) = row (wc w) \<and> generation (row (wc w)) = ?f"
  have act: "succeeds (ready_at 0 (s\<lparr>snap_auth := False\<rparr>)) (seqP (ctl_call (Activate now ?f)) (retP ())) ?Q"
    if s: "st s = Waking" "generation s = ?f" for s
    unfolding succeeds_def
  proof (intro allI impI)
    fix w assume "ready_at 0 (s\<lparr>snap_auth := False\<rparr>) w"
    then obtain c' r' where "perform (Activate now ?f) (wc w) = (c', 0, None)" "current c' r'" "st r' = Active" "generation r' = ?f"
      using activate_current [of "wc w" "s\<lparr>snap_auth := False\<rparr>" ?f now] s by (auto simp: ready_at_def)
    then show "\<exists>a w'. seqP (ctl_call (Activate now ?f)) (retP ()) w = (Ok a, w') \<and> ?Q w'"
      by (simp add: seqP_def bindP_def ctl_call_def retP_def current_def del: perform.simps)
  qed
  have seven: "ready_at 7 r = ready_at (Suc (Suc (Suc (Suc (Suc (Suc (Suc 0))))))) r" by (simp add: eval_nat_numeral)
  have wake: "succeeds (ready_at 7 s) (seqP (or_fail ?f (wake_at ?f)) (seqP (ctl_call (Activate now ?f)) (retP ()))) ?Q"
    if "st s = Waking" "generation s = ?f" "restore_gen s = 0" for s
    using succeeds_seq [OF succeeds_or_fail [OF succeeds_wake_at [OF that, of 0]] act [OF that(1,2)]]
    by (simp add: eval_nat_numeral)
  show ?thesis unfolding recover_def
  proof (rule succeeds_metadata [where md = r])
    show "ready_at 7 r w \<Longrightarrow> view (wc w) = r" for w by (simp add: ready_at_def current_def)
    have "succeeds (ready_at 7 r) (recover_interrupted_hibernate now ?f) ?Q" if "st r \<in> {Quiescing, Snapshotting, Stopping}"
      unfolding recover_interrupted_hibernate_def
    proof (rule succeeds_seq)
      show "succeeds (ready_at 7 r) (ctl_call (Recovery ?f)) (ready_at 7 (r\<lparr>st := Waking\<rparr>))"
        using that recovery_current by (intro succeeds_ctl) auto
    qed (use wake [of "r\<lparr>st := Waking\<rparr>"] assms(2) in simp)
    then show "succeeds (ready_at 7 r) (let fence = generation r in
       if st r = Active \<or> st r = Hibernated then retP ()
       else if st r = Waking then
         seqP (or_fail fence (if restore_gen r \<noteq> 0 then restore_at fence (restore_gen r) else wake_at fence))
        (seqP (ctl_call (Activate now fence)) (retP ()))
       else if st r \<in> {Quiescing, Snapshotting, Stopping} then recover_interrupted_hibernate now fence
       else if st r = Failed then errP (Ctl RecoveryRequired)
       else errP BadTransition) ?Q"
      using wake [of r] assms by (auto simp: Let_def)
  qed
qed

subsection \<open>Properties\<close>

text \<open>
  C2. No write is lost to scale-to-zero. Start from a deployment whose record is truthful and has no
  authoritative snapshot while the volume holds unsaved writes; let hibernations, wakes, operator
  restores, recoveries, controller calls and traffic happen in any order, with drivers that refuse or
  kill the process at any call and a store that refuses or loses answers: no restore and no release
  of storage ever happens while the volume holds a write no snapshot has, except those an operator
  gave up by restoring a generation they selected.
\<close>

theorem no_write_lost:
  assumes "persistent (wc w)" "view (wc w) = row (wc w)" "lc_ok (row (wc w))" "\<not> lost w"
    and "snap_auth (row (wc w)) \<longrightarrow> \<not> unsaved w \<and> \<not> writers w"
    and "list_all client_happening hs"
  shows "\<not> lost (fold happen hs w)"
  using safe_history [of w hs] assms by (auto simp: safe_def agrees_def)


text \<open>
  C11. An operator restore is exact, however it ends: a snapshot is written over the volume only if it
  is the generation asked for, the record under this fence carries the operator's selection of that
  generation, and the stack is waking.
\<close>

theorem operator_restore_exact:
  assumes "restore_at fence gen w = (r, w')" "ERestore m \<in> set (events w')" "ERestore m \<notin> set (events w)"
  shows "m_generation m = gen \<and> gen \<noteq> 0 \<and> restore_gen (view (wc w)) = gen \<and> generation (view (wc w)) = fence
    \<and> st (view (wc w)) = Waking"
  using restore_at_exact [OF assms] .

text \<open>
  A hibernation that succeeds started from the serving stack under the caller's fence, drained,
  stopped the workers and persistence, took the snapshot and only then released the storage, all
  under the one new fence; it leaves the record hibernated with an authoritative snapshot and every
  other field, the scheduled wake included, as it was.
\<close>

theorem hibernation_result:
  assumes "hibernate margin now fence w = (Ok m, w')" "persistent (wc w)"
  shows "let r = row (wc w); g = generation r + 1 in
    st r = Active \<and> view (wc w) = r \<and> row (wc w') = r\<lparr>st := Hibernated, generation := g, snap_auth := True\<rparr>
    \<and> view (wc w') = row (wc w')
    \<and> events w' = events w @ [EInspect g, EDrain g, EStopWorkers g, EStopPersistence g, ECreate g, ERelease g]"
  using hibernate_result [OF assms] .

text \<open>
  C12. Recovery terminates in service: from any interrupted attempt without an operator selection, a
  control process that reads the record, and whose store and driver answer, ends with the stack
  active under the same fence.
\<close>

theorem recovery_serves:
  assumes "persistent (wc w)" "faults (wc w) = []" "view (wc w) = row (wc w)"
    and "replies w = map Answers ms @ rs" "length ms = 7"
    and "st (row (wc w)) \<in> {Waking, Quiescing, Snapshotting, Stopping}" "restore_gen (row (wc w)) = 0"
  shows "\<exists>w'. recover now w = (Ok (), w') \<and> st (row (wc w')) = Active
    \<and> generation (row (wc w')) = generation (row (wc w))"
proof -
  have "ready_at 7 (row (wc w)) w" using assms by (auto simp: ready_at_def answers_def current_def)
  then show ?thesis using succeeds_recover [of "row (wc w)" now] assms(6,7) by (auto simp: succeeds_def)
qed

subsection \<open>The properties on a deployment\<close>

definition wit_manifest :: manifest where
  "wit_manifest = \<lparr>m_generation = 4, m_schema = 12\<rparr>"

definition wit_world :: "lstate \<Rightarrow> bool \<Rightarrow> u64 \<Rightarrow> reply list \<Rightarrow> world" where
  "wit_world s auth g rs =
     (let r = \<lparr>st = s, generation = 5, wake_deadline = 0, snap_auth = auth, restore_gen = g\<rparr>
      in \<lparr>wc = \<lparr>view = r, persistent = True, row = r, faults = []\<rparr>, replies = rs, events = [],
          writers = False, unsaved = False, lost = False\<rparr>)"

definition wit_days :: "happening list" where
  "wit_days = [DoRecover 10, Traffic, DoHibernate 60 20 5, DoCall BeginWake, DoRecover 30, Traffic]"

theorem no_write_lost_witness:
  "\<not> lost (fold happen wit_days (wit_world Waking True 0 (replicate 12 (Answers wit_manifest) @ [Dies] @ replicate 9 (Answers wit_manifest))))
   \<and> writers (fold happen wit_days (wit_world Waking True 0 (replicate 12 (Answers wit_manifest) @ [Dies] @ replicate 9 (Answers wit_manifest))))"
proof -
  let ?w = "wit_world Waking True 0 (replicate 12 (Answers wit_manifest) @ [Dies] @ replicate 9 (Answers wit_manifest))"
  have "writers (fold happen wit_days ?w)" by code_simp
  moreover have "\<not> lost (fold happen wit_days ?w)"
    by (rule no_write_lost) (simp_all add: wit_world_def wit_days_def lc_ok_def Let_def)
  ultimately show ?thesis by simp
qed

definition wit_wake :: world where
  "wit_wake = snd (wake_at 5 (wit_world Waking True 0 (replicate 7 (Answers wit_manifest))))"


definition wit_restore :: "(co_error, unit) outcome \<times> world" where
  "wit_restore = restore_at 5 4 (wit_world Waking False 4 [Answers wit_manifest, Answers wit_manifest, Dies])"

theorem operator_restore_exact_witness: "m_generation wit_manifest = 4 \<and> ERestore wit_manifest \<in> set (events (snd wit_restore))"
proof -
  have "ERestore wit_manifest \<in> set (events (snd wit_restore))" by code_simp
  moreover have "restore_at 5 4 (wit_world Waking False 4 [Answers wit_manifest, Answers wit_manifest, Dies]) = (fst wit_restore, snd wit_restore)"
    by (simp add: wit_restore_def)
  ultimately show ?thesis using operator_restore_exact by (fastforce simp: wit_world_def Let_def)
qed

definition wit_sleep :: world where
  "wit_sleep = snd (hibernate 60 20 5 (wit_world Active False 0 (replicate 6 (Answers wit_manifest))))"

theorem hibernation_result_witness: "st (row (wc wit_sleep)) = Hibernated \<and> generation (row (wc wit_sleep)) = 6"
proof -
  have "hibernate 60 20 5 (wit_world Active False 0 (replicate 6 (Answers wit_manifest))) = (Ok wit_manifest, wit_sleep)"
    by code_simp
  then show ?thesis using hibernation_result by (fastforce simp: wit_world_def Let_def)
qed

theorem recovery_serves_witness:
  "\<exists>w'. recover 9 (wit_world Snapshotting False 0 (map Answers (replicate 7 wit_manifest) @ [])) = (Ok (), w') \<and> st (row (wc w')) = Active"
  using recovery_serves [of "wit_world Snapshotting False 0 (map Answers (replicate 7 wit_manifest) @ [])" "replicate 7 wit_manifest" "[]" 9]
  by (auto simp: wit_world_def Let_def)

end
