(* ===== verification/Go_Values.thy ===== *)
theory Go_Values
  imports SOC_Prelude
begin

section \<open>The standard library the code uses\<close>

text \<open>
  What the components use of Go's standard library, on strings as byte lists and integers as
  mathematical integers with their width written out.
\<close>

text \<open>\<^verbatim>\<open>strings.TrimSpace\<close> on the ASCII white space; the identifiers here are ASCII.\<close>

definition go_space :: "char \<Rightarrow> bool" where
  "go_space c \<longleftrightarrow> c \<in> {CHR '' '', CHR 0x09, CHR 0x0A, CHR 0x0B, CHR 0x0C, CHR 0x0D}"

definition trim_space :: "string \<Rightarrow> string" where
  "trim_space s = rev (dropWhile go_space (rev (dropWhile go_space s)))"

text \<open>\<^verbatim>\<open>strconv.FormatUint(n, 10)\<close>\<close>

fun decimal :: "nat \<Rightarrow> string" where
  "decimal n = (if n < 10 then [char_of (48 + n)] else decimal (n div 10) @ [char_of (48 + n mod 10)])"

declare decimal.simps [simp del]

definition undecimal :: "string \<Rightarrow> nat" where
  "undecimal ds = fold (\<lambda>c a. 10 * a + (of_char c - 48)) ds 0"

lemma undecimal_decimal: "undecimal (decimal n) = n"
proof (induction n rule: decimal.induct)
  case (1 n)
  then show ?case by (subst decimal.simps) (auto simp: undecimal_def of_char_of)
qed

lemma decimal_inj: "decimal m = decimal n \<longleftrightarrow> m = n"
  by (metis undecimal_decimal)

text \<open>A signed 64-bit result, and the saturating difference of \<^verbatim>\<open>time.Time.Sub\<close>.\<close>

definition int64 :: "int \<Rightarrow> int" where
  "int64 x = signed_take_bit 63 x"

definition time_sub :: "time \<Rightarrow> time \<Rightarrow> duration" where
  "time_sub t u = max (- (2 ^ 63)) (min (2 ^ 63 - 1) (t - u))"

lemma int64_id: "- (2 ^ 63) \<le> x \<Longrightarrow> x < 2 ^ 63 \<Longrightarrow> int64 x = x"
  by (simp add: int64_def signed_take_bit_int_eq_self)

definition cont :: "nat \<Rightarrow> nat \<Rightarrow> nat \<Rightarrow> bool" where
  "cont lo hi b \<longleftrightarrow> lo \<le> b \<and> b \<le> hi"

text \<open>\<^verbatim>\<open>utf8.ValidString\<close> on the bytes of a string.\<close>

fun utf8_valid :: "nat list \<Rightarrow> bool" where
  "utf8_valid [] = True"
| "utf8_valid [b] = (b < 0x80)"
| "utf8_valid (b # b1 # bs) =
     (if b < 0x80 then utf8_valid (b1 # bs)
      else if cont 0xC2 0xDF b then cont 0x80 0xBF b1 \<and> utf8_valid bs
      else if cont 0xE0 0xEF b then
        (case bs of [] \<Rightarrow> False | b2 # rest \<Rightarrow>
           cont (if b = 0xE0 then 0xA0 else 0x80) (if b = 0xED then 0x9F else 0xBF) b1 \<and> cont 0x80 0xBF b2
           \<and> utf8_valid rest)
      else if cont 0xF0 0xF4 b then
        (case bs of b2 # b3 # rest \<Rightarrow>
           cont (if b = 0xF0 then 0x90 else 0x80) (if b = 0xF4 then 0x8F else 0xBF) b1 \<and> cont 0x80 0xBF b2
           \<and> cont 0x80 0xBF b3 \<and> utf8_valid rest
         | _ \<Rightarrow> False)
      else False)"

text \<open>\<^verbatim>\<open>sort.Search(n, f)\<close>: the binary search as it runs, on any predicate.\<close>

function search_between :: "(nat \<Rightarrow> bool) \<Rightarrow> nat \<Rightarrow> nat \<Rightarrow> nat" where
  "search_between f i j =
     (if i < j then let h = (i + j) div 2 in if \<not> f h then search_between f (h + 1) j else search_between f i h
      else i)"
  by pat_completeness auto
termination by (relation "measure (\<lambda>(f, i, j). j - i)") (auto simp: Let_def)

declare search_between.simps [simp del]

definition sort_search :: "nat \<Rightarrow> (nat \<Rightarrow> bool) \<Rightarrow> nat" where
  "sort_search n f = search_between f 0 n"

text \<open>Where the predicate turns true for good, the search finds that index.\<close>

lemma search_between_finds:
  "i \<le> k \<Longrightarrow> k \<le> j \<Longrightarrow> \<forall>m. i \<le> m \<and> m < j \<longrightarrow> (f m \<longleftrightarrow> k \<le> m) \<Longrightarrow> search_between f i j = k"
proof (induction f i j rule: search_between.induct)
  case (1 f i j)
  show ?case
  proof (cases "i < j")
    case True
    let ?h = "(i + j) div 2"
    have h: "i \<le> ?h" "?h < j" using True by auto
    then have fh: "f ?h \<longleftrightarrow> k \<le> ?h" using "1.prems"(3) by blast
    then show ?thesis using 1 True h by (subst search_between.simps) (auto simp: Let_def)
  qed (use "1.prems" in \<open>simp add: search_between.simps\<close>)
qed

lemma sort_search_finds: "k \<le> n \<Longrightarrow> \<forall>m < n. f m \<longleftrightarrow> k \<le> m \<Longrightarrow> sort_search n f = k"
  by (simp add: sort_search_def search_between_finds)

end
