(* ===== verification/Lease_Contract.thy ===== *)
theory Lease_Contract
  imports Go_Values
begin

section \<open>Leases over stored work\<close>

text \<open>
  The repositories hand out work under leases in half a dozen places (\<^verbatim>\<open>internal/store/memory\<close>): a
  claim gives free items to an owner until an expiry, the owner renews, acknowledges or releases,
  and an expired lease is free again. What their clients rely on is one contract: a claim hands out
  only items no unexpired lease covers, it covers what it hands out, and nobody but the holder
  ends a lease before its expiry. Under it no item is handed to two owners at once.
\<close>

text \<open>
  The errors of the repositories by their sentinels; \<open>Malformed\<close> stands for those no sentinel names:
  a body that does not normalize, a timestamp that does not parse, an event that cannot be built.
\<close>

datatype store_error =
  InvalidArgument | LeaseConflict | NotFound | Conflict | AlreadyExists
  | IdempotencyConflict | MessageTimestampTaken | Malformed | InvalidCursor | ScheduledMessageLimit

locale lease_contract =
  fixes ok :: "'s \<Rightarrow> bool"
    and step :: "'op \<Rightarrow> time \<Rightarrow> 's \<Rightarrow> 's"
    and claimed :: "'op \<Rightarrow> time \<Rightarrow> 's \<Rightarrow> 'k set"
    and actor :: "'op \<Rightarrow> 'o option"
    and holder :: "'s \<Rightarrow> 'k \<Rightarrow> time \<Rightarrow> 'o option"
  assumes stays_ok: "ok s \<Longrightarrow> ok (step op now s)"
    and claims_free: "ok s \<Longrightarrow> k \<in> claimed op now s \<Longrightarrow> holder s k now = None"
    and claims_cover: "ok s \<Longrightarrow> k \<in> claimed op now s \<Longrightarrow> holder (step op now s) k now = actor op \<and> actor op \<noteq> None"
    and holds: "ok s \<Longrightarrow> holder s k t = Some a \<Longrightarrow> now \<le> t \<Longrightarrow> actor op \<noteq> Some a \<Longrightarrow> holder (step op now s) k t = Some a"
    and earlier: "holder s k t = Some a \<Longrightarrow> now \<le> t \<Longrightarrow> holder s k now = Some a"
begin

definition run :: "('op \<times> time) list \<Rightarrow> 's \<Rightarrow> 's" where
  "run h s = fold (\<lambda>(op, now). step op now) h s"

fun claims_of :: "'k \<Rightarrow> ('op \<times> time) list \<Rightarrow> 's \<Rightarrow> ('op \<times> time) list" where
  "claims_of k [] s = []"
| "claims_of k ((op, now) # h) s =
     (if k \<in> claimed op now s then (op, now) # claims_of k h (step op now s) else claims_of k h (step op now s))"

lemma run_simps [simp]: "run [] s = s" "run ((op, now) # h) s = run h (step op now s)"
  by (simp_all add: run_def)

lemma run_ok: "ok s \<Longrightarrow> ok (run h s)"
  by (induction h arbitrary: s) (auto simp: stays_ok)

text \<open>While a lease lasts and its holder does nothing, nobody else is handed the item.\<close>

lemma held_throughout:
  assumes "ok s" "holder s k t = Some a" "\<forall>(op, now) \<in> set h. now \<le> t \<and> actor op \<noteq> Some a"
  shows "claims_of k h s = [] \<and> holder (run h s) k t = Some a"
  using assms
proof (induction h arbitrary: s)
  case (Cons p h)
  obtain op now where p: "p = (op, now)" by (cases p)
  have "k \<notin> claimed op now s"
    using earlier [OF Cons.prems(2), of now] claims_free [OF Cons.prems(1), of k op now] Cons.prems(3) p by auto
  moreover have "holder (step op now s) k t = Some a" using holds [OF Cons.prems(1,2)] Cons.prems(3) p by simp
  moreover have "ok (step op now s)" using stays_ok Cons.prems(1) .
  ultimately show ?case using Cons.IH [of "step op now s"] Cons.prems(3) p by simp
qed simp

text \<open>Between two claims of an item, the first claimer acted again or its lease ran out.\<close>

theorem no_double_claim:
  assumes "ok s" "k \<in> claimed op now s" "holder (step op now s) k t = actor op"
    and "\<forall>(op', now') \<in> set h. now' \<le> t \<and> actor op' \<noteq> actor op"
  shows "claims_of k h (step op now s) = []"
proof -
  obtain a where a: "actor op = Some a" using claims_cover [OF assms(1,2)] by auto
  then show ?thesis using held_throughout [OF stays_ok [OF assms(1)], of op now k t a h] assms by auto
qed

end

end
