(* ===== verification/Outbox_Store.thy ===== *)
theory Outbox_Store
  imports Lease_Contract
begin

section \<open>The outbox in memory\<close>

text \<open>
  \<^verbatim>\<open>claimEvents\<close>, \<^verbatim>\<open>ReleaseEvents\<close>, \<^verbatim>\<open>RenewEvents\<close> and \<^verbatim>\<open>AckEvents\<close> of
  \<^verbatim>\<open>internal/store/memory/memory.go\<close>. The journal is append-only; the sequence of an event is its
  position from 1, so a sequence is a natural number here. The three maps keyed by sequence are
  finite-domain functions. The caller reads the clock once per operation, except \<^verbatim>\<open>ReleaseEvents\<close>,
  which reads it again for every sequence: its clock is a function from the number of the reading.
\<close>

record event =
  ev_id :: string
  ev_workspace :: string
  ev_topic :: string
  ev_payload :: string

record lease =
  le_owner :: string
  le_expires :: time

record outbox =
  journal :: "event list"
  delivered :: "nat set"
  leases :: "nat \<rightharpoonup> lease"
  next_attempt :: "nat \<rightharpoonup> time"

definition blob_delete_topics :: "string list" where
  "blob_delete_topics = [''file.blob_delete'', ''user.photo_blob_delete'', ''emoji.image_blob_delete'']"

definition internal_topic :: "string \<Rightarrow> bool" where
  "internal_topic t \<longleftrightarrow> t \<in> set blob_delete_topics"

text \<open>The journal's records with their sequences, from the \<open>n\<close>-th on.\<close>

fun records_from :: "nat \<Rightarrow> event list \<Rightarrow> (nat \<times> event) list" where
  "records_from n [] = []"
| "records_from n (e # es) = (Suc n, e) # records_from (Suc n) es"

definition skipped :: "string \<Rightarrow> string \<Rightarrow> time \<Rightarrow> outbox \<Rightarrow> nat \<times> event \<Rightarrow> bool" where
  "skipped workspace topic now s = (\<lambda>(current, e).
     ev_workspace e \<noteq> workspace \<or> (topic = [] \<and> internal_topic (ev_topic e)) \<or> (topic \<noteq> [] \<and> ev_topic e \<noteq> topic)
     \<or> current \<in> delivered s
     \<or> (case next_attempt s current of Some next_at \<Rightarrow> next_at > now | None \<Rightarrow> False)
     \<or> (case leases s current of Some active \<Rightarrow> le_expires active > now | None \<Rightarrow> False))"

fun claim_loop :: "string \<Rightarrow> string \<Rightarrow> string \<Rightarrow> int \<Rightarrow> time \<Rightarrow> time \<Rightarrow> (nat \<times> event) list \<Rightarrow>
    outbox \<Rightarrow> (nat \<times> event) list \<Rightarrow> outbox \<times> (nat \<times> event) list" where
  "claim_loop workspace topic owner limit now expires [] s result = (s, result)"
| "claim_loop workspace topic owner limit now expires (r # rs) s result =
     (if int (length result) = limit \<or> skipped workspace topic now s r
      then claim_loop workspace topic owner limit now expires rs s result
      else claim_loop workspace topic owner limit now expires rs
        (s\<lparr>leases := (leases s)(fst r \<mapsto> \<lparr>le_owner = owner, le_expires = expires\<rparr>),
           next_attempt := (next_attempt s)(fst r := None)\<rparr>)
        (result @ [r]))"

definition claim_events :: "string \<Rightarrow> string \<Rightarrow> string \<Rightarrow> int \<Rightarrow> duration \<Rightarrow> time \<Rightarrow> outbox \<Rightarrow>
    outbox \<times> (store_error + (nat \<times> event) list)" where
  "claim_events workspace topic owner limit lease now s =
     (if workspace = [] \<or> owner = [] \<or> limit \<le> 0 \<or> lease \<le> 0 then (s, Inl InvalidArgument)
      else case claim_loop workspace topic owner limit now (now + lease) (records_from 0 (journal s)) s [] of
             (s', result) \<Rightarrow> (s', Inr result))"

definition claim_events_for_topic :: "string \<Rightarrow> string \<Rightarrow> string \<Rightarrow> int \<Rightarrow> duration \<Rightarrow> time \<Rightarrow> outbox \<Rightarrow>
    outbox \<times> (store_error + (nat \<times> event) list)" where
  "claim_events_for_topic workspace topic owner limit lease now s =
     (if topic = [] then (s, Inl InvalidArgument) else claim_events workspace topic owner limit lease now s)"

definition holds_lease :: "outbox \<Rightarrow> string \<Rightarrow> time \<Rightarrow> nat \<Rightarrow> bool" where
  "holds_lease s owner now q = (case leases s q of
     None \<Rightarrow> False | Some l \<Rightarrow> le_owner l = owner \<and> le_expires l > now)"

definition release_events :: "string \<Rightarrow> nat list \<Rightarrow> time \<Rightarrow> (nat \<Rightarrow> time) \<Rightarrow> outbox \<Rightarrow> outbox \<times> store_error option" where
  "release_events owner qs retry_at clock s =
     (if owner = [] \<or> qs = [] \<or> \<not> retry_at > clock 0 then (s, Some InvalidArgument)
      else if \<exists>i < length qs. \<not> holds_lease s owner (clock (Suc i)) (qs ! i) then (s, Some LeaseConflict)
      else (fold (\<lambda>q s. s\<lparr>leases := (leases s)(q := None), next_attempt := (next_attempt s)(q \<mapsto> retry_at)\<rparr>) qs s, None))"

definition renew_events :: "string \<Rightarrow> nat list \<Rightarrow> duration \<Rightarrow> time \<Rightarrow> outbox \<Rightarrow> outbox \<times> store_error option" where
  "renew_events owner qs lease now s =
     (if owner = [] \<or> qs = [] \<or> lease \<le> 0 then (s, Some InvalidArgument)
      else if \<exists>q \<in> set qs. \<not> holds_lease s owner now q then (s, Some LeaseConflict)
      else (fold (\<lambda>q s. s\<lparr>leases := (leases s)(q := map_option (\<lambda>l. l\<lparr>le_expires := now + lease\<rparr>) (leases s q))\<rparr>) qs s, None))"

definition ack_events :: "string \<Rightarrow> nat list \<Rightarrow> time \<Rightarrow> outbox \<Rightarrow> outbox \<times> store_error option" where
  "ack_events owner qs now s =
     (if owner = [] \<or> qs = [] then (s, Some InvalidArgument)
      else if \<exists>q \<in> set qs. \<not> holds_lease s owner now q then (s, Some LeaseConflict)
      else (fold (\<lambda>q s. s\<lparr>delivered := insert q (delivered s), leases := (leases s)(q := None)\<rparr>) qs s, None))"

subsection \<open>What the loops compute\<close>

lemma records_from_in: "r \<in> set (records_from n es) \<Longrightarrow> n < fst r \<and> fst r \<le> n + length es \<and> snd r = es ! (fst r - Suc n)"
  by (induction es arbitrary: n) (fastforce simp: nth_Cons' split: if_splits)+

lemma records_from_distinct: "distinct (map fst (records_from n es))"
  by (induction es arbitrary: n) (auto dest: records_from_in)

lemma records_from_lookup: "i < length es \<Longrightarrow> (n + Suc i, es ! i) \<in> set (records_from n es)"
proof (induction es arbitrary: n i)
  case (Cons e es)
  then show ?case using Cons.IH [of "i - 1" "Suc n"] by (cases i) auto
qed simp

lemma skipped_other:
  "fst r \<noteq> q \<Longrightarrow> skipped w t now (s\<lparr>leases := (leases s)(q \<mapsto> l), next_attempt := (next_attempt s)(q := None)\<rparr>) r = skipped w t now s r"
  by (cases r) (simp add: skipped_def)

definition granted :: "string \<Rightarrow> time \<Rightarrow> nat set \<Rightarrow> outbox \<Rightarrow> outbox" where
  "granted owner expires Q s = s\<lparr>leases := (\<lambda>q. if q \<in> Q then Some \<lparr>le_owner = owner, le_expires = expires\<rparr> else leases s q),
     next_attempt := (\<lambda>q. if q \<in> Q then None else next_attempt s q)\<rparr>"

lemma claim_loop_result:
  assumes "distinct (map fst rs)" "int (length result) \<le> limit"
  shows "claim_loop w t owner limit now expires rs s result =
    (let new = take (nat limit - length result) (filter (\<lambda>r. \<not> skipped w t now s r) rs)
     in (granted owner expires (fst ` set new) s, result @ new))"
  using assms
proof (induction rs arbitrary: s result)
  case Nil
  then show ?case by (simp add: granted_def)
next
  case (Cons r rs)
  show ?case
  proof (cases "int (length result) = limit \<or> skipped w t now s r")
    case True
    have "nat limit - length result = 0" if "int (length result) = limit" using that by auto
    then show ?thesis using True Cons by (auto simp: Let_def)
  next
    case False
    let ?s = "s\<lparr>leases := (leases s)(fst r \<mapsto> \<lparr>le_owner = owner, le_expires = expires\<rparr>),
           next_attempt := (next_attempt s)(fst r := None)\<rparr>"
    have "length result < nat limit" using False Cons.prems(2) by linarith
    then have n: "nat limit - length result = Suc (nat limit - length (result @ [r]))" by simp
    have same: "filter (\<lambda>r. \<not> skipped w t now ?s r) rs = filter (\<lambda>r. \<not> skipped w t now s r) rs"
    proof (rule filter_cong [OF refl])
      fix x assume "x \<in> set rs"
      then have "fst x \<noteq> fst r" using Cons.prems(1) by (metis distinct.simps(2) image_eqI list.set_map list.simps(9))
      then show "(\<not> skipped w t now ?s x) = (\<not> skipped w t now s x)" by (simp add: skipped_other)
    qed
    show ?thesis using False Cons.IH [of "result @ [r]" ?s] Cons.prems same n
      by (auto simp: Let_def granted_def fun_eq_iff)
  qed
qed

lemma release_fold: "fold (\<lambda>q s. s\<lparr>leases := (leases s)(q := None), next_attempt := (next_attempt s)(q \<mapsto> retry_at)\<rparr>) qs s =
  s\<lparr>leases := (\<lambda>q. if q \<in> set qs then None else leases s q),
    next_attempt := (\<lambda>q. if q \<in> set qs then Some retry_at else next_attempt s q)\<rparr>"
  by (induction qs arbitrary: s) (auto simp: fun_eq_iff)

lemma ack_fold: "fold (\<lambda>q s. s\<lparr>delivered := insert q (delivered s), leases := (leases s)(q := None)\<rparr>) qs s =
  s\<lparr>delivered := set qs \<union> delivered s, leases := (\<lambda>q. if q \<in> set qs then None else leases s q)\<rparr>"
  by (induction qs arbitrary: s) (auto simp: fun_eq_iff)

lemma renew_fold: "fold (\<lambda>q s. s\<lparr>leases := (leases s)(q := map_option (\<lambda>l. l\<lparr>le_expires := e\<rparr>) (leases s q))\<rparr>) qs s =
  s\<lparr>leases := (\<lambda>q. if q \<in> set qs then map_option (\<lambda>l. l\<lparr>le_expires := e\<rparr>) (leases s q) else leases s q)\<rparr>"
  by (induction qs arbitrary: s) (auto simp: fun_eq_iff option.map_comp comp_def)

subsection \<open>The lease contract\<close>

datatype outbox_op =
    Append event | Claim string string string int duration | Release string "nat list" time
  | Renew string "nat list" duration | Ack string "nat list"

fun outbox_step :: "outbox_op \<Rightarrow> time \<Rightarrow> outbox \<Rightarrow> outbox" where
  "outbox_step (Append e) now s = s\<lparr>journal := journal s @ [e]\<rparr>"
| "outbox_step (Claim w t owner limit lease) now s = fst (claim_events w t owner limit lease now s)"
| "outbox_step (Release owner qs retry_at) now s = fst (release_events owner qs retry_at (\<lambda>_. now) s)"
| "outbox_step (Renew owner qs lease) now s = fst (renew_events owner qs lease now s)"
| "outbox_step (Ack owner qs) now s = fst (ack_events owner qs now s)"

fun outbox_claimed :: "outbox_op \<Rightarrow> time \<Rightarrow> outbox \<Rightarrow> nat set" where
  "outbox_claimed (Claim w t owner limit lease) now s =
     (case snd (claim_events w t owner limit lease now s) of Inl _ \<Rightarrow> {} | Inr rs \<Rightarrow> fst ` set rs)"
| "outbox_claimed _ now s = {}"

fun outbox_actor :: "outbox_op \<Rightarrow> string option" where
  "outbox_actor (Append e) = None"
| "outbox_actor (Claim w t owner limit lease) = Some owner"
| "outbox_actor (Release owner qs retry_at) = Some owner"
| "outbox_actor (Renew owner qs lease) = Some owner"
| "outbox_actor (Ack owner qs) = Some owner"

definition outbox_holder :: "outbox \<Rightarrow> nat \<Rightarrow> time \<Rightarrow> string option" where
  "outbox_holder s q t = (case leases s q of
     None \<Rightarrow> None | Some l \<Rightarrow> if le_expires l > t then Some (le_owner l) else None)"

lemma claim_events_result:
  "claim_events w t owner limit lease now s =
    (if w = [] \<or> owner = [] \<or> limit \<le> 0 \<or> lease \<le> 0 then (s, Inl InvalidArgument)
     else let new = take (nat limit) (filter (\<lambda>r. \<not> skipped w t now s r) (records_from 0 (journal s)))
          in (granted owner (now + lease) (fst ` set new) s, Inr new))"
  by (simp add: claim_events_def claim_loop_result [OF records_from_distinct] Let_def)

lemma claimed_not_skipped:
  assumes "q \<in> outbox_claimed (Claim w t owner limit lease) now s"
  shows "\<exists>e. \<not> skipped w t now s (q, e)" "lease > 0" "owner \<noteq> []"
    "\<exists>Q. outbox_step (Claim w t owner limit lease) now s = granted owner (now + lease) Q s \<and> q \<in> Q"
  using assms by (fastforce simp: claim_events_result Let_def dest: in_set_takeD split: if_splits)+

lemma step_keeps_lease:
  assumes "outbox_holder s q t = Some a" "now \<le> t" "outbox_actor op \<noteq> Some a"
  shows "outbox_holder (outbox_step op now s) q t = Some a"
proof (cases op)
  case (Claim w tp owner limit lease)
  have "q \<notin> fst ` set (take n (filter (\<lambda>r. \<not> skipped w tp now s r) (records_from 0 (journal s))))" for n
    using assms(1,2) by (auto simp: skipped_def outbox_holder_def split: option.splits if_splits dest!: in_set_takeD)
  then show ?thesis using Claim assms(1)
    by (simp add: claim_events_result Let_def granted_def outbox_holder_def)
next
  case (Release owner qs retry_at)
  then have "\<not> holds_lease s owner now q" using assms by (auto simp: holds_lease_def outbox_holder_def split: option.splits if_splits)
  then show ?thesis using Release assms(1)
    by (auto simp: release_events_def release_fold outbox_holder_def in_set_conv_nth)
next
  case (Renew owner qs lease)
  then have "\<not> holds_lease s owner now q" using assms by (auto simp: holds_lease_def outbox_holder_def split: option.splits if_splits)
  then show ?thesis using Renew assms(1)
    by (auto simp: renew_events_def renew_fold outbox_holder_def)
next
  case (Ack owner qs)
  then have "\<not> holds_lease s owner now q" using assms by (auto simp: holds_lease_def outbox_holder_def split: option.splits if_splits)
  then show ?thesis using Ack assms(1)
    by (auto simp: ack_events_def ack_fold outbox_holder_def)
qed (use assms(1) in \<open>simp add: outbox_holder_def\<close>)

interpretation outbox: lease_contract "\<lambda>_. True" outbox_step outbox_claimed outbox_actor outbox_holder
proof
  fix op now s k t a
  show "k \<in> outbox_claimed op now s \<Longrightarrow> outbox_holder s k now = None"
    using claimed_not_skipped(1) by (cases op) (fastforce simp: skipped_def outbox_holder_def split: option.splits)+
  show "k \<in> outbox_claimed op now s \<Longrightarrow> outbox_holder (outbox_step op now s) k now = outbox_actor op \<and> outbox_actor op \<noteq> None"
    using claimed_not_skipped(2,4) by (cases op) (fastforce simp: granted_def outbox_holder_def)+
  show "outbox_holder s k t = Some a \<Longrightarrow> now \<le> t \<Longrightarrow> outbox_actor op \<noteq> Some a \<Longrightarrow>
      outbox_holder (outbox_step op now s) k t = Some a" by (rule step_keeps_lease)
  show "outbox_holder s k t = Some a \<Longrightarrow> now \<le> t \<Longrightarrow> outbox_holder s k now = Some a"
    by (auto simp: outbox_holder_def split: option.splits if_splits)
qed simp

subsection \<open>What the outbox promises\<close>

lemma outbox_step_delivered:
  "q \<in> delivered (outbox_step op now s) \<Longrightarrow> q \<notin> delivered s \<Longrightarrow>
     \<exists>owner qs. op = Ack owner qs \<and> q \<in> set qs \<and> outbox_holder s q now = Some owner"
  by (cases op) (auto simp: claim_events_result release_events_def release_fold renew_events_def renew_fold
      ack_events_def ack_fold granted_def Let_def holds_lease_def outbox_holder_def split: if_splits option.splits)

lemma outbox_step_keeps_delivered: "q \<in> delivered s \<Longrightarrow> q \<in> delivered (outbox_step op now s)"
  by (cases op) (auto simp: claim_events_result release_events_def release_fold renew_events_def renew_fold
      ack_events_def ack_fold granted_def Let_def)

lemma delivered_not_claimed: "q \<in> delivered s \<Longrightarrow> q \<notin> outbox_claimed op now s"
  using claimed_not_skipped(1) by (cases op) (fastforce simp: skipped_def)+

lemma delivered_never_claimed: "q \<in> delivered s \<Longrightarrow> outbox.claims_of q h s = []"
proof (induction h arbitrary: s)
  case (Cons p h)
  then show ?case by (cases p) (simp add: delivered_not_claimed outbox_step_keeps_delivered)
qed simp

subsection \<open>Properties\<close>

text \<open>
  A claim hands out exactly the first \<open>limit\<close> records, in journal order, of the workspace and
  topic asked for that are undelivered, unleased and past their retry time, and leases exactly those
  to the caller until \<open>now + lease\<close>; it changes nothing else.
\<close>

theorem claim_hands_out:
  assumes "w \<noteq> []" "owner \<noteq> []" "limit > 0" "lease > 0"
  shows "\<exists>new. claim_events w t owner limit lease now s = (granted owner (now + lease) (fst ` set new) s, Inr new)
    \<and> new = take (nat limit) (filter (\<lambda>r. \<not> skipped w t now s r) (records_from 0 (journal s)))"
  using assms by (simp add: claim_events_result Let_def)

text \<open>
  C3. No event is handed to two owners at once: after a claim, whatever other owners do up to the
  lease's expiry (claim, renew, acknowledge, release, at any times, in any order), none of them is
  given a record of the claim, unless its holder acts on it first.
\<close>

theorem outbox_exclusive:
  assumes "q \<in> outbox_claimed (Claim w t owner limit lease) now s"
    and "\<forall>(op, now') \<in> set h. now' < now + lease \<and> outbox_actor op \<noteq> Some owner"
  shows "outbox.claims_of q h (outbox_step (Claim w t owner limit lease) now s) = []"
proof -
  let ?s = "outbox_step (Claim w t owner limit lease) now s"
  have "outbox_holder ?s q (now + lease - 1) = Some owner"
    using claimed_not_skipped(4) [OF assms(1)] by (auto simp: granted_def outbox_holder_def)
  moreover have "\<forall>(op, now') \<in> set h. now' \<le> now + lease - 1 \<and> outbox_actor op \<noteq> Some owner" using assms(2) by auto
  ultimately show ?thesis using outbox.held_throughout [OF TrueI] by blast
qed

text \<open>
  A record is marked delivered only by an acknowledgement of the owner holding its lease, and once
  delivered it is never handed out again, whatever happens later.
\<close>

theorem delivered_once:
  "(q \<in> delivered (outbox_step op now s) \<and> q \<notin> delivered s \<longrightarrow>
      (\<exists>owner qs. op = Ack owner qs \<and> q \<in> set qs \<and> outbox_holder s q now = Some owner))
   \<and> (q \<in> delivered s \<longrightarrow> outbox.claims_of q h s = [])"
  using outbox_step_delivered delivered_never_claimed by blast

text \<open>
  No record is forgotten: a record of the journal that has not been delivered is claimable as soon
  as its lease and its retry time have passed, by any owner asking for its workspace with room for it.
\<close>

theorem undelivered_claimable:
  assumes "i < length (journal s)" "Suc i \<notin> delivered s" "\<not> internal_topic (ev_topic (journal s ! i))"
    and "outbox_holder s (Suc i) now = None" "\<forall>t. next_attempt s (Suc i) = Some t \<longrightarrow> t \<le> now"
    and "w = ev_workspace (journal s ! i)" "w \<noteq> []" "owner \<noteq> []" "lease > 0" "limit \<ge> int (length (journal s))"
  shows "Suc i \<in> outbox_claimed (Claim w [] owner limit lease) now s"
proof -
  let ?r = "(Suc i, journal s ! i)"
  have "\<not> skipped w [] now s ?r"
    using assms(2-6) by (auto simp: skipped_def outbox_holder_def split: option.splits if_splits)
  moreover have "?r \<in> set (records_from 0 (journal s))" using records_from_lookup [OF assms(1), of 0] by simp
  moreover have "length (records_from n es) = length es" for n and es :: "event list"
    by (induction es arbitrary: n) auto
  then have "length (filter (\<lambda>r. \<not> skipped w [] now s r) (records_from 0 (journal s))) \<le> nat limit"
    using assms(10) length_filter_le [of _ "records_from 0 (journal s)"] by (metis le_nat_iff le_trans nat_int nat_mono)
  ultimately have "?r \<in> set (take (nat limit) (filter (\<lambda>r. \<not> skipped w [] now s r) (records_from 0 (journal s))))"
    by simp
  moreover have "limit > 0" using assms(1,10) by linarith
  ultimately show ?thesis using assms(7-9) by (force simp: claim_events_result Let_def)
qed

text \<open>
  Acknowledging, renewing and releasing are all or nothing: with one sequence in the batch the
  caller does not hold, nothing changes and the call reports a conflict.
\<close>

theorem batch_all_or_nothing:
  assumes "q \<in> set qs" "outbox_holder s q now \<noteq> Some owner" "owner \<noteq> []" "lease > 0" "retry_at > now"
  shows "ack_events owner qs now s = (s, Some LeaseConflict)
    \<and> renew_events owner qs lease now s = (s, Some LeaseConflict)
    \<and> release_events owner qs retry_at (\<lambda>_. now) s = (s, Some LeaseConflict)"
proof -
  have "\<not> holds_lease s owner now q" using assms(2) by (auto simp: holds_lease_def outbox_holder_def split: option.splits if_splits)
  moreover from this obtain i where "i < length qs" "\<not> holds_lease s owner now (qs ! i)"
    using assms(1) by (metis in_set_conv_nth)
  moreover have "qs \<noteq> []" using assms(1) by auto
  ultimately show ?thesis using assms by (auto simp: ack_events_def renew_events_def release_events_def)
qed

subsection \<open>The properties on a journal\<close>

definition wit_event :: "string \<Rightarrow> event" where
  "wit_event t = \<lparr>ev_id = ''E'', ev_workspace = ''W1'', ev_topic = t, ev_payload = []\<rparr>"

definition wit_outbox :: outbox where
  "wit_outbox = \<lparr>journal = [wit_event ''message.created'', wit_event ''file.blob_delete'', wit_event ''message.deleted''],
     delivered = {}, leases = Map.empty, next_attempt = Map.empty\<rparr>"

theorem claim_hands_out_witness:
  "\<exists>new. claim_events ''W1'' [] ''w1'' 5 30 100 wit_outbox = (granted ''w1'' (100 + 30) (fst ` set new) wit_outbox, Inr new)
    \<and> map fst new = [1, 3]"
  using claim_hands_out [of "''W1''" "''w1''" 5 30 "[]" 100 wit_outbox]
  by (simp add: wit_outbox_def wit_event_def skipped_def internal_topic_def blob_delete_topics_def)

lemma wit_claim: "1 \<in> outbox_claimed (Claim ''W1'' [] ''w1'' 5 30) 100 wit_outbox"
  by (simp add: claim_events_result wit_outbox_def wit_event_def skipped_def internal_topic_def blob_delete_topics_def)

theorem outbox_exclusive_witness:
  "outbox.claims_of 1 [(Claim ''W1'' [] ''w2'' 5 30, 110), (Ack ''w2'' [1], 120)]
     (outbox_step (Claim ''W1'' [] ''w1'' 5 30) 100 wit_outbox) = []"
  by (rule outbox_exclusive [OF wit_claim]) simp

theorem delivered_once_witness:
  "outbox.claims_of 1 [(Claim ''W1'' [] ''w2'' 5 30, 500)]
     (outbox_step (Ack ''w1'' [1]) 110 (outbox_step (Claim ''W1'' [] ''w1'' 5 30) 100 wit_outbox)) = []"
proof -
  have "1 \<in> delivered (outbox_step (Ack ''w1'' [1]) 110 (outbox_step (Claim ''W1'' [] ''w1'' 5 30) 100 wit_outbox))"
    by (simp add: claim_events_result wit_outbox_def wit_event_def skipped_def internal_topic_def blob_delete_topics_def
        ack_events_def holds_lease_def granted_def)
  then show ?thesis by (rule delivered_once [THEN conjunct2, THEN mp])
qed

lemma wit_outbox_first: "0 < length (journal wit_outbox)" "Suc 0 \<notin> delivered wit_outbox"
  "\<not> internal_topic (ev_topic (journal wit_outbox ! 0))" "outbox_holder wit_outbox (Suc 0) 100 = None"
  "\<forall>t. next_attempt wit_outbox (Suc 0) = Some t \<longrightarrow> t \<le> 100" "''W1'' = ev_workspace (journal wit_outbox ! 0)"
  "(3::int) \<ge> int (length (journal wit_outbox))"
  by (simp_all add: wit_outbox_def wit_event_def internal_topic_def blob_delete_topics_def outbox_holder_def)

theorem undelivered_claimable_witness: "Suc 0 \<in> outbox_claimed (Claim ''W1'' [] ''w1'' 3 30) 100 wit_outbox"
  by (rule undelivered_claimable [OF wit_outbox_first(1-6) _ _ _ wit_outbox_first(7)]) simp_all

theorem batch_all_or_nothing_witness:
  "ack_events ''w2'' [1] 110 (outbox_step (Claim ''W1'' [] ''w1'' 5 30) 100 wit_outbox)
     = (outbox_step (Claim ''W1'' [] ''w1'' 5 30) 100 wit_outbox, Some LeaseConflict)"
proof -
  have "outbox_holder (outbox_step (Claim ''W1'' [] ''w1'' 5 30) 100 wit_outbox) 1 110 = Some ''w1''"
    by (simp add: claim_events_result wit_outbox_def wit_event_def skipped_def internal_topic_def blob_delete_topics_def
        granted_def outbox_holder_def)
  then show ?thesis
    using batch_all_or_nothing [of 1 "[1]" "outbox_step (Claim ''W1'' [] ''w1'' 5 30) 100 wit_outbox" 110 "''w2''" 30 200] by simp
qed

end
