(* ===== verification/Outbox_Worker.thy ===== *)
theory Outbox_Worker
  imports Outbox_Store
begin

section \<open>The worker that drains the outbox\<close>

text \<open>
  \<^verbatim>\<open>internal/outbox/worker.go\<close>: a batch is claimed, delivered record by record and acknowledged as it
  goes, while a renewal goroutine extends the lease on what the worker still owns. The source and the
  destination are interfaces: what they answer is a script of results, and every call is logged with
  whether it succeeded. The renewal lock makes a renewal atomic against an acknowledgement or a
  release, so the goroutine is a number of renewals, given by a script too, that happen between two
  steps of the batch: while a record is being delivered, between the delivery and what follows it,
  and before the hold is stopped. An error is a tree, as \<^verbatim>\<open>errors.Join\<close> builds it.
\<close>

datatype werr = Canceled | Permanent string | Plain string | Joined "werr list"

fun is_canceled :: "werr \<Rightarrow> bool" where
  "is_canceled Canceled = True"
| "is_canceled (Joined es) = list_ex is_canceled es"
| "is_canceled _ = False"

fun is_permanent :: "werr \<Rightarrow> bool" where
  "is_permanent (Permanent _) = True"
| "is_permanent (Joined es) = list_ex is_permanent es"
| "is_permanent _ = False"

definition join :: "werr option list \<Rightarrow> werr option" where
  "join es = (let es = List.map_filter id es in if es = [] then None else Some (Joined es))"

datatype wcall =
  CClaim | CDeliver nat | CRenew "nat list" | CAck nat | CRelease "nat list" time

record wworld =
  w_results :: "werr option list"
  w_ticks :: "nat list"
  w_clock :: "time list"
  w_log :: "(wcall \<times> bool) list"

record hold =
  h_seqs :: "nat list"
  h_fail :: "werr option"
  h_exited :: bool

definition call :: "wcall \<Rightarrow> wworld \<Rightarrow> wworld \<times> werr option" where
  "call c w =
     (let res = (case w_results w of [] \<Rightarrow> None | r # _ \<Rightarrow> r)
      in (w\<lparr>w_results := tl (w_results w), w_log := w_log w @ [(c, res = None)]\<rparr>, res))"

definition read_now :: "wworld \<Rightarrow> wworld \<times> time" where
  "read_now w = (w\<lparr>w_clock := tl (w_clock w)\<rparr>, case w_clock w of [] \<Rightarrow> 0 | t # _ \<Rightarrow> t)"

subsection \<open>The hold\<close>

definition hold_lease :: "nat list \<Rightarrow> hold" where
  "hold_lease sequences = \<lparr>h_seqs = sequences, h_fail = None, h_exited = False\<rparr>"

definition renew_interval :: "duration \<Rightarrow> duration" where
  "renew_interval lease = (let interval = lease div 3 in if interval < 1000000 then 1000000 else interval)"

definition renewal :: "hold \<Rightarrow> wworld \<Rightarrow> hold \<times> wworld" where
  "renewal h w =
     (if h_exited h then (h, w)
      else if h_seqs h = [] then (h, w)
      else case call (CRenew (h_seqs h)) w of
             (w', None) \<Rightarrow> (h, w')
           | (w', Some e) \<Rightarrow> (h\<lparr>h_fail := (if h_fail h = None then Some e else h_fail h), h_exited := True\<rparr>, w'))"

definition renewals :: "hold \<Rightarrow> wworld \<Rightarrow> hold \<times> wworld" where
  "renewals h w =
     (let n = (case w_ticks w of [] \<Rightarrow> 0 | k # _ \<Rightarrow> k)
      in ((\<lambda>(h, w). renewal h w) ^^ n) (h, w\<lparr>w_ticks := tl (w_ticks w)\<rparr>))"

definition acknowledge :: "nat list \<Rightarrow> nat \<Rightarrow> hold \<Rightarrow> wworld \<Rightarrow> hold \<times> wworld \<times> werr option" where
  "acknowledge remaining q h w =
     (case call (CAck q) w of
        (w', Some e) \<Rightarrow> (h, w', Some e)
      | (w', None) \<Rightarrow> (h\<lparr>h_seqs := remaining\<rparr>, w', None))"

definition release :: "nat list \<Rightarrow> nat list \<Rightarrow> time \<Rightarrow> hold \<Rightarrow> wworld \<Rightarrow> hold \<times> wworld \<times> werr option" where
  "release remaining qs retry_at h w =
     (case call (CRelease qs retry_at) w of
        (w', Some e) \<Rightarrow> (h, w', Some e)
      | (w', None) \<Rightarrow> (h\<lparr>h_seqs := remaining\<rparr>, w', None))"

definition precedence :: "hold \<Rightarrow> werr option \<Rightarrow> werr option" where
  "precedence h delivery =
     (case h_fail h of
        None \<Rightarrow> delivery
      | Some e \<Rightarrow>
          if is_canceled e then delivery
          else case delivery of None \<Rightarrow> Some e | Some d \<Rightarrow> if is_canceled d then Some e else Some d)"

subsection \<open>The batch\<close>

text \<open>\<open>records\<close> are the records from the current index on, which is \<^verbatim>\<open>outstanding[index:]\<close>.\<close>

fun deliver_batch :: "duration \<Rightarrow> nat list \<Rightarrow> int \<Rightarrow> werr option list \<Rightarrow> hold \<Rightarrow> wworld \<Rightarrow> hold \<times> wworld \<times> int \<times> werr option" where
  "deliver_batch lease [] sent permanent h w = (h, w, sent, join permanent)"
| "deliver_batch lease (q # qs) sent permanent h w =
     (let (w, res) = call (CDeliver q) w;
          (h, w) = renewals h w;
          derr = precedence h res;
          (h, w) = renewals h w
      in if derr \<noteq> None \<and> \<not> is_permanent (the derr) then
           (let (w, t) = read_now w; (h, w, rel) = release [] (q # qs) (t + lease) h w
            in case rel of
                 Some e \<Rightarrow> (h, w, sent, join [derr, Some e])
               | None \<Rightarrow> (h, w, sent, derr))
         else
           (let (h, w, ack) = acknowledge qs q h w
            in case ack of
                 Some e \<Rightarrow>
                   if qs \<noteq> [] then
                     (let (w, t) = read_now w; (h, w, rel) = release [q] qs (t + lease) h w
                      in case rel of
                           Some e' \<Rightarrow> (h, w, sent, join [derr, Some e, Some e'])
                         | None \<Rightarrow> (h, w, sent, join [derr, Some e]))
                   else (h, w, sent, join [derr, Some e])
               | None \<Rightarrow>
                   if derr \<noteq> None then deliver_batch lease qs sent (permanent @ [derr]) h w
                   else deliver_batch lease qs (sent + 1) permanent h w))"

definition run_once :: "duration \<Rightarrow> nat list \<Rightarrow> wworld \<Rightarrow> wworld \<times> int \<times> werr option" where
  "run_once lease claimed w =
     (case call CClaim w of
        (w, Some e) \<Rightarrow> (w, 0, Some e)
      | (w, None) \<Rightarrow>
          if claimed = [] then (w, 0, None)
          else (let (h, w, sent, err) = deliver_batch lease claimed 0 [] (hold_lease claimed) w;
                    (h, w) = renewals h w
                in (w, sent, precedence h err)))"

subsection \<open>What a batch leaves in the log\<close>

definition deliveries :: "(wcall \<times> bool) list \<Rightarrow> nat list" where
  "deliveries l = List.map_filter (\<lambda>c. case c of (CDeliver q, _) \<Rightarrow> Some q | _ \<Rightarrow> None) l"

definition acked :: "(wcall \<times> bool) list \<Rightarrow> nat set" where
  "acked l = {q. (CAck q, True) \<in> set l}"

definition released :: "(wcall \<times> bool) list \<Rightarrow> nat set" where
  "released l = {q. \<exists>qs t. (CRelease qs t, True) \<in> set l \<and> q \<in> set qs}"

text \<open>No renewal names a record the worker had already acknowledged or handed back.\<close>

fun clean_after :: "nat set \<Rightarrow> (wcall \<times> bool) list \<Rightarrow> bool" where
  "clean_after gone [] \<longleftrightarrow> True"
| "clean_after gone (e # l) \<longleftrightarrow> (case fst e of CRenew qs \<Rightarrow> set qs \<inter> gone = {} | _ \<Rightarrow> True)
     \<and> clean_after (gone \<union> acked [e] \<union> released [e]) l"

definition renewals_clean :: "(wcall \<times> bool) list \<Rightarrow> bool" where
  "renewals_clean l = clean_after {} l"

lemma deliveries_simps [simp]: "deliveries [] = []" "deliveries (l @ m) = deliveries l @ deliveries m"
  "deliveries ((c, b) # l) = (case c of CDeliver q \<Rightarrow> q # deliveries l | _ \<Rightarrow> deliveries l)"
  by (simp_all add: deliveries_def List.map_filter_def split: wcall.split)

lemma acked_simps [simp]: "acked [] = {}" "acked (l @ m) = acked l \<union> acked m"
  "acked ((c, b) # l) = (case c of CAck q \<Rightarrow> if b then insert q (acked l) else acked l | _ \<Rightarrow> acked l)"
  by (auto simp: acked_def split: wcall.split)

lemma released_simps [simp]: "released [] = {}" "released (l @ m) = released l \<union> released m"
  "released ((c, b) # l) = (case c of CRelease qs t \<Rightarrow> if b then set qs \<union> released l else released l | _ \<Rightarrow> released l)"
  by (auto simp: released_def split: wcall.split)

lemma clean_after_snoc:
  "clean_after gone (l @ [(c, b)]) \<longleftrightarrow> clean_after gone l
     \<and> (case c of CRenew qs \<Rightarrow> set qs \<inter> (gone \<union> acked l \<union> released l) = {} | _ \<Rightarrow> True)"
proof (induction l arbitrary: gone)
  case (Cons e l)
  have "acked (e # l) = acked [e] \<union> acked l" "released (e # l) = released [e] \<union> released l"
    by (cases e; auto split: wcall.split)+
  then show ?case using Cons by (simp add: Un_ac split: wcall.split del: acked_simps(3) released_simps(3))
qed (simp split: wcall.split)

lemma renewals_clean_simps [simp]: "renewals_clean []"
  "renewals_clean (l @ [(c, b)]) \<longleftrightarrow> renewals_clean l
     \<and> (case c of CRenew qs \<Rightarrow> set qs \<inter> (acked l \<union> released l) = {} | _ \<Rightarrow> True)"
  by (simp_all add: renewals_clean_def clean_after_snoc split: wcall.split)

lemma call_log: "call c w = (w', r) \<Longrightarrow> w_log w' = w_log w @ [(c, r = None)]"
  by (auto simp: call_def Let_def)

lemma read_now_log [simp]: "w_log (fst (read_now w)) = w_log w"
  by (simp add: read_now_def)

text \<open>A log extended by renewals of what a hold covers.\<close>

definition renewed :: "nat list \<Rightarrow> (wcall \<times> bool) list \<Rightarrow> (wcall \<times> bool) list \<Rightarrow> bool" where
  "renewed qs l l' \<longleftrightarrow> (\<exists>bs. l' = l @ map (\<lambda>b. (CRenew qs, b)) bs)"

lemma renewals_spec: "renewals h w = (h', w') \<Longrightarrow> h_seqs h' = h_seqs h \<and> renewed (h_seqs h) (w_log w) (w_log w')"
proof -
  have one: "renewal h w = (h', w') \<Longrightarrow> h_seqs h' = h_seqs h \<and> renewed (h_seqs h) (w_log w) (w_log w')" for h w h' w'
    by (auto simp: renewal_def renewed_def call_log intro: exI [of _ "[]"] exI [of _ "[_]"] split: if_splits prod.splits option.splits)
  have many: "((\<lambda>(h, w). renewal h w) ^^ n) (h, w) = (h', w') \<Longrightarrow>
      h_seqs h' = h_seqs h \<and> renewed (h_seqs h) (w_log w) (w_log w')" for n h w h' w'
  proof (induction n arbitrary: h' w')
    case 0
    then show ?case by (auto simp: renewed_def)
  next
    case (Suc n)
    obtain h1 w1 where "((\<lambda>(h, w). renewal h w) ^^ n) (h, w) = (h1, w1)" by (cases "((\<lambda>(h, w). renewal h w) ^^ n) (h, w)")
    then show ?case using Suc one [of h1 w1 h' w'] by (fastforce simp: renewed_def simp flip: map_append)
  qed
  assume "renewals h w = (h', w')"
  then show ?thesis using many [of _ h "w\<lparr>w_ticks := tl (w_ticks w)\<rparr>" h' w'] by (simp add: renewals_def Let_def)
qed

lemma renewed_simps:
  assumes "renewed qs l l'"
  shows "deliveries l' = deliveries l" "acked l' = acked l" "released l' = released l"
    "set qs \<inter> (acked l \<union> released l) = {} \<Longrightarrow> renewals_clean l \<Longrightarrow> renewals_clean l'"
proof -
  obtain bs where l': "l' = l @ map (\<lambda>b. (CRenew qs, b)) bs" using assms by (auto simp: renewed_def)
  have "deliveries (l @ map (\<lambda>b. (CRenew qs, b)) bs) = deliveries l
      \<and> acked (l @ map (\<lambda>b. (CRenew qs, b)) bs) = acked l \<and> released (l @ map (\<lambda>b. (CRenew qs, b)) bs) = released l
      \<and> (set qs \<inter> (acked l \<union> released l) = {} \<and> renewals_clean l \<longrightarrow> renewals_clean (l @ map (\<lambda>b. (CRenew qs, b)) bs))"
  proof (induction bs rule: rev_induct)
    case (snoc b bs)
    then show ?case using renewals_clean_simps(2) [of "l @ map (\<lambda>b. (CRenew qs, b)) bs" "CRenew qs" b] by auto
  qed simp
  then show "deliveries l' = deliveries l" "acked l' = acked l" "released l' = released l"
    "set qs \<inter> (acked l \<union> released l) = {} \<Longrightarrow> renewals_clean l \<Longrightarrow> renewals_clean l'"
    using l' by auto
qed

definition source_answers :: "(wcall \<times> bool) list \<Rightarrow> bool" where
  "source_answers l \<longleftrightarrow> (\<forall>(c, b) \<in> set l. case c of CAck _ \<Rightarrow> b | CRelease _ _ \<Rightarrow> b | _ \<Rightarrow> True)"

lemma source_answers_simps [simp]: "source_answers []" "source_answers (l @ m) \<longleftrightarrow> source_answers l \<and> source_answers m"
  "source_answers ((c, b) # l) \<longleftrightarrow> (case c of CAck _ \<Rightarrow> b | CRelease _ _ \<Rightarrow> b | _ \<Rightarrow> True) \<and> source_answers l"
  by (auto simp: source_answers_def)

lemma join_None: "join es = None \<longleftrightarrow> (\<forall>e \<in> set es. e = None)"
  by (auto simp: join_def Let_def List.map_filter_def filter_empty_conv)

text \<open>
  What a stretch of a batch has done to the log, having started with \<open>qs\<close> outstanding: \<open>k\<close> of them
  were delivered, in order.
\<close>

definition batch_done :: "nat list \<Rightarrow> int \<Rightarrow> werr option list \<Rightarrow> wworld \<Rightarrow> hold \<times> wworld \<times> int \<times> werr option \<Rightarrow> bool" where
  "batch_done qs sent permanent w = (\<lambda>(h', w', n, err). renewals_clean (w_log w')
     \<and> set (h_seqs h') \<inter> (acked (w_log w') \<union> released (w_log w')) = {}
     \<and> (\<exists>k \<le> length qs. deliveries (w_log w') = deliveries (w_log w) @ take k qs
          \<and> acked (w_log w') \<subseteq> acked (w_log w) \<union> set (take k qs))
     \<and> acked (w_log w) \<subseteq> acked (w_log w') \<and> released (w_log w) \<subseteq> released (w_log w')
     \<and> (err = None \<longrightarrow> set qs \<subseteq> acked (w_log w') \<and> n = sent + int (length qs) \<and> (\<forall>e \<in> set permanent. e = None))
     \<and> (source_answers (w_log w') \<longrightarrow> set qs \<subseteq> acked (w_log w') \<union> released (w_log w')))"

lemma release_log: "release rem qs t h w = (h', w', r) \<Longrightarrow>
    w_log w' = w_log w @ [(CRelease qs t, r = None)] \<and> h_seqs h' = (if r = None then rem else h_seqs h)"
  by (auto simp: release_def call_log split: prod.splits option.splits dest: call_log)

lemma acknowledge_log: "acknowledge rem q h w = (h', w', r) \<Longrightarrow>
    w_log w' = w_log w @ [(CAck q, r = None)] \<and> h_seqs h' = (if r = None then rem else h_seqs h)"
  by (auto simp: acknowledge_def call_log split: prod.splits option.splits dest: call_log)

lemma deliver_batch_done:
  assumes "distinct qs" "h_seqs h = qs" "set qs \<inter> (acked (w_log w) \<union> released (w_log w)) = {}" "renewals_clean (w_log w)"
  shows "batch_done qs sent permanent w (deliver_batch lease qs sent permanent h w)"
  using assms
proof (induction qs arbitrary: sent permanent h w)
  case Nil
  then show ?case by (simp add: batch_done_def join_None)
next
  case (Cons q qs)
  obtain w1 res where w1: "call (CDeliver q) w = (w1, res)" by (cases "call (CDeliver q) w")
  obtain h2 w2 where w2: "renewals h w1 = (h2, w2)" by (cases "renewals h w1")
  obtain derr where derr: "precedence h2 res = derr" by simp
  obtain h3 w3 where w3: "renewals h2 w2 = (h3, w3)" by (cases "renewals h2 w2")
  note r2 = renewals_spec [OF w2] and r3 = renewals_spec [OF w3]
  have h3: "h_seqs h3 = q # qs" using r2 r3 Cons.prems(2) by simp
  have ren: "renewed (q # qs) (w_log w1) (w_log w2)" "renewed (q # qs) (w_log w2) (w_log w3)"
    using r2 r3 Cons.prems(2) by auto
  have l1: "w_log w1 = w_log w @ [(CDeliver q, res = None)]" using call_log [OF w1] .
  have log3: "deliveries (w_log w3) = deliveries (w_log w) @ [q]" "acked (w_log w3) = acked (w_log w)"
    "released (w_log w3) = released (w_log w)"
    using renewed_simps(1-3) [OF ren(1)] renewed_simps(1-3) [OF ren(2)] l1 by auto
  have "renewals_clean (w_log w1)" using Cons.prems(4) l1 by simp
  then have "renewals_clean (w_log w2)"
    using renewed_simps(4) [OF ren(1)] Cons.prems(3) l1 by simp
  then have clean3: "renewals_clean (w_log w3)"
    using renewed_simps(4) [OF ren(2)] renewed_simps(2,3) [OF ren(1)] Cons.prems(3) l1 by simp
  have step: "deliver_batch lease (q # qs) sent permanent h w =
    (if derr \<noteq> None \<and> \<not> is_permanent (the derr) then
       (let (w, t) = read_now w3; (h, w, rel) = release [] (q # qs) (t + lease) h3 w
        in case rel of Some e \<Rightarrow> (h, w, sent, join [derr, Some e]) | None \<Rightarrow> (h, w, sent, derr))
     else
       (let (h, w, ack) = acknowledge qs q h3 w3
        in case ack of
             Some e \<Rightarrow>
               if qs \<noteq> [] then
                 (let (w, t) = read_now w; (h, w, rel) = release [q] qs (t + lease) h w
                  in case rel of
                       Some e' \<Rightarrow> (h, w, sent, join [derr, Some e, Some e'])
                     | None \<Rightarrow> (h, w, sent, join [derr, Some e]))
               else (h, w, sent, join [derr, Some e])
           | None \<Rightarrow>
               if derr \<noteq> None then deliver_batch lease qs sent (permanent @ [derr]) h w
               else deliver_batch lease qs (sent + 1) permanent h w))"
    unfolding deliver_batch.simps Let_def w1 prod.case w2 derr w3 by (rule refl)
  have q3: "q \<notin> acked (w_log w3) \<union> released (w_log w3)" "set qs \<inter> (acked (w_log w3) \<union> released (w_log w3)) = {}" "q \<notin> set qs"
    using Cons.prems(1,3) log3 by auto
  show ?case
  proof (cases "derr \<noteq> None \<and> \<not> is_permanent (the derr)")
    case True
    obtain w4 t where w4: "read_now w3 = (w4, t)" by (cases "read_now w3")
    obtain h5 w5 rel where w5: "release [] (q # qs) (t + lease) h3 w4 = (h5, w5, rel)" by (metis prod_cases3)
    have l4: "w_log w4 = w_log w3" using read_now_log [of w3] w4 by simp
    note l5 = release_log [OF w5]
    have result: "deliver_batch lease (q # qs) sent permanent h w =
        (h5, w5, sent, case rel of Some e \<Rightarrow> join [derr, Some e] | None \<Rightarrow> derr)"
      using step True w4 w5 by (simp split: option.split)
    show ?thesis unfolding result batch_done_def prod.case
      using l5 l4 log3 clean3 h3 q3 True join_None
      by (auto split: option.splits intro!: exI [of _ "Suc 0"])
  next
    case False
    obtain h4 w4 ack where w4: "acknowledge qs q h3 w3 = (h4, w4, ack)" by (metis prod_cases3)
    note l4 = acknowledge_log [OF w4]
    show ?thesis
    proof (cases ack)
      case None
      obtain sent' perm' where sp: "sent' = (if derr \<noteq> None then sent else sent + 1)"
        "perm' = (if derr \<noteq> None then permanent @ [derr] else permanent)" by blast
      have result: "deliver_batch lease (q # qs) sent permanent h w = deliver_batch lease qs sent' perm' h4 w4"
        using step False w4 None sp by auto
      obtain h' w' n err where r: "deliver_batch lease qs sent' perm' h4 w4 = (h', w', n, err)" by (metis prod_cases4)
      have IH: "batch_done qs sent' perm' w4 (h', w', n, err)"
        unfolding r [symmetric] using l4 None log3 q3 clean3 Cons.prems(1) by (intro Cons.IH) auto
      note IH = IH [unfolded batch_done_def prod.case]
      obtain k where k: "k \<le> length qs" "deliveries (w_log w') = deliveries (w_log w4) @ take k qs"
        "acked (w_log w') \<subseteq> acked (w_log w4) \<union> set (take k qs)" using IH by auto
      have "\<exists>k \<le> length (q # qs). deliveries (w_log w') = deliveries (w_log w) @ take k (q # qs)
          \<and> acked (w_log w') \<subseteq> acked (w_log w) \<union> set (take k (q # qs))"
        using k l4 None log3 by (intro exI [of _ "Suc k"]) auto
      moreover have q: "q \<in> acked (w_log w')" using IH l4 None by auto
      moreover have "acked (w_log w) \<subseteq> acked (w_log w')" "released (w_log w) \<subseteq> released (w_log w')"
        using IH l4 None log3 by auto
      moreover have "err = None \<longrightarrow> set (q # qs) \<subseteq> acked (w_log w') \<and> n = sent + int (length (q # qs)) \<and> (\<forall>e \<in> set permanent. e = None)"
        using IH sp q by (auto split: if_splits)
      moreover have "source_answers (w_log w') \<longrightarrow> set (q # qs) \<subseteq> acked (w_log w') \<union> released (w_log w')"
        using IH q by auto
      ultimately show ?thesis unfolding result r batch_done_def prod.case
        using IH by blast
    next
      case (Some e)
      show ?thesis
      proof (cases "qs = []")
        case True
        then have result: "deliver_batch lease (q # qs) sent permanent h w = (h4, w4, sent, join [derr, Some e])"
          using step False w4 Some by auto
        show ?thesis unfolding result batch_done_def prod.case
          using l4 Some log3 clean3 h3 q3 True join_None by (auto intro!: exI [of _ "Suc 0"])
      next
        case tail: False
        obtain w5 t where w5: "read_now w4 = (w5, t)" by (cases "read_now w4")
        obtain h6 w6 rel where w6: "release [q] qs (t + lease) h4 w5 = (h6, w6, rel)" by (metis prod_cases3)
        have l5: "w_log w5 = w_log w4" using read_now_log [of w4] w5 by simp
        note l6 = release_log [OF w6]
        have "renewals_clean (w_log w5)" using l4 l5 clean3 by simp
        then have c6: "renewals_clean (w_log w6)" using conjunct1 [OF l6] by simp
        have result: "deliver_batch lease (q # qs) sent permanent h w =
          (h6, w6, sent, case rel of Some e' \<Rightarrow> join [derr, Some e, Some e'] | None \<Rightarrow> join [derr, Some e])"
          using step False w4 Some w5 w6 tail by (auto split: option.split)
        show ?thesis unfolding result batch_done_def prod.case
          using c6 l4 l5 l6 Some log3 h3 q3 join_None by (auto split: option.splits intro!: exI [of _ "Suc 0"])
      qed
    qed
  qed
qed

subsection \<open>Properties\<close>

lemma run_once_done:
  assumes "run_once lease claimed w = (w', n, err)" "distinct claimed" "w_log w = []"
  shows "renewals_clean (w_log w')
    \<and> (\<exists>k \<le> length claimed. deliveries (w_log w') = take k claimed \<and> acked (w_log w') \<subseteq> set (take k claimed))
    \<and> (err = None \<and> (CClaim, True) \<in> set (w_log w') \<longrightarrow> set claimed \<subseteq> acked (w_log w') \<and> n = int (length claimed))
    \<and> (source_answers (w_log w') \<and> (CClaim, True) \<in> set (w_log w') \<longrightarrow> set claimed \<subseteq> acked (w_log w') \<union> released (w_log w'))"
proof -
  obtain w1 e where w1: "call CClaim w = (w1, e)" by (cases "call CClaim w")
  have l1: "w_log w1 = [(CClaim, e = None)]" using call_log [OF w1] assms(3) by simp
  have base: "deliveries (w_log w1) = []" "acked (w_log w1) = {}" "released (w_log w1) = {}" "renewals_clean (w_log w1)"
    using l1 renewals_clean_simps(2) [of "[]"] by auto
  show ?thesis
  proof (cases "e \<noteq> None \<or> claimed = []")
    case True
    then have "w' = w1" "err = e" "n = 0" using assms(1) w1 by (auto simp: run_once_def split: option.splits)
    then show ?thesis using True base l1 by auto
  next
    case False
    obtain h2 w2 sent err2 where d: "deliver_batch lease claimed 0 [] (hold_lease claimed) w1 = (h2, w2, sent, err2)"
      by (metis prod_cases4)
    obtain h3 w3 where r: "renewals h2 w2 = (h3, w3)" by (cases "renewals h2 w2")
    have result: "w' = w3" "n = sent" "err = precedence h3 err2"
      using assms(1) w1 False d r by (auto simp: run_once_def)
    have done2: "batch_done claimed 0 [] w1 (h2, w2, sent, err2)"
      using deliver_batch_done [of claimed "hold_lease claimed" w1 0 "[]" lease] d assms(2) base
      by (simp add: hold_lease_def)
    note done2 = done2 [unfolded batch_done_def prod.case]
    have ren: "renewed (h_seqs h2) (w_log w2) (w_log w3)" using renewals_spec [OF r] by simp
    have "precedence h3 err2 = None \<longrightarrow> err2 = None" by (auto simp: precedence_def split: option.splits if_splits)
    moreover have "source_answers (w_log w3) = source_answers (w_log w2)"
      using ren by (auto simp: renewed_def source_answers_def)
    moreover have "renewals_clean (w_log w3)" using renewed_simps(4) [OF ren] done2 by blast
    ultimately show ?thesis unfolding result using done2 renewed_simps(1-3) [OF ren] base by auto
  qed
qed

text \<open>
  C8. The worker never loses a lease to its own bookkeeping: whatever the destination and the source
  answer and whenever renewals fire, no renewal names a record the worker has already acknowledged
  or handed back.
\<close>

theorem no_self_inflicted_conflict:
  assumes "run_once lease claimed w = (w', n, err)" "distinct claimed" "w_log w = []"
  shows "renewals_clean (w_log w')"
  using run_once_done [OF assms] by blast

text \<open>
  One pass delivers a prefix of the batch in journal order, each record once, and acknowledges
  only records it has delivered; a pass that reports no error has delivered and acknowledged the
  whole batch, and the count it returns is the batch's length.
\<close>

theorem batch_in_order:
  assumes "run_once lease claimed w = (w', n, err)" "distinct claimed" "w_log w = []"
  shows "(\<exists>k \<le> length claimed. deliveries (w_log w') = take k claimed \<and> acked (w_log w') \<subseteq> set (take k claimed))
    \<and> (err = None \<and> (CClaim, True) \<in> set (w_log w') \<longrightarrow> set claimed \<subseteq> acked (w_log w') \<and> n = int (length claimed))"
  using run_once_done [OF assms] by blast

text \<open>
  C14. A pass leaves nothing behind: as long as the source accepts its acknowledgements and releases,
  every record of the batch has been acknowledged or handed back for a retry when the pass returns,
  whatever the destination answered.
\<close>

theorem batch_settled:
  assumes "run_once lease claimed w = (w', n, err)" "distinct claimed" "w_log w = []"
    and "source_answers (w_log w')" "(CClaim, True) \<in> set (w_log w')"
  shows "set claimed \<subseteq> acked (w_log w') \<union> released (w_log w')"
  using run_once_done [OF assms(1-3)] assms(4,5) by blast

definition wit_pass :: wworld where
  "wit_pass = \<lparr>w_results = [None, None, None, None, Some (Plain ''timeout''), None, None],
     w_ticks = [1, 0, 0, 1, 0], w_clock = [100], w_log = []\<rparr>"

lemma wit_pass_run: "run_once 30 [4, 7, 9] wit_pass = (fst (run_once 30 [4, 7, 9] wit_pass), 1, Some (Plain ''timeout''))"
  by code_simp

lemma wit_pass_log: "w_log (fst (run_once 30 [4, 7, 9] wit_pass)) =
   [(CClaim, True), (CDeliver 4, True), (CRenew [4, 7, 9], True), (CAck 4, True), (CDeliver 7, False),
    (CRenew [7, 9], True), (CRelease [7, 9] 130, True)]"
  by code_simp

theorem no_self_inflicted_conflict_witness: "renewals_clean (w_log (fst (run_once 30 [4, 7, 9] wit_pass)))"
  by (rule no_self_inflicted_conflict [OF wit_pass_run]) (simp_all add: wit_pass_def)

theorem batch_in_order_witness:
  "\<exists>k \<le> length [4, 7, 9 :: nat]. deliveries (w_log (fst (run_once 30 [4, 7, 9] wit_pass))) = take k [4, 7, 9]"
  using batch_in_order [OF wit_pass_run] by (auto simp: wit_pass_def)

theorem batch_settled_witness:
  "set [4, 7, 9] \<subseteq> acked (w_log (fst (run_once 30 [4, 7, 9] wit_pass))) \<union> released (w_log (fst (run_once 30 [4, 7, 9] wit_pass)))"
  by (rule batch_settled [OF wit_pass_run]) (simp_all add: wit_pass_log, simp add: wit_pass_def)

end
