(* ===== verification/App_Events.thy ===== *)
theory App_Events
  imports Outbox_Store "HOL-Library.AList"
begin

section \<open>Deliveries of journal records to apps\<close>

text \<open>
  \<^verbatim>\<open>ClaimAppEvent\<close>, \<^verbatim>\<open>AckAppEvent\<close>, \<^verbatim>\<open>ReleaseAppEvent\<close>, \<^verbatim>\<open>GetAppEventCursor\<close> and what they use
  in \<^verbatim>\<open>internal/store/memory/memory.go\<close>, with \<^verbatim>\<open>internal/events/app_delivery.go\<close>. A transport of an
  app (its key is the app and the surface) has a cursor into the journal, the position below which
  every record has been handed to delivery, and the deliveries not settled yet, an association list
  by sequence here. A range over a Go map is only used to collect keys that are sorted next, or to
  find a minimum, so its order does not matter.
\<close>

record delivery =
  dl_owner :: string
  dl_until :: time
  dl_retry_at :: time
  dl_attempt :: int
  dl_reason :: string
  dl_delivered :: "string list"

record installation =
  in_app :: string
  in_workspace :: string
  in_enabled :: bool

record attempt =
  at_sequence :: nat
  at_attempt :: int
  at_delivered :: bool
  at_reason :: string
  at_time :: time

record app_events =
  ae_journal :: "event list"
  ae_installations :: "installation list"
  ae_deliveries :: "string \<Rightarrow> (nat \<times> delivery) list"
  ae_cursors :: "string \<rightharpoonup> nat"
  ae_attempts :: "string \<Rightarrow> attempt list"

record app_claim =
  cl_sequence :: nat
  cl_event :: event
  cl_attempt :: int
  cl_reason :: string
  cl_delivered :: "string list"

record event_release =
  re_reason :: string
  re_retry_at :: time
  re_internal :: bool
  re_delivered :: "string list"

definition release_valid :: "event_release \<Rightarrow> bool" where
  "release_valid r \<longleftrightarrow> trim_space (re_reason r) \<noteq> [] \<and> \<not> is_zero_time (re_retry_at r)"

definition normalize_delivered :: "string list \<Rightarrow> string list" where
  "normalize_delivered values = remdups_adj (sort (filter (\<lambda>v. v \<noteq> []) (map trim_space values)))"

definition app_event_cursor_key :: "string \<Rightarrow> string \<Rightarrow> string" where
  "app_event_cursor_key app surface = app @ [CHR 0x00] @ surface"

definition valid_app_event_surface :: "string \<Rightarrow> bool" where
  "valid_app_event_surface surface \<longleftrightarrow> surface = ''http'' \<or> surface = ''socket''"

definition app_event_record_eligible :: "event \<Rightarrow> string list \<Rightarrow> string list \<Rightarrow> bool" where
  "app_event_record_eligible e workspaces uninstalled =
     (if internal_topic (ev_topic e) then False
      else if ev_workspace e \<in> set workspaces then True
      else ev_workspace e \<in> set uninstalled \<and> ev_topic e = ''app.uninstalled'')"

definition installed_in :: "app_events \<Rightarrow> string \<Rightarrow> bool \<Rightarrow> string list" where
  "installed_in s app enabled =
     map in_workspace (filter (\<lambda>i. in_app i = app \<and> in_enabled i = enabled) (ae_installations s))"

definition due_sequences :: "(nat \<times> delivery) list \<Rightarrow> time \<Rightarrow> nat list" where
  "due_sequences dels now = sort (filter
     (\<lambda>q. case map_of dels q of None \<Rightarrow> False | Some d \<Rightarrow> \<not> dl_until d > now \<and> \<not> dl_retry_at d > now)
     (remdups (map fst dels)))"

text \<open>The due records, lowest sequence first: those out of reach are dropped, the first other one is claimed.\<close>

fun claim_due :: "event list \<Rightarrow> (event \<Rightarrow> bool) \<Rightarrow> string \<Rightarrow> time \<Rightarrow> nat list \<Rightarrow> (nat \<times> delivery) list \<Rightarrow>
    (nat \<times> delivery) list \<times> app_claim option" where
  "claim_due jrn eligible owner expires [] dels = (dels, None)"
| "claim_due jrn eligible owner expires (q # qs) dels =
     (case map_of dels q of
        None \<Rightarrow> claim_due jrn eligible owner expires qs dels
      | Some d \<Rightarrow>
          if q = 0 \<or> length jrn < q \<or> \<not> eligible (jrn ! (q - 1))
          then claim_due jrn eligible owner expires qs (AList.delete q dels)
          else (AList.update q (d\<lparr>dl_owner := owner, dl_until := expires\<rparr>) dels,
                Some \<lparr>cl_sequence = q, cl_event = jrn ! (q - 1), cl_attempt = dl_attempt d,
                      cl_reason = dl_reason d, cl_delivered = dl_delivered d\<rparr>))"

definition fresh_delivery :: "string \<Rightarrow> time \<Rightarrow> delivery" where
  "fresh_delivery owner expires = \<lparr>dl_owner = owner, dl_until = expires, dl_retry_at = 0, dl_attempt = 0,
     dl_reason = [], dl_delivered = []\<rparr>"

definition claim_app_event :: "string \<Rightarrow> string \<Rightarrow> string \<Rightarrow> duration \<Rightarrow> time \<Rightarrow> app_events \<Rightarrow>
    app_events \<times> (store_error + app_claim option)" where
  "claim_app_event app surface owner lease now s =
     (if app = [] \<or> \<not> valid_app_event_surface surface \<or> trim_space owner = [] \<or> lease \<le> 0 then (s, Inl InvalidArgument)
      else
        let workspaces = installed_in s app True; uninstalled = installed_in s app False;
            eligible = (\<lambda>e. app_event_record_eligible e workspaces uninstalled);
            key = app_event_cursor_key app surface
        in if workspaces = [] \<and> uninstalled = [] then (s, Inl NotFound)
        else
          case claim_due (ae_journal s) eligible owner (now + lease) (due_sequences (ae_deliveries s key) now) (ae_deliveries s key) of
            (dels, Some claim) \<Rightarrow> (s\<lparr>ae_deliveries := (ae_deliveries s)(key := dels)\<rparr>, Inr (Some claim))
          | (dels, None) \<Rightarrow>
              let s = s\<lparr>ae_deliveries := (ae_deliveries s)(key := dels)\<rparr>;
                  cursor = (case ae_cursors s key of None \<Rightarrow> 0 | Some c \<Rightarrow> c)
              in case find (\<lambda>(q, e). \<not> (q \<le> cursor \<or> \<not> eligible e)) (records_from 0 (ae_journal s)) of
                   None \<Rightarrow> (s, Inr None)
                 | Some (q, e) \<Rightarrow>
                     (s\<lparr>ae_cursors := (ae_cursors s)(key \<mapsto> q),
                        ae_deliveries := (ae_deliveries s)(key := AList.update q (fresh_delivery owner (now + lease)) dels)\<rparr>,
                      Inr (Some \<lparr>cl_sequence = q, cl_event = e, cl_attempt = 0, cl_reason = [], cl_delivered = []\<rparr>)))"

definition leased_app_event :: "app_events \<Rightarrow> string \<Rightarrow> string \<Rightarrow> nat \<Rightarrow> time \<Rightarrow> delivery option" where
  "leased_app_event s key owner q now =
     (case map_of (ae_deliveries s key) q of
        None \<Rightarrow> None | Some d \<Rightarrow> if dl_owner d \<noteq> owner \<or> \<not> dl_until d > now then None else Some d)"

definition record_attempt :: "attempt \<Rightarrow> attempt list \<Rightarrow> attempt list" where
  "record_attempt a as = (let l = as @ [a] in if length l > 50 then drop (length l - 50) l else l)"

definition ack_app_event :: "string \<Rightarrow> string \<Rightarrow> string \<Rightarrow> nat \<Rightarrow> time \<Rightarrow> app_events \<Rightarrow> app_events \<times> store_error option" where
  "ack_app_event app surface owner q now s =
     (if app = [] \<or> \<not> valid_app_event_surface surface \<or> trim_space owner = [] \<or> q = 0 then (s, Some InvalidArgument)
      else
        let key = app_event_cursor_key app surface in
        case leased_app_event s key owner q now of
          None \<Rightarrow> (s, Some LeaseConflict)
        | Some d \<Rightarrow>
            (s\<lparr>ae_deliveries := (ae_deliveries s)(key := AList.delete q (ae_deliveries s key)),
               ae_attempts := (ae_attempts s)(key := record_attempt \<lparr>at_sequence = q, at_attempt = dl_attempt d + 1,
                 at_delivered = True, at_reason = [], at_time = now\<rparr> (ae_attempts s key))\<rparr>, None))"

definition release_app_event :: "string \<Rightarrow> string \<Rightarrow> string \<Rightarrow> nat \<Rightarrow> event_release \<Rightarrow> time \<Rightarrow> app_events \<Rightarrow>
    app_events \<times> store_error option" where
  "release_app_event app surface owner q r now s =
     (if app = [] \<or> \<not> valid_app_event_surface surface \<or> trim_space owner = [] \<or> q = 0 \<or> \<not> release_valid r
      then (s, Some InvalidArgument)
      else
        let key = app_event_cursor_key app surface; reason = trim_space (re_reason r) in
        case leased_app_event s key owner q now of
          None \<Rightarrow> (s, Some LeaseConflict)
        | Some d \<Rightarrow>
            let d' = d\<lparr>dl_owner := [], dl_until := 0, dl_retry_at := re_retry_at r,
                       dl_delivered := normalize_delivered (re_delivered r)\<rparr>;
                d' = (if re_internal r then d' else d'\<lparr>dl_attempt := dl_attempt d' + 1, dl_reason := reason\<rparr>)
            in (s\<lparr>ae_deliveries := (ae_deliveries s)(key := AList.update q d' (ae_deliveries s key)),
                  ae_attempts := (ae_attempts s)(key := record_attempt \<lparr>at_sequence = q, at_attempt = dl_attempt d + 1,
                    at_delivered = False, at_reason = reason, at_time = now\<rparr> (ae_attempts s key))\<rparr>, None))"

record cursor_summary =
  cs_acknowledged :: nat
  cs_in_flight :: "(nat \<times> time) option"
  cs_waiting :: "(time \<times> int \<times> string) option"
  cs_pending :: int

definition lowest :: "(nat \<times> delivery) list \<Rightarrow> (nat \<times> delivery) option" where
  "lowest ds = fold (\<lambda>d best. case best of None \<Rightarrow> Some d | Some b \<Rightarrow> if fst d < fst b then Some d else best) ds None"

definition get_app_event_cursor :: "string \<Rightarrow> string \<Rightarrow> time \<Rightarrow> app_events \<Rightarrow> store_error + cursor_summary" where
  "get_app_event_cursor app surface now s =
     (if app = [] \<or> \<not> valid_app_event_surface surface then Inl InvalidArgument
      else
        let key = app_event_cursor_key app surface; dels = ae_deliveries s key in
        case ae_cursors s key of
          None \<Rightarrow> Inl NotFound
        | Some cursor \<Rightarrow> Inr
            \<lparr>cs_acknowledged = fold (\<lambda>(q, d) ack. if q \<le> ack then q - 1 else ack) dels cursor,
             cs_in_flight = map_option (\<lambda>(q, d). (q, dl_until d)) (lowest (filter (\<lambda>(q, d). dl_until d > now) dels)),
             cs_waiting = map_option (\<lambda>(q, d). (dl_retry_at d, dl_attempt d, dl_reason d))
               (lowest (filter (\<lambda>(q, d). \<not> dl_until d > now) dels)),
             cs_pending = int (length dels)\<rparr>)"

definition list_app_delivery_attempts :: "string \<Rightarrow> string \<Rightarrow> int \<Rightarrow> app_events \<Rightarrow> store_error + attempt list" where
  "list_app_delivery_attempts app surface limit s =
     (if app = [] \<or> \<not> valid_app_event_surface surface then Inl InvalidArgument
      else let limit = (if limit \<le> 0 then 50 else limit)
           in Inr (take (nat limit) (rev (ae_attempts s (app_event_cursor_key app surface)))))"

subsection \<open>The due records\<close>

definition due :: "(nat \<times> delivery) list \<Rightarrow> time \<Rightarrow> nat \<Rightarrow> bool" where
  "due dels now q \<longleftrightarrow> (\<exists>d. map_of dels q = Some d \<and> dl_until d \<le> now \<and> dl_retry_at d \<le> now)"

lemma due_sequences_set: "set (due_sequences dels now) = {q. due dels now q}"
  by (auto simp: due_sequences_def due_def not_less dom_map_of_conv_image_fst [symmetric] split: option.splits
      dest: map_of_SomeD)

lemma due_sequences_sorted: "sorted (due_sequences dels now)" "distinct (due_sequences dels now)"
  by (simp_all add: due_sequences_def)

definition reachable_record :: "event list \<Rightarrow> (event \<Rightarrow> bool) \<Rightarrow> nat \<Rightarrow> bool" where
  "reachable_record jrn eligible q \<longleftrightarrow> q \<noteq> 0 \<and> q \<le> length jrn \<and> eligible (jrn ! (q - 1))"

text \<open>What the scan of the due records leaves: the ones out of reach before the claimed one are gone.\<close>

lemma claim_due_none:
  assumes "claim_due jrn eligible owner expires qs dels = (dels', None)" "\<forall>q \<in> set qs. map_of dels q \<noteq> None" "distinct qs"
  shows "(\<forall>q \<in> set qs. \<not> reachable_record jrn eligible q)
    \<and> (\<forall>q. map_of dels' q = (if q \<in> set qs then None else map_of dels q))"
  using assms
proof (induction qs arbitrary: dels)
  case (Cons q qs)
  obtain d where d: "map_of dels q = Some d" using Cons.prems(2) by auto
  then have r: "\<not> reachable_record jrn eligible q"
    "claim_due jrn eligible owner expires qs (AList.delete q dels) = (dels', None)"
    using Cons.prems(1) by (auto simp: reachable_record_def split: if_splits)
  have "\<forall>q' \<in> set qs. map_of (AList.delete q dels) q' \<noteq> None" using Cons.prems(2,3) by (auto simp: delete_conv)
  then show ?case using Cons.IH [OF r(2)] Cons.prems(3) r(1) by (auto simp: delete_conv)
qed simp

lemma claim_due_some:
  assumes "claim_due jrn eligible owner expires qs dels = (dels', Some c)" "\<forall>q \<in> set qs. map_of dels q \<noteq> None" "distinct qs"
  shows "\<exists>pre suf d. qs = pre @ cl_sequence c # suf \<and> (\<forall>q \<in> set pre. \<not> reachable_record jrn eligible q)
    \<and> reachable_record jrn eligible (cl_sequence c) \<and> cl_event c = jrn ! (cl_sequence c - 1)
    \<and> map_of dels (cl_sequence c) = Some d
    \<and> (\<forall>q. map_of dels' q = (if q = cl_sequence c then Some (d\<lparr>dl_owner := owner, dl_until := expires\<rparr>)
          else if q \<in> set pre then None else map_of dels q))"
  using assms
proof (induction qs arbitrary: dels)
  case (Cons q qs)
  obtain d where d: "map_of dels q = Some d" using Cons.prems(2) by auto
  show ?case
  proof (cases "reachable_record jrn eligible q")
    case True
    then show ?thesis using d Cons.prems(1)
      by (intro exI [of _ "[]"] exI [of _ qs] exI [of _ d]) (auto simp: reachable_record_def update_conv)
  next
    case False
    then have r: "claim_due jrn eligible owner expires qs (AList.delete q dels) = (dels', Some c)"
      using Cons.prems(1) d by (auto simp: reachable_record_def split: if_splits)
    have "\<forall>q' \<in> set qs. map_of (AList.delete q dels) q' \<noteq> None" using Cons.prems(2,3) by (auto simp: delete_conv)
    then obtain pre suf d' where pre: "qs = pre @ cl_sequence c # suf" "\<forall>q \<in> set pre. \<not> reachable_record jrn eligible q"
      "reachable_record jrn eligible (cl_sequence c)" "cl_event c = jrn ! (cl_sequence c - 1)"
      "map_of (AList.delete q dels) (cl_sequence c) = Some d'"
      "\<forall>q'. map_of dels' q' = (if q' = cl_sequence c then Some (d'\<lparr>dl_owner := owner, dl_until := expires\<rparr>)
          else if q' \<in> set pre then None else map_of (AList.delete q dels) q')"
      using Cons.IH [OF r] Cons.prems(3) by auto
    moreover have "q \<noteq> cl_sequence c" using Cons.prems(3) pre(1) by auto
    ultimately show ?thesis using False Cons.prems(3)
      by (intro exI [of _ "q # pre"] exI [of _ suf] exI [of _ d']) (auto simp: delete_conv)
  qed
qed simp

subsection \<open>The accounting of a claim\<close>

definition cursor_of :: "app_events \<Rightarrow> string \<Rightarrow> nat" where
  "cursor_of s key = (case ae_cursors s key of None \<Rightarrow> 0 | Some c \<Rightarrow> c)"

definition open_delivery :: "app_events \<Rightarrow> string \<Rightarrow> nat \<Rightarrow> delivery option" where
  "open_delivery s key q = map_of (ae_deliveries s key) q"

definition within_reach :: "app_events \<Rightarrow> string \<Rightarrow> nat \<Rightarrow> bool" where
  "within_reach s app q = reachable_record (ae_journal s)
     (\<lambda>e. app_event_record_eligible e (installed_in s app True) (installed_in s app False)) q"

text \<open>Every open delivery is of a record the cursor has passed, and the cursor is within the journal.\<close>

definition deliveries_ok :: "app_events \<Rightarrow> bool" where
  "deliveries_ok s \<longleftrightarrow> (\<forall>key q d. open_delivery s key q = Some d \<longrightarrow> q \<noteq> 0 \<and> q \<le> cursor_of s key)
     \<and> (\<forall>key. cursor_of s key \<le> length (ae_journal s))"

lemma find_records:
  "find (\<lambda>(q, e). P q e) (records_from n es) = Some (q, e) \<Longrightarrow>
     n < q \<and> q \<le> n + length es \<and> e = es ! (q - Suc n) \<and> P q e \<and> (\<forall>q'. n < q' \<and> q' < q \<longrightarrow> \<not> P q' (es ! (q' - Suc n)))"
proof (induction es arbitrary: n)
  case (Cons x es)
  show ?case
  proof (cases "P (Suc n) x")
    case True
    then show ?thesis using Cons.prems by auto
  next
    case False
    then have "find (\<lambda>(q, e). P q e) (records_from (Suc n) es) = Some (q, e)" using Cons.prems by simp
    then have IH: "Suc n < q \<and> q \<le> Suc n + length es \<and> e = es ! (q - Suc (Suc n)) \<and> P q e
        \<and> (\<forall>q'. Suc n < q' \<and> q' < q \<longrightarrow> \<not> P q' (es ! (q' - Suc (Suc n))))"
      by (rule Cons.IH)
    have "\<not> P q' ((x # es) ! (q' - Suc n))" if "n < q'" "q' < q" for q'
    proof (cases "q' = Suc n")
      case False
      then have "q' - Suc n = Suc (q' - Suc (Suc n))" using that by simp
      then show ?thesis using IH that False by auto
    qed (use \<open>\<not> P (Suc n) x\<close> in simp)
    moreover have "Suc n < q" using IH by simp
    then have "q - Suc n = Suc (q - Suc (Suc n))" by arith
    ultimately show ?thesis using IH by auto
  qed
qed simp

lemma due_facts: "\<forall>q \<in> set (due_sequences dels now). map_of dels q \<noteq> None"
  "\<forall>q \<in> set (due_sequences dels now). due dels now q"
  by (auto simp: due_sequences_set due_def)

lemma claim_scan:
  assumes ok: "deliveries_ok s" and c: "claim_app_event app surface owner lease now s = (s', r)"
    and key: "key = app_event_cursor_key app surface"
  shows "ae_journal s' = ae_journal s \<and> ae_installations s' = ae_installations s
    \<and> (\<forall>k. k \<noteq> key \<longrightarrow> ae_deliveries s' k = ae_deliveries s k \<and> ae_cursors s' k = ae_cursors s k)
    \<and> cursor_of s key \<le> cursor_of s' key
    \<and> (cursor_of s' key = cursor_of s key \<or> cursor_of s' key \<le> length (ae_journal s))
    \<and> (\<forall>q. cursor_of s key < q \<and> q \<le> cursor_of s' key \<and> within_reach s app q \<longrightarrow> open_delivery s' key q \<noteq> None)
    \<and> (case r of
         Inr (Some cl) \<Rightarrow> lease > 0 \<and> within_reach s app (cl_sequence cl) \<and> cl_sequence cl \<le> cursor_of s' key
           \<and> cl_event cl = ae_journal s ! (cl_sequence cl - 1)
           \<and> (case open_delivery s key (cl_sequence cl) of None \<Rightarrow> True | Some d \<Rightarrow> dl_until d \<le> now)
           \<and> (\<exists>d. open_delivery s' key (cl_sequence cl) = Some d \<and> dl_owner d = owner \<and> dl_until d = now + lease)
           \<and> (\<forall>q. q \<noteq> cl_sequence cl \<longrightarrow> open_delivery s' key q = open_delivery s key q
                  \<or> open_delivery s' key q = None \<and> \<not> within_reach s app q \<and> due (ae_deliveries s key) now q)
       | _ \<Rightarrow> (\<forall>q. open_delivery s' key q = open_delivery s key q
                  \<or> open_delivery s' key q = None \<and> \<not> within_reach s app q \<and> due (ae_deliveries s key) now q))"
proof -
  let ?elig = "\<lambda>e. app_event_record_eligible e (installed_in s app True) (installed_in s app False)"
  let ?dels = "ae_deliveries s key"
  let ?qs = "due_sequences ?dels now"
  have guards: "r = Inl InvalidArgument \<and> s' = s \<or> r = Inl NotFound \<and> s' = s \<or>
    lease > 0 \<and> (case claim_due (ae_journal s) ?elig owner (now + lease) ?qs ?dels of
          (dels, Some claim) \<Rightarrow> (s\<lparr>ae_deliveries := (ae_deliveries s)(key := dels)\<rparr>, Inr (Some claim))
        | (dels, None) \<Rightarrow>
              let s = s\<lparr>ae_deliveries := (ae_deliveries s)(key := dels)\<rparr>;
                  cursor = (case ae_cursors s key of None \<Rightarrow> 0 | Some c \<Rightarrow> c)
              in case find (\<lambda>(q, e). \<not> (q \<le> cursor \<or> \<not> ?elig e)) (records_from 0 (ae_journal s)) of
                   None \<Rightarrow> (s, Inr None)
                 | Some (q, e) \<Rightarrow>
                     (s\<lparr>ae_cursors := (ae_cursors s)(key \<mapsto> q),
                        ae_deliveries := (ae_deliveries s)(key := AList.update q (fresh_delivery owner (now + lease)) dels)\<rparr>,
                      Inr (Some \<lparr>cl_sequence = q, cl_event = e, cl_attempt = 0, cl_reason = [], cl_delivered = []\<rparr>))) = (s', r)"
    using c unfolding claim_app_event_def Let_def key by (auto split: if_splits)
  obtain dels' cl where cd: "claim_due (ae_journal s) ?elig owner (now + lease) ?qs ?dels = (dels', cl)" by force
  show ?thesis
  proof (cases "r = Inl InvalidArgument \<and> s' = s \<or> r = Inl NotFound \<and> s' = s")
    case True
    then show ?thesis by auto
  next
    case False
    then have run: "lease > 0" "(case cl of Some claim \<Rightarrow> (s\<lparr>ae_deliveries := (ae_deliveries s)(key := dels')\<rparr>, Inr (Some claim))
        | None \<Rightarrow> (case find (\<lambda>(q, e). \<not> (q \<le> cursor_of s key \<or> \<not> ?elig e)) (records_from 0 (ae_journal s)) of
                   None \<Rightarrow> (s\<lparr>ae_deliveries := (ae_deliveries s)(key := dels')\<rparr>, Inr None)
                 | Some (q, e) \<Rightarrow>
                     (s\<lparr>ae_cursors := (ae_cursors s)(key \<mapsto> q),
                        ae_deliveries := (ae_deliveries s)(key := AList.update q (fresh_delivery owner (now + lease)) dels')\<rparr>,
                      Inr (Some \<lparr>cl_sequence = q, cl_event = e, cl_attempt = 0, cl_reason = [], cl_delivered = []\<rparr>)))) = (s', r)"
      using guards cd by (auto simp: Let_def cursor_of_def split: option.splits)
    show ?thesis
    proof (cases cl)
      case (Some claim)
      note cs = claim_due_some [OF cd [unfolded Some] due_facts(1) due_sequences_sorted(2)]
      then obtain pre suf d where p: "?qs = pre @ cl_sequence claim # suf" "\<forall>q \<in> set pre. \<not> within_reach s app q"
        "within_reach s app (cl_sequence claim)" "cl_event claim = ae_journal s ! (cl_sequence claim - 1)"
        "map_of ?dels (cl_sequence claim) = Some d"
        "\<forall>q. map_of dels' q = (if q = cl_sequence claim then Some (d\<lparr>dl_owner := owner, dl_until := now + lease\<rparr>)
          else if q \<in> set pre then None else map_of ?dels q)"
        by (auto simp: within_reach_def)
      have "due ?dels now (cl_sequence claim)" "\<forall>q \<in> set pre. due ?dels now q"
        using due_facts(2) [of ?dels now] p(1) by auto
      moreover have "cl_sequence claim \<le> cursor_of s key" using ok p(5) by (auto simp: deliveries_ok_def open_delivery_def)
      ultimately show ?thesis using run Some p
        by (auto simp: open_delivery_def cursor_of_def due_def)
    next
      case None
      note cn = claim_due_none [OF cd [unfolded None] due_facts(1) due_sequences_sorted(2)]
      then have gone: "\<forall>q. map_of dels' q = map_of ?dels q \<or> map_of dels' q = None \<and> \<not> within_reach s app q \<and> due ?dels now q"
        using due_facts(2) [of ?dels now] by (auto simp: within_reach_def)
      show ?thesis
      proof (cases "find (\<lambda>(q, e). \<not> (q \<le> cursor_of s key \<or> \<not> ?elig e)) (records_from 0 (ae_journal s))")
        case fnd: None
        then show ?thesis using run None gone by (auto simp: open_delivery_def cursor_of_def)
      next
        case fnd: (Some qe)
        obtain q e where qe: "qe = (q, e)" by (cases qe)
        have f: "0 < q" "q \<le> length (ae_journal s)" "e = ae_journal s ! (q - 1)" "cursor_of s key < q" "?elig e"
          "\<forall>q'. 0 < q' \<and> q' < q \<longrightarrow> q' \<le> cursor_of s key \<or> \<not> ?elig (ae_journal s ! (q' - 1))"
          using find_records [OF fnd [unfolded qe]] by auto
        have st: "s' = s\<lparr>ae_cursors := (ae_cursors s)(key \<mapsto> q),
            ae_deliveries := (ae_deliveries s)(key := AList.update q (fresh_delivery owner (now + lease)) dels')\<rparr>"
          "r = Inr (Some \<lparr>cl_sequence = q, cl_event = e, cl_attempt = 0, cl_reason = [], cl_delivered = []\<rparr>)"
          using run None fnd qe by auto
        have new: "cursor_of s' key = q" "\<forall>q'. open_delivery s' key q' = (if q' = q then Some (fresh_delivery owner (now + lease)) else map_of dels' q')"
          using st(1) by (auto simp: cursor_of_def open_delivery_def update_conv)
        have unheld: "open_delivery s key q = None" using ok f(4) unfolding deliveries_ok_def by (metis not_less option.exhaust)
        have "\<not> within_reach s app q'" if "cursor_of s key < q'" "q' < q" for q'
        proof -
          have "0 < q'" "\<not> q' \<le> cursor_of s key" using that by auto
          then show ?thesis using f(6) [rule_format, OF conjI, of q'] that(2) by (auto simp: within_reach_def reachable_record_def)
        qed
        then have reach: "within_reach s app q" "\<forall>q'. cursor_of s key < q' \<and> q' < q \<longrightarrow> \<not> within_reach s app q'"
          using f(1-5) by (auto simp: within_reach_def reachable_record_def)
        have frame: "ae_journal s' = ae_journal s" "ae_installations s' = ae_installations s"
          "\<forall>k. k \<noteq> key \<longrightarrow> ae_deliveries s' k = ae_deliveries s k \<and> ae_cursors s' k = ae_cursors s k" using st(1) by auto
        have "\<forall>q'. cursor_of s key < q' \<and> q' \<le> q \<and> within_reach s app q' \<longrightarrow> open_delivery s' key q' \<noteq> None"
          using reach(2) new(2) by (metis le_neq_implies_less option.distinct(1))
        moreover have "\<forall>q'. q' \<noteq> q \<longrightarrow> open_delivery s' key q' = open_delivery s key q'
            \<or> open_delivery s' key q' = None \<and> \<not> within_reach s app q' \<and> due ?dels now q'"
          using gone new(2) by (simp add: open_delivery_def)
        ultimately show ?thesis using frame new reach(1) f(2,3,4) unheld run(1) st(2)
          by (simp add: fresh_delivery_def)
      qed
    qed
  qed
qed

subsection \<open>The lease contract\<close>

datatype app_op =
    AppendRecord event | ChangeInstallations "installation list"
  | ClaimApp string string string duration | AckApp string string string nat
  | ReleaseApp string string string nat event_release

fun app_step :: "app_op \<Rightarrow> time \<Rightarrow> app_events \<Rightarrow> app_events" where
  "app_step (AppendRecord e) now s = s\<lparr>ae_journal := ae_journal s @ [e]\<rparr>"
| "app_step (ChangeInstallations is) now s = s\<lparr>ae_installations := is\<rparr>"
| "app_step (ClaimApp app surface owner lease) now s = fst (claim_app_event app surface owner lease now s)"
| "app_step (AckApp app surface owner q) now s = fst (ack_app_event app surface owner q now s)"
| "app_step (ReleaseApp app surface owner q r) now s = fst (release_app_event app surface owner q r now s)"

fun app_claimed :: "app_op \<Rightarrow> time \<Rightarrow> app_events \<Rightarrow> (string \<times> nat) set" where
  "app_claimed (ClaimApp app surface owner lease) now s =
     (case snd (claim_app_event app surface owner lease now s) of
        Inr (Some c) \<Rightarrow> {(app_event_cursor_key app surface, cl_sequence c)} | _ \<Rightarrow> {})"
| "app_claimed _ now s = {}"

fun app_actor :: "app_op \<Rightarrow> string option" where
  "app_actor (ClaimApp app surface owner lease) = Some owner"
| "app_actor (AckApp app surface owner q) = Some owner"
| "app_actor (ReleaseApp app surface owner q r) = Some owner"
| "app_actor _ = None"

definition app_holder :: "app_events \<Rightarrow> string \<times> nat \<Rightarrow> time \<Rightarrow> string option" where
  "app_holder s k t = (case open_delivery s (fst k) (snd k) of
     None \<Rightarrow> None | Some d \<Rightarrow> if dl_until d > t then Some (dl_owner d) else None)"

lemma ack_app_cases:
  "fst (ack_app_event app surface owner q now s) = s \<or>
   (\<exists>as. fst (ack_app_event app surface owner q now s) = s\<lparr>ae_deliveries := (ae_deliveries s)(app_event_cursor_key app surface :=
        AList.delete q (ae_deliveries s (app_event_cursor_key app surface))), ae_attempts := as\<rparr>
      \<and> app_holder s (app_event_cursor_key app surface, q) now = Some owner)"
  by (auto simp: ack_app_event_def leased_app_event_def app_holder_def open_delivery_def Let_def split: option.splits)

lemma release_app_cases:
  "fst (release_app_event app surface owner q r now s) = s \<or>
   (\<exists>as d'. fst (release_app_event app surface owner q r now s) = s\<lparr>ae_deliveries := (ae_deliveries s)(app_event_cursor_key app surface :=
        AList.update q d' (ae_deliveries s (app_event_cursor_key app surface))), ae_attempts := as\<rparr>
      \<and> app_holder s (app_event_cursor_key app surface, q) now = Some owner)"
  by (auto simp: release_app_event_def leased_app_event_def app_holder_def open_delivery_def Let_def split: option.splits)

lemma claim_app_open:
  assumes "deliveries_ok s" "claim_app_event app surface owner lease now s = (s', r)"
  shows "open_delivery s' k q = open_delivery s k q \<or> k = app_event_cursor_key app surface
    \<and> (open_delivery s' k q = None \<and> \<not> within_reach s app q \<and> due (ae_deliveries s k) now q
       \<or> (\<exists>cl. r = Inr (Some cl) \<and> q = cl_sequence cl))"
proof (cases "k = app_event_cursor_key app surface")
  case True
  note sc = claim_scan [OF assms refl]
  show ?thesis
  proof (cases "\<exists>cl. r = Inr (Some cl)")
    case claimed: True
    then obtain cl where "r = Inr (Some cl)" by blast
    then show ?thesis using sc True by (cases "q = cl_sequence cl") auto
  next
    case False
    then have "\<forall>q. open_delivery s' k q = open_delivery s k q
        \<or> open_delivery s' k q = None \<and> \<not> within_reach s app q \<and> due (ae_deliveries s k) now q"
      using sc True by (cases r) (auto split: option.splits)
    then have "open_delivery s' k q = open_delivery s k q
        \<or> open_delivery s' k q = None \<and> \<not> within_reach s app q \<and> due (ae_deliveries s k) now q" by (rule spec)
    then show ?thesis using True by (elim disjE) simp_all
  qed
next
  case False
  then show ?thesis using claim_scan [OF assms refl] by (auto simp: open_delivery_def)
qed

lemma claim_app_ok:
  assumes "deliveries_ok s"
  shows "deliveries_ok (fst (claim_app_event app surface owner lease now s))"
proof -
  obtain s' r where c: "claim_app_event app surface owner lease now s = (s', r)" by force
  let ?key = "app_event_cursor_key app surface"
  note sc = claim_scan [OF assms c refl]
  have "q \<noteq> 0 \<and> q \<le> cursor_of s' key" if o: "open_delivery s' key q = Some d" for key q d
  proof (cases "open_delivery s' key q = open_delivery s key q")
    case True
    then have "open_delivery s key q = Some d" using o by simp
    then have "q \<noteq> 0 \<and> q \<le> cursor_of s key" using assms unfolding deliveries_ok_def by blast
    moreover have "cursor_of s key \<le> cursor_of s' key"
      using sc by (cases "key = ?key") (auto simp: cursor_of_def)
    ultimately show ?thesis by simp
  next
    case False
    then obtain cl where "key = ?key" "r = Inr (Some cl)" "q = cl_sequence cl"
      using claim_app_open [OF assms c, of key q] o by auto
    then show ?thesis using sc by (auto simp: within_reach_def reachable_record_def)
  qed
  moreover have "cursor_of s' key \<le> length (ae_journal s')" for key
  proof -
    have "cursor_of s key \<le> length (ae_journal s)" using assms by (simp add: deliveries_ok_def)
    then show ?thesis using sc by (cases "key = ?key") (auto simp: cursor_of_def)
  qed
  ultimately show ?thesis unfolding c fst_conv deliveries_ok_def by blast
qed

lemma step_frame:
  "cursor_of (s\<lparr>ae_deliveries := ds, ae_attempts := as\<rparr>) = cursor_of s"
  "open_delivery (s\<lparr>ae_deliveries := (ae_deliveries s)(key := AList.delete q (ae_deliveries s key)), ae_attempts := as\<rparr>) k q'
     = (if k = key \<and> q' = q then None else open_delivery s k q')"
  "open_delivery (s\<lparr>ae_deliveries := (ae_deliveries s)(key := AList.update q d (ae_deliveries s key)), ae_attempts := as\<rparr>) k q'
     = (if k = key \<and> q' = q then Some d else open_delivery s k q')"
  by (simp_all add: cursor_of_def open_delivery_def delete_conv update_conv fun_eq_iff)

lemma app_step_ok: "deliveries_ok s \<Longrightarrow> deliveries_ok (app_step op now s)"
proof (cases op)
  case (ClaimApp app surface owner lease)
  then show "deliveries_ok s \<Longrightarrow> ?thesis" using claim_app_ok by simp
next
  case (AckApp app surface owner q)
  assume ok: "deliveries_ok s"
  show ?thesis using ack_app_cases [of app surface owner q now s]
  proof (elim disjE exE conjE)
    fix as assume f: "fst (ack_app_event app surface owner q now s) = s\<lparr>ae_deliveries := (ae_deliveries s)(app_event_cursor_key app surface :=
        AList.delete q (ae_deliveries s (app_event_cursor_key app surface))), ae_attempts := as\<rparr>"
    show ?thesis using ok unfolding AckApp app_step.simps f deliveries_ok_def step_frame by simp
  qed (use ok AckApp in simp)
next
  case (ReleaseApp app surface owner q r)
  assume ok: "deliveries_ok s"
  show ?thesis using release_app_cases [of app surface owner q r now s]
  proof (elim disjE exE conjE)
    fix as d' assume f: "fst (release_app_event app surface owner q r now s) = s\<lparr>ae_deliveries := (ae_deliveries s)(app_event_cursor_key app surface :=
        AList.update q d' (ae_deliveries s (app_event_cursor_key app surface))), ae_attempts := as\<rparr>"
      and h: "app_holder s (app_event_cursor_key app surface, q) now = Some owner"
    obtain d where "open_delivery s (app_event_cursor_key app surface) q = Some d"
      using h by (auto simp: app_holder_def split: option.splits)
    then show ?thesis using ok unfolding ReleaseApp app_step.simps f deliveries_ok_def step_frame by auto
  qed (use ok ReleaseApp in simp)
next
  case (AppendRecord e)
  assume "deliveries_ok s"
  then have "cursor_of s key \<le> Suc (length (ae_journal s))" for key
    unfolding deliveries_ok_def by (blast intro: le_SucI)
  then show ?thesis using \<open>deliveries_ok s\<close> AppendRecord by (simp add: deliveries_ok_def open_delivery_def cursor_of_def)
qed (simp add: deliveries_ok_def open_delivery_def cursor_of_def)

lemma app_step_holds:
  assumes ok: "deliveries_ok s" and h: "app_holder s k t = Some a" and t: "now \<le> t" and other: "app_actor op \<noteq> Some a"
  shows "app_holder (app_step op now s) k t = Some a"
proof -
  have now: "app_holder s k now = Some a" using h t by (auto simp: app_holder_def split: option.splits if_splits)
  show ?thesis
  proof (cases op)
    case (ClaimApp app surface owner lease)
    obtain s' r where c: "claim_app_event app surface owner lease now s = (s', r)" by force
    note sc = claim_scan [OF ok c refl]
    have "open_delivery s' (fst k) (snd k) = open_delivery s (fst k) (snd k)"
    proof (rule ccontr)
      assume n: "\<not> ?thesis"
      then have "due (ae_deliveries s (fst k)) now (snd k) \<or>
          (\<exists>cl. r = Inr (Some cl) \<and> snd k = cl_sequence cl) \<and> fst k = app_event_cursor_key app surface"
        using claim_app_open [OF ok c, of "fst k" "snd k"] by auto
      then show False
      proof (elim disjE conjE exE)
        fix cl assume cl: "r = Inr (Some cl)" "snd k = cl_sequence cl" "fst k = app_event_cursor_key app surface"
        have "case open_delivery s (fst k) (snd k) of None \<Rightarrow> True | Some d \<Rightarrow> dl_until d \<le> now"
          using sc unfolding cl by simp
        then show False using now by (auto simp: app_holder_def split: option.splits if_splits)
      qed (use now in \<open>auto simp: due_def app_holder_def open_delivery_def split: option.splits if_splits\<close>)
    qed
    then show ?thesis using h ClaimApp c by (simp add: app_holder_def)
  next
    case (AckApp app surface owner q)
    show ?thesis using ack_app_cases [of app surface owner q now s]
    proof (elim disjE exE conjE)
      fix as assume f: "fst (ack_app_event app surface owner q now s) = s\<lparr>ae_deliveries := (ae_deliveries s)(app_event_cursor_key app surface :=
          AList.delete q (ae_deliveries s (app_event_cursor_key app surface))), ae_attempts := as\<rparr>"
        and "app_holder s (app_event_cursor_key app surface, q) now = Some owner"
      then have "k \<noteq> (app_event_cursor_key app surface, q)" using now other AckApp by auto
      then show ?thesis using h unfolding AckApp app_step.simps f app_holder_def step_frame by (cases k) auto
    qed (use h AckApp in simp)
  next
    case (ReleaseApp app surface owner q r)
    show ?thesis using release_app_cases [of app surface owner q r now s]
    proof (elim disjE exE conjE)
      fix as d' assume f: "fst (release_app_event app surface owner q r now s) = s\<lparr>ae_deliveries := (ae_deliveries s)(app_event_cursor_key app surface :=
          AList.update q d' (ae_deliveries s (app_event_cursor_key app surface))), ae_attempts := as\<rparr>"
        and "app_holder s (app_event_cursor_key app surface, q) now = Some owner"
      then have "k \<noteq> (app_event_cursor_key app surface, q)" using now other ReleaseApp by auto
      then show ?thesis using h unfolding ReleaseApp app_step.simps f app_holder_def step_frame by (cases k) auto
    qed (use h ReleaseApp in simp)
  qed (use h in \<open>simp_all add: app_holder_def open_delivery_def\<close>)
qed

lemma app_claimed_cases:
  assumes "k \<in> app_claimed op now s" "deliveries_ok s"
  shows "\<exists>app surface owner lease. op = ClaimApp app surface owner lease \<and> app_holder s k now = None
    \<and> app_holder (app_step op now s) k now = Some owner \<and> app_holder (app_step op now s) k (now + lease - 1) = Some owner
    \<and> within_reach s app (snd k)"
proof -
  obtain app surface owner lease where op: "op = ClaimApp app surface owner lease" using assms(1) by (cases op) auto
  obtain s' r where c: "claim_app_event app surface owner lease now s = (s', r)" by force
  obtain cl where cl: "r = Inr (Some cl)" "k = (app_event_cursor_key app surface, cl_sequence cl)"
    using assms(1) op c by (auto split: sum.splits option.splits)
  show ?thesis using claim_scan [OF assms(2) c refl] op c cl
    by (auto simp: app_holder_def split: option.splits)
qed

interpretation app_events: lease_contract deliveries_ok app_step app_claimed app_actor app_holder
proof
  fix op now s k t a
  show "deliveries_ok s \<Longrightarrow> deliveries_ok (app_step op now s)" by (rule app_step_ok)
  show "deliveries_ok s \<Longrightarrow> k \<in> app_claimed op now s \<Longrightarrow> app_holder s k now = None"
    using app_claimed_cases by blast
  show "deliveries_ok s \<Longrightarrow> k \<in> app_claimed op now s \<Longrightarrow>
      app_holder (app_step op now s) k now = app_actor op \<and> app_actor op \<noteq> None"
    using app_claimed_cases by fastforce
  show "deliveries_ok s \<Longrightarrow> app_holder s k t = Some a \<Longrightarrow> now \<le> t \<Longrightarrow> app_actor op \<noteq> Some a \<Longrightarrow>
      app_holder (app_step op now s) k t = Some a" by (rule app_step_holds)
  show "app_holder s k t = Some a \<Longrightarrow> now \<le> t \<Longrightarrow> app_holder s k now = Some a"
    by (auto simp: app_holder_def split: option.splits if_splits)
qed


subsection \<open>What every transport can rely on\<close>

lemma cursor_key_inj:
  assumes "valid_app_event_surface surface" "valid_app_event_surface surface'"
    "app_event_cursor_key app surface = app_event_cursor_key app' surface'"
  shows "app = app'" "surface = surface'"
  using assms by (auto simp: valid_app_event_surface_def app_event_cursor_key_def dest: arg_cong [of _ _ last])

fun app_acked :: "app_op \<Rightarrow> time \<Rightarrow> app_events \<Rightarrow> (string \<times> nat) set" where
  "app_acked (AckApp app surface owner q) now s =
     (if snd (ack_app_event app surface owner q now s) = None \<and> app_holder s (app_event_cursor_key app surface, q) now = Some owner
      then {(app_event_cursor_key app surface, q)} else {})"
| "app_acked _ now s = {}"

fun acked_in :: "(app_op \<times> time) list \<Rightarrow> app_events \<Rightarrow> (string \<times> nat) set" where
  "acked_in [] s = {}"
| "acked_in ((op, now) # h) s = app_acked op now s \<union> acked_in h (app_step op now s)"

definition handled :: "app_events \<Rightarrow> string \<Rightarrow> string \<Rightarrow> (string \<times> nat) set \<Rightarrow> bool" where
  "handled s app surface A \<longleftrightarrow> (\<forall>q. within_reach s app q \<and> q \<le> cursor_of s (app_event_cursor_key app surface)
     \<longrightarrow> open_delivery s (app_event_cursor_key app surface) q \<noteq> None \<or> (app_event_cursor_key app surface, q) \<in> A)"

lemma claim_app_invalid:
  "\<not> valid_app_event_surface surface \<Longrightarrow> fst (claim_app_event app surface owner lease now s) = s"
  by (simp add: claim_app_event_def)

lemma ack_app_acked:
  "fst (ack_app_event app surface owner q now s) = s \<or>
   (app_event_cursor_key app surface, q) \<in> app_acked (AckApp app surface owner q) now s"
  by (auto simp: ack_app_event_def leased_app_event_def app_holder_def open_delivery_def Let_def split: option.splits)

lemma step_reach:
  "within_reach (s\<lparr>ae_deliveries := ds, ae_attempts := as\<rparr>) = within_reach s"
  by (simp add: within_reach_def installed_in_def fun_eq_iff)

lemma handled_claim:
  assumes ok: "deliveries_ok s" and h: "handled s app surface A" and v: "valid_app_event_surface surface"
  shows "handled (fst (claim_app_event app' surface' owner lease now s)) app surface A"
proof (cases "app_event_cursor_key app surface = app_event_cursor_key app' surface' \<and> valid_app_event_surface surface'")
  case True
  then have eq: "app' = app" "surface' = surface" using cursor_key_inj [of surface surface'] v by auto
  obtain s' r where c: "claim_app_event app surface owner lease now s = (s', r)" by force
  let ?key = "app_event_cursor_key app surface"
  note sc = claim_scan [OF ok c refl]
  have reach: "within_reach s' app = within_reach s app" using sc by (simp add: within_reach_def installed_in_def fun_eq_iff)
  have "open_delivery s' ?key q \<noteq> None \<or> (?key, q) \<in> A" if "within_reach s app q" "q \<le> cursor_of s' ?key" for q
  proof (cases "q \<le> cursor_of s ?key")
    case True
    then have "open_delivery s ?key q \<noteq> None \<or> (?key, q) \<in> A" using h that by (simp add: handled_def)
    moreover have "open_delivery s ?key q \<noteq> None \<Longrightarrow> open_delivery s' ?key q \<noteq> None"
      using claim_app_open [OF ok c, of ?key q] that(1) sc by auto
    ultimately show ?thesis by blast
  next
    case False
    then have "cursor_of s ?key < q \<and> q \<le> cursor_of s' ?key \<and> within_reach s app q" using that by simp
    then show ?thesis using sc by blast
  qed
  then show ?thesis by (simp add: handled_def reach eq c)
next
  case False
  show ?thesis
  proof (cases "valid_app_event_surface surface'")
    case True
    obtain s' r where c: "claim_app_event app' surface' owner lease now s = (s', r)" by force
    note sc = claim_scan [OF ok c refl]
    have ne: "app_event_cursor_key app surface \<noteq> app_event_cursor_key app' surface'" using False True by simp
    have "cursor_of s' (app_event_cursor_key app surface) = cursor_of s (app_event_cursor_key app surface)"
      "ae_deliveries s' (app_event_cursor_key app surface) = ae_deliveries s (app_event_cursor_key app surface)"
      "within_reach s' = within_reach s"
      using sc ne by (auto simp: within_reach_def installed_in_def fun_eq_iff cursor_of_def)
    then show ?thesis using h c by (simp add: handled_def open_delivery_def)
  qed (use h in \<open>simp add: claim_app_invalid\<close>)
qed

lemma handled_mono: "handled s app surface A \<Longrightarrow> A \<subseteq> B \<Longrightarrow> handled s app surface B"
  by (auto simp: handled_def)

lemma handled_step:
  assumes ok: "deliveries_ok s" and h: "handled s app surface A" and v: "valid_app_event_surface surface"
    and fixed: "\<forall>is. op \<noteq> ChangeInstallations is"
  shows "handled (app_step op now s) app surface (A \<union> app_acked op now s)"
proof (cases op)
  case (AppendRecord e)
  have "within_reach s app q" if "within_reach (app_step op now s) app q" "q \<le> length (ae_journal s)" for q
    using that AppendRecord by (auto simp: within_reach_def reachable_record_def installed_in_def nth_append_left)
  moreover have "cursor_of s (app_event_cursor_key app surface) \<le> length (ae_journal s)"
    using ok by (simp add: deliveries_ok_def)
  moreover have "cursor_of (app_step op now s) = cursor_of s" "open_delivery (app_step op now s) = open_delivery s"
    using AppendRecord by (simp_all add: cursor_of_def open_delivery_def fun_eq_iff)
  ultimately have "handled (app_step op now s) app surface A" using h unfolding handled_def by (metis order_trans)
  then show ?thesis by (rule handled_mono) simp
next
  case (ClaimApp app' surface' owner lease)
  then show ?thesis using handled_claim [OF ok h v] by simp
next
  case (AckApp app' surface' owner q')
  show ?thesis
  proof (cases "fst (ack_app_event app' surface' owner q' now s) = s")
    case True
    then show ?thesis using h AckApp by (auto intro: handled_mono)
  next
    case False
    then obtain as where f: "fst (ack_app_event app' surface' owner q' now s) =
        s\<lparr>ae_deliveries := (ae_deliveries s)(app_event_cursor_key app' surface' :=
        AList.delete q' (ae_deliveries s (app_event_cursor_key app' surface'))), ae_attempts := as\<rparr>"
      using ack_app_cases [of app' surface' owner q' now s] by blast
    have "(app_event_cursor_key app' surface', q') \<in> app_acked op now s"
      using ack_app_acked [of app' surface' owner q' now s] False AckApp by simp
    then show ?thesis using h unfolding AckApp app_step.simps f handled_def step_frame step_reach by auto
  qed
next
  case (ReleaseApp app' surface' owner q' r)
  show ?thesis using release_app_cases [of app' surface' owner q' r now s]
  proof (elim disjE exE conjE)
    fix as d' assume f: "fst (release_app_event app' surface' owner q' r now s) = s\<lparr>ae_deliveries := (ae_deliveries s)(app_event_cursor_key app' surface' :=
        AList.update q' d' (ae_deliveries s (app_event_cursor_key app' surface'))), ae_attempts := as\<rparr>"
    show ?thesis using h unfolding ReleaseApp app_step.simps f handled_def step_frame step_reach by auto
  qed (use h ReleaseApp in simp)
qed (use fixed in simp)


lemma handled_run:
  assumes "deliveries_ok s" "handled s app surface A" "valid_app_event_surface surface"
    "\<forall>(op, now) \<in> set h. \<forall>is. op \<noteq> ChangeInstallations is"
  shows "deliveries_ok (app_events.run h s) \<and> handled (app_events.run h s) app surface (A \<union> acked_in h s)"
  using assms
proof (induction h arbitrary: s A)
  case (Cons p h)
  obtain op now where p: "p = (op, now)" by (cases p)
  have "handled (app_step op now s) app surface (A \<union> app_acked op now s)"
    using handled_step [OF Cons.prems(1-3)] Cons.prems(4) p by simp
  from Cons.IH [OF app_step_ok [OF Cons.prems(1)] this Cons.prems(3)] Cons.prems(4) p
  show ?case by (simp add: Un_assoc)
qed simp


text \<open>
  One transport at a time. When a claim hands a record to an owner, the record was within the
  app's reach and under nobody's unexpired lease; and until the lease's end, whatever other owners
  claim, acknowledge or release, and whatever is appended or installed meanwhile, the record is
  handed to nobody else and stays covered by the owner's lease.
\<close>

theorem app_claim_exclusive:
  assumes "deliveries_ok s" "snd (claim_app_event app surface owner lease now s) = Inr (Some cl)"
    and "\<forall>(op, now') \<in> set h. now' < now + lease \<and> app_actor op \<noteq> Some owner"
  shows "within_reach s app (cl_sequence cl) \<and> cl_event cl = ae_journal s ! (cl_sequence cl - 1)
    \<and> app_holder s (app_event_cursor_key app surface, cl_sequence cl) now = None
    \<and> app_events.claims_of (app_event_cursor_key app surface, cl_sequence cl) h (fst (claim_app_event app surface owner lease now s)) = []
    \<and> app_holder (app_events.run h (fst (claim_app_event app surface owner lease now s)))
        (app_event_cursor_key app surface, cl_sequence cl) (now + lease - 1) = Some owner"
proof -
  let ?op = "ClaimApp app surface owner lease" and ?k = "(app_event_cursor_key app surface, cl_sequence cl)"
  obtain s' where c: "claim_app_event app surface owner lease now s = (s', Inr (Some cl))" using assms(2) by (cases "claim_app_event app surface owner lease now s") auto
  note sc = claim_scan [OF assms(1) c refl]
  have k: "?k \<in> app_claimed ?op now s" using c by simp
  have "app_holder s ?k now = None" "app_holder (app_step ?op now s) ?k (now + lease - 1) = Some owner"
    using app_claimed_cases [OF k assms(1)] c sc by (auto simp: app_holder_def)
  moreover have "app_events.claims_of ?k h (app_step ?op now s) = [] \<and> app_holder (app_events.run h (app_step ?op now s)) ?k (now + lease - 1) = Some owner"
    using assms(3) by (intro app_events.held_throughout [OF app_step_ok [OF assms(1)] calculation(2)]) auto
  ultimately show ?thesis using sc by simp
qed

subsection \<open>The cursor an app is shown\<close>

lemma lowest_Nil [simp]: "lowest [] = None"
  by (simp add: lowest_def)

lemma lowest_single [simp]: "lowest [d] = Some d"
  by (simp add: lowest_def)

lemma lowest_snoc: "lowest (ds @ [d]) = (case lowest ds of None \<Rightarrow> Some d | Some b \<Rightarrow> if fst d < fst b then Some d else Some b)"
  by (simp add: lowest_def split: option.splits)

lemma lowest_least:
  "case lowest ds of None \<Rightarrow> ds = [] | Some b \<Rightarrow> b \<in> set ds \<and> (\<forall>d \<in> set ds. fst b \<le> fst d)"
proof (induction ds rule: rev_induct)
  case (snoc d ds)
  then show ?case by (cases "lowest ds") (auto simp: lowest_snoc [of _ d])
qed simp

lemma acknowledged_fold:
  "(fold (\<lambda>(q, d) ack. if q \<le> ack then q - 1 else ack) dels c :: nat) = (if \<forall>(q, d) \<in> set dels. c < q then c else Min (fst ` set dels) - 1)"
proof (induction dels arbitrary: c rule: rev_induct)
  case (snoc d ds)
  show ?case
  proof (cases "ds = []")
    case False
    have m: "Min (fst ` set (ds @ [d])) = min (fst d) (Min (fst ` set ds))" using False by simp
    have "(\<forall>(q, d) \<in> set ds. c < q) = (c < Min (fst ` set ds))" using False by (auto simp: Min_gr_iff)
    then show ?thesis using snoc.IH [of c] m by (auto simp: case_prod_beta)
  qed (auto simp: case_prod_beta)
qed simp


lemma lowest_open:
  assumes "distinct (map fst dels)"
  shows "case lowest (filter P dels) of
      None \<Rightarrow> \<forall>q d. map_of dels q = Some d \<longrightarrow> \<not> P (q, d)
    | Some (q, d) \<Rightarrow> map_of dels q = Some d \<and> P (q, d) \<and> (\<forall>q' d'. map_of dels q' = Some d' \<and> P (q', d') \<longrightarrow> q \<le> q')"
  using lowest_least [of "filter P dels"] assms
  by (auto split: option.splits dest: map_of_SomeD simp: filter_empty_conv)

text \<open>
  What the inspection endpoint shows. For a transport that has started, the acknowledged
  position is the greatest one at or below its cursor with no open delivery at or below it; the
  in-flight entry is the lowest delivery under an unexpired lease and the waiting entry the lowest
  one that is not, each absent exactly when there is none; and the pending count is the number of
  open deliveries.
\<close>

theorem app_cursor_summary:
  assumes ok: "deliveries_ok s" and key: "key = app_event_cursor_key app surface"
    and d: "distinct (map fst (ae_deliveries s key))" and g: "get_app_event_cursor app surface now s = Inr c"
  shows "cs_acknowledged c \<le> cursor_of s key
    \<and> (\<forall>q \<le> cs_acknowledged c. open_delivery s key q = None)
    \<and> (cs_acknowledged c < cursor_of s key \<longrightarrow> open_delivery s key (Suc (cs_acknowledged c)) \<noteq> None)
    \<and> (case cs_in_flight c of None \<Rightarrow> \<forall>q d. open_delivery s key q = Some d \<longrightarrow> dl_until d \<le> now
       | Some (q, t) \<Rightarrow> now < t \<and> (\<exists>d. open_delivery s key q = Some d \<and> dl_until d = t)
           \<and> (\<forall>q' d'. open_delivery s key q' = Some d' \<and> now < dl_until d' \<longrightarrow> q \<le> q'))
    \<and> (case cs_waiting c of None \<Rightarrow> \<forall>q d. open_delivery s key q = Some d \<longrightarrow> now < dl_until d
       | Some (t, a, reason) \<Rightarrow> \<exists>q d. open_delivery s key q = Some d \<and> dl_until d \<le> now
           \<and> dl_retry_at d = t \<and> dl_attempt d = a \<and> dl_reason d = reason
           \<and> (\<forall>q' d'. open_delivery s key q' = Some d' \<and> dl_until d' \<le> now \<longrightarrow> q \<le> q'))
    \<and> cs_pending c = int (card {q. open_delivery s key q \<noteq> None})"
proof -
  let ?dels = "ae_deliveries s key"
  obtain cur where cur: "ae_cursors s key = Some cur" "cursor_of s key = cur"
    using g key by (auto simp: get_app_event_cursor_def Let_def cursor_of_def split: if_splits option.splits)
  have c: "cs_acknowledged c = (if \<forall>(q, d) \<in> set ?dels. cur < q then cur else Min (fst ` set ?dels) - 1)"
    "cs_in_flight c = map_option (\<lambda>(q, d). (q, dl_until d)) (lowest (filter (\<lambda>(q, d). dl_until d > now) ?dels))"
    "cs_waiting c = map_option (\<lambda>(q, d). (dl_retry_at d, dl_attempt d, dl_reason d)) (lowest (filter (\<lambda>(q, d). \<not> dl_until d > now) ?dels))"
    "cs_pending c = int (length ?dels)"
    using g key cur by (auto simp: get_app_event_cursor_def Let_def acknowledged_fold split: if_splits)
  have o: "open_delivery s key q \<noteq> None \<longleftrightarrow> q \<in> fst ` set ?dels" for q
    by (simp add: open_delivery_def map_of_eq_None_iff)
  have in_range: "0 < q \<and> q \<le> cur" if "q \<in> fst ` set ?dels" for q
    using that o [of q] ok cur by (auto simp: deliveries_ok_def)
  have ack: "cs_acknowledged c = (if ?dels = [] then cur else Min (fst ` set ?dels) - 1)"
    using c(1) in_range by (cases ?dels) fastforce+
  have m: "Min (fst ` set ?dels) \<in> fst ` set ?dels" "\<forall>q \<in> fst ` set ?dels. Min (fst ` set ?dels) \<le> q" if "?dels \<noteq> []"
    using that by (intro Min_in, auto)
  have "cs_acknowledged c \<le> cur \<and> (\<forall>q \<le> cs_acknowledged c. open_delivery s key q = None)
      \<and> (cs_acknowledged c < cur \<longrightarrow> open_delivery s key (Suc (cs_acknowledged c)) \<noteq> None)"
  proof (cases "?dels = []")
    case False
    have p: "0 < Min (fst ` set ?dels) \<and> Min (fst ` set ?dels) \<le> cur" using in_range m(1) [OF False] by blast
    then have "Suc (cs_acknowledged c) = Min (fst ` set ?dels)" using ack False by simp
    then have "open_delivery s key (Suc (cs_acknowledged c)) \<noteq> None" using m(1) [OF False] o by simp
    moreover have "open_delivery s key q = None" if "q \<le> cs_acknowledged c" for q
      proof (rule ccontr)
      assume "open_delivery s key q \<noteq> None"
      then have "Min (fst ` set ?dels) \<le> q" using o m(2) [OF False] by blast
      then show False using that \<open>Suc (cs_acknowledged c) = _\<close> by simp
    qed
    ultimately show ?thesis using p ack by auto
  qed (use ack in \<open>simp add: open_delivery_def\<close>)
  moreover have "card {q. open_delivery s key q \<noteq> None} = length ?dels"
    using d o by (simp add: distinct_card [of "map fst ?dels", simplified])
  moreover have "case cs_in_flight c of None \<Rightarrow> \<forall>q d. open_delivery s key q = Some d \<longrightarrow> dl_until d \<le> now
       | Some (q, t) \<Rightarrow> now < t \<and> (\<exists>d. open_delivery s key q = Some d \<and> dl_until d = t)
           \<and> (\<forall>q' d'. open_delivery s key q' = Some d' \<and> now < dl_until d' \<longrightarrow> q \<le> q')"
    using lowest_open [OF d, of "\<lambda>(q, d). dl_until d > now"] unfolding c(2) open_delivery_def
    by (auto split: option.splits simp: not_less)
  moreover have "case cs_waiting c of None \<Rightarrow> \<forall>q d. open_delivery s key q = Some d \<longrightarrow> now < dl_until d
       | Some (t, a, reason) \<Rightarrow> \<exists>q d. open_delivery s key q = Some d \<and> dl_until d \<le> now
           \<and> dl_retry_at d = t \<and> dl_attempt d = a \<and> dl_reason d = reason
           \<and> (\<forall>q' d'. open_delivery s key q' = Some d' \<and> dl_until d' \<le> now \<longrightarrow> q \<le> q')"
    using lowest_open [OF d, of "\<lambda>(q, d). \<not> dl_until d > now"] unfolding c(3) open_delivery_def
    by (auto split: option.splits simp: not_less not_le)
  ultimately show ?thesis using cur c(4) by simp
qed


subsection \<open>The properties at work\<close>

definition wit_record :: "string \<Rightarrow> string \<Rightarrow> event" where
  "wit_record w t = \<lparr>ev_id = ''e'', ev_workspace = w, ev_topic = t, ev_payload = ''{}''\<rparr>"

definition wit_app :: app_events where
  "wit_app = \<lparr>ae_journal = [wit_record ''W2'' ''message'', wit_record ''W1'' ''message''],
     ae_installations = [\<lparr>in_app = ''A1'', in_workspace = ''W1'', in_enabled = True\<rparr>],
     ae_deliveries = (\<lambda>_. []), ae_cursors = Map.empty, ae_attempts = (\<lambda>_. [])\<rparr>"

definition wit_app_claimed :: app_events where
  "wit_app_claimed = fst (claim_app_event ''A1'' ''http'' ''w1'' 30 100 wit_app)"

lemmas wit_app_eval = wit_app_def wit_record_def claim_app_event_def installed_in_def
  app_event_record_eligible_def internal_topic_def blob_delete_topics_def due_sequences_def
  valid_app_event_surface_def trim_space_def go_space_def Let_def fresh_delivery_def

lemma wit_app_claim:
  "claim_app_event ''A1'' ''http'' ''w1'' 30 100 wit_app =
    (wit_app\<lparr>ae_cursors := [app_event_cursor_key ''A1'' ''http'' \<mapsto> 2],
       ae_deliveries := (\<lambda>_. [])(app_event_cursor_key ''A1'' ''http'' := [(2, fresh_delivery ''w1'' 130)])\<rparr>,
     Inr (Some \<lparr>cl_sequence = 2, cl_event = wit_record ''W1'' ''message'', cl_attempt = 0, cl_reason = [], cl_delivered = []\<rparr>))"
  by (simp add: wit_app_eval numeral_2_eq_2)

lemma wit_app_fresh: "\<forall>key. ae_deliveries wit_app key = []" "\<forall>key. ae_cursors wit_app key = None" "deliveries_ok wit_app"
  by (simp_all add: wit_app_def deliveries_ok_def open_delivery_def cursor_of_def)


theorem app_claim_exclusive_witness:
  "app_events.claims_of (app_event_cursor_key ''A1'' ''http'', 2)
     [(ClaimApp ''A1'' ''http'' ''w2'' 30, 110), (AckApp ''A1'' ''http'' ''w2'' 2, 120)]
     (fst (claim_app_event ''A1'' ''http'' ''w1'' 30 100 wit_app)) = []"
  using app_claim_exclusive [OF wit_app_fresh(3), of "''A1''" "''http''" "''w1''" 30 100
      "\<lparr>cl_sequence = 2, cl_event = wit_record ''W1'' ''message'', cl_attempt = 0, cl_reason = [], cl_delivered = []\<rparr>"
      "[(ClaimApp ''A1'' ''http'' ''w2'' 30, 110), (AckApp ''A1'' ''http'' ''w2'' 2, 120)]"]
  by (simp add: wit_app_claim)

theorem app_cursor_summary_witness:
  "get_app_event_cursor ''A1'' ''http'' 110 wit_app_claimed =
     Inr \<lparr>cs_acknowledged = 1, cs_in_flight = Some (2, 130), cs_waiting = None, cs_pending = 1\<rparr>
   \<and> open_delivery wit_app_claimed (app_event_cursor_key ''A1'' ''http'') 2 \<noteq> None"
proof -
  have ok: "deliveries_ok wit_app_claimed"
    unfolding wit_app_claimed_def by (rule claim_app_ok [OF wit_app_fresh(3)])
  have g: "get_app_event_cursor ''A1'' ''http'' 110 wit_app_claimed =
     Inr \<lparr>cs_acknowledged = 1, cs_in_flight = Some (2, 130), cs_waiting = None, cs_pending = 1\<rparr>"
    by (simp add: wit_app_claimed_def wit_app_claim get_app_event_cursor_def valid_app_event_surface_def fresh_delivery_def)
  have d: "distinct (map fst (ae_deliveries wit_app_claimed (app_event_cursor_key ''A1'' ''http'')))"
    by (simp add: wit_app_claimed_def wit_app_claim)
  show ?thesis using app_cursor_summary [OF ok refl d g] g
    by (auto simp: wit_app_claimed_def wit_app_claim cursor_of_def numeral_2_eq_2)
qed

end
