(* ===== verification/Spool.thy ===== *)
theory Spool
  imports Lease_Contract
begin

section \<open>The durable request spool\<close>

text \<open>
  \<^verbatim>\<open>SQLiteSpool\<close> of \<^verbatim>\<open>internal/activator/spool.go\<close>: while the stack is down, the activator keeps the
  requests it accepted in one table, sealed under a key, and hands them out under leases. The table
  is the list of its rows in the order of \<^verbatim>\<open>id\<close>, with the last identifier \<^verbatim>\<open>AUTOINCREMENT\<close> gave; each
  operation is one transaction, and the database answers. Sealing is authenticated encryption: what
  was sealed opens under the same key only, to the same request (its texts are valid UTF-8, which
  JSON keeps), and any other blob does not open. Instants are Unix nanoseconds, as the column is. A
  claim's token is 128 random bits; the model draws them in order and never twice, 0 being the
  empty token. \<^verbatim>\<open>Claim\<close> reads the clock twice, once to judge leases and once for the new expiry.
\<close>

record spool_limits =
  max_body_bytes :: int
  max_queued_bytes :: int
  max_queued_requests :: int

record request =
  rq_id :: nat
  rq_method :: string
  rq_url :: string
  rq_host :: string
  rq_header :: "(string \<times> string list) list option"
  rq_body :: string
  rq_created :: time

datatype sealed = Sealed string request | Foreign string

record spool_row =
  sp_id :: nat
  sp_payload :: sealed
  sp_bytes :: int
  sp_owner :: string
  sp_token :: nat
  sp_expires :: time
  sp_poison :: string

record spool =
  sp_key :: string
  sp_limits :: spool_limits
  sp_rows :: "spool_row list"
  sp_last :: nat
  sp_tokens :: nat

datatype spool_error =
  SpoolArgument | SpoolBodyTooLarge | SpoolCapacity | SpoolLeaseLost | SpoolNoRows | SpoolUndecodable nat

subsection \<open>Payloads\<close>

definition open_sealed :: "string \<Rightarrow> sealed \<Rightarrow> string + request" where
  "open_sealed key p = (case p of
     Sealed k r \<Rightarrow> if k = key then Inr r else Inl ''message authentication failed''
   | Foreign why \<Rightarrow> Inl (if why = [] then ''message authentication failed'' else why))"

definition decode_payload :: "spool \<Rightarrow> sealed \<Rightarrow> string + request" where
  "decode_payload s p = (case open_sealed (sp_key s) p of
     Inl why \<Rightarrow> Inl why
   | Inr r \<Rightarrow>
       if rq_method r = [] \<or> rq_url r = [] \<or> rq_header r = None \<or> int (length (rq_body r)) > max_body_bytes (sp_limits s)
       then Inl ''spooled request metadata is invalid'' else Inr r)"

fun decode_rows :: "spool \<Rightarrow> spool_row list \<Rightarrow> request list \<times> (nat \<times> string) list" where
  "decode_rows s [] = ([], [])"
| "decode_rows s (r # rs) =
     (let (result, poisoned) = decode_rows s rs
      in case decode_payload s (sp_payload r) of
           Inl why \<Rightarrow> (result, (sp_id r, why) # poisoned)
         | Inr request \<Rightarrow> (request\<lparr>rq_id := sp_id r\<rparr> # result, poisoned))"

subsection \<open>Operations\<close>

definition open_spool :: "string \<Rightarrow> string \<Rightarrow> spool_limits \<Rightarrow> spool option" where
  "open_spool dsn key limits =
     (if trim_space dsn = [] \<or> length key \<noteq> 32 \<or> max_body_bytes limits \<le> 0 \<or> max_queued_bytes limits \<le> 0
        \<or> max_queued_requests limits \<le> 0
      then None else Some \<lparr>sp_key = key, sp_limits = limits, sp_rows = [], sp_last = 0, sp_tokens = 1\<rparr>)"

text \<open>Rows of an older binary have no byte count; the ones that do not decode are quarantined.\<close>

definition backfill_body_bytes :: "spool \<Rightarrow> spool" where
  "backfill_body_bytes s = s\<lparr>sp_rows := map (\<lambda>r.
     if sp_bytes r = 0 \<and> sp_poison r = [] then
       (case decode_payload s (sp_payload r) of
          Inl why \<Rightarrow> r\<lparr>sp_poison := why\<rparr>
        | Inr request \<Rightarrow> r\<lparr>sp_bytes := int (length (rq_body request))\<rparr>)
     else r) (sp_rows s)\<rparr>"

definition enqueue :: "request \<Rightarrow> string \<Rightarrow> time \<Rightarrow> spool \<Rightarrow> spool \<times> (spool_error + nat)" where
  "enqueue request body now s =
     (if int (length body) > max_body_bytes (sp_limits s) then (s, Inl SpoolBodyTooLarge)
      else
        let payload = Sealed (sp_key s) (request\<lparr>rq_id := 0, rq_body := body, rq_created := now\<rparr>);
            queued_requests = int (length (sp_rows s)); queued_bytes = sum_list (map sp_bytes (sp_rows s))
        in if queued_requests \<ge> max_queued_requests (sp_limits s)
              \<or> queued_bytes + int (length body) > max_queued_bytes (sp_limits s)
           then (s, Inl SpoolCapacity)
           else
             let i = Suc (sp_last s);
                 r = \<lparr>sp_id = i, sp_payload = payload, sp_bytes = int (length body), sp_owner = [], sp_token = 0,
                      sp_expires = 0, sp_poison = []\<rparr>
             in (s\<lparr>sp_rows := sp_rows s @ [r], sp_last := i\<rparr>, Inr i))"

definition claimable :: "time \<Rightarrow> spool_row \<Rightarrow> bool" where
  "claimable now r \<longleftrightarrow> sp_poison r = [] \<and> sp_expires r \<le> now"

definition claim :: "string \<Rightarrow> int \<Rightarrow> duration \<Rightarrow> time \<Rightarrow> time \<Rightarrow> spool \<Rightarrow> spool \<times> (spool_error + request list)" where
  "claim owner limit lease now again s =
     (if trim_space owner = [] \<or> limit \<le> 0 \<or> lease \<le> 0 then (s, Inl SpoolArgument)
      else
        let token = sp_tokens s; expires = again + lease;
            chosen = map sp_id (take (nat limit) (filter (claimable now) (sp_rows s)));
            s1 = s\<lparr>sp_tokens := token + 1,
                   sp_rows := map (\<lambda>r. if sp_id r \<in> set chosen
                      then r\<lparr>sp_owner := owner, sp_token := token, sp_expires := expires\<rparr> else r) (sp_rows s)\<rparr>;
            (requests, poisoned) = decode_rows s1 (filter (\<lambda>r. sp_token r = token) (sp_rows s1))
        in (s1\<lparr>sp_rows := map (\<lambda>r. case map_of poisoned (sp_id r) of
                None \<Rightarrow> r
              | Some why \<Rightarrow> r\<lparr>sp_poison := why, sp_owner := [], sp_token := 0, sp_expires := 0\<rparr>) (sp_rows s1)\<rparr>,
            Inr requests))"

definition renew :: "string \<Rightarrow> nat list \<Rightarrow> duration \<Rightarrow> time \<Rightarrow> spool \<Rightarrow> spool \<times> spool_error option" where
  "renew owner ids lease now s =
     (if trim_space owner = [] \<or> ids = [] \<or> lease \<le> 0 then (s, Some SpoolArgument)
      else if 0 \<in> set ids then (s, Some SpoolArgument)
      else
        let hit = (\<lambda>r. sp_owner r = owner \<and> sp_expires r > now \<and> sp_id r \<in> set ids);
            s' = s\<lparr>sp_rows := map (\<lambda>r. if hit r then r\<lparr>sp_expires := now + lease\<rparr> else r) (sp_rows s)\<rparr>
        in if length (filter hit (sp_rows s)) \<noteq> length ids then (s', Some SpoolLeaseLost) else (s', None))"

definition delete :: "string \<Rightarrow> nat \<Rightarrow> spool \<Rightarrow> spool \<times> spool_error option" where
  "delete owner i s =
     (if trim_space owner = [] then (s, Some SpoolArgument)
      else
        let hit = (\<lambda>r. sp_id r = i \<and> sp_owner r = owner);
            s' = s\<lparr>sp_rows := filter (\<lambda>r. \<not> hit r) (sp_rows s)\<rparr>
        in if length (filter hit (sp_rows s)) \<noteq> 1 then (s', Some SpoolNoRows) else (s', None))"

definition pending :: "spool \<Rightarrow> int" where
  "pending s = int (length (filter (\<lambda>r. sp_poison r = []) (sp_rows s)))"

definition quarantined :: "spool \<Rightarrow> int" where
  "quarantined s = int (length (filter (\<lambda>r. sp_poison r \<noteq> []) (sp_rows s)))"

definition list_requests :: "int \<Rightarrow> spool \<Rightarrow> request list \<times> spool_error option" where
  "list_requests limit s =
     (if limit \<le> 0 then ([], Some SpoolArgument)
      else case decode_rows s (take (nat limit) (filter (\<lambda>r. sp_poison r = []) (sp_rows s))) of
             (result, poisoned) \<Rightarrow> (result, if poisoned \<noteq> [] then Some (SpoolUndecodable (length poisoned)) else None))"


subsection \<open>What a claim does to the table\<close>

definition spool_ok :: "spool \<Rightarrow> bool" where
  "spool_ok s \<longleftrightarrow> 0 < sp_tokens s \<and> sorted_wrt (<) (map sp_id (sp_rows s)) \<and> (\<forall>r \<in> set (sp_rows s). 0 < sp_id r \<and> sp_id r \<le> sp_last s
     \<and> sp_token r < sp_tokens s \<and> 0 \<le> sp_bytes r)"

definition row_of :: "spool \<Rightarrow> nat \<Rightarrow> spool_row option" where
  "row_of s i = find (\<lambda>r. sp_id r = i) (sp_rows s)"

definition deliverable :: "spool \<Rightarrow> spool_row \<Rightarrow> request option" where
  "deliverable s r = (case decode_payload s (sp_payload r) of Inl why \<Rightarrow> None | Inr q \<Rightarrow> Some (q\<lparr>rq_id := sp_id r\<rparr>))"

definition handed :: "spool \<Rightarrow> string \<Rightarrow> nat \<Rightarrow> time \<Rightarrow> spool_row \<Rightarrow> spool_row" where
  "handed s owner token expires r = (case decode_payload s (sp_payload r) of
     Inl why \<Rightarrow> r\<lparr>sp_poison := why, sp_owner := [], sp_token := 0, sp_expires := 0\<rparr>
   | Inr _ \<Rightarrow> r\<lparr>sp_owner := owner, sp_token := token, sp_expires := expires\<rparr>)"

lemma decode_rows_result:
  "decode_rows s rs = (List.map_filter (deliverable s) rs,
     List.map_filter (\<lambda>r. case decode_payload s (sp_payload r) of Inl why \<Rightarrow> Some (sp_id r, why) | Inr _ \<Rightarrow> None) rs)"
  by (induction rs) (auto simp: deliverable_def List.map_filter_simps split: sum.splits)

lemma decode_payload_frame [simp]:
  "decode_payload (s\<lparr>sp_rows := rs\<rparr>) p = decode_payload s p" "decode_payload (s\<lparr>sp_tokens := n\<rparr>) p = decode_payload s p"
  "decode_payload (s\<lparr>sp_last := n\<rparr>) p = decode_payload s p"
  by (simp_all add: decode_payload_def split: sum.split)

lemma deliverable_frame [simp]:
  "deliverable (s\<lparr>sp_rows := rs\<rparr>) r = deliverable s r" "deliverable (s\<lparr>sp_tokens := n\<rparr>) r = deliverable s r"
  "deliverable (s\<lparr>sp_last := n\<rparr>) r = deliverable s r"
  "deliverable s (r\<lparr>sp_owner := a, sp_token := b, sp_expires := c\<rparr>) = deliverable s r"
  by (simp_all add: deliverable_def split: sum.splits)

lemma decode_error_named: "decode_payload s p = Inl why \<Longrightarrow> why \<noteq> []"
  by (auto simp: decode_payload_def open_sealed_def split: sealed.splits if_splits sum.splits)

lemma filter_chosen:
  assumes "distinct (map f xs)"
  shows "filter (\<lambda>x. f x \<in> f ` set (take n (filter P xs))) xs = take n (filter P xs)"
  using assms
proof (induction xs arbitrary: n)
  case (Cons x xs)
  have IH: "filter (\<lambda>y. f y \<in> f ` set (take m (filter P xs))) xs = take m (filter P xs)" for m using Cons by simp
  have sub: "f ` set (take m (filter P xs)) \<subseteq> f ` set xs" for m using set_take_subset [of m "filter P xs"] by auto
  have x: "f x \<notin> f ` set xs" using Cons.prems by auto
  then have nx: "f x \<notin> f ` set (take m (filter P xs))" for m using sub by blast
  show ?case
  proof (cases "P x \<and> 0 < n")
    case True
    then obtain m where m: "n = Suc m" by (cases n) auto
    have "filter (\<lambda>y. f y = f x \<or> f y \<in> f ` set (take m (filter P xs))) xs
        = filter (\<lambda>y. f y \<in> f ` set (take m (filter P xs))) xs"
      using x by (intro filter_cong refl) (metis imageI)
    then show ?thesis using True m IH [of m] by simp
  next
    case False
    then have "take n (filter P (x # xs)) = take n (filter P xs)" by auto
    then show ?thesis using nx IH [of n] by simp
  qed
qed simp

lemma ids_distinct: "spool_ok s \<Longrightarrow> distinct (map sp_id (sp_rows s))"
  unfolding spool_ok_def using strict_sorted_iff by blast

lemma map_of_map_filter:
  assumes "distinct (map sp_id rs)" "r \<in> set rs"
  shows "map_of (List.map_filter (\<lambda>r. case g r of Inl why \<Rightarrow> Some (sp_id r, why) | Inr _ \<Rightarrow> None) rs) (sp_id r)
    = (case g r of Inl why \<Rightarrow> Some why | Inr _ \<Rightarrow> None)"
  using assms
proof (induction rs)
  case (Cons x xs)
  have none: "map_of (List.map_filter (\<lambda>r. case g r of Inl why \<Rightarrow> Some (sp_id r, why) | Inr _ \<Rightarrow> None) xs) i = None"
    if "i \<notin> sp_id ` set xs" for i
    using that by (induction xs) (auto simp: List.map_filter_simps split: sum.splits)
  show ?case
  proof (cases "r = x")
    case True
    then show ?thesis using Cons.prems(1) none [of "sp_id x"] by (auto simp: List.map_filter_simps split: sum.splits)
  next
    case False
    then have "r \<in> set xs" using Cons.prems by auto
    moreover have "sp_id r \<noteq> sp_id x" using Cons.prems(1) imageI [OF \<open>r \<in> set xs\<close>, of sp_id] by auto
    ultimately have "sp_id r \<noteq> sp_id x" "r \<in> set xs" by auto
    then show ?thesis using Cons by (auto simp: List.map_filter_simps split: sum.splits)
  qed
qed simp

lemma claim_result:
  assumes ok: "spool_ok s" and g: "trim_space owner \<noteq> []" "limit > 0" "lease > 0"
  shows "claim owner limit lease now again s =
    (let C = take (nat limit) (filter (claimable now) (sp_rows s))
     in (s\<lparr>sp_tokens := Suc (sp_tokens s),
           sp_rows := map (\<lambda>r. if r \<in> set C then handed s owner (sp_tokens s) (again + lease) r else r) (sp_rows s)\<rparr>,
         Inr (List.map_filter (deliverable s) C)))"
proof -
  let ?C = "take (nat limit) (filter (claimable now) (sp_rows s))" and ?t = "sp_tokens s" and ?e = "again + lease"
  let ?lease = "\<lambda>r. r\<lparr>sp_owner := owner, sp_token := ?t, sp_expires := ?e\<rparr>"
  let ?rows = "map (\<lambda>r. if sp_id r \<in> set (map sp_id ?C) then ?lease r else r) (sp_rows s)"
  let ?g = "\<lambda>r. decode_payload s (sp_payload r)"
  let ?bad = "List.map_filter (\<lambda>r. case ?g r of Inl why \<Rightarrow> Some (sp_id r, why) | Inr _ \<Rightarrow> None)"
  note d = ids_distinct [OF ok]
  have C: "set ?C \<subseteq> set (sp_rows s)" using set_take_subset [of "nat limit" "filter (claimable now) (sp_rows s)"] by auto
  have inC: "sp_id r \<in> sp_id ` set ?C \<longleftrightarrow> r \<in> set ?C" if "r \<in> set (sp_rows s)" for r
  proof
    assume "sp_id r \<in> sp_id ` set ?C"
    then obtain r' where "r' \<in> set ?C" "sp_id r' = sp_id r" by auto
    then show "r \<in> set ?C" using C that d by (metis distinct_map inj_onD subsetD)
  qed simp
  have tok: "sp_token r \<noteq> ?t" if "r \<in> set (sp_rows s)" for r using ok that by (auto simp: spool_ok_def)
  have "filter (\<lambda>r. sp_token r = ?t) ?rows = map ?lease (filter (\<lambda>r. sp_id r \<in> set (map sp_id ?C)) (sp_rows s))"
    using tok by (simp add: filter_map o_def cong: filter_cong if_cong)
  also have "\<dots> = map ?lease ?C" using filter_chosen [OF d, of "nat limit" "claimable now"] by simp
  finally have sel: "filter (\<lambda>r. sp_token r = ?t) ?rows = map ?lease ?C" .
  have mf: "List.map_filter h (map ?lease ?C) = List.map_filter (h \<circ> ?lease) ?C" for h :: "spool_row \<Rightarrow> 'a option"
    by (simp add: List.map_filter_def filter_map o_def)
  have dC: "distinct (map sp_id ?C)" using d by (metis distinct_take distinct_filter distinct_map filter_is_subset inj_on_subset subset_trans set_take_subset)
  have per_row: "(case map_of (?bad ?C) (sp_id (if sp_id r \<in> set (map sp_id ?C) then ?lease r else r)) of
        None \<Rightarrow> if sp_id r \<in> set (map sp_id ?C) then ?lease r else r
      | Some why \<Rightarrow> (if sp_id r \<in> set (map sp_id ?C) then ?lease r else r)
            \<lparr>sp_poison := why, sp_owner := [], sp_token := 0, sp_expires := 0\<rparr>)
    = (if r \<in> set ?C then handed s owner ?t ?e r else r)" if r: "r \<in> set (sp_rows s)" for r
  proof (cases "r \<in> set ?C")
    case True
    then show ?thesis using map_of_map_filter [OF dC True, of ?g] by (auto simp: handed_def split: sum.splits)
  next
    case False
    then have "sp_id r \<notin> sp_id ` set ?C" using inC [OF r] by simp
    then have "map_of (?bad ?C) (sp_id r) = None"
      by (auto simp: map_of_eq_None_iff List.map_filter_def image_iff split: sum.splits)
    then show ?thesis using False \<open>sp_id r \<notin> _\<close> by simp
  qed
  show ?thesis using g unfolding claim_def
    by (simp add: Let_def decode_rows_result sel [simplified] mf o_def per_row [simplified] cong: sum.case_cong)
qed


subsection \<open>The lease contract\<close>

text \<open>The second reading of a claim's clock is \<open>delay\<close> after the first.\<close>

datatype spool_op =
    Spooled request string | Claimed string int duration nat | Renewed string "nat list" duration | Deleted string nat

fun spool_step :: "spool_op \<Rightarrow> time \<Rightarrow> spool \<Rightarrow> spool" where
  "spool_step (Spooled q body) now s = fst (enqueue q body now s)"
| "spool_step (Claimed owner limit lease delay) now s = fst (claim owner limit lease now (now + int delay) s)"
| "spool_step (Renewed owner ids lease) now s = fst (renew owner ids lease now s)"
| "spool_step (Deleted owner i) now s = fst (delete owner i s)"

fun spool_claimed :: "spool_op \<Rightarrow> time \<Rightarrow> spool \<Rightarrow> nat set" where
  "spool_claimed (Claimed owner limit lease delay) now s =
     (case snd (claim owner limit lease now (now + int delay) s) of Inr result \<Rightarrow> rq_id ` set result | Inl _ \<Rightarrow> {})"
| "spool_claimed _ now s = {}"

fun spool_actor :: "spool_op \<Rightarrow> string option" where
  "spool_actor (Spooled q body) = None"
| "spool_actor (Claimed owner limit lease delay) = Some owner"
| "spool_actor (Renewed owner ids lease) = Some owner"
| "spool_actor (Deleted owner i) = Some owner"

definition spool_holder :: "spool \<Rightarrow> nat \<Rightarrow> time \<Rightarrow> string option" where
  "spool_holder s i t = (case row_of s i of None \<Rightarrow> None | Some r \<Rightarrow> if t < sp_expires r then Some (sp_owner r) else None)"

lemma find_id: "distinct (map f xs) \<Longrightarrow> find (\<lambda>x. f x = i) xs = Some r \<longleftrightarrow> r \<in> set xs \<and> f r = i"
proof (induction xs)
  case (Cons x xs)
  have "f y \<noteq> f x" if "y \<in> set xs" for y using Cons.prems that by (auto simp: image_iff)
  then show ?case using Cons by (cases "f x = i") auto
qed simp

lemma find_filter_id:
  "distinct (map f xs) \<Longrightarrow> find (\<lambda>x. f x = i) (filter P xs)
     = (case find (\<lambda>x. f x = i) xs of None \<Rightarrow> None | Some x \<Rightarrow> if P x then Some x else None)"
proof (induction xs)
  case (Cons x xs)
  have "f y \<noteq> f x" if "y \<in> set xs" for y using Cons.prems that by (auto simp: image_iff)
  then have "find (\<lambda>y. f y = f x) (filter P xs) = None" by (auto simp: find_None_iff)
  then show ?case using Cons by auto
qed simp

lemma row_of_iff: "spool_ok s \<Longrightarrow> row_of s i = Some r \<longleftrightarrow> r \<in> set (sp_rows s) \<and> sp_id r = i"
  unfolding row_of_def by (rule find_id [OF ids_distinct])

lemma row_of_None: "row_of s i = None \<longleftrightarrow> (\<forall>r \<in> set (sp_rows s). sp_id r \<noteq> i)"
  by (auto simp: row_of_def find_None_iff)

lemma find_map_id: "(\<And>r. sp_id (g r) = sp_id r) \<Longrightarrow> find (\<lambda>r. sp_id r = i) (map g rs) = map_option g (find (\<lambda>r. sp_id r = i) rs)"
  by (induction rs) auto

lemma handed_id [simp]: "sp_id (handed s owner token expires r) = sp_id r" "sp_payload (handed s owner token expires r) = sp_payload r"
  "sp_bytes (handed s owner token expires r) = sp_bytes r"
  by (simp_all add: handed_def split: sum.splits)

definition guarded :: "string \<Rightarrow> int \<Rightarrow> duration \<Rightarrow> bool" where
  "guarded owner limit lease \<longleftrightarrow> trim_space owner \<noteq> [] \<and> limit > 0 \<and> lease > 0"

definition oldest :: "int \<Rightarrow> time \<Rightarrow> spool \<Rightarrow> spool_row list" where
  "oldest limit now s = take (nat limit) (filter (claimable now) (sp_rows s))"

lemma oldest_sub: "r \<in> set (oldest limit now s) \<Longrightarrow> r \<in> set (sp_rows s) \<and> claimable now r"
  using set_take_subset [of "nat limit" "filter (claimable now) (sp_rows s)"] by (auto simp: oldest_def)

lemma claim_refused: "\<not> guarded owner limit lease \<Longrightarrow> claim owner limit lease now again s = (s, Inl SpoolArgument)"
  by (auto simp: claim_def guarded_def)

lemma claim_granted:
  "spool_ok s \<Longrightarrow> guarded owner limit lease \<Longrightarrow> claim owner limit lease now again s =
     (s\<lparr>sp_tokens := Suc (sp_tokens s), sp_rows := map (\<lambda>r. if r \<in> set (oldest limit now s)
          then handed s owner (sp_tokens s) (again + lease) r else r) (sp_rows s)\<rparr>,
      Inr (List.map_filter (deliverable s) (oldest limit now s)))"
  by (simp add: claim_result guarded_def oldest_def Let_def)

text \<open>The row an identifier names, after each operation.\<close>

lemma row_of_claim:
  assumes "spool_ok s"
  shows "row_of (fst (claim owner limit lease now again s)) i = map_option (\<lambda>r.
     if guarded owner limit lease \<and> r \<in> set (oldest limit now s) then handed s owner (sp_tokens s) (again + lease) r else r) (row_of s i)"
proof (cases "guarded owner limit lease")
  case True
  then show ?thesis by (simp add: claim_granted [OF assms] row_of_def find_map_id)
qed (simp add: claim_refused option.map_ident_strong)

lemma row_of_enqueue:
  assumes "spool_ok s"
  shows "row_of (fst (enqueue q body now s)) i = (case snd (enqueue q body now s) of
     Inr i' \<Rightarrow> if i = i' then Some \<lparr>sp_id = i', sp_payload = Sealed (sp_key s) (q\<lparr>rq_id := 0, rq_body := body, rq_created := now\<rparr>),
         sp_bytes = int (length body), sp_owner = [], sp_token = 0, sp_expires = 0, sp_poison = []\<rparr> else row_of s i
   | Inl _ \<Rightarrow> row_of s i)"
proof -
  have "find (\<lambda>r. sp_id r = Suc (sp_last s)) (sp_rows s) = None"
    using assms by (fastforce simp: spool_ok_def find_None_iff)
  moreover have "find P (xs @ [x]) = (case find P xs of None \<Rightarrow> if P x then Some x else None | Some y \<Rightarrow> Some y)"
    for P and xs :: "spool_row list" and x by (induction xs) auto
  ultimately show ?thesis by (auto simp: enqueue_def Let_def row_of_def split: option.splits)
qed

lemma row_of_renew:
  "row_of (fst (renew owner ids lease now s)) i = map_option (\<lambda>r.
     if (trim_space owner \<noteq> [] \<and> ids \<noteq> [] \<and> lease > 0 \<and> 0 \<notin> set ids) \<and> sp_owner r = owner \<and> sp_expires r > now \<and> sp_id r \<in> set ids
     then r\<lparr>sp_expires := now + lease\<rparr> else r) (row_of s i)"
  by (simp add: renew_def Let_def row_of_def find_map_id option.map_ident_strong)

lemma row_of_delete:
  assumes "spool_ok s"
  shows "row_of (fst (delete owner i' s)) i = (case row_of s i of None \<Rightarrow> None
     | Some r \<Rightarrow> if trim_space owner \<noteq> [] \<and> i = i' \<and> sp_owner r = owner then None else Some r)"
proof -
  have "find (\<lambda>r. sp_id r = i) (filter P (sp_rows s)) = (case row_of s i of None \<Rightarrow> None | Some r \<Rightarrow> if P r then Some r else None)" for P
    unfolding row_of_def by (rule find_filter_id [OF ids_distinct [OF assms]])
  moreover have "sp_id r = i" if "row_of s i = Some r" for r using that by (simp add: row_of_iff [OF assms])
  moreover have "row_of (fst (delete owner i' s)) i = (if trim_space owner = [] then row_of s i
      else find (\<lambda>r. sp_id r = i) (filter (\<lambda>r. \<not> (sp_id r = i' \<and> sp_owner r = owner)) (sp_rows s)))"
    by (simp add: delete_def Let_def row_of_def)
  ultimately show ?thesis by (cases "row_of s i") auto
qed

lemma spool_step_ok: "spool_ok s \<Longrightarrow> spool_ok (spool_step op now s)"
proof (cases op)
  case (Spooled q body)
  assume "spool_ok s"
  then show ?thesis using Spooled by (auto simp: spool_ok_def enqueue_def Let_def sorted_wrt_append less_Suc_eq_le)
next
  case (Claimed owner limit lease delay)
  assume ok: "spool_ok s"
  have ids: "map (sp_id \<circ> (\<lambda>r. if P r then handed s a b c r else r)) rs = map sp_id rs" for P a b c rs by simp
  have tok: "sp_token (handed s owner (sp_tokens s) e r) < Suc (sp_tokens s)" for e r
    by (simp add: handed_def split: sum.splits)
  have "spool_ok (fst (claim owner limit lease now again s))" for again
  proof (cases "guarded owner limit lease")
    case True
    have "sp_token r < Suc (sp_tokens s)" if "r \<in> set (sp_rows s)" for r
      using ok that by (auto simp: spool_ok_def intro: less_SucI)
    then show ?thesis using ok tok by (fastforce simp: claim_granted [OF ok True] spool_ok_def ids)
  qed (simp add: claim_refused ok)
  then show ?thesis using Claimed by simp
next
  case (Renewed owner ids lease)
  assume ok: "spool_ok s"
  have ids: "map (sp_id \<circ> (\<lambda>r. if P r then r\<lparr>sp_expires := e\<rparr> else r)) rs = map sp_id rs" for P e rs by simp
  show ?thesis using ok Renewed by (auto simp: spool_ok_def renew_def Let_def ids)
next
  case (Deleted owner i)
  assume ok: "spool_ok s"
  then have "sorted_wrt (<) (map sp_id (filter P (sp_rows s)))" for P
    by (auto simp: spool_ok_def sorted_wrt_map intro: sorted_wrt_filter)
  then show ?thesis using ok Deleted by (auto simp: spool_ok_def delete_def Let_def)
qed

lemma spool_claimed_iff:
  assumes "spool_ok s"
  shows "i \<in> spool_claimed (Claimed owner limit lease delay) now s \<longleftrightarrow> guarded owner limit lease
    \<and> (\<exists>r. row_of s i = Some r \<and> r \<in> set (oldest limit now s) \<and> deliverable s r \<noteq> None)"
proof (cases "guarded owner limit lease")
  case True
  have id: "deliverable s r = Some q \<Longrightarrow> rq_id q = sp_id r" for r q by (auto simp: deliverable_def split: sum.splits)
  have "i \<in> spool_claimed (Claimed owner limit lease delay) now s
      \<longleftrightarrow> (\<exists>r \<in> set (oldest limit now s). \<exists>q. deliverable s r = Some q \<and> sp_id r = i)"
    using True id by (force simp: claim_granted [OF assms] List.map_filter_def)
  then show ?thesis using True by (auto simp: row_of_iff [OF assms] dest: oldest_sub)
qed (simp add: claim_refused)

lemma claim_leases:
  assumes ok: "spool_ok s" and c: "i \<in> spool_claimed (Claimed owner limit lease delay) now s"
  shows "spool_holder (spool_step (Claimed owner limit lease delay) now s) i t
    = (if t < now + int delay + lease then Some owner else None)"
proof -
  obtain r where "row_of s i = Some r" "r \<in> set (oldest limit now s)" "deliverable s r \<noteq> None" "guarded owner limit lease"
    using c by (auto simp: spool_claimed_iff [OF ok] simp del: spool_claimed.simps)
  then show ?thesis by (auto simp: spool_holder_def row_of_claim [OF ok] handed_def deliverable_def split: sum.splits)
qed

lemma spool_step_holds:
  assumes ok: "spool_ok s" and h: "spool_holder s i t = Some a" and t: "now \<le> t" and other: "spool_actor op \<noteq> Some a"
  shows "spool_holder (spool_step op now s) i t = Some a"
proof -
  obtain r where r: "row_of s i = Some r" "t < sp_expires r" "sp_owner r = a"
    using h by (auto simp: spool_holder_def split: option.splits if_splits)
  have "row_of (spool_step op now s) i = Some r"
  proof (cases op)
    case (Spooled q body)
    have "snd (enqueue q body now s) \<noteq> Inr i"
      using r(1) ok by (fastforce simp: enqueue_def Let_def row_of_iff spool_ok_def split: if_splits)
    then show ?thesis using Spooled r(1) by (auto simp: row_of_enqueue [OF ok] split: sum.splits)
  next
    case (Claimed owner limit lease delay)
    have "r \<notin> set (oldest limit now s)" using oldest_sub [of r limit now s] r(2) t by (auto simp: claimable_def)
    then show ?thesis using Claimed r(1) by (simp add: row_of_claim [OF ok])
  next
    case (Renewed owner ids lease)
    then show ?thesis using r(1,3) other by (simp add: row_of_renew)
  next
    case (Deleted owner i')
    then show ?thesis using r(1,3) other by (auto simp: row_of_delete [OF ok])
  qed
  then show ?thesis using r by (simp add: spool_holder_def)
qed

interpretation spool: lease_contract spool_ok spool_step spool_claimed spool_actor spool_holder
proof
  fix op now s k t a
  show "spool_ok s \<Longrightarrow> spool_ok (spool_step op now s)" by (rule spool_step_ok)
  show "spool_ok s \<Longrightarrow> k \<in> spool_claimed op now s \<Longrightarrow> spool_holder s k now = None"
    by (cases op) (auto simp: spool_claimed_iff spool_holder_def claimable_def simp del: spool_claimed.simps(1) dest!: oldest_sub)
  show "spool_holder (spool_step op now s) k now = spool_actor op \<and> spool_actor op \<noteq> None"
    if *: "spool_ok s" "k \<in> spool_claimed op now s"
  proof -
    obtain owner limit lease delay where op: "op = Claimed owner limit lease delay" using *(2) by (cases op) auto
    then have "lease > 0" using * by (auto simp: spool_claimed_iff guarded_def simp del: spool_claimed.simps)
    then show ?thesis using claim_leases [OF *(1) *(2) [unfolded op]] op by simp
  qed
  show "spool_ok s \<Longrightarrow> spool_holder s k t = Some a \<Longrightarrow> now \<le> t \<Longrightarrow> spool_actor op \<noteq> Some a \<Longrightarrow>
      spool_holder (spool_step op now s) k t = Some a" by (rule spool_step_holds)
  show "spool_holder s k t = Some a \<Longrightarrow> now \<le> t \<Longrightarrow> spool_holder s k now = Some a"
    by (auto simp: spool_holder_def split: option.splits if_splits)
qed


subsection \<open>First in, first out\<close>

lemma oldest_sorted: "spool_ok s \<Longrightarrow> sorted_wrt (<) (map sp_id (oldest limit now s))"
  by (auto simp: spool_ok_def oldest_def sorted_wrt_map intro: sorted_wrt_take sorted_wrt_filter)

lemma sorted_prefix_closed:
  fixes f :: "'a \<Rightarrow> nat"
  assumes "sorted_wrt (<) (map f xs)" "x \<in> set xs" "y \<in> set (take n xs)" "f x < f y"
  shows "x \<in> set (take n xs)"
proof (rule ccontr)
  assume "x \<notin> set (take n xs)"
  then have "x \<in> set (drop n xs)" using assms(2) by (metis Un_iff append_take_drop_id set_append)
  moreover have "sorted_wrt (<) (map f (take n xs) @ map f (drop n xs))"
    using assms(1) by (metis append_take_drop_id map_append)
  ultimately show False using assms(3,4) by (fastforce simp: sorted_wrt_append)
qed

lemma deliverable_id: "deliverable s r = Some q \<Longrightarrow> rq_id q = sp_id r"
  by (auto simp: deliverable_def split: sum.splits)

lemma handed_deliverable:
  "deliverable s r = Some q \<Longrightarrow> handed s owner token e r = r\<lparr>sp_owner := owner, sp_token := token, sp_expires := e\<rparr>"
  "deliverable s r = None \<Longrightarrow> sp_poison (handed s owner token e r) \<noteq> []"
  by (auto simp: deliverable_def handed_def decode_error_named split: sum.splits)

lemma claimed_ids_sorted: "spool_ok s \<Longrightarrow> sorted_wrt (<) (map rq_id (List.map_filter (deliverable s) (oldest limit now s)))"
proof -
  assume "spool_ok s"
  have "map rq_id (List.map_filter (deliverable s) C) = map sp_id (filter (\<lambda>r. deliverable s r \<noteq> None) C)" for C
    by (auto simp: List.map_filter_def deliverable_id)
  then show ?thesis using oldest_sorted [OF \<open>spool_ok s\<close>] by (simp add: sorted_wrt_map sorted_wrt_filter)
qed

text \<open>What a successful claim is, in terms of the oldest due rows.\<close>

lemma claim_success:
  assumes ok: "spool_ok s" and c: "claim owner limit lease now again s = (s', Inr result)"
  shows "result = List.map_filter (deliverable s) (oldest limit now s)"
    and "q \<in> set result \<longleftrightarrow> (\<exists>r \<in> set (oldest limit now s). deliverable s r = Some q)"
    and "row_of s' i = map_option (\<lambda>r. if r \<in> set (oldest limit now s)
           then handed s owner (sp_tokens s) (again + lease) r else r) (row_of s i)"
proof -
  have g: "guarded owner limit lease" using c claim_refused [of owner limit lease now again s] by auto
  show res: "result = List.map_filter (deliverable s) (oldest limit now s)" using c claim_granted [OF ok g] by simp
  show "q \<in> set result \<longleftrightarrow> (\<exists>r \<in> set (oldest limit now s). deliverable s r = Some q)"
    unfolding res by (force simp: List.map_filter_def)
  show "row_of s' i = map_option (\<lambda>r. if r \<in> set (oldest limit now s)
           then handed s owner (sp_tokens s) (again + lease) r else r) (row_of s i)"
    using row_of_claim [OF ok, of owner limit lease now again i] c g by simp
qed

lemma claim_settles:
  assumes ok: "spool_ok s" and c: "claim owner limit lease now again s = (s', Inr result)" and r: "r \<in> set (oldest limit now s)"
  shows "if deliverable s r = None then \<exists>r'. row_of s' (sp_id r) = Some r' \<and> sp_poison r' \<noteq> [] else sp_id r \<in> rq_id ` set result"
proof -
  have "row_of s (sp_id r) = Some r" using oldest_sub [OF r] by (simp add: row_of_iff [OF ok])
  moreover have "sp_id r \<in> rq_id ` set result" if d: "deliverable s r = Some q" for q
  proof -
    have "q \<in> set result" using claim_success(2) [OF ok c] r d by blast
    then show ?thesis using deliverable_id [OF d] by (metis imageI)
  qed
  ultimately show ?thesis using r handed_deliverable(2) by (auto simp: claim_success(3) [OF ok c])
qed

lemma claim_row:
  assumes ok: "spool_ok s" and c: "claim owner limit lease now again s = (s', Inr result)" and q: "q \<in> set result"
  shows "\<exists>r. row_of s (rq_id q) = Some r \<and> claimable now r \<and> deliverable s r = Some q
    \<and> row_of s' (rq_id q) = Some (r\<lparr>sp_owner := owner, sp_token := sp_tokens s, sp_expires := again + lease\<rparr>)"
proof -
  obtain r where r: "r \<in> set (oldest limit now s)" "deliverable s r = Some q" using claim_success(2) [OF ok c] q by blast
  then have "row_of s (rq_id q) = Some r" using oldest_sub by (simp add: row_of_iff [OF ok] deliverable_id)
  then show ?thesis using r oldest_sub handed_deliverable(1) [OF r(2)] by (simp add: claim_success(3) [OF ok c])
qed

lemma claim_older:
  assumes ok: "spool_ok s" and c: "claim owner limit lease now again s = (s', Inr result)"
    and "q \<in> set result" "r \<in> set (sp_rows s)" "claimable now r" "sp_id r < rq_id q"
  shows "r \<in> set (oldest limit now s)"
proof -
  have "sorted_wrt (<) (map sp_id (filter (claimable now) (sp_rows s)))"
    using ok by (simp add: spool_ok_def sorted_wrt_map sorted_wrt_filter)
  moreover obtain r0 where "r0 \<in> set (oldest limit now s)" "rq_id q = sp_id r0"
    using assms(3) claim_success(2) [OF ok c] deliverable_id by blast
  ultimately show ?thesis using assms(4-6) sorted_prefix_closed [of sp_id "filter (claimable now) (sp_rows s)" r r0 "nat limit"]
    by (simp add: oldest_def)
qed

lemma claim_untouched:
  assumes ok: "spool_ok s" and c: "claim owner limit lease now again s = (s', Inr result)"
    and r: "row_of s i = Some r" "\<not> claimable now r \<or> i \<notin> rq_id ` set result \<and> deliverable s r \<noteq> None"
  shows "row_of s' i = Some r"
proof -
  have "r \<notin> set (oldest limit now s)"
    using r(2) claim_settles [OF ok c, of r] oldest_sub [of r limit now s] r(1) [unfolded row_of_iff [OF ok]] by (auto split: if_splits)
  then show ?thesis using r(1) by (simp add: claim_success(3) [OF ok c])
qed

lemma oldest_all: "int (length (sp_rows s)) \<le> limit \<Longrightarrow> oldest limit now s = filter (claimable now) (sp_rows s)"
proof -
  assume "int (length (sp_rows s)) \<le> limit"
  then have "length (filter (claimable now) (sp_rows s)) \<le> nat limit"
    using length_filter_le [of "claimable now" "sp_rows s"] by linarith
  then show ?thesis by (simp add: oldest_def)
qed

text \<open>
  First in, first out, and no row blocks the queue. A claim hands out requests in the order they
  were accepted, each exactly as its row holds it and each leased to the caller from then on. No
  deliverable request overtakes an older one: an older row a claim could take is handed out by it or
  quarantined because it does not decode. When the limit leaves room, every row that is due and decodes
  is handed out, whatever undecodable rows stand before it; and a row the claim does not take is
  left as it was.
\<close>

theorem spool_claim_fifo:
  assumes ok: "spool_ok s" and c: "claim owner limit lease now again s = (s', Inr result)"
  shows "sorted_wrt (<) (map rq_id result)
    \<and> (\<forall>q \<in> set result. \<exists>r. row_of s (rq_id q) = Some r \<and> claimable now r \<and> deliverable s r = Some q
         \<and> row_of s' (rq_id q) = Some (r\<lparr>sp_owner := owner, sp_token := sp_tokens s, sp_expires := again + lease\<rparr>))
    \<and> (\<forall>q \<in> set result. \<forall>r \<in> set (sp_rows s). claimable now r \<and> sp_id r < rq_id q
         \<longrightarrow> sp_id r \<in> rq_id ` set result \<or> (\<exists>r'. row_of s' (sp_id r) = Some r' \<and> sp_poison r' \<noteq> []))
    \<and> (int (length (sp_rows s)) \<le> limit \<longrightarrow>
         (\<forall>r \<in> set (sp_rows s). claimable now r \<and> deliverable s r \<noteq> None \<longrightarrow> sp_id r \<in> rq_id ` set result))
    \<and> (\<forall>i r. row_of s i = Some r \<and> (\<not> claimable now r \<or> i \<notin> rq_id ` set result \<and> deliverable s r \<noteq> None)
         \<longrightarrow> row_of s' i = Some r)"
proof (intro conjI ballI allI impI)
  show "sorted_wrt (<) (map rq_id result)"
    unfolding claim_success(1) [OF assms] by (rule claimed_ids_sorted [OF ok])
next
  fix q assume "q \<in> set result"
  then show "\<exists>r. row_of s (rq_id q) = Some r \<and> claimable now r \<and> deliverable s r = Some q
      \<and> row_of s' (rq_id q) = Some (r\<lparr>sp_owner := owner, sp_token := sp_tokens s, sp_expires := again + lease\<rparr>)"
    by (rule claim_row [OF assms])
next
  fix q r assume "q \<in> set result" "r \<in> set (sp_rows s)" "claimable now r \<and> sp_id r < rq_id q"
  then have "r \<in> set (oldest limit now s)" using claim_older [OF assms] by blast
  from claim_settles [OF assms this]
  show "sp_id r \<in> rq_id ` set result \<or> (\<exists>r'. row_of s' (sp_id r) = Some r' \<and> sp_poison r' \<noteq> [])"
    by (auto split: if_splits)
next
  fix r assume "int (length (sp_rows s)) \<le> limit" "r \<in> set (sp_rows s)" "claimable now r \<and> deliverable s r \<noteq> None"
  then show "sp_id r \<in> rq_id ` set result" using claim_settles [OF assms, of r] by (auto simp: oldest_all)
next
  fix i r assume "row_of s i = Some r \<and> (\<not> claimable now r \<or> i \<notin> rq_id ` set result \<and> deliverable s r \<noteq> None)"
  then show "row_of s' i = Some r" using claim_untouched [OF assms] by blast
qed


subsection \<open>An accepted request is kept\<close>

definition same_spool :: "spool \<Rightarrow> spool \<Rightarrow> bool" where
  "same_spool s s' \<longleftrightarrow> sp_key s' = sp_key s \<and> sp_limits s' = sp_limits s"

lemma same_spool_step: "same_spool s (spool_step op now s)"
proof (cases op)
  case (Claimed owner limit lease delay)
  then show ?thesis by (simp add: same_spool_def claim_def Let_def case_prod_beta)
qed (simp_all add: same_spool_def enqueue_def renew_def delete_def Let_def)

lemma same_spool_decode: "same_spool s s' \<Longrightarrow> decode_payload s' p = decode_payload s p"
  by (simp add: same_spool_def decode_payload_def cong: sum.case_cong)

definition stored :: "spool \<Rightarrow> nat \<Rightarrow> sealed \<Rightarrow> bool" where
  "stored s i p \<longleftrightarrow> (\<exists>r. row_of s i = Some r \<and> sp_payload r = p \<and> sp_poison r = [])"

lemma stored_step:
  assumes ok: "spool_ok s" and st: "stored s i p" and d: "decode_payload s p = Inr q" and op: "\<forall>owner. op \<noteq> Deleted owner i"
  shows "stored (spool_step op now s) i p"
proof -
  obtain r where r: "row_of s i = Some r" "sp_payload r = p" "sp_poison r = []" using st by (auto simp: stored_def)
  then show ?thesis
  proof (cases op)
    case (Spooled q body)
    have "snd (enqueue q body now s) \<noteq> Inr i"
      using r(1) ok by (fastforce simp: enqueue_def Let_def row_of_iff spool_ok_def split: if_splits)
    then show ?thesis using Spooled r by (auto simp: stored_def row_of_enqueue [OF ok] split: sum.splits)
  next
    case (Claimed owner limit lease delay)
    then show ?thesis using r d by (auto simp: stored_def row_of_claim [OF ok] handed_def)
  next
    case (Renewed owner ids lease)
    then show ?thesis using r by (auto simp: stored_def row_of_renew)
  next
    case (Deleted owner i')
    then show ?thesis using r op by (auto simp: stored_def row_of_delete [OF ok])
  qed
qed

lemma stored_run:
  assumes "spool_ok s" "stored s i p" "decode_payload s p = Inr q" "\<forall>(op, now) \<in> set h. \<forall>owner. op \<noteq> Deleted owner i"
  shows "spool_ok (spool.run h s) \<and> stored (spool.run h s) i p \<and> decode_payload (spool.run h s) p = Inr q"
  using assms
proof (induction h arbitrary: s)
  case (Cons e h)
  obtain op now where e: "e = (op, now)" by (cases e)
  have "decode_payload (spool_step op now s) p = Inr q"
    using same_spool_decode [OF same_spool_step] Cons.prems(3) by simp
  moreover have "stored (spool_step op now s) i p"
    using stored_step [OF Cons.prems(1-3)] Cons.prems(4) e by simp
  ultimately show ?case using Cons.IH [OF spool_step_ok [OF Cons.prems(1)]] Cons.prems(4) e by simp
qed simp

lemma enqueue_accepts:
  assumes ok: "spool_ok s" and e: "enqueue q body now s = (s', Inr i)"
    and q: "rq_method q \<noteq> []" "rq_url q \<noteq> []" "rq_header q \<noteq> None"
  shows "spool_ok s' \<and> stored s' i (Sealed (sp_key s) (q\<lparr>rq_id := 0, rq_body := body, rq_created := now\<rparr>))
    \<and> decode_payload s' (Sealed (sp_key s) (q\<lparr>rq_id := 0, rq_body := body, rq_created := now\<rparr>))
        = Inr (q\<lparr>rq_id := 0, rq_body := body, rq_created := now\<rparr>)"
proof -
  have "spool_ok s'" using spool_step_ok [OF ok, of "Spooled q body" now] e by simp
  moreover have "int (length body) \<le> max_body_bytes (sp_limits s)"
    using e by (auto simp: enqueue_def split: if_splits)
  then have "decode_payload s (Sealed (sp_key s) (q\<lparr>rq_id := 0, rq_body := body, rq_created := now\<rparr>))
        = Inr (q\<lparr>rq_id := 0, rq_body := body, rq_created := now\<rparr>)"
    using q by (simp add: decode_payload_def open_sealed_def)
  moreover have "same_spool s s'" using same_spool_step [of s "Spooled q body" now] e by simp
  moreover have "row_of s' i = Some \<lparr>sp_id = i, sp_payload = Sealed (sp_key s) (q\<lparr>rq_id := 0, rq_body := body, rq_created := now\<rparr>),
         sp_bytes = int (length body), sp_owner = [], sp_token = 0, sp_expires = 0, sp_poison = []\<rparr>"
    using row_of_enqueue [OF ok, of q body now i] e by simp
  ultimately show ?thesis using same_spool_decode [of s s'] by (simp add: stored_def)
qed


text \<open>
  One owner at a time. A request a claim hands out was under nobody's lease, and until its
  lease ends, whatever other owners claim, renew or delete and whatever is enqueued meanwhile, it is
  handed to nobody else and stays under the lease; in particular nobody else's deletion removes it.
\<close>

theorem spool_exclusive:
  assumes "spool_ok s" "i \<in> spool_claimed (Claimed owner limit lease delay) now s"
    and "\<forall>(op, t) \<in> set h. t < now + int delay + lease \<and> spool_actor op \<noteq> Some owner"
  shows "spool_holder s i now = None
    \<and> spool.claims_of i h (spool_step (Claimed owner limit lease delay) now s) = []
    \<and> spool_holder (spool.run h (spool_step (Claimed owner limit lease delay) now s)) i (now + int delay + lease - 1) = Some owner"
proof -
  let ?op = "Claimed owner limit lease delay"
  have "spool_holder (spool_step ?op now s) i (now + int delay + lease - 1) = Some owner"
    by (simp add: claim_leases [OF assms(1,2)] del: spool_step.simps)
  from spool.held_throughout [OF spool_step_ok [OF assms(1)] this, of h] assms(3)
  show ?thesis using spool.claims_free [OF assms(1,2)] by auto
qed

subsection \<open>The queue stays within its limits\<close>

definition bounded :: "spool \<Rightarrow> bool" where
  "bounded s \<longleftrightarrow> int (length (sp_rows s)) \<le> max_queued_requests (sp_limits s)
     \<and> sum_list (map sp_bytes (sp_rows s)) \<le> max_queued_bytes (sp_limits s)
     \<and> (\<forall>r \<in> set (sp_rows s). 0 \<le> sp_bytes r \<and> sp_bytes r \<le> max_body_bytes (sp_limits s))"

lemma sum_list_filter_le:
  fixes f :: "'a \<Rightarrow> int"
  shows "\<forall>x \<in> set xs. 0 \<le> f x \<Longrightarrow> sum_list (map f (filter P xs)) \<le> sum_list (map f xs)"
  by (induction xs) auto

lemma bounded_map: "bounded s \<Longrightarrow> (\<And>r. sp_bytes (g r) = sp_bytes r) \<Longrightarrow> bounded (s\<lparr>sp_rows := map g (sp_rows s)\<rparr>)"
  by (auto simp: bounded_def o_def)

lemma bounded_filter: "bounded s \<Longrightarrow> bounded (s\<lparr>sp_rows := filter P (sp_rows s)\<rparr>)"
proof -
  assume b: "bounded s"
  then have "sum_list (map sp_bytes (filter P (sp_rows s))) \<le> sum_list (map sp_bytes (sp_rows s))"
    by (intro sum_list_filter_le) (simp add: bounded_def)
  moreover have "int (length (filter P (sp_rows s))) \<le> int (length (sp_rows s))" by simp
  ultimately show ?thesis using b unfolding bounded_def by (simp, linarith)
qed

lemma bounded_step: "spool_ok s \<Longrightarrow> bounded s \<Longrightarrow> bounded (spool_step op now s)"
proof (cases op)
  case (Spooled q body)
  assume "bounded s"
  then show ?thesis using Spooled by (auto simp: bounded_def enqueue_def Let_def)
next
  case (Claimed owner limit lease delay)
  assume ok: "spool_ok s" and b: "bounded s"
  show ?thesis
  proof (cases "guarded owner limit lease")
    case True
    have "bounded (s\<lparr>sp_tokens := n\<rparr>)" for n using b by (simp add: bounded_def)
    from bounded_map [OF this]
    show ?thesis using Claimed by (simp add: claim_granted [OF ok True])
  qed (use b Claimed in \<open>simp add: claim_refused\<close>)
next
  case (Renewed owner ids lease)
  assume "bounded s"
  then show ?thesis using Renewed by (auto simp: renew_def Let_def intro: bounded_map)
next
  case (Deleted owner i)
  assume "bounded s"
  then show ?thesis using Deleted by (auto simp: delete_def Let_def intro: bounded_filter)
qed

lemma bounded_run: "spool_ok s \<Longrightarrow> bounded s \<Longrightarrow> bounded (spool.run h s) \<and> same_spool s (spool.run h s)"
proof (induction h arbitrary: s)
  case (Cons e h)
  obtain op now where e: "e = (op, now)" by (cases e)
  then show ?case using Cons.IH [OF spool_step_ok [OF Cons.prems(1)] bounded_step [OF Cons.prems]] same_spool_step [of s op now]
    by (auto simp: same_spool_def)
qed (simp add: same_spool_def)

text \<open>
  The queue is bounded. However many requests arrive and whatever is done to them, a spool opened
  with its limits never holds more requests than its limit, never more bytes of bodies in all, and
  no body longer than its limit; quarantined rows count until they are removed.
\<close>

theorem spool_bounded:
  assumes "open_spool dsn key limits = Some s"
  shows "int (length (sp_rows (spool.run h s))) \<le> max_queued_requests limits
    \<and> sum_list (map sp_bytes (sp_rows (spool.run h s))) \<le> max_queued_bytes limits
    \<and> (\<forall>r \<in> set (sp_rows (spool.run h s)). sp_bytes r \<le> max_body_bytes limits)
    \<and> pending (spool.run h s) + quarantined (spool.run h s) \<le> max_queued_requests limits"
proof -
  have s: "sp_limits s = limits" "spool_ok s" "bounded s"
    using assms by (auto simp: open_spool_def spool_ok_def bounded_def split: if_splits)
  have "length (filter P xs) + length (filter (\<lambda>x. \<not> P x) xs) = length xs" for P and xs :: "spool_row list"
    by (rule sum_length_filter_compl)
  then have "pending t + quarantined t = int (length (sp_rows t))" for t
    by (simp add: pending_def quarantined_def flip: of_nat_add)
  then show ?thesis using bounded_run [OF s(2,3), of h] s(1) by (auto simp: bounded_def same_spool_def)
qed


subsection \<open>The properties at work\<close>

definition wit_key :: string where
  "wit_key = replicate 32 CHR ''k''"

lemma wit_key_rotated: "''old'' \<noteq> wit_key"
  by (auto simp: wit_key_def dest: arg_cong [of _ _ length])

definition wit_request :: request where
  "wit_request = \<lparr>rq_id = 0, rq_method = ''POST'', rq_url = ''/api/chat.postMessage'', rq_host = ''h'',
     rq_header = Some [], rq_body = [], rq_created = 0\<rparr>"

definition wit_limits :: spool_limits where
  "wit_limits = \<lparr>max_body_bytes = 8, max_queued_bytes = 16, max_queued_requests = 4\<rparr>"

text \<open>A spool whose first row was sealed under a key rotated away.\<close>

definition wit_spool :: spool where
  "wit_spool = \<lparr>sp_key = wit_key, sp_limits = wit_limits,
     sp_rows = [\<lparr>sp_id = 1, sp_payload = Sealed ''old'' wit_request, sp_bytes = 2, sp_owner = [], sp_token = 0,
       sp_expires = 0, sp_poison = []\<rparr>], sp_last = 1, sp_tokens = 1\<rparr>"

definition wit_filled :: spool where
  "wit_filled = fst (enqueue wit_request ''hi'' 100 wit_spool)"

lemmas wit_spool_simps = wit_spool_def wit_filled_def wit_request_def wit_limits_def enqueue_def Let_def

lemma wit_spool_ok: "spool_ok wit_spool" "spool_ok wit_filled"
  by (simp_all add: wit_spool_simps spool_ok_def)

lemma wit_enqueue: "enqueue wit_request ''hi'' 100 wit_spool = (wit_filled, Inr 2)"
  by (simp add: wit_spool_simps)

lemma wit_claim_result:
  "\<exists>s'. claim ''w1'' 5 30 110 110 wit_filled = (s', Inr [wit_request\<lparr>rq_id := 2, rq_body := ''hi'', rq_created := 100\<rparr>])
     \<and> row_of s' 1 \<noteq> None \<and> pending s' = 1 \<and> quarantined s' = 1"
  by (simp add: wit_spool_simps claim_def trim_space_def go_space_def claimable_def decode_payload_def open_sealed_def
      wit_key_rotated row_of_def pending_def quarantined_def)

theorem spool_claim_fifo_witness:
  "\<exists>s' result. claim ''w1'' 5 30 110 110 wit_filled = (s', Inr result) \<and> sorted_wrt (<) (map rq_id result) \<and> map rq_id result = [2]"
proof -
  obtain s' where "claim ''w1'' 5 30 110 110 wit_filled = (s', Inr [wit_request\<lparr>rq_id := 2, rq_body := ''hi'', rq_created := 100\<rparr>])"
    using wit_claim_result by blast
  from spool_claim_fifo [OF wit_spool_ok(2) this] this show ?thesis by auto
qed


lemma wit_claimed: "2 \<in> spool_claimed (Claimed ''w1'' 5 30 0) 110 wit_filled"
proof -
  obtain s'' where "claim ''w1'' 5 30 110 110 wit_filled = (s'', Inr [wit_request\<lparr>rq_id := 2, rq_body := ''hi'', rq_created := 100\<rparr>])"
    using wit_claim_result by blast
  then show ?thesis by simp
qed

theorem spool_exclusive_witness:
  "spool.claims_of 2 [(Claimed ''w2'' 5 30 0, 120), (Deleted ''w2'' 2, 125)] (spool_step (Claimed ''w1'' 5 30 0) 110 wit_filled) = []"
  using spool_exclusive [OF wit_spool_ok(2) wit_claimed, of "[(Claimed ''w2'' 5 30 0, 120), (Deleted ''w2'' 2, 125)]"] by simp

theorem spool_bounded_witness:
  "\<exists>s. open_spool ''spool.db'' wit_key wit_limits = Some s
     \<and> int (length (sp_rows (spool.run [(Spooled wit_request ''hi'', 100), (Spooled wit_request ''toolongbody'', 101)] s))) \<le> 4"
proof -
  obtain s where o: "open_spool ''spool.db'' wit_key wit_limits = Some s"
    by (simp add: open_spool_def wit_key_def wit_limits_def trim_space_def go_space_def)
  then show ?thesis using spool_bounded [OF o, of "[(Spooled wit_request ''hi'', 100), (Spooled wit_request ''toolongbody'', 101)]"]
    by (auto simp: wit_limits_def)
qed

end
