(* ===== verification/Waking.thy ===== *)
theory Waking
  imports Lifecycle Spool
begin

section \<open>Waking the stack on demand\<close>

text \<open>
  \<^verbatim>\<open>ensureActive\<close>, \<^verbatim>\<open>startWake\<close>, \<^verbatim>\<open>driveWake\<close>, \<^verbatim>\<open>backoff\<close>, \<^verbatim>\<open>Wake\<close> and the \<^verbatim>\<open>POST /activate\<close> handler of
  \<^verbatim>\<open>internal/activator/handler.go\<close>. An error is the list of what \<^verbatim>\<open>errors.Join\<close> joined, the empty list being
  nil. The wake driver is a function the activator is given: a script holds what each of its attempts
  does to the controller it shares (a list of controller calls), how long it takes, whether the
  activator is closed under it, and its error. The goroutine of \<^verbatim>\<open>startWake\<close> runs to its end whether or
  not its caller still waits, so it is run to its end here and the caller's patience is an input. A wait
  between two polls of \<^verbatim>\<open>ensureActive\<close> lets other replicas move the durable record; a list of waits
  that runs out is the wait context's deadline. Metrics are write-only and left out.
\<close>

datatype act_error =
  LC lc_error | DriverFault | Canceled | DeadlineExceeded | SpoolFault spool_error | CaptureOverflow | BadReplay

record wake_answer =
  wa_calls :: "lc_call list"
  wa_took :: nat
  wa_closes :: bool
  wa_error :: "act_error list"

record waker =
  wk_ctl :: ctl
  wk_now :: time
  wk_closed :: bool
  wk_wait :: duration
  wk_attempts :: nat
  wk_answers :: "wake_answer list"
  wk_log :: "(u64 \<times> act_error list) list"
  wk_pauses :: "duration list"

datatype poll = Tick nat "state_record option" | TimedOut

definition default_wake_attempts :: nat where
  "default_wake_attempts = 3"

text \<open>\<^verbatim>\<open>errors.Is\<close>\<close>

fun is_lc :: "lc_error \<Rightarrow> lc_error \<Rightarrow> bool" where
  "is_lc t (JoinErr a b) \<longleftrightarrow> is_lc t a \<or> is_lc t b"
| "is_lc t e \<longleftrightarrow> e = t"

fun is_act :: "lc_error \<Rightarrow> act_error \<Rightarrow> bool" where
  "is_act t (LC e) = is_lc t e"
| "is_act t _ = False"

definition not_owner :: "act_error list \<Rightarrow> bool" where
  "not_owner e \<longleftrightarrow> (\<exists>x \<in> set e. is_act InvalidTransition x \<or> is_act StaleFence x)"

definition wake_call :: "u64 \<Rightarrow> 'a waker_scheme \<Rightarrow> 'a waker_scheme \<times> act_error list" where
  "wake_call fence w =
     (let a = (case wk_answers w of [] \<Rightarrow> \<lparr>wa_calls = [], wa_took = 0, wa_closes = False, wa_error = [DeadlineExceeded]\<rparr> | a # _ \<Rightarrow> a)
      in (w\<lparr>wk_ctl := fold (\<lambda>call c. fst (perform call c)) (wa_calls a) (wk_ctl w), wk_now := wk_now w + int (wa_took a),
            wk_closed := wk_closed w \<or> wa_closes a, wk_answers := tl (wk_answers w),
            wk_log := wk_log w @ [(fence, wa_error a)]\<rparr>, wa_error a))"

definition backoff :: "nat \<Rightarrow> 'a waker_scheme \<Rightarrow> 'a waker_scheme \<times> act_error list" where
  "backoff attempt w =
     (let delay = wk_wait w div 20; delay = (if delay \<le> 0 then 1000000 else delay); delay = delay * 2 ^ (attempt - 1)
      in if wk_closed w then (w, [Canceled])
         else (w\<lparr>wk_now := wk_now w + delay, wk_pauses := wk_pauses w @ [delay]\<rparr>, []))"

text \<open>The loop of \<^verbatim>\<open>driveWake\<close> from the attempt \<open>attempt\<close> on, \<open>n\<close> of them left.\<close>

fun drive_wake :: "nat \<Rightarrow> nat \<Rightarrow> act_error list \<Rightarrow> u64 \<Rightarrow> 'a waker_scheme \<Rightarrow> 'a waker_scheme \<times> act_error list" where
  "drive_wake 0 attempt last_err fence w = (w, last_err)"
| "drive_wake (Suc n) attempt last_err fence w =
     (case (if attempt > 0 then backoff attempt w else (w, [])) of
        (w, e # es) \<Rightarrow> (w, last_err @ e # es)
      | (w, []) \<Rightarrow>
          (case wake_call fence w of
             (w, []) \<Rightarrow> (w, [])
           | (w, e # es) \<Rightarrow>
               if wk_closed w then (w, e # es)
               else if not_owner (e # es) then (w, e # es)
               else drive_wake n (Suc attempt) (e # es) fence w))"

definition start_wake :: "u64 \<Rightarrow> 'a waker_scheme \<Rightarrow> 'a waker_scheme \<times> act_error list" where
  "start_wake fence w =
     (let (w, err) = drive_wake (wk_attempts w) 0 [] fence w
      in if err = [] then
           (case activate (wk_now w) fence (wk_ctl w) of
              (c, Some e) \<Rightarrow> (w\<lparr>wk_ctl := c\<rparr>, [LC e])
            | (c, None) \<Rightarrow> (w\<lparr>wk_ctl := c\<rparr>, []))
         else if wk_closed w then (w, err)
         else
           (case fail_attempt fence (wk_ctl w) of
              (c, Some e) \<Rightarrow> (w\<lparr>wk_ctl := c\<rparr>, err @ [LC e])
            | (c, None) \<Rightarrow> (w\<lparr>wk_ctl := c\<rparr>, err)))"

definition await :: "bool \<Rightarrow> act_error list \<Rightarrow> act_error list" where
  "await patient err = (if patient then err else [DeadlineExceeded])"

fun ensure_active :: "bool \<Rightarrow> poll list \<Rightarrow> 'a waker_scheme \<Rightarrow> 'a waker_scheme \<times> act_error list" where
  "ensure_active patient ps w =
     (if st (view (wk_ctl w)) = Active then (w, [])
      else
        let (c, fence, res) = begin_wake (wk_ctl w); w = w\<lparr>wk_ctl := c\<rparr>
        in case res of
             None \<Rightarrow> (let (w, err) = start_wake fence w in (w, await patient err))
           | Some e \<Rightarrow>
               if is_lc AlreadyActive e then (w, [])
               else if \<not> is_lc WakeInProgress e \<and> \<not> is_lc StateConflict e then (w, [LC e])
               else (case ps of
                       Tick took change # ps' \<Rightarrow>
                         ensure_active patient ps' (w\<lparr>wk_now := wk_now w + int took,
                           wk_ctl := (case change of None \<Rightarrow> c | Some r \<Rightarrow> c\<lparr>row := r\<rparr>)\<rparr>)
                     | _ \<Rightarrow> (w, [DeadlineExceeded])))"

declare ensure_active.simps [simp del]

definition scheduled_wake :: "bool \<Rightarrow> 'a waker_scheme \<Rightarrow> 'a waker_scheme \<times> act_error list" where
  "scheduled_wake patient w =
     (case begin_wake (wk_ctl w) of
        (c, fence, None) \<Rightarrow> (let (w, err) = start_wake fence (w\<lparr>wk_ctl := c\<rparr>) in (w, await patient err))
      | (c, _, Some e) \<Rightarrow> (w\<lparr>wk_ctl := c\<rparr>, if is_lc AlreadyActive e then [] else [LC e]))"

text \<open>The status the activation handler answers, and the generation it names; none when the client left.\<close>

definition activate_handler :: "bool \<Rightarrow> 'a waker_scheme \<Rightarrow> 'a waker_scheme \<times> (int \<times> u64 option) option" where
  "activate_handler patient w =
     (case begin_wake (wk_ctl w) of
        (c, fence, Some e) \<Rightarrow>
          (w\<lparr>wk_ctl := c\<rparr>,
           if is_lc AlreadyActive e then Some (204, None)
           else if is_lc WakeInProgress e \<or> is_lc StateConflict e then Some (202, None)
           else Some (503, None))
      | (c, fence, None) \<Rightarrow>
          (let (w, err) = start_wake fence (w\<lparr>wk_ctl := c\<rparr>)
           in (w, if \<not> patient then None
                  else if err \<noteq> [] then Some (502, None)
                  else Some (204, Some fence))))"


subsection \<open>The attempts of a generation\<close>

text \<open>
  What a run of the driver adds to the log: attempts under one fence, each but the last a transient
  failure, the last deciding.
\<close>

definition attempts :: "u64 \<Rightarrow> nat \<Rightarrow> (u64 \<times> act_error list) list \<Rightarrow> bool" where
  "attempts fence n l \<longleftrightarrow> l \<noteq> [] \<and> length l \<le> n \<and> (\<forall>a \<in> set l. fst a = fence)
     \<and> (\<forall>a \<in> set (butlast l). snd a \<noteq> [] \<and> \<not> not_owner (snd a))"

lemma wake_call_frame:
  "wake_call fence w = (w', e) \<Longrightarrow> wk_log w' = wk_log w @ [(fence, e)] \<and> wk_attempts w' = wk_attempts w \<and> wk_wait w' = wk_wait w"
  by (auto simp: wake_call_def Let_def)

lemma backoff_frame:
  "backoff attempt w = (w', e) \<Longrightarrow> wk_log w' = wk_log w \<and> wk_ctl w' = wk_ctl w \<and> wk_closed w' = wk_closed w
     \<and> (e = [] \<longleftrightarrow> \<not> wk_closed w)"
  by (auto simp: backoff_def Let_def split: if_splits)

lemma drive_wake_log:
  assumes "drive_wake n attempt last_err fence w = (w', err)" "n > 0" "attempt = 0 \<or> \<not> wk_closed w"
  shows "\<exists>l. wk_log w' = wk_log w @ l \<and> attempts fence n l \<and> (err = [] \<longleftrightarrow> snd (last l) = [])
    \<and> (err \<noteq> [] \<longrightarrow> length l = n \<or> wk_closed w' \<or> not_owner err) \<and> err = snd (last l)"
  using assms
proof (induction n arbitrary: attempt last_err w)
  case (Suc n)
  obtain w1 where b: "(if attempt > 0 then backoff attempt w else (w, [])) = (w1, [])" "wk_log w1 = wk_log w"
    using Suc.prems(3) by (cases "attempt > 0") (auto simp: backoff_def Let_def)
  obtain w2 e where c: "wake_call fence w1 = (w2, e)" by force
  have log: "wk_log w2 = wk_log w @ [(fence, e)]" using wake_call_frame [OF c] b(2) by simp
  have stop: "w' = w2 \<and> err = e" if "e = [] \<or> wk_closed w2 \<or> not_owner e \<or> n = 0"
    using that Suc.prems(1) b(1) c by (cases e) (auto split: if_splits)
  show ?case
  proof (cases "e = [] \<or> wk_closed w2 \<or> not_owner e \<or> n = 0")
    case True
    then show ?thesis using stop log
      by (intro exI [of _ "[(fence, e)]"]) (auto simp: attempts_def)
  next
    case False
    then have "drive_wake n (Suc attempt) e fence w2 = (w', err)" using Suc.prems(1) b(1) c by (cases e) auto
    from Suc.IH [OF this] False obtain l where l: "wk_log w' = wk_log w2 @ l" "attempts fence n l"
      "err = [] \<longleftrightarrow> snd (last l) = []" "err \<noteq> [] \<longrightarrow> length l = n \<or> wk_closed w' \<or> not_owner err" "err = snd (last l)"
      by auto
    moreover have "l \<noteq> []" using l(2) by (simp add: attempts_def)
    ultimately show ?thesis using log False
      by (intro exI [of _ "(fence, e) # l"]) (auto simp: attempts_def)
  qed
qed simp


definition driven :: "lc_call list \<Rightarrow> ctl \<Rightarrow> ctl" where
  "driven calls c = fold (\<lambda>call c. fst (perform call c)) calls c"

lemma driven_append [simp]: "driven (xs @ ys) c = driven ys (driven xs c)" "driven [] c = c"
  by (simp_all add: driven_def)

lemma wake_call_ctl:
  "wake_call fence w = (w', e) \<Longrightarrow> wk_ctl w' = driven (concat (map wa_calls (take 1 (wk_answers w)))) (wk_ctl w)
     \<and> wk_answers w' = tl (wk_answers w)"
  by (cases "wk_answers w") (auto simp: wake_call_def driven_def Let_def)

lemma backoff_answers: "backoff attempt w = (w', e) \<Longrightarrow> wk_answers w' = wk_answers w"
  by (auto simp: backoff_def Let_def split: if_splits)

lemma take_Suc_tl: "take (Suc n) xs = take 1 xs @ take n (tl xs)"
  by (cases xs) auto

lemma drive_wake_ctl:
  assumes "drive_wake n attempt last_err fence w = (w', err)"
  shows "wk_ctl w' = driven (concat (map wa_calls (take (length (wk_log w') - length (wk_log w)) (wk_answers w)))) (wk_ctl w)
    \<and> length (wk_log w) \<le> length (wk_log w')"
  using assms
proof (induction n arbitrary: attempt last_err w)
  case (Suc n)
  obtain w1 b where b: "(if attempt > 0 then backoff attempt w else (w, [])) = (w1, b)" by force
  have w1: "wk_ctl w1 = wk_ctl w" "wk_answers w1 = wk_answers w" "wk_log w1 = wk_log w"
    using b backoff_frame [of attempt w w1 b] backoff_answers [of attempt w w1 b] by (auto split: if_splits)
  show ?case
  proof (cases "b = []")
    case True
    obtain w2 e where c: "wake_call fence w1 = (w2, e)" by force
    note wc = wake_call_ctl [OF c] wake_call_frame [OF c]
    show ?thesis
    proof (cases "e = [] \<or> wk_closed w2 \<or> not_owner e")
      case True
      then have "w' = w2" using Suc.prems b \<open>b = []\<close> c by (cases e) (auto split: if_splits)
      then show ?thesis using wc w1 by simp
    next
      case False
      then have "drive_wake n (Suc attempt) e fence w2 = (w', err)" using Suc.prems b \<open>b = []\<close> c by (cases e) auto
      note IH = Suc.IH [OF this]
      have "length (wk_log w2) = Suc (length (wk_log w))" using wc w1 by simp
      then have "length (wk_log w') - length (wk_log w) = Suc (length (wk_log w') - length (wk_log w2))"
        using IH [THEN conjunct2] by arith
      moreover have "driven (concat (map wa_calls (take (Suc k) (wk_answers w)))) (wk_ctl w)
          = driven (concat (map wa_calls (take k (wk_answers w2)))) (wk_ctl w2)" for k
        using wc w1 by (subst take_Suc_tl) (simp del: take_Suc)
      ultimately show ?thesis using IH \<open>length (wk_log w2) = _\<close> by simp
    qed
  qed (use Suc.prems b w1 in \<open>cases b; simp\<close>)
qed simp

lemma driven_lawful: "persistent c \<Longrightarrow> persistent (driven calls c) \<and> lc_step\<^sup>*\<^sup>* (row c) (row (driven calls c))"
proof (induction calls arbitrary: c)
  case (Cons call calls)
  obtain c' g e where p: "perform call c = (c', g, e)" by (metis prod_cases3)
  have l: "persistent c' \<and> lc_step\<^sup>*\<^sup>* (row c) (row c')"
    using perform_lawful [OF Cons.prems, of call] p by (auto simp: lawful_def)
  have d: "driven (call # calls) c = driven calls c'" using p by (simp add: driven_def)
  show ?case unfolding d using Cons.IH [of c'] l by (meson rtranclp_trans)
qed simp

lemma activate_view: "activate now fence c = (c', None) \<Longrightarrow> st (view c') = Active"
  by (auto simp: activate_def transition_def carry_def Let_def split: if_splits prod.splits option.splits)

lemma wake_attempt_budget_aux:
  assumes "start_wake fence w = (w', err)" "wk_attempts w > 0" "\<not> wk_closed w"
  shows "\<exists>l c. wk_log w' = wk_log w @ l \<and> attempts fence (wk_attempts w) l
    \<and> c = driven (concat (map wa_calls (take (length l) (wk_answers w)))) (wk_ctl w)
    \<and> (if snd (last l) = [] then wk_ctl w' = fst (activate (wk_now w') fence c)
           \<and> (err = [] \<longleftrightarrow> snd (activate (wk_now w') fence c) = None) \<and> (err = [] \<longrightarrow> st (view (wk_ctl w')) = Active)
       else if wk_closed w' then wk_ctl w' = c \<and> err = snd (last l)
       else (length l = wk_attempts w \<or> not_owner (snd (last l))) \<and> wk_ctl w' = fst (fail_attempt fence c) \<and> err \<noteq> [])
    \<and> (persistent (wk_ctl w) \<longrightarrow> lc_step\<^sup>*\<^sup>* (row (wk_ctl w)) (row (wk_ctl w')))"
proof -
  obtain w1 e where d: "drive_wake (wk_attempts w) 0 [] fence w = (w1, e)" by force
  obtain l where l: "wk_log w1 = wk_log w @ l" "attempts fence (wk_attempts w) l" "e = snd (last l)"
    "e \<noteq> [] \<longrightarrow> length l = wk_attempts w \<or> wk_closed w1 \<or> not_owner e"
    using drive_wake_log [OF d assms(2)] by auto
  let ?c = "driven (concat (map wa_calls (take (length l) (wk_answers w)))) (wk_ctl w)"
  have c: "wk_ctl w1 = ?c" using drive_wake_ctl [OF d] l(1) by simp
  have rest: "wk_log w' = wk_log w1 \<and> (if e = [] then wk_ctl w' = fst (activate (wk_now w') fence ?c)
           \<and> (err = [] \<longleftrightarrow> snd (activate (wk_now w') fence ?c) = None) \<and> (err = [] \<longrightarrow> st (view (wk_ctl w')) = Active)
       else if wk_closed w' then wk_ctl w' = ?c \<and> err = e
       else wk_ctl w' = fst (fail_attempt fence ?c) \<and> err \<noteq> []) \<and> wk_closed w' = wk_closed w1"
    using assms(1) d c by (auto simp: start_wake_def split: prod.splits option.splits if_splits dest: activate_view)
  moreover have "lc_step\<^sup>*\<^sup>* (row (wk_ctl w)) (row (wk_ctl w'))" if p: "persistent (wk_ctl w)"
  proof -
    have "wk_ctl w' \<in> {driven [Activate (wk_now w') fence] ?c, ?c, driven [FailAttempt fence] ?c}"
      using rest by (auto simp: driven_def plain_def split: if_splits)
    then have "\<exists>calls. wk_ctl w' = driven calls (wk_ctl w)" by (metis driven_append(1) insertE singletonD)
    then show ?thesis using driven_lawful [OF p] by auto
  qed
  ultimately show ?thesis using l by (intro exI [of _ l] exI [of _ ?c]) (auto split: if_splits)
qed


text \<open>
  A wake generation gets its bounded budget of attempts, and its end is one of three. The driver is
  tried at least once and at most the budget's times, always under the generation's fence, again only
  after a failure that may pass; when it succeeds the stack is activated under the fence, and the wake
  reports success only if the record says so; when the activator is closing, the activator itself
  writes nothing, so its successor finds the generation waking; and otherwise, with the budget spent or
  the fence lost, the generation is recorded failed. Whatever happens, the durable record has moved
  only along the lifecycle's transitions.
\<close>

theorem wake_attempt_budget:
  assumes "start_wake fence w = (w', err)" "wk_attempts w > 0" "\<not> wk_closed w"
  shows "\<exists>l c. wk_log w' = wk_log w @ l \<and> attempts fence (wk_attempts w) l
    \<and> c = driven (concat (map wa_calls (take (length l) (wk_answers w)))) (wk_ctl w)
    \<and> (if snd (last l) = [] then wk_ctl w' = fst (activate (wk_now w') fence c)
           \<and> (err = [] \<longleftrightarrow> snd (activate (wk_now w') fence c) = None) \<and> (err = [] \<longrightarrow> st (view (wk_ctl w')) = Active)
       else if wk_closed w' then wk_ctl w' = c \<and> err = snd (last l)
       else (length l = wk_attempts w \<or> not_owner (snd (last l))) \<and> wk_ctl w' = fst (fail_attempt fence c) \<and> err \<noteq> [])
    \<and> (persistent (wk_ctl w) \<longrightarrow> lc_step\<^sup>*\<^sup>* (row (wk_ctl w)) (row (wk_ctl w')))"
  using wake_attempt_budget_aux [OF assms] .

subsection \<open>Ready to serve\<close>

lemma persist_errors:
  "snd (persist n c) \<in> {None, Some StoreDown, Some InvalidDurable, Some StateConflict,
     Some (JoinErr StateConflict StoreDown), Some (JoinErr StateConflict InvalidDurable)}"
proof -
  obtain c' r where cas: "store_cas (view c) n c = (c', r)" by force
  then have r: "r \<in> {None, Some StoreDown, Some InvalidDurable, Some StateConflict}"
    by (auto simp: store_cas_def Let_def split: store_fault.splits if_splits)
  obtain c'' r' where re: "reload c' = (c'', r')" by force
  then have "r' \<in> {None, Some StoreDown, Some InvalidDurable}"
    by (auto simp: reload_def store_load_def Let_def split: sum.splits if_splits)
  then show ?thesis using r by (auto simp: persist_def cas re)
qed

lemma reload_errors: "snd (reload c) \<in> {None, Some StoreDown, Some InvalidDurable}"
  by (auto simp: reload_def store_load_def Let_def split: sum.splits if_splits)

lemma already_active: "begin_wake c = (c', g, Some e) \<Longrightarrow> is_lc AlreadyActive e \<Longrightarrow> st (view c') = Active"
proof -
  assume b: "begin_wake c = (c', g, Some e)" and a: "is_lc AlreadyActive e"
  obtain c1 r where re: "reload c = (c1, r)" by force
  then have r: "r \<in> {None, Some StoreDown, Some InvalidDurable}" using reload_errors [of c] by simp
  have p: "persist n c1 \<noteq> (c', Some e)" for n using persist_errors [of n c1] a by auto
  have "r = None" using b a re r by (auto simp: begin_wake_def)
  then have "begin_wake c = elect c1" by (simp add: begin_wake_elect re)
  then show ?thesis using b a p
    by (auto simp: elect_def Let_def split: if_splits prod.splits option.splits)
qed

lemma ensure_active_step:
  assumes run: "ensure_active patient ps w = (w', err)" and n: "wk_attempts w > 0" "\<not> wk_closed w"
    and again: "\<And>took change ps' c. ps = Tick took change # ps' \<Longrightarrow>
      ensure_active patient ps' (w\<lparr>wk_now := wk_now w + int took, wk_ctl := c\<rparr>) = (w', err) \<Longrightarrow> P"
    and other: "(err = [] \<longrightarrow> st (view (wk_ctl w')) = Active)
      \<and> (\<exists>l. wk_log w' = wk_log w @ l \<and> (l = [] \<or> (\<exists>fence. attempts fence (wk_attempts w) l))) \<Longrightarrow> P"
  shows P
proof -
  obtain c fence res where b: "begin_wake (wk_ctl w) = (c, fence, res)" by (metis prod_cases3)
  note run = run [unfolded ensure_active.simps [of patient ps w] b]
  consider (up) "st (view (wk_ctl w)) = Active"
    | (won) "st (view (wk_ctl w)) \<noteq> Active" "res = None"
    | (lost) e where "st (view (wk_ctl w)) \<noteq> Active" "res = Some e" by (cases res) auto
  then show P
  proof cases
    case up
    then show P using run by (intro other) auto
  next
    case won
    obtain w1 e where s: "start_wake fence (w\<lparr>wk_ctl := c\<rparr>) = (w1, e)" by force
    have w': "w' = w1" "err = await patient e" using run won s by auto
    obtain l where "wk_log w1 = wk_log w @ l" "attempts fence (wk_attempts w) l" "e = [] \<Longrightarrow> st (view (wk_ctl w1)) = Active"
      using wake_attempt_budget_aux [OF s] n by (auto split: if_splits)
    then show P using w' by (intro other) (auto simp: await_def split: if_splits)
  next
    case lost
    show P
    proof (cases "\<not> is_lc AlreadyActive e \<and> (is_lc WakeInProgress e \<or> is_lc StateConflict e) \<and> (\<exists>took change ps'. ps = Tick took change # ps')")
      case True
      then obtain took change ps' where ps: "ps = Tick took change # ps'" by blast
      have "ensure_active patient ps' (w\<lparr>wk_now := wk_now w + int took,
          wk_ctl := (case change of None \<Rightarrow> c | Some r \<Rightarrow> c\<lparr>row := r\<rparr>)\<rparr>) = (w', err)"
        using run lost True ps by auto
      then show P by (rule again [OF ps])
    next
      case False
      then have "w' = w\<lparr>wk_ctl := c\<rparr> \<and> (err = [] \<longrightarrow> is_lc AlreadyActive e)"
        using run lost by (auto simp: Let_def split: if_splits list.splits poll.splits)
      then show P using already_active [OF b [unfolded lost(2)]] by (intro other) auto
    qed
  qed
qed

text \<open>
  Nothing is forwarded to a stack that is not up. \<^verbatim>\<open>ensureActive\<close> answers success only when this
  controller knows the stack to be active, from its view, from the durable record or because its own
  wake activated it; it always answers; and one call starts at most one wake, whose attempts stay
  within the budget of the one generation it was granted.
\<close>

theorem ensure_active_serves:
  assumes "ensure_active patient ps w = (w', err)" "wk_attempts w > 0" "\<not> wk_closed w"
  shows "(err = [] \<longrightarrow> st (view (wk_ctl w')) = Active)
    \<and> (\<exists>l. wk_log w' = wk_log w @ l \<and> (l = [] \<or> (\<exists>fence. attempts fence (wk_attempts w) l)))"
  using assms
proof (induction ps arbitrary: w)
  case Nil
  then show ?case by (rule ensure_active_step) simp
next
  case (Cons p ps)
  show ?case
  proof (rule ensure_active_step [OF Cons.prems])
    fix took change ps' c assume p: "p # ps = Tick took change # ps'"
      and r: "ensure_active patient ps' (w\<lparr>wk_now := wk_now w + int took, wk_ctl := c\<rparr>) = (w', err)"
    then have "ensure_active patient ps (w\<lparr>wk_now := wk_now w + int took, wk_ctl := c\<rparr>) = (w', err)" by simp
    from Cons.IH [OF this] Cons.prems(2,3) show ?thesis by simp
  qed simp
qed


subsection \<open>The properties at work\<close>

definition wit_waker :: waker where
  "wit_waker = \<lparr>wk_ctl = \<lparr>view = wit_seed\<lparr>st := Hibernated\<rparr>, persistent = True, row = wit_seed\<lparr>st := Hibernated\<rparr>, faults = []\<rparr>,
     wk_now = 100, wk_closed = False, wk_wait = 1000000000, wk_attempts = default_wake_attempts,
     wk_answers = [\<lparr>wa_calls = [], wa_took = 5, wa_closes = False, wa_error = [DriverFault]\<rparr>,
       \<lparr>wa_calls = [DeclareVolume 5], wa_took = 5, wa_closes = False, wa_error = []\<rparr>],
     wk_log = [], wk_pauses = []\<rparr>"

definition wit_granted :: waker where
  "wit_granted = wit_waker\<lparr>wk_ctl := fst (begin_wake (wk_ctl wit_waker))\<rparr>"

theorem wake_attempt_budget_witness:
  "wk_log (fst (start_wake 5 wit_granted)) = [(5, [DriverFault]), (5, [])] \<and> st (row (wk_ctl (fst (start_wake 5 wit_granted)))) = Active
    \<and> lc_step\<^sup>*\<^sup>* (row (wk_ctl wit_granted)) (row (wk_ctl (fst (start_wake 5 wit_granted))))"
proof -
  obtain w' err where s: "start_wake 5 wit_granted = (w', err)" by force
  have h: "wk_attempts wit_granted > 0" "\<not> wk_closed wit_granted" "persistent (wk_ctl wit_granted)" by code_simp+
  have "wk_log (fst (start_wake 5 wit_granted)) = [(5, [DriverFault]), (5, [])]" by code_simp
  moreover have "st (row (wk_ctl (fst (start_wake 5 wit_granted)))) = Active" by code_simp
  ultimately show ?thesis using wake_attempt_budget [OF s h(1,2)] s h(3) by auto
qed

theorem ensure_active_serves_witness:
  "snd (ensure_active True [] wit_waker) = [] \<and> st (view (wk_ctl (fst (ensure_active True [] wit_waker)))) = Active"
proof -
  obtain w' err where s: "ensure_active True [] wit_waker = (w', err)" by force
  have h: "wk_attempts wit_waker > 0" "\<not> wk_closed wit_waker" by code_simp+
  have "snd (ensure_active True [] wit_waker) = []" by code_simp
  then show ?thesis using ensure_active_serves [OF s h] s by simp
qed

end
