(* ===== verification/Replay.thy ===== *)
theory Replay
  imports Spool Go_Values
begin

section \<open>Replaying a request and holding its response\<close>

text \<open>
  The parts of \<^verbatim>\<open>internal/activator/handler.go\<close> that turn a spooled request back into one to forward,
  \<^verbatim>\<open>removeHopByHopHeaders\<close> and the idempotency key \<^verbatim>\<open>deliverSpooledRequest\<close> sets, and the writer that
  captures the answer. A header is an association list from canonical names to values; Go's
  \<^verbatim>\<open>Header.Del\<close>, \<^verbatim>\<open>Get\<close>, \<^verbatim>\<open>Set\<close> and \<^verbatim>\<open>Values\<close> take any spelling of a name and make it canonical.
\<close>

type_synonym header = "(string \<times> string list) list"

definition token_char :: "char \<Rightarrow> bool" where
  "token_char c \<longleftrightarrow> (CHR ''a'' \<le> c \<and> c \<le> CHR ''z'') \<or> (CHR ''A'' \<le> c \<and> c \<le> CHR ''Z'') \<or> (CHR ''0'' \<le> c \<and> c \<le> CHR ''9'')
     \<or> c \<in> set ''!#$%&*+-.^_|~'' \<or> c = CHR 0x27 \<or> c = CHR 0x60"

definition upper_char :: "char \<Rightarrow> char" where
  "upper_char c = (if CHR ''a'' \<le> c \<and> c \<le> CHR ''z'' then char_of (of_char c - 32 :: nat) else c)"

definition lower_char :: "char \<Rightarrow> char" where
  "lower_char c = (if CHR ''A'' \<le> c \<and> c \<le> CHR ''Z'' then char_of (of_char c + 32 :: nat) else c)"

fun capitalize :: "bool \<Rightarrow> string \<Rightarrow> string" where
  "capitalize up [] = []"
| "capitalize up (c # cs) = (if up then upper_char c else lower_char c) # capitalize (c = CHR ''-'') cs"

definition canonical :: "string \<Rightarrow> string" where
  "canonical name = (if list_all token_char name then capitalize True name else name)"

definition header_values :: "header \<Rightarrow> string \<Rightarrow> string list" where
  "header_values h name = (case map_of h (canonical name) of None \<Rightarrow> [] | Some vs \<Rightarrow> vs)"

definition header_get :: "header \<Rightarrow> string \<Rightarrow> string" where
  "header_get h name = (case header_values h name of [] \<Rightarrow> [] | v # _ \<Rightarrow> v)"

definition header_del :: "header \<Rightarrow> string \<Rightarrow> header" where
  "header_del h name = filter (\<lambda>(k, vs). k \<noteq> canonical name) h"

definition header_set :: "header \<Rightarrow> string \<Rightarrow> string \<Rightarrow> header" where
  "header_set h name v = header_del h name @ [(canonical name, [v])]"

fun split_comma :: "string \<Rightarrow> string list" where
  "split_comma [] = [[]]"
| "split_comma (c # cs) =
     (if c = CHR '','' then [] # split_comma cs
      else case split_comma cs of [] \<Rightarrow> [[c]] | w # ws \<Rightarrow> (c # w) # ws)"

definition hop_names :: "string list" where
  "hop_names = [''Connection'', ''Keep-Alive'', ''Proxy-Authenticate'', ''Proxy-Authorization'',
     ''Proxy-Connection'', ''TE'', ''Trailer'', ''Transfer-Encoding'', ''Upgrade'']"

definition connection_names :: "header \<Rightarrow> string list" where
  "connection_names h = filter (\<lambda>n. n \<noteq> []) (concat (map (\<lambda>v. map trim_space (split_comma v)) (header_values h ''Connection'')))"

definition remove_hop_by_hop_headers :: "header \<Rightarrow> header" where
  "remove_hop_by_hop_headers h = fold (\<lambda>name h. header_del h name) hop_names
     (fold (\<lambda>name h. header_del h name) (connection_names h) h)"

definition replay_header :: "request \<Rightarrow> header" where
  "replay_header q =
     (let h = remove_hop_by_hop_headers (case rq_header q of None \<Rightarrow> [] | Some h \<Rightarrow> h)
      in if header_get h ''Idempotency-Key'' = []
         then header_set h ''Idempotency-Key'' (''sameoldchat-spool-'' @ decimal (rq_id q)) else h)"

subsection \<open>Capturing the answer\<close>

record captured =
  cp_header :: header
  cp_status :: int
  cp_body :: string

record capture =
  ca_response :: captured
  ca_max :: int
  ca_err :: bool

datatype write_action = WriteHeader int | WriteBody string | SetHeader string string

definition new_capture :: "int \<Rightarrow> capture" where
  "new_capture limit = \<lparr>ca_response = \<lparr>cp_header = [], cp_status = 0, cp_body = []\<rparr>, ca_max = limit, ca_err = False\<rparr>"

fun capture_write :: "write_action \<Rightarrow> capture \<Rightarrow> capture" where
  "capture_write (WriteHeader status) c =
     (if cp_status (ca_response c) = 0 then c\<lparr>ca_response := (ca_response c)\<lparr>cp_status := status\<rparr>\<rparr> else c)"
| "capture_write (SetHeader name v) c = c\<lparr>ca_response := (ca_response c)\<lparr>cp_header := header_set (cp_header (ca_response c)) name v\<rparr>\<rparr>"
| "capture_write (WriteBody body) c =
     (let r = (if cp_status (ca_response c) = 0 then (ca_response c)\<lparr>cp_status := 200\<rparr> else ca_response c)
      in if int (length (cp_body r) + length body) > ca_max c then c\<lparr>ca_response := r, ca_err := True\<rparr>
         else c\<lparr>ca_response := r\<lparr>cp_body := cp_body r @ body\<rparr>\<rparr>)"

definition capture_response :: "capture \<Rightarrow> captured" where
  "capture_response c = (if cp_status (ca_response c) = 0 then (ca_response c)\<lparr>cp_status := 200\<rparr> else ca_response c)"

definition write_captured_response :: "captured \<Rightarrow> captured" where
  "write_captured_response r = r\<lparr>cp_status := (if cp_status r = 0 then 503 else cp_status r)\<rparr>"

subsection \<open>Headers\<close>

lemma del_fold: "fold (\<lambda>name h. header_del h name) names h = filter (\<lambda>(k, vs). k \<notin> canonical ` set names) h"
  by (induction names arbitrary: h) (auto simp: header_del_def intro!: filter_cong)

lemma remove_hop_by_hop_filter:
  "remove_hop_by_hop_headers h = filter (\<lambda>(k, vs). k \<notin> canonical ` (set hop_names \<union> set (connection_names h))) h"
  by (auto simp: remove_hop_by_hop_headers_def del_fold intro!: filter_cong)


lemma canonical_key [simp]: "canonical ''Idempotency-Key'' = ''Idempotency-Key''"
  by code_simp

lemma get_set [simp]: "header_get (header_set h name v) name = v"
proof -
  have "map_of (header_del h name) (canonical name) = None" by (auto simp: map_of_eq_None_iff header_del_def)
  then show ?thesis by (simp add: header_get_def header_values_def header_set_def map_add_def)
qed

definition hop_header :: "header \<Rightarrow> string \<Rightarrow> bool" where
  "hop_header h k \<longleftrightarrow> k \<in> canonical ` (set hop_names \<union> set (connection_names h))"

definition own_key :: "request \<Rightarrow> string" where
  "own_key q = header_get (filter (\<lambda>(k, vs). \<not> hop_header (case rq_header q of None \<Rightarrow> [] | Some h \<Rightarrow> h) k)
     (case rq_header q of None \<Rightarrow> [] | Some h \<Rightarrow> h)) ''Idempotency-Key''"

lemma replay_header_cases:
  assumes "rq_header q = Some h"
  shows "replay_header q = (let h' = filter (\<lambda>(k, vs). \<not> hop_header h k) h
    in if own_key q = [] then header_set h' ''Idempotency-Key'' (''sameoldchat-spool-'' @ decimal (rq_id q)) else h')"
  using assms by (simp add: replay_header_def own_key_def remove_hop_by_hop_filter hop_header_def Let_def)

text \<open>
  A replayed request says what the client said. Of the headers a spooled request came with, exactly
  the hop-by-hop ones (the nine names and the ones its \<^verbatim>\<open>Connection\<close> headers name, in any spelling) are
  dropped and the others are forwarded as they were, in order. The request always carries an
  idempotency key: the client's own where it sent one, and else a key made of the spool identifier,
  which no other request of the spool gets, so a replay of the same entry is recognisable as such.
\<close>

theorem replayed_request_headers:
  assumes "rq_header q = Some h"
  shows "filter (\<lambda>(k, vs). k \<noteq> ''Idempotency-Key'') (replay_header q)
      = filter (\<lambda>(k, vs). k \<noteq> ''Idempotency-Key'' \<and> \<not> hop_header h k) h
    \<and> header_get (replay_header q) ''Idempotency-Key''
      = (if own_key q = [] then ''sameoldchat-spool-'' @ decimal (rq_id q) else own_key q)
    \<and> (\<forall>q' h'. rq_header q' = Some h' \<and> own_key q = [] \<and> own_key q' = [] \<and> rq_id q' \<noteq> rq_id q
        \<longrightarrow> header_get (replay_header q') ''Idempotency-Key'' \<noteq> header_get (replay_header q) ''Idempotency-Key'')"
proof (intro conjI allI impI)
  show "filter (\<lambda>(k, vs). k \<noteq> ''Idempotency-Key'') (replay_header q)
      = filter (\<lambda>(k, vs). k \<noteq> ''Idempotency-Key'' \<and> \<not> hop_header h k) h"
    by (auto simp: replay_header_cases [OF assms] Let_def header_set_def header_del_def case_prod_beta intro!: filter_cong)
  show "header_get (replay_header q) ''Idempotency-Key''
      = (if own_key q = [] then ''sameoldchat-spool-'' @ decimal (rq_id q) else own_key q)"
    using assms by (simp add: replay_header_cases [OF assms] Let_def own_key_def)
next
  fix q' h' assume "rq_header q' = Some h' \<and> own_key q = [] \<and> own_key q' = [] \<and> rq_id q' \<noteq> rq_id q"
  then show "header_get (replay_header q') ''Idempotency-Key'' \<noteq> header_get (replay_header q) ''Idempotency-Key''"
    using assms by (simp add: replay_header_cases Let_def decimal_inj)
qed

theorem replayed_request_headers_witness:
  "header_get (replay_header (wit_request\<lparr>rq_id := 12, rq_header := Some [(''Connection'', [''close, x-trace'']), (''X-Trace'', [''1'']), (''Accept'', [''a''])]\<rparr>))
      ''Idempotency-Key'' = ''sameoldchat-spool-12''
    \<and> map fst (filter (\<lambda>(k, vs). k \<noteq> ''Idempotency-Key'') (replay_header
        (wit_request\<lparr>rq_id := 12, rq_header := Some [(''Connection'', [''close, x-trace'']), (''X-Trace'', [''1'']), (''Accept'', [''a''])]\<rparr>)))
      = [''Accept'']"
proof -
  let ?h = "[(''Connection'', [''close, x-trace'']), (''X-Trace'', [''1'']), (''Accept'', [''a''])]"
  let ?q = "wit_request\<lparr>rq_id := 12, rq_header := Some ?h\<rparr>"
  have k: "own_key ?q = []" unfolding wit_request_def by code_simp
  have f: "map fst (filter (\<lambda>(k, vs). k \<noteq> ''Idempotency-Key'' \<and> \<not> hop_header ?h k) ?h) = [''Accept'']" by code_simp
  have d: "decimal (rq_id ?q) = ''12''" by code_simp
  show ?thesis using replayed_request_headers [of ?q ?h] k f d by simp
qed

subsection \<open>The captured answer\<close>

lemma capture_write_keeps:
  "ca_max (capture_write a c) = ca_max c"
  "int (length (cp_body (ca_response c))) \<le> ca_max c \<Longrightarrow> int (length (cp_body (ca_response (capture_write a c)))) \<le> ca_max c"
  "cp_status (ca_response c) \<noteq> 0 \<Longrightarrow> cp_status (ca_response (capture_write a c)) = cp_status (ca_response c)"
  "ca_err c \<Longrightarrow> ca_err (capture_write a c)"
  by (cases a; simp add: Let_def)+

lemma capture_bounded:
  "0 \<le> limit \<Longrightarrow> int (length (cp_body (ca_response (fold capture_write as (new_capture limit))))) \<le> limit"
proof -
  have "int (length (cp_body (ca_response c))) \<le> limit \<Longrightarrow> ca_max c = limit \<Longrightarrow>
      int (length (cp_body (ca_response (fold capture_write as c)))) \<le> limit" for c
    by (induction as arbitrary: c) (auto simp: capture_write_keeps)
  then show "0 \<le> limit \<Longrightarrow> ?thesis" by (simp add: new_capture_def)
qed

text \<open>An answer that fits is held whole.\<close>

definition body_of :: "write_action list \<Rightarrow> string" where
  "body_of as = concat (map (\<lambda>a. case a of WriteBody b \<Rightarrow> b | _ \<Rightarrow> []) as)"

lemma capture_whole:
  "int (length (cp_body (ca_response c)) + length (body_of as)) \<le> ca_max c \<Longrightarrow>
     cp_body (ca_response (fold capture_write as c)) = cp_body (ca_response c) @ body_of as
     \<and> ca_err (fold capture_write as c) = ca_err c"
proof (induction as arbitrary: c)
  case (Cons a as)
  have step: "cp_body (ca_response (capture_write a c)) = cp_body (ca_response c) @ body_of [a] \<and> ca_err (capture_write a c) = ca_err c"
    using Cons.prems by (cases a) (auto simp: body_of_def Let_def)
  moreover have "length (body_of (a # as)) = length (body_of [a]) + length (body_of as)" by (simp add: body_of_def)
  ultimately have "int (length (cp_body (ca_response (capture_write a c))) + length (body_of as)) \<le> ca_max (capture_write a c)"
    using Cons.prems by (simp add: capture_write_keeps(1))
  from Cons.IH [OF this] step show ?case by (simp add: body_of_def)
qed (simp add: body_of_def)

end
