(* ===== verification/Lease_While.thy ===== *)
theory Lease_While
  imports SOC_Prelude
begin

section \<open>Work done while a lease is held\<close>

text \<open>
  \<^verbatim>\<open>internal/lease/lease.go\<close>. An error is the list of the errors \<^verbatim>\<open>errors.Join\<close> put together, nil the
  empty one, so that \<^verbatim>\<open>errors.Is\<close> is membership and \<^verbatim>\<open>errors.Join\<close> is append. The renewal goroutine
  fires at its ticks while the operation runs: the model is told how many of them fall within it, renews at
  each until one fails, and runs the operation told whether its context was cancelled under it.
\<close>

definition minimum_renew_interval :: duration where
  "minimum_renew_interval = 1000000"

definition lease_renew_interval :: "duration \<Rightarrow> duration" where
  "lease_renew_interval lease =
     (let interval = lease div 3 in if interval < minimum_renew_interval then minimum_renew_interval else interval)"

fun renew_ticks :: "('w \<Rightarrow> 'w \<times> 'e list) \<Rightarrow> nat \<Rightarrow> 'w \<Rightarrow> 'w \<times> 'e list" where
  "renew_ticks renew 0 w = (w, [])"
| "renew_ticks renew (Suc n) w =
     (case renew w of
        (w', []) \<Rightarrow> renew_ticks renew n w'
      | (w', e # es) \<Rightarrow> (w', e # es))"

definition while_held :: "'e \<Rightarrow> ('w \<Rightarrow> 'w \<times> 'e list) \<Rightarrow> nat \<Rightarrow> (bool \<Rightarrow> 'w \<Rightarrow> 'w \<times> 'e list) \<Rightarrow> 'w \<Rightarrow> 'w \<times> 'e list" where
  "while_held canceled renew ticks operation w =
     (let (w, renew_err) = renew_ticks renew ticks w;
          (w, operation_err) = operation (renew_err \<noteq> []) w
      in if renew_err \<noteq> [] \<and> canceled \<notin> set renew_err then (w, renew_err @ operation_err) else (w, operation_err))"

lemma renew_ticks_invariant:
  assumes "\<And>w. P w \<Longrightarrow> P (fst (renew w))" "P w"
  shows "P (fst (renew_ticks renew n w))"
  using assms(2)
proof (induction n arbitrary: w)
  case (Suc n)
  obtain w' e where r: "renew w = (w', e)" by force
  have "P w'" using assms(1) [OF Suc.prems] r by simp
  then show ?case using Suc.IH [of w'] r by (cases e) auto
qed simp

lemma lease_renew_interval_bounds:
  "lease_renew_interval lease \<ge> minimum_renew_interval" "lease \<ge> 3 * minimum_renew_interval \<Longrightarrow> 3 * lease_renew_interval lease \<le> lease"
  by (auto simp: lease_renew_interval_def minimum_renew_interval_def Let_def)

text \<open>A lost lease is never hidden: no error means that no renewal failed, or only by our own cancellation.\<close>

lemma while_held_reports:
  assumes "while_held canceled renew ticks operation w = (w', [])"
  shows "snd (renew_ticks renew ticks w) = [] \<or> canceled \<in> set (snd (renew_ticks renew ticks w))"
    and "snd (operation (snd (renew_ticks renew ticks w) \<noteq> []) (fst (renew_ticks renew ticks w))) = []"
  using assms by (auto simp: while_held_def Let_def case_prod_beta split: if_splits)

lemma while_held_world:
  "fst (while_held canceled renew ticks operation w)
     = fst (operation (snd (renew_ticks renew ticks w) \<noteq> []) (fst (renew_ticks renew ticks w)))"
  by (auto simp: while_held_def Let_def case_prod_beta)

end
