(* ===== verification/Activator.thy ===== *)
theory Activator
  imports Waking Replay Lease_While
begin

section \<open>Serving through the spool\<close>

text \<open>
  The request path of \<^verbatim>\<open>internal/activator/handler.go\<close>: \<^verbatim>\<open>ServeHTTP\<close>, \<^verbatim>\<open>serveDurable\<close>, the drain loop and
  \<^verbatim>\<open>processSpool\<close>. The state extends the waker's by the spool, the drained flag, the waiters by spool
  identifier, the results handed to them, and a log of the identifiers forwarded. The drain lock
  admits one drain at a time, so a drain is a sequential program; accepting a request is one step
  under the queue lock. The application behind the proxy is a script: whether a replay can be built,
  what the application writes, how many renewals fall due while it runs and how long it takes. A call to the
  control store under a cancelled context fails with the cancellation and does nothing.
\<close>

record forward_script =
  fs_replays :: bool
  fs_actions :: "write_action list"
  fs_ticks :: nat
  fs_took :: nat

record activator = waker +
  ac_spool :: spool
  ac_owner :: string
  ac_max :: int
  ac_drained :: bool
  ac_waiters :: "nat list"
  ac_answers :: "(nat \<times> captured \<times> act_error list) list"
  ac_scripts :: "forward_script list"
  ac_forwarded :: "nat list"

definition no_response :: captured where
  "no_response = \<lparr>cp_header = [], cp_status = 0, cp_body = []\<rparr>"

definition complete_spool_request :: "nat \<Rightarrow> captured \<times> act_error list \<Rightarrow> activator \<Rightarrow> activator" where
  "complete_spool_request i result w =
     (if i \<in> set (ac_waiters w)
      then w\<lparr>ac_waiters := filter (\<lambda>j. j \<noteq> i) (ac_waiters w), ac_answers := ac_answers w @ [(i, result)]\<rparr> else w)"

definition remove_spool_waiter :: "nat \<Rightarrow> activator \<Rightarrow> activator" where
  "remove_spool_waiter i w = w\<lparr>ac_waiters := filter (\<lambda>j. j \<noteq> i) (ac_waiters w)\<rparr>"

definition renewal :: "nat \<Rightarrow> activator \<Rightarrow> activator \<times> act_error list" where
  "renewal i w =
     (let w = w\<lparr>wk_now := wk_now w + lease_renew_interval (wk_wait w)\<rparr>
      in if wk_closed w then (w, [Canceled])
         else case renew (ac_owner w) [i] (wk_wait w) (wk_now w) (ac_spool w) of
                (s, None) \<Rightarrow> (w\<lparr>ac_spool := s\<rparr>, [])
              | (s, Some e) \<Rightarrow> (w\<lparr>ac_spool := s\<rparr>, [SpoolFault e]))"

definition forward_spool_request :: "nat \<Rightarrow> forward_script \<Rightarrow> activator \<Rightarrow> activator \<times> act_error list \<times> capture" where
  "forward_spool_request i script w =
     (let capture = fold capture_write (fs_actions script) (new_capture (ac_max w));
          (w, err) = while_held Canceled (renewal i) (fs_ticks script)
            (\<lambda>cancelled w. (w\<lparr>wk_now := wk_now w + int (fs_took script), ac_forwarded := ac_forwarded w @ [i]\<rparr>, [])) w
      in (w, (if err \<noteq> [] \<and> ca_err capture then err @ [CaptureOverflow] else err), capture))"

definition next_script :: "activator \<Rightarrow> forward_script" where
  "next_script w = (case ac_scripts w of [] \<Rightarrow> \<lparr>fs_replays = True, fs_actions = [], fs_ticks = 0, fs_took = 0\<rparr> | f # _ \<Rightarrow> f)"

definition delete_delivered :: "nat \<Rightarrow> activator \<Rightarrow> activator \<times> act_error list" where
  "delete_delivered i w =
     (if wk_closed w then (w, [Canceled])
      else case delete (ac_owner w) i (ac_spool w) of
             (s, None) \<Rightarrow> (w\<lparr>ac_spool := s\<rparr>, [])
           | (s, Some e) \<Rightarrow> (w\<lparr>ac_spool := s\<rparr>, [SpoolFault e]))"

definition deliver_spooled_request :: "request \<Rightarrow> activator \<Rightarrow> activator \<times> act_error list" where
  "deliver_spooled_request q w =
     (let script = next_script w; w = w\<lparr>ac_scripts := tl (ac_scripts w)\<rparr>
      in if \<not> fs_replays script then (w, [BadReplay])
      else
        let (w, err, capture) = forward_spool_request (rq_id q) script w
        in if err \<noteq> [] then (complete_spool_request (rq_id q) (no_response, err) w, err)
           else
             let response = (if ca_err capture then no_response\<lparr>cp_status := 502\<rparr> else capture_response capture);
                 (w, delete_err) = delete_delivered (rq_id q) w
             in (complete_spool_request (rq_id q)
                   (response, (if ca_err capture then [CaptureOverflow] else []) @ delete_err) w, delete_err))"

definition claim_next :: "activator \<Rightarrow> activator \<times> (act_error list + request list)" where
  "claim_next w =
     (if wk_closed w then (w, Inl [Canceled])
      else case claim (ac_owner w) 1 (wk_wait w) (wk_now w) (wk_now w) (ac_spool w) of
             (s, Inl e) \<Rightarrow> (w\<lparr>ac_spool := s\<rparr>, Inl [SpoolFault e])
           | (s, Inr requests) \<Rightarrow> (w\<lparr>ac_spool := s\<rparr>, Inr requests))"

subsection \<open>A drain ends\<close>

abbreviation queue :: "activator \<Rightarrow> spool_row list" where
  "queue w \<equiv> sp_rows (ac_spool w)"

lemma complete_frame [simp]:
  "ac_spool (complete_spool_request i r w) = ac_spool w" "ac_owner (complete_spool_request i r w) = ac_owner w"
  "wk_now (complete_spool_request i r w) = wk_now w" "wk_closed (complete_spool_request i r w) = wk_closed w"
  "wk_wait (complete_spool_request i r w) = wk_wait w" "ac_forwarded (complete_spool_request i r w) = ac_forwarded w"
  "ac_max (complete_spool_request i r w) = ac_max w"
  by (simp_all add: complete_spool_request_def)

lemma renewal_length: "length (queue (fst (renewal i w))) = length (queue w)"
  by (auto simp: renewal_def renew_def Let_def)

lemma forward_world:
  "forward_spool_request i script w = (w', err, c) \<Longrightarrow>
     w' = (let v = fst (renew_ticks (renewal i) (fs_ticks script) w)
           in v\<lparr>wk_now := wk_now v + int (fs_took script), ac_forwarded := ac_forwarded v @ [i]\<rparr>)
     \<and> c = fold capture_write (fs_actions script) (new_capture (ac_max w))"
  by (auto simp: forward_spool_request_def Let_def while_held_world case_prod_beta prod_eq_iff)

lemma ticks_length: "length (queue (fst (renew_ticks (renewal i) n w))) = length (queue w)"
  by (rule renew_ticks_invariant [where P = "\<lambda>v. length (queue v) = length (queue w)"]) (simp_all add: renewal_length)

lemma forward_length: "forward_spool_request i script w = (w', err, c) \<Longrightarrow> length (queue w') = length (queue w)"
  by (auto simp: ticks_length Let_def dest!: forward_world)

lemma delete_shrinks: "delete_delivered i w = (w', []) \<Longrightarrow> length (queue w') < length (queue w)"
proof -
  assume d: "delete_delivered i w = (w', [])"
  then obtain s where s: "delete (ac_owner w) i (ac_spool w) = (s, None)" "w' = w\<lparr>ac_spool := s\<rparr>"
    by (auto simp: delete_delivered_def split: if_splits prod.splits option.splits)
  let ?hit = "\<lambda>r. sp_id r = i \<and> sp_owner r = ac_owner w"
  have one: "length (filter ?hit (queue w)) = 1" "sp_rows s = filter (\<lambda>r. \<not> ?hit r) (queue w)"
    using s(1) by (auto simp: delete_def Let_def split: if_splits)
  have "length (filter ?hit (queue w)) + length (filter (\<lambda>r. \<not> ?hit r) (queue w)) = length (queue w)"
    by (rule sum_length_filter_compl)
  then show ?thesis using one s(2) by simp
qed

lemma deliver_shrinks: "deliver_spooled_request q w = (w', []) \<Longrightarrow> length (queue w') < length (queue w)"
  by (auto simp: deliver_spooled_request_def Let_def split: if_splits prod.splits dest!: forward_length delete_shrinks)

lemma claim_next_length: "claim_next w = (w', r) \<Longrightarrow> length (queue w') = length (queue w)"
  by (auto simp: claim_next_def claim_def Let_def case_prod_beta split: if_splits prod.splits sum.splits)

function process_loop :: "activator \<Rightarrow> activator \<times> act_error list" where
  "process_loop w =
     (case claim_next w of
        (w, Inl e) \<Rightarrow> (w, e)
      | (w, Inr []) \<Rightarrow> (w\<lparr>ac_drained := True\<rparr>, [])
      | (w, Inr (q # _)) \<Rightarrow>
          (case deliver_spooled_request q w of
             (w, []) \<Rightarrow> process_loop w
           | (w, e # es) \<Rightarrow> (w, e # es)))"
  by pat_completeness auto

termination process_loop
proof (relation "measure (\<lambda>w. length (queue w))")
  fix w w1 r rs q qs w2 e
  assume "(w1, r) = claim_next w" "r = Inr rs" "rs = q # qs" "(w2, e) = deliver_spooled_request q w1" "e = []"
  then show "(w2, w) \<in> measure (\<lambda>w. length (queue w))"
    using claim_next_length [of w w1 r] deliver_shrinks [of q w1 w2] by simp
qed simp

declare process_loop.simps [simp del]


subsection \<open>Accepting and answering\<close>

definition process_spool :: "bool \<Rightarrow> poll list \<Rightarrow> activator \<Rightarrow> activator \<times> act_error list" where
  "process_spool patient ps w =
     (case ensure_active patient ps w of
        (w, e # es) \<Rightarrow> (w, e # es)
      | (w, []) \<Rightarrow> process_loop w)"

definition drain_tick :: "bool \<Rightarrow> poll list \<Rightarrow> activator \<Rightarrow> activator" where
  "drain_tick patient ps w =
     (if wk_closed w then w
      else if pending (ac_spool w) = 0 then w\<lparr>ac_drained := True\<rparr>
      else fst (process_spool patient ps w))"

definition serving_directly :: "activator \<Rightarrow> bool" where
  "serving_directly w \<longleftrightarrow> ac_drained w \<and> st (view (wk_ctl w)) = Active"

datatype body_read = BodyRead string | BodyTooLarge | BodyBroken
datatype http_answer = Refusal int string | Reply captured | Proxied | NoReply

text \<open>Enqueueing and registering the waiter are one step under the queue lock.\<close>

definition accept_request :: "request \<Rightarrow> string \<Rightarrow> activator \<Rightarrow> activator \<times> (spool_error + nat)" where
  "accept_request q body w =
     (case enqueue q body (wk_now w) (ac_spool w) of
        (s, Inl e) \<Rightarrow> (w\<lparr>ac_spool := s\<rparr>, Inl e)
      | (s, Inr i) \<Rightarrow> (w\<lparr>ac_spool := s, ac_drained := False, ac_waiters := ac_waiters w @ [i]\<rparr>, Inr i))"

definition serve_durable :: "request \<Rightarrow> body_read \<Rightarrow> bool \<Rightarrow> bool \<Rightarrow> poll list \<Rightarrow> activator \<Rightarrow> activator \<times> http_answer" where
  "serve_durable q read_body client_left patient ps w =
     (case read_body of
        BodyTooLarge \<Rightarrow> (w, Refusal 413 ''request_entity_too_large'')
      | BodyBroken \<Rightarrow> (w, Refusal 400 ''invalid_form_data'')
      | BodyRead body \<Rightarrow>
          if int (length body) > ac_max w then (w, Refusal 413 ''request_entity_too_large'')
          else
            case accept_request q body w of
              (w, Inl e) \<Rightarrow> (w, Refusal 503 ''service_unavailable'')
            | (w, Inr i) \<Rightarrow>
                let (w, err) = process_spool patient ps w;
                    w = (if err \<noteq> [] then complete_spool_request i (no_response, err) w else w)
                in case map_of (rev (ac_answers w)) i of
                     Some (response, err) \<Rightarrow>
                       (remove_spool_waiter i w,
                        if err \<noteq> [] \<and> cp_status response = 0 then Refusal 503 ''service_unavailable''
                        else Reply (write_captured_response response))
                   | None \<Rightarrow>
                       (remove_spool_waiter i w, if client_left then NoReply else Refusal 503 ''service_unavailable''))"

text \<open>The declared length of the body is \<^verbatim>\<open>-1\<close> when it is not known; the proxy's body reader stops at the limit.\<close>

definition serve_http :: "request \<Rightarrow> int \<Rightarrow> body_read \<Rightarrow> bool \<Rightarrow> bool \<Rightarrow> poll list \<Rightarrow> activator \<Rightarrow> activator \<times> http_answer" where
  "serve_http q content_length read_body client_left patient ps w =
     (if \<not> serving_directly w then serve_durable q read_body client_left patient ps w
      else if content_length > ac_max w then (w, Refusal 413 ''request_entity_too_large'')
      else case ensure_active patient ps w of
             (w, e # es) \<Rightarrow> (w, Refusal 503 ''service_unavailable'')
           | (w, []) \<Rightarrow> (w, Proxied))"

subsection \<open>Accepted requests are forwarded or still stored\<close>

definition kept :: "nat \<Rightarrow> sealed \<Rightarrow> request \<Rightarrow> activator \<Rightarrow> bool" where
  "kept i p q w \<longleftrightarrow> spool_ok (ac_spool w) \<and> decode_payload (ac_spool w) p = Inr q
     \<and> (stored (ac_spool w) i p \<or> i \<in> set (ac_forwarded w))"

lemma kept_spool_step:
  assumes "kept i p q w" "\<forall>owner. op = Deleted owner i \<longrightarrow> i \<in> set (ac_forwarded w)"
  shows "kept i p q (w\<lparr>ac_spool := spool_step op now (ac_spool w)\<rparr>)"
  using assms spool_step_ok [where s = "ac_spool w" and op = op and now = now] same_spool_decode [OF same_spool_step [of "ac_spool w" op now]]
    stored_step [where s = "ac_spool w" and i = i and p = p and q = q and op = op and now = now] by (auto simp: kept_def)

lemma kept_frame [simp]:
  "kept i p q (w\<lparr>wk_now := t\<rparr>) = kept i p q w" "kept i p q (w\<lparr>ac_drained := b\<rparr>) = kept i p q w"
  "kept i p q (w\<lparr>ac_scripts := l\<rparr>) = kept i p q w" "kept i p q (complete_spool_request j r w) = kept i p q w"
  "kept i p q (remove_spool_waiter j w) = kept i p q w"
  by (simp_all add: kept_def remove_spool_waiter_def)

lemma kept_renewal: "kept i p q w \<Longrightarrow> kept i p q (fst (renewal j w))"
proof -
  assume k: "kept i p q w"
  let ?w = "w\<lparr>wk_now := wk_now w + lease_renew_interval (wk_wait w)\<rparr>"
  have "kept i p q (?w\<lparr>ac_spool := spool_step (Renewed (ac_owner w) [j] (wk_wait w)) (wk_now ?w) (ac_spool ?w)\<rparr>)"
    using k by (intro kept_spool_step) simp_all
  then show ?thesis using k by (auto simp: renewal_def Let_def split: prod.split option.split)
qed

lemma kept_forward:
  assumes "kept i p q w" "forward_spool_request j script w = (w', err, c)"
  shows "kept i p q w' \<and> j \<in> set (ac_forwarded w')"
proof -
  have "kept i p q (fst (renew_ticks (renewal j) (fs_ticks script) w))"
    by (rule renew_ticks_invariant [where P = "kept i p q"]) (simp_all add: kept_renewal assms(1))
  then show ?thesis using forward_world [OF assms(2)] by (auto simp: kept_def Let_def)
qed

lemma kept_delete:
  assumes "kept i p q w" "j \<in> set (ac_forwarded w)"
  shows "kept i p q (fst (delete_delivered j w)) \<and> ac_forwarded (fst (delete_delivered j w)) = ac_forwarded w"
proof -
  have "kept i p q (w\<lparr>ac_spool := spool_step (Deleted (ac_owner w) j) 0 (ac_spool w)\<rparr>)"
    using assms by (intro kept_spool_step) auto
  then show ?thesis using assms(1) by (auto simp: delete_delivered_def split: prod.split option.split)
qed

lemma kept_deliver: "kept i p q w \<Longrightarrow> kept i p q (fst (deliver_spooled_request r w))"
proof -
  assume k: "kept i p q w"
  let ?w = "w\<lparr>ac_scripts := tl (ac_scripts w)\<rparr>"
  obtain w1 err c where f: "forward_spool_request (rq_id r) (next_script w) ?w = (w1, err, c)" by (metis prod_cases3)
  have "kept i p q w1 \<and> rq_id r \<in> set (ac_forwarded w1)" using k by (intro kept_forward [OF _ f]) simp
  then show ?thesis using k f kept_delete [of i p q w1 "rq_id r"]
    by (auto simp: deliver_spooled_request_def Let_def case_prod_beta)
qed

lemma kept_claim: "kept i p q w \<Longrightarrow> kept i p q (fst (claim_next w))"
proof -
  assume k: "kept i p q w"
  have "kept i p q (w\<lparr>ac_spool := spool_step (Claimed (ac_owner w) 1 (wk_wait w) 0) (wk_now w) (ac_spool w)\<rparr>)"
    using k by (intro kept_spool_step) simp_all
  then show ?thesis using k by (auto simp: claim_next_def split: prod.split sum.split)
qed

lemma kept_process: "kept i p q w \<Longrightarrow> kept i p q (fst (process_loop w))"
proof (induction w rule: process_loop.induct)
  case (1 w)
  obtain w1 r where c: "claim_next w = (w1, r)" by force
  have k: "kept i p q w1" using kept_claim [OF "1.prems"] c by simp
  show ?case
  proof (cases r)
    case (Inr rs)
    show ?thesis
    proof (cases rs)
      case (Cons x xs)
      obtain w2 e where d: "deliver_spooled_request x w1 = (w2, e)" by force
      have k2: "kept i p q w2" using kept_deliver [OF k, of x] d by simp
      then show ?thesis
        using "1.IH" [OF c [symmetric] Inr Cons d [symmetric]] c Inr Cons d
        by (cases e) (simp_all add: process_loop.simps [of w])
    qed (use c k Inr in \<open>simp add: process_loop.simps [of w]\<close>)
  qed (use c k in \<open>simp add: process_loop.simps [of w]\<close>)
qed


lemma accept_cases:
  "accept_request q body w = (w', r) \<Longrightarrow> case r of Inl e \<Rightarrow> w' = w
     | Inr i \<Rightarrow> \<exists>s. enqueue q body (wk_now w) (ac_spool w) = (s, Inr i) \<and> ac_spool w' = s \<and> ac_forwarded w' = ac_forwarded w"
  by (auto simp: accept_request_def enqueue_def Let_def split: prod.splits sum.splits if_splits)

lemma start_wake_frame: "start_wake fence (w :: activator) = (w', e) \<Longrightarrow> ac_spool w' = ac_spool w \<and> ac_forwarded w' = ac_forwarded w"
proof -
  have call: "ac_spool (fst (wake_call fence v)) = ac_spool v \<and> ac_forwarded (fst (wake_call fence v)) = ac_forwarded v"
    "ac_spool (fst (backoff k v)) = ac_spool v \<and> ac_forwarded (fst (backoff k v)) = ac_forwarded v" for v :: activator and k
    by (simp_all add: wake_call_def backoff_def Let_def)
  have drive: "ac_spool (fst (drive_wake n k l fence v)) = ac_spool v \<and> ac_forwarded (fst (drive_wake n k l fence v)) = ac_forwarded v"
    for n k l and v :: activator
  proof (induction n arbitrary: k l v)
    case (Suc n)
    obtain v1 b where b: "(if k > 0 then backoff k v else (v, [])) = (v1, b)" by force
    have v1: "ac_spool v1 = ac_spool v \<and> ac_forwarded v1 = ac_forwarded v" using b call(2) [of k v] by (auto split: if_splits)
    obtain v2 e where c: "wake_call fence v1 = (v2, e)" by force
    have v2: "ac_spool v2 = ac_spool v1 \<and> ac_forwarded v2 = ac_forwarded v1" using call(1) [of v1] c by simp
    show ?case using b c v1 v2 Suc.IH by (cases b; cases e) auto
  qed simp
  show "start_wake fence (w :: activator) = (w', e) \<Longrightarrow> ?thesis"
    using drive [of "wk_attempts w" 0 "[]" w] by (auto simp: start_wake_def Let_def split: prod.splits option.splits if_splits)
qed

lemma ensure_active_frame:
  "ensure_active patient ps (w :: activator) = (w', e) \<Longrightarrow> ac_spool w' = ac_spool w \<and> ac_forwarded w' = ac_forwarded w"
proof (induction ps arbitrary: w)
  case Nil
  then show ?case
    by (subst (asm) ensure_active.simps) (auto simp: Let_def split: prod.splits option.splits if_splits dest!: start_wake_frame)
next
  case (Cons p ps)
  note IH = Cons.IH
  show ?case using Cons.prems
    by (subst (asm) ensure_active.simps)
      (auto simp: Let_def split: prod.splits option.splits if_splits poll.splits dest!: start_wake_frame IH)
qed

lemma kept_process_spool: "kept i p q w \<Longrightarrow> kept i p q (fst (process_spool patient ps w))"
proof -
  assume k: "kept i p q w"
  obtain w1 e where a: "ensure_active patient ps w = (w1, e)" by force
  have "kept i p q w1" using k ensure_active_frame [OF a] by (simp add: kept_def)
  then show ?thesis using kept_process [of i p q w1] by (cases e) (simp_all add: process_spool_def a)
qed

text \<open>
  C15. An accepted request is never dropped. When the activator answers a request it takes into the
  spool, then whatever the stack, the driver, the application and the renewals did in between: either
  the request was forwarded to the application, or it is still stored whole under the identifier it
  was given, where a later drain finds it. A request it does not take in leaves the spool as it was
  and is refused with a status that says why: 413 for a body over the limit, 400 for one that cannot be read, and
  503 when the queue is full.
\<close>

theorem accepted_request_kept:
  assumes "serve_durable q read_body client_left patient ps w = (w', answer)" "spool_ok (ac_spool w)"
    and "rq_method q \<noteq> []" "rq_url q \<noteq> []" "rq_header q \<noteq> None"
  shows "(\<exists>body i p. read_body = BodyRead body \<and> int (length body) \<le> ac_max w
        \<and> snd (enqueue q body (wk_now w) (ac_spool w)) = Inr i
        \<and> p = Sealed (sp_key (ac_spool w)) (q\<lparr>rq_id := 0, rq_body := body, rq_created := wk_now w\<rparr>)
        \<and> (stored (ac_spool w') i p \<or> i \<in> set (ac_forwarded w')))
    \<or> w' = w \<and> (answer = Refusal 413 ''request_entity_too_large'' \<and> (\<forall>body. read_body = BodyRead body \<longrightarrow> ac_max w < int (length body))
        \<or> answer = Refusal 400 ''invalid_form_data'' \<and> read_body = BodyBroken
        \<or> answer = Refusal 503 ''service_unavailable'' \<and> (\<exists>body e. read_body = BodyRead body
              \<and> snd (enqueue q body (wk_now w) (ac_spool w)) = Inl e))"
proof (cases "\<exists>body i. read_body = BodyRead body \<and> int (length body) \<le> ac_max w \<and> snd (enqueue q body (wk_now w) (ac_spool w)) = Inr i")
  case True
  then obtain body i where b: "read_body = BodyRead body" "int (length body) \<le> ac_max w" "snd (enqueue q body (wk_now w) (ac_spool w)) = Inr i"
    by blast
  then obtain s where e: "enqueue q body (wk_now w) (ac_spool w) = (s, Inr i)" by (cases "enqueue q body (wk_now w) (ac_spool w)") auto
  let ?p = "Sealed (sp_key (ac_spool w)) (q\<lparr>rq_id := 0, rq_body := body, rq_created := wk_now w\<rparr>)"
  obtain w1 where a: "accept_request q body w = (w1, Inr i)" "ac_spool w1 = s" by (simp add: accept_request_def e)
  have "kept i ?p (q\<lparr>rq_id := 0, rq_body := body, rq_created := wk_now w\<rparr>) w1"
    using enqueue_accepts [OF assms(2) e assms(3-5)] a by (simp add: kept_def)
  note k = kept_process_spool [OF this, of patient ps]
  have "kept i ?p (q\<lparr>rq_id := 0, rq_body := body, rq_created := wk_now w\<rparr>) w'"
    using assms(1) k unfolding serve_durable_def b(1) body_read.case a(1)
    by (auto simp: Let_def leD [OF b(2)] case_prod_beta split: option.splits if_splits)
  then show ?thesis using b e by (intro disjI1) (auto simp: kept_def)
next
  case False
  then show ?thesis using assms(1) accept_cases [of q _ w]
    by (intro disjI2) (auto simp: serve_durable_def accept_request_def enqueue_def Let_def split: body_read.splits if_splits)
qed


subsection \<open>A drain delivers the queue in order\<close>

definition calm :: "activator \<Rightarrow> activator \<Rightarrow> bool" where
  "calm w w' \<longleftrightarrow> ac_owner w' = ac_owner w \<and> wk_closed w' = wk_closed w \<and> wk_wait w' = wk_wait w \<and> wk_now w \<le> wk_now w'
     \<and> same_spool (ac_spool w) (ac_spool w')"

text \<open>Every queued request is free and decodes under the spool's key.\<close>

definition drainable :: "activator \<Rightarrow> bool" where
  "drainable w \<longleftrightarrow> spool_ok (ac_spool w) \<and> trim_space (ac_owner w) \<noteq> [] \<and> wk_wait w > 0 \<and> \<not> wk_closed w
     \<and> (\<forall>r \<in> set (queue w). claimable (wk_now w) r \<and> deliverable (ac_spool w) r \<noteq> None)"

lemma calm_trans: "calm a b \<Longrightarrow> calm b c \<Longrightarrow> calm a c"
  by (auto simp: calm_def same_spool_def)

lemma claim_next_head:
  assumes d: "drainable w" and q: "queue w = r # rs"
  shows "\<exists>x w1 r1. claim_next w = (w1, Inr [x]) \<and> rq_id x = sp_id r \<and> queue w1 = r1 # rs \<and> sp_id r1 = sp_id r
    \<and> sp_owner r1 = ac_owner w \<and> calm w w1 \<and> ac_forwarded w1 = ac_forwarded w \<and> spool_ok (ac_spool w1)"
proof -
  let ?s = "ac_spool w"
  have ok: "spool_ok ?s" and g: "guarded (ac_owner w) 1 (wk_wait w)" and r: "claimable (wk_now w) r" "deliverable ?s r \<noteq> None"
    using d q by (auto simp: drainable_def guarded_def)
  then obtain x where x: "deliverable ?s r = Some x" by auto
  have old: "oldest 1 (wk_now w) ?s = [r]" using r(1) q by (simp add: oldest_def)
  have rs: "r \<notin> set rs" using ids_distinct [OF ok] q by (auto simp: image_iff)
  let ?r1 = "handed ?s (ac_owner w) (sp_tokens ?s) (wk_now w + wk_wait w) r"
  have "map (\<lambda>y. if y = r then handed ?s (ac_owner w) (sp_tokens ?s) (wk_now w + wk_wait w) y else y) rs = rs"
    using rs by (intro map_idI) auto
  then have "claim (ac_owner w) 1 (wk_wait w) (wk_now w) (wk_now w) ?s
      = (?s\<lparr>sp_tokens := Suc (sp_tokens ?s), sp_rows := ?r1 # rs\<rparr>, Inr [x])"
    using x q by (simp add: claim_granted [OF ok g] old List.map_filter_simps)
  moreover have "spool_ok (fst (claim (ac_owner w) 1 (wk_wait w) (wk_now w) (wk_now w) ?s))"
    using spool_step_ok [OF ok, of "Claimed (ac_owner w) 1 (wk_wait w) 0" "wk_now w"] by simp
  ultimately show ?thesis using d x
    by (auto simp: claim_next_def drainable_def calm_def same_spool_def deliverable_id handed_deliverable(1) [OF x])
qed

lemma renewal_queue:
  "\<exists>P h. (\<forall>r. sp_id (h r) = sp_id r \<and> sp_owner (h r) = sp_owner r)
     \<and> queue (fst (renewal i w)) = map (\<lambda>r. if (P r \<and> sp_id r = i) then h r else r) (queue w)"
proof -
  let ?now = "wk_now w + lease_renew_interval (wk_wait w)"
  let ?P = "\<lambda>r. \<not> wk_closed w \<and> (trim_space (ac_owner w) \<noteq> [] \<and> wk_wait w > 0 \<and> i \<noteq> 0) \<and> sp_owner r = ac_owner w \<and> sp_expires r > ?now"
  have "queue (fst (renewal i w)) = map (\<lambda>r. if (?P r \<and> sp_id r = i) then r\<lparr>sp_expires := ?now + wk_wait w\<rparr> else r) (queue w)"
    by (simp add: renewal_def renew_def Let_def cong: if_cong)
  then show ?thesis by (intro exI [of _ ?P] exI [of _ "\<lambda>r. r\<lparr>sp_expires := ?now + wk_wait w\<rparr>"]) simp
qed

lemma renewal_head:
  assumes q: "queue w = r1 # rs" "spool_ok (ac_spool w)"
  shows "\<exists>r2. queue (fst (renewal (sp_id r1) w)) = r2 # rs \<and> sp_id r2 = sp_id r1 \<and> sp_owner r2 = sp_owner r1
    \<and> calm w (fst (renewal (sp_id r1) w)) \<and> spool_ok (ac_spool (fst (renewal (sp_id r1) w)))
    \<and> ac_forwarded (fst (renewal (sp_id r1) w)) = ac_forwarded w"
proof -
  let ?now = "wk_now w + lease_renew_interval (wk_wait w)"
  have rs: "sp_id r1 \<notin> sp_id ` set rs" using ids_distinct [OF q(2)] q(1) by simp
  then have ne: "sp_id r \<noteq> sp_id r1" if "r \<in> set rs" for r using imageI [OF that, of sp_id] by auto
  then have "map (\<lambda>r. if (P r \<and> sp_id r = sp_id r1) then h r else r) rs = rs" for P h
    by (intro map_idI) auto
  moreover obtain P h where "\<forall>r. sp_id (h r) = sp_id r \<and> sp_owner (h r) = sp_owner r"
    "queue (fst (renewal (sp_id r1) w)) = map (\<lambda>r. if (P r \<and> sp_id r = sp_id r1) then h r else r) (queue w)"
    using renewal_queue by blast
  ultimately obtain r2 where r2: "queue (fst (renewal (sp_id r1) w)) = r2 # rs" "sp_id r2 = sp_id r1" "sp_owner r2 = sp_owner r1"
    using q(1) by (cases "P r1") auto
  have "spool_ok (fst (renew (ac_owner w) [sp_id r1] (wk_wait w) ?now (ac_spool w)))"
    using spool_step_ok [OF q(2), of "Renewed (ac_owner w) [sp_id r1] (wk_wait w)" ?now] by simp
  moreover have "same_spool (ac_spool w) (fst (renew (ac_owner w) [sp_id r1] (wk_wait w) ?now (ac_spool w)))"
    using same_spool_step [of "ac_spool w" "Renewed (ac_owner w) [sp_id r1] (wk_wait w)" ?now] by simp
  moreover have "lease_renew_interval (wk_wait w) \<ge> 0"
    using lease_renew_interval_bounds(1) [of "wk_wait w"] by (simp add: minimum_renew_interval_def)
  ultimately show ?thesis using r2 q(2)
    by (auto simp: renewal_def Let_def calm_def same_spool_def split: prod.splits option.splits)
qed

lemma ticks_head:
  assumes "queue w = r1 # rs" "spool_ok (ac_spool w)"
  shows "\<exists>r2. queue (fst (renew_ticks (renewal (sp_id r1)) n w)) = r2 # rs \<and> sp_id r2 = sp_id r1 \<and> sp_owner r2 = sp_owner r1
    \<and> calm w (fst (renew_ticks (renewal (sp_id r1)) n w)) \<and> spool_ok (ac_spool (fst (renew_ticks (renewal (sp_id r1)) n w)))
    \<and> ac_forwarded (fst (renew_ticks (renewal (sp_id r1)) n w)) = ac_forwarded w"
proof (rule renew_ticks_invariant [where P = "\<lambda>v. \<exists>r2. queue v = r2 # rs \<and> sp_id r2 = sp_id r1 \<and> sp_owner r2 = sp_owner r1
    \<and> calm w v \<and> spool_ok (ac_spool v) \<and> ac_forwarded v = ac_forwarded w"])
  show "\<exists>r2. queue w = r2 # rs \<and> sp_id r2 = sp_id r1 \<and> sp_owner r2 = sp_owner r1 \<and> calm w w \<and> spool_ok (ac_spool w)
      \<and> ac_forwarded w = ac_forwarded w"
    using assms by (simp add: calm_def same_spool_def)
next
  fix v assume "\<exists>r2. queue v = r2 # rs \<and> sp_id r2 = sp_id r1 \<and> sp_owner r2 = sp_owner r1
    \<and> calm w v \<and> spool_ok (ac_spool v) \<and> ac_forwarded v = ac_forwarded w"
  then obtain r2 where v: "queue v = r2 # rs" "sp_id r2 = sp_id r1" "sp_owner r2 = sp_owner r1" "calm w v"
    "spool_ok (ac_spool v)" "ac_forwarded v = ac_forwarded w" by blast
  from renewal_head [OF v(1,5)] v show "\<exists>r2. queue (fst (renewal (sp_id r1) v)) = r2 # rs \<and> sp_id r2 = sp_id r1
      \<and> sp_owner r2 = sp_owner r1 \<and> calm w (fst (renewal (sp_id r1) v)) \<and> spool_ok (ac_spool (fst (renewal (sp_id r1) v)))
      \<and> ac_forwarded (fst (renewal (sp_id r1) v)) = ac_forwarded w"
    using calm_trans by (metis (no_types, lifting))
qed


lemma delete_head:
  assumes q: "queue w = r2 # rs" "spool_ok (ac_spool w)" and o: "sp_owner r2 = ac_owner w" "trim_space (ac_owner w) \<noteq> []" "\<not> wk_closed w"
  shows "\<exists>w'. delete_delivered (sp_id r2) w = (w', []) \<and> queue w' = rs \<and> calm w w' \<and> spool_ok (ac_spool w') \<and> ac_forwarded w' = ac_forwarded w"
proof -
  have "sp_id r2 \<notin> sp_id ` set rs" using ids_distinct [OF q(2)] q(1) by simp
  then have ne: "sp_id r \<noteq> sp_id r2" if "r \<in> set rs" for r using imageI [OF that, of sp_id] by auto
  have "filter (\<lambda>r. sp_id r = sp_id r2 \<and> sp_owner r = ac_owner w) rs = []" using ne by (auto simp: filter_empty_conv)
  moreover have "filter (\<lambda>r. \<not> (sp_id r = sp_id r2 \<and> sp_owner r = ac_owner w)) rs = rs" using ne by (intro filter_True) auto
  ultimately have d: "delete (ac_owner w) (sp_id r2) (ac_spool w) = ((ac_spool w)\<lparr>sp_rows := rs\<rparr>, None)"
    using q(1) o(1,2) by (simp add: delete_def Let_def)
  moreover have "spool_ok ((ac_spool w)\<lparr>sp_rows := rs\<rparr>)" using spool_step_ok [OF q(2), of "Deleted (ac_owner w) (sp_id r2)" 0] d by simp
  ultimately show ?thesis using o(3) by (simp add: delete_delivered_def calm_def same_spool_def)
qed

lemma deliver_head:
  assumes q: "queue w = r1 # rs" "spool_ok (ac_spool w)" "rq_id x = sp_id r1"
    and o: "sp_owner r1 = ac_owner w" "trim_space (ac_owner w) \<noteq> []" "\<not> wk_closed w"
    and d: "deliver_spooled_request x w = (w', e)"
  shows "calm w w' \<and> spool_ok (ac_spool w')
    \<and> (if e = [] then queue w' = rs \<and> ac_forwarded w' = ac_forwarded w @ [sp_id r1]
       else map sp_id (queue w') = map sp_id (queue w) \<and> ac_forwarded w' \<in> {ac_forwarded w, ac_forwarded w @ [sp_id r1]})"
proof (cases "fs_replays (next_script w)")
  case False
  then show ?thesis using d q by (auto simp: deliver_spooled_request_def Let_def calm_def same_spool_def)
next
  case True
  let ?w = "w\<lparr>ac_scripts := tl (ac_scripts w)\<rparr>"
  obtain w1 err c where f: "forward_spool_request (rq_id x) (next_script w) ?w = (w1, err, c)" by (metis prod_cases3)
  obtain r2 where "queue (fst (renew_ticks (renewal (sp_id r1)) (fs_ticks (next_script w)) ?w)) = r2 # rs"
    "sp_id r2 = sp_id r1" "sp_owner r2 = sp_owner r1"
    "calm ?w (fst (renew_ticks (renewal (sp_id r1)) (fs_ticks (next_script w)) ?w))"
    "spool_ok (ac_spool (fst (renew_ticks (renewal (sp_id r1)) (fs_ticks (next_script w)) ?w)))"
    "ac_forwarded (fst (renew_ticks (renewal (sp_id r1)) (fs_ticks (next_script w)) ?w)) = ac_forwarded ?w"
    using ticks_head [of ?w r1 rs "fs_ticks (next_script w)"] q(1,2) by auto
  then have w1: "queue w1 = r2 # rs" "sp_id r2 = sp_id r1" "sp_owner r2 = sp_owner r1" "calm w w1" "spool_ok (ac_spool w1)"
    "ac_forwarded w1 = ac_forwarded w @ [sp_id r1]"
    using forward_world [OF f] q(3) by (auto simp: Let_def calm_def)
  show ?thesis
  proof (cases "err = []")
    case False
    then show ?thesis using d f True w1 q(1) by (auto simp: deliver_spooled_request_def Let_def calm_def)
  next
    case noerr: True
    obtain w2 where w2: "delete_delivered (sp_id r2) w1 = (w2, [])" "queue w2 = rs" "calm w1 w2" "spool_ok (ac_spool w2)"
      "ac_forwarded w2 = ac_forwarded w1"
      using delete_head [OF w1(1,5)] w1(3,4) o by (auto simp: calm_def)
    have "e = [] \<and> (\<exists>res. w' = complete_spool_request (rq_id x) res w2)"
      using d f True noerr w2(1) w1(2) q(3) by (auto simp: deliver_spooled_request_def Let_def split: if_splits)
    then show ?thesis using w2 w1 calm_trans [of w w1 w2] by (auto simp: calm_def)
  qed
qed

lemma drainable_next:
  assumes "drainable w" "queue w = r # rs" "calm w w'" "spool_ok (ac_spool w')" "queue w' = rs"
  shows "drainable w'"
proof -
  have "deliverable (ac_spool w') x = deliverable (ac_spool w) x" for x
    using assms(3) same_spool_decode [of "ac_spool w" "ac_spool w'"] by (simp add: calm_def deliverable_def)
  then show ?thesis using assms unfolding drainable_def calm_def claimable_def by (auto intro: order_trans)
qed

lemma process_in_order:
  assumes "drainable w" "process_loop w = (w', e)"
  shows "\<exists>k \<le> length (queue w). ac_forwarded w' = ac_forwarded w @ map sp_id (take k (queue w))
    \<and> (\<exists>j \<le> k. k \<le> Suc j \<and> map sp_id (queue w') = map sp_id (drop j (queue w)))
    \<and> (e = [] \<longrightarrow> k = length (queue w) \<and> queue w' = [] \<and> ac_drained w')"
  using assms
proof (induction w rule: process_loop.induct)
  case (1 w)
  show ?case
  proof (cases "queue w")
    case Nil
    have "guarded (ac_owner w) 1 (wk_wait w)" using "1.prems"(1) by (simp add: drainable_def guarded_def)
    then have "claim_next w = (w\<lparr>ac_spool := (ac_spool w)\<lparr>sp_tokens := Suc (sp_tokens (ac_spool w)), sp_rows := []\<rparr>\<rparr>, Inr [])"
      using "1.prems"(1) Nil by (simp add: claim_next_def claim_granted drainable_def oldest_def List.map_filter_simps)
    then show ?thesis using "1.prems"(2) Nil by (auto simp: process_loop.simps [of w])
  next
    case (Cons r rs)
    obtain x w1 r1 where c: "claim_next w = (w1, Inr [x])" "rq_id x = sp_id r" "queue w1 = r1 # rs" "sp_id r1 = sp_id r"
      "sp_owner r1 = ac_owner w" "calm w w1" "ac_forwarded w1 = ac_forwarded w" "spool_ok (ac_spool w1)"
      using claim_next_head [OF "1.prems"(1) Cons] by blast
    obtain w2 e2 where d: "deliver_spooled_request x w1 = (w2, e2)" by force
    have h: "calm w1 w2 \<and> spool_ok (ac_spool w2)
      \<and> (if e2 = [] then queue w2 = rs \<and> ac_forwarded w2 = ac_forwarded w1 @ [sp_id r1]
         else map sp_id (queue w2) = map sp_id (queue w1) \<and> ac_forwarded w2 \<in> {ac_forwarded w1, ac_forwarded w1 @ [sp_id r1]})"
      using "1.prems"(1) c by (intro deliver_head [OF c(3,8) _ _ _ _ d]) (auto simp: drainable_def calm_def)
    show ?thesis
    proof (cases "e2 = []")
      case True
      have "drainable w2" using drainable_next [OF "1.prems"(1) Cons calm_trans [OF c(6)]] h True by simp
      moreover have "process_loop w2 = (w', e)" using "1.prems"(2) c(1) d True by (simp add: process_loop.simps [of w])
      ultimately obtain k j where k: "k \<le> length rs" "ac_forwarded w' = ac_forwarded w2 @ map sp_id (take k rs)"
        "j \<le> k" "k \<le> Suc j" "map sp_id (queue w') = map sp_id (drop j rs)" "e = [] \<longrightarrow> k = length rs \<and> queue w' = [] \<and> ac_drained w'"
        using "1.IH" [OF c(1) [symmetric] refl refl d [symmetric] True] h True by auto
      then show ?thesis using h True c(4,7) Cons
        by (intro exI [of _ "Suc k"] conjI exI [of _ "Suc j"]) auto
    next
      case False
      then have "w' = w2" "e = e2" using "1.prems"(2) c(1) d by (cases e2; simp add: process_loop.simps [of w])+
      moreover have "map sp_id (queue w2) = map sp_id (queue w)" using h False c(3,4) Cons by simp
      moreover have "ac_forwarded w2 \<in> {ac_forwarded w, ac_forwarded w @ [sp_id r]}" using h False c(4,7) by simp
      ultimately show ?thesis using False Cons
        by (cases "ac_forwarded w2 = ac_forwarded w")
          (rule exI [of _ 0], simp, rule exI [of _ "Suc 0"], simp, rule exI [of _ 0], simp)
    qed
  qed
qed



subsection \<open>The properties at work\<close>

definition wit_act :: activator where
  "wit_act = \<lparr>wk_ctl = wk_ctl wit_waker, wk_now = 200, wk_closed = False, wk_wait = 1000000000, wk_attempts = 3,
     wk_answers = wk_answers wit_waker, wk_log = [], wk_pauses = [],
     ac_spool = fst (enqueue wit_request ''yo'' 150 (fst (enqueue wit_request ''hi'' 100
       \<lparr>sp_key = wit_key, sp_limits = wit_limits, sp_rows = [], sp_last = 0, sp_tokens = 1\<rparr>))),
     ac_owner = ''a1'', ac_max = 8, ac_drained = False, ac_waiters = [1, 2], ac_answers = [],
     ac_scripts = [\<lparr>fs_replays = True, fs_actions = [WriteBody ''ok''], fs_ticks = 2, fs_took = 5\<rparr>], ac_forwarded = []\<rparr>"


lemma wit_act_ok: "spool_ok (ac_spool wit_act)" "rq_method wit_request \<noteq> []" "rq_url wit_request \<noteq> []" "rq_header wit_request \<noteq> None"
  by code_simp+

theorem accepted_request_kept_witness:
  "stored (ac_spool (fst (serve_durable wit_request (BodyRead ''a'') False True [] wit_act))) 3
       (Sealed wit_key (wit_request\<lparr>rq_id := 0, rq_body := ''a'', rq_created := 200\<rparr>))
     \<or> 3 \<in> set (ac_forwarded (fst (serve_durable wit_request (BodyRead ''a'') False True [] wit_act)))"
proof -
  obtain w' answer where s: "serve_durable wit_request (BodyRead ''a'') False True [] wit_act = (w', answer)" by force
  have "snd (enqueue wit_request ''a'' (wk_now wit_act) (ac_spool wit_act)) = Inr 3" by code_simp
  moreover have "sp_key (ac_spool wit_act) = wit_key" "wk_now wit_act = 200" "ac_max wit_act = 8"
    by (simp_all add: wit_act_def enqueue_def Let_def wit_limits_def)
  ultimately show ?thesis using accepted_request_kept [OF s wit_act_ok] s by auto
qed

subsection \<open>A claim that quarantines reads as an empty queue\<close>

text \<open>
  \<^verbatim>\<open>processSpool\<close> claims one row at a time and takes an empty answer for an empty queue. A claim whose
  one row does not decode quarantines it and answers empty, so the drain stops there and calls the
  spool drained while a deliverable request is queued behind the bad row; from then on
  \<^verbatim>\<open>servingDirectly\<close> lets new requests overtake it until the next tick of the drain loop.
\<close>

definition wit_rotated :: activator where
  "wit_rotated = wit_act\<lparr>wk_ctl := (wk_ctl wit_act)\<lparr>view := (view (wk_ctl wit_act))\<lparr>st := Active\<rparr>\<rparr>, ac_spool := wit_filled\<rparr>"

lemma quarantining_claim:
  "\<exists>s'. claim ''a1'' 1 1000000000 200 200 wit_filled = (s', Inr []) \<and> pending s' = 1"
  by (simp add: wit_spool_simps claim_def trim_space_def go_space_def claimable_def decode_payload_def open_sealed_def
      wit_key_rotated pending_def)

lemma quarantine_reads_as_drained:
  "\<exists>w'. process_loop wit_rotated = (w', []) \<and> serving_directly w' \<and> pending (ac_spool w') = 1 \<and> ac_forwarded w' = []"
proof -
  obtain s' where "claim ''a1'' 1 1000000000 200 200 wit_filled = (s', Inr [])" "pending s' = 1" using quarantining_claim by blast
  then have "claim_next wit_rotated = (wit_rotated\<lparr>ac_spool := s'\<rparr>, Inr [])"
    by (simp add: claim_next_def wit_rotated_def wit_act_def)
  then show ?thesis using \<open>pending s' = 1\<close>
    by (simp add: process_loop.simps [of wit_rotated]) (simp add: serving_directly_def wit_rotated_def wit_act_def)
qed

end
