(* ===== verification/Rate_Limit.thy ===== *)
theory Rate_Limit
  imports Go_Values
begin

section \<open>Rate limiting\<close>

text \<open>
  \<^verbatim>\<open>RateAllowance\<close> of \<^verbatim>\<open>internal/domain/rate_limit.go\<close>, the three stores of arrival times that enforce
  it (\<^verbatim>\<open>TakeRateToken\<close> of the memory store, of the SQL store and of the Web API's own
  \<^verbatim>\<open>localRateTokens\<close>), and the \<^verbatim>\<open>RateLimiter\<close> middleware of \<^verbatim>\<open>internal/api/slack/ratelimit.go\<close> in front
  of every method. A duration is Go's \<open>int64\<close> of nanoseconds: products wrap (\<open>int64\<close>) and
  \<^verbatim>\<open>time.Time.Sub\<close> saturates (\<open>time_sub\<close>). The SQL table holds Unix microseconds. The two method
  tables of \<^verbatim>\<open>ratelimit_tiers.go\<close> are arguments, as is the hash that names a limit (SHA-256).

  The locale \<open>rate_tokens\<close> says what a store of arrival times promises; each of the three stores
  interprets it, and the equivalence with token buckets and the bound on what the middleware serves
  are proved once, inside it.
\<close>

subsection \<open>The allowance\<close>

record rate_allowance =
  ra_interval :: duration
  ra_burst :: int

definition valid_allowance :: "rate_allowance \<Rightarrow> bool" where
  "valid_allowance a \<longleftrightarrow> ra_interval a > 0 \<and> ra_burst a \<ge> 1"

definition tolerance :: "rate_allowance \<Rightarrow> duration" where
  "tolerance a = int64 ((ra_burst a - 1) * ra_interval a)"

definition admit :: "rate_allowance \<Rightarrow> time \<Rightarrow> time \<Rightarrow> time \<times> duration \<times> bool" where
  "admit a arrival now =
     (let start = (if arrival < now then now else arrival);
          wait = int64 (time_sub start now - tolerance a)
      in if wait > 0 then (arrival, wait, False) else (start + ra_interval a, 0, True))"

subsection \<open>Keys\<close>

definition max_rate_limit_key_bytes :: nat where
  "max_rate_limit_key_bytes = 128"

definition valid_rate_limit_key :: "string \<Rightarrow> bool" where
  "valid_rate_limit_key key \<longleftrightarrow> key \<noteq> [] \<and> length key \<le> max_rate_limit_key_bytes
     \<and> utf8_valid (map of_char key) \<and> CHR 0x00 \<notin> set key"

subsection \<open>Three stores of arrival times\<close>

datatype rate_error = RateArgument

definition rate_sweep_interval :: duration where
  "rate_sweep_interval = 60000000000"

record rate_store =
  rs_arrivals :: "string \<rightharpoonup> time"
  rs_swept :: time

definition arrival_of :: "(string \<rightharpoonup> time) \<Rightarrow> string \<Rightarrow> time" where
  "arrival_of m k = (case m k of None \<Rightarrow> 0 | Some t \<Rightarrow> t)"

definition drop_passed :: "int \<Rightarrow> (string \<rightharpoonup> int) \<Rightarrow> (string \<rightharpoonup> int)" where
  "drop_passed now m = (\<lambda>k. case m k of None \<Rightarrow> None | Some t \<Rightarrow> if t < now then None else Some t)"

text \<open>The memory store.\<close>

definition memory_take ::
  "rate_allowance \<Rightarrow> string \<Rightarrow> time \<Rightarrow> rate_store \<Rightarrow> rate_store \<times> (rate_error + duration \<times> bool)" where
  "memory_take a key now s =
     (if \<not> valid_rate_limit_key key then (s, Inl RateArgument)
      else if \<not> valid_allowance a then (s, Inl RateArgument)
      else
        let s1 = (if time_sub now (rs_swept s) \<ge> rate_sweep_interval
                  then s\<lparr>rs_swept := now, rs_arrivals := drop_passed now (rs_arrivals s)\<rparr> else s)
        in case admit a (arrival_of (rs_arrivals s1) key) now of (arrival, wait, admitted) \<Rightarrow>
             if \<not> admitted then (s1, Inr (wait, False))
             else (s1\<lparr>rs_arrivals := (rs_arrivals s1)(key \<mapsto> arrival)\<rparr>, Inr (0, True)))"

text \<open>The Web API process's own store.\<close>

definition local_take ::
  "rate_allowance \<Rightarrow> string \<Rightarrow> time \<Rightarrow> rate_store \<Rightarrow> rate_store \<times> (rate_error + duration \<times> bool)" where
  "local_take a key now s =
     (let s1 = (if time_sub now (rs_swept s) \<ge> rate_sweep_interval
                then s\<lparr>rs_swept := now, rs_arrivals := drop_passed now (rs_arrivals s)\<rparr> else s)
      in case admit a (arrival_of (rs_arrivals s1) key) now of (arrival, wait, admitted) \<Rightarrow>
           (if admitted then s1\<lparr>rs_arrivals := (rs_arrivals s1)(key \<mapsto> arrival)\<rparr> else s1, Inr (wait, admitted)))"

text \<open>
  The SQL store: one table that every replica shares, and each replica's own sweep clock. One
  attempt is one transaction; \<open>between\<close> is what other replicas commit between its conditional
  update and its read of the row.
\<close>

record rate_db =
  db_rows :: "string \<rightharpoonup> int"
  db_swept :: "nat \<Rightarrow> time"

definition unix_micro :: "time \<Rightarrow> int" where
  "unix_micro t = (t - 62135596800 * 1000000000) div 1000"

definition micro_interval :: "rate_allowance \<Rightarrow> int" where
  "micro_interval a = (let interval = ra_interval a div 1000 in if interval < 1 then 1 else interval)"

definition take_once ::
  "((string \<rightharpoonup> int) \<Rightarrow> (string \<rightharpoonup> int)) \<Rightarrow> rate_allowance \<Rightarrow> string \<Rightarrow> time \<Rightarrow> (string \<rightharpoonup> int)
    \<Rightarrow> (string \<rightharpoonup> int) \<times> duration \<times> bool \<times> bool" where
  "take_once between a key now rows =
     (let at = unix_micro now; interval = micro_interval a; tol = int64 ((ra_burst a - 1) * interval)
      in case rows key of
           None \<Rightarrow> (rows(key \<mapsto> at + interval), 0, True, False)
         | Some arrival \<Rightarrow>
             if (if arrival > at then arrival else at) \<le> at + tol
             then (rows(key \<mapsto> (if arrival > at then arrival else at) + interval), 0, True, False)
             else (case between rows key of
                 None \<Rightarrow> (between rows, 0, False, True)
               | Some current \<Rightarrow>
                   let wait = int64 ((current - at - tol) * 1000)
                   in (between rows, if wait < 1000 then 1000 else wait, False, False)))"

function take_attempts ::
  "nat \<Rightarrow> (nat \<Rightarrow> (string \<rightharpoonup> int) \<Rightarrow> (string \<rightharpoonup> int)) \<Rightarrow> rate_allowance \<Rightarrow> string \<Rightarrow> time \<Rightarrow> (string \<rightharpoonup> int)
    \<Rightarrow> (string \<rightharpoonup> int) \<times> duration \<times> bool" where
  "take_attempts attempt between a key now rows =
     (case take_once (between attempt) a key now rows of (rows', wait, admitted, collected) \<Rightarrow>
        if \<not> collected \<or> attempt \<ge> 2 then (rows', wait, admitted)
        else take_attempts (Suc attempt) between a key now rows')"
  by pat_completeness auto
termination by (relation "measure (\<lambda>(attempt, _). 3 - attempt)") auto

declare take_attempts.simps [simp del]

definition sweep_rate_limits :: "nat \<Rightarrow> time \<Rightarrow> rate_db \<Rightarrow> rate_db" where
  "sweep_rate_limits replica now s =
     (if time_sub now (db_swept s replica) \<ge> rate_sweep_interval
      then s\<lparr>db_swept := (db_swept s)(replica := now), db_rows := drop_passed (unix_micro now) (db_rows s)\<rparr> else s)"

definition sql_take ::
  "(nat \<Rightarrow> (string \<rightharpoonup> int) \<Rightarrow> (string \<rightharpoonup> int)) \<Rightarrow> nat \<Rightarrow> rate_allowance \<Rightarrow> string \<Rightarrow> time \<Rightarrow> rate_db
    \<Rightarrow> rate_db \<times> (rate_error + duration \<times> bool)" where
  "sql_take between replica a key now s =
     (if \<not> valid_rate_limit_key key then (s, Inl RateArgument)
      else if \<not> valid_allowance a then (s, Inl RateArgument)
      else
        let s1 = sweep_rate_limits replica now s
        in case take_attempts 0 between a key now (db_rows s1) of (rows, wait, admitted) \<Rightarrow>
             (s1\<lparr>db_rows := rows\<rparr>, Inr (wait, admitted)))"

subsection \<open>The middleware\<close>

record rate_tier =
  per_minute :: int
  tier_burst :: int

definition tier1 :: rate_tier where "tier1 = \<lparr>per_minute = 1, tier_burst = 3\<rparr>"
definition tier2 :: rate_tier where "tier2 = \<lparr>per_minute = 20, tier_burst = 20\<rparr>"
definition tier3 :: rate_tier where "tier3 = \<lparr>per_minute = 50, tier_burst = 50\<rparr>"
definition tier4 :: rate_tier where "tier4 = \<lparr>per_minute = 100, tier_burst = 100\<rparr>"
definition tier_hundreds :: rate_tier where "tier_hundreds = \<lparr>per_minute = 600, tier_burst = 600\<rparr>"
definition tier_blocks_validate :: rate_tier where "tier_blocks_validate = \<lparr>per_minute = 60, tier_burst = 60\<rparr>"

text \<open>The quotient is a \<open>float64\<close> in the code; every tier's divides the minute exactly.\<close>

definition tier_allowance :: "rate_tier \<Rightarrow> rate_allowance" where
  "tier_allowance t = \<lparr>ra_interval = 60000000000 div per_minute t, ra_burst = tier_burst t\<rparr>"

definition posting_allowance :: rate_allowance where
  "posting_allowance = \<lparr>ra_interval = 1000000000 div 1, ra_burst = 5\<rparr>"

definition method_tier :: "(string \<rightharpoonup> rate_tier) \<Rightarrow> (string \<rightharpoonup> rate_tier) \<Rightarrow> string \<Rightarrow> rate_tier" where
  "method_tier published reference method =
     (case published method of Some t \<Rightarrow> t
      | None \<Rightarrow> (case reference method of Some t \<Rightarrow> t | None \<Rightarrow> tier4))"

text \<open>
  A request as the limiter sees it: its path, bearer token, remote address, and the channel
  \<^verbatim>\<open>postedChannel\<close> reads from its query or body.
\<close>

record api_request =
  ar_path :: string
  ar_token :: string
  ar_remote :: string
  ar_channel :: "string option"

definition strip_port :: "string \<Rightarrow> string" where
  "strip_port host =
     (let rest = dropWhile (\<lambda>c. c \<noteq> CHR '':'') (rev host) in if length rest > 1 then rev (tl rest) else host)"

definition rate_limit_credential :: "(string \<Rightarrow> string) \<Rightarrow> api_request \<Rightarrow> string" where
  "rate_limit_credential hash r =
     (if ar_token r \<noteq> [] then hash (ar_token r) else ''addr'' @ CHR 0x00 # strip_port (ar_remote r))"

definition api_method :: "api_request \<Rightarrow> string" where
  "api_method r = (if take 5 (ar_path r) = ''/api/'' then drop 5 (ar_path r) else ar_path r)"

definition method_key :: "(string \<Rightarrow> string) \<Rightarrow> api_request \<Rightarrow> string" where
  "method_key hash r = hash (''method'' @ CHR 0x00 # api_method r @ CHR 0x00 # rate_limit_credential hash r)"

definition channel_key :: "(string \<Rightarrow> string) \<Rightarrow> string \<Rightarrow> api_request \<Rightarrow> string" where
  "channel_key hash channel r = hash (''channel'' @ CHR 0x00 # channel @ CHR 0x00 # rate_limit_credential hash r)"

type_synonym 's tokens = "rate_allowance \<Rightarrow> string \<Rightarrow> time \<Rightarrow> 's \<Rightarrow> 's \<times> (rate_error + duration \<times> bool)"

definition limiter_take :: "'s tokens \<Rightarrow> string \<Rightarrow> rate_allowance \<Rightarrow> time \<Rightarrow> 's \<Rightarrow> 's \<times> duration \<times> bool" where
  "limiter_take tokens hashed a now s =
     (case tokens a hashed now s of
        (s', Inl e) \<Rightarrow> (s', 0, False)
      | (s', Inr (wait, admitted)) \<Rightarrow> (s', wait, \<not> admitted))"

text \<open>\<^verbatim>\<open>math.Ceil(retryAfter.Seconds())\<close>, exact for waits under fifty days.\<close>

definition retry_after_seconds :: "duration \<Rightarrow> int" where
  "retry_after_seconds wait = (let seconds = - ((- wait) div 1000000000) in if seconds < 1 then 1 else seconds)"

datatype answer = Served | is_rate_limited: RateLimited int | PostingLimited int

definition middleware ::
  "(string \<rightharpoonup> rate_tier) \<Rightarrow> (string \<rightharpoonup> rate_tier) \<Rightarrow> (string \<Rightarrow> string) \<Rightarrow> 's tokens \<Rightarrow> api_request \<Rightarrow> time \<Rightarrow> 's
    \<Rightarrow> 's \<times> answer" where
  "middleware published reference hash tokens r now s =
     (let method = api_method r
      in if method = [] \<or> CHR ''/'' \<in> set method then (s, Served)
         else
           case limiter_take tokens (method_key hash r) (tier_allowance (method_tier published reference method)) now s of
             (s1, wait, True) \<Rightarrow> (s1, RateLimited (retry_after_seconds wait))
           | (s1, wait, False) \<Rightarrow>
               (case (if method = ''chat.postMessage'' then ar_channel r else None) of
                  None \<Rightarrow> (s1, Served)
                | Some channel \<Rightarrow>
                    (case limiter_take tokens (channel_key hash channel r) posting_allowance now s1 of
                       (s2, wait, True) \<Rightarrow> (s2, PostingLimited (retry_after_seconds wait))
                     | (s2, wait, False) \<Rightarrow> (s2, Served))))"

subsection \<open>Runs, and the token bucket they are to agree with\<close>

text \<open>
  A run of calls, each \<open>(caller, key, time)\<close>: the answers, and the store it leaves. The callers
  of the shared table are the replicas.
\<close>

fun take_calls ::
  "('c \<Rightarrow> 's tokens) \<Rightarrow> (string \<Rightarrow> rate_allowance) \<Rightarrow> ('c \<times> string \<times> time) list \<Rightarrow> 's
    \<Rightarrow> (rate_error + duration \<times> bool) list \<times> 's" where
  "take_calls token allow [] s = ([], s)"
| "take_calls token allow ((c, k, now) # calls) s =
     (case token c (allow k) k now s of (s1, r) \<Rightarrow>
        case take_calls token allow calls s1 of (rs, s2) \<Rightarrow> (r # rs, s2))"

text \<open>
  The reference: one bucket per key, whose level is counted in nanoseconds of refill. A bucket of
  \<open>burst\<close> tokens gains one every \<open>pace\<close>, and a call takes one or is told how long the next needs.
\<close>

record bucket =
  bk_level :: int
  bk_at :: time

definition bucket_take :: "int \<Rightarrow> duration \<Rightarrow> time \<Rightarrow> bucket \<Rightarrow> bucket \<times> duration \<times> bool" where
  "bucket_take burst pace now b =
     (let level = min (burst * pace) (bk_level b + (now - bk_at b))
      in if pace \<le> level then (\<lparr>bk_level = level - pace, bk_at = now\<rparr>, 0, True)
         else (\<lparr>bk_level = level, bk_at = now\<rparr>, pace - level, False))"

fun bucket_calls ::
  "(time \<Rightarrow> time) \<Rightarrow> (rate_allowance \<Rightarrow> duration) \<Rightarrow> (string \<Rightarrow> rate_allowance) \<Rightarrow> ('c \<times> string \<times> time) list
    \<Rightarrow> (string \<Rightarrow> bucket) \<Rightarrow> (rate_error + duration \<times> bool) list" where
  "bucket_calls clock pace allow [] bs = []"
| "bucket_calls clock pace allow ((c, k, now) # calls) bs =
     (case bucket_take (ra_burst (allow k)) (pace (allow k)) (clock now) (bs k) of (b, wait, ok) \<Rightarrow>
        Inr (wait, ok) # bucket_calls clock pace allow calls (bs(k := b)))"

definition full_buckets ::
  "(time \<Rightarrow> time) \<Rightarrow> (rate_allowance \<Rightarrow> duration) \<Rightarrow> (string \<Rightarrow> rate_allowance) \<Rightarrow> string \<Rightarrow> bucket" where
  "full_buckets clock pace allow k = \<lparr>bk_level = ra_burst (allow k) * pace (allow k), bk_at = clock 0\<rparr>"

text \<open>Calls at nondecreasing times from \<open>t\<close> on, with keys that name a limit.\<close>

fun calls_from :: "time \<Rightarrow> ('c \<times> string \<times> time) list \<Rightarrow> bool" where
  "calls_from t [] = True"
| "calls_from t ((c, k, now) # calls) = (t \<le> now \<and> valid_rate_limit_key k \<and> calls_from now calls)"

abbreviation end_time :: "time \<Rightarrow> ('c \<times> string \<times> time) list \<Rightarrow> time" where
  "end_time t calls \<equiv> last (t # map (\<lambda>(_, _, now). now) calls)"

lemma calls_from_append: "calls_from t (xs @ ys) \<longleftrightarrow> calls_from t xs \<and> calls_from (end_time t xs) ys"
  by (induction t xs rule: calls_from.induct) auto

lemma calls_from_end: "calls_from t xs \<Longrightarrow> t \<le> end_time t xs"
  by (induction t xs rule: calls_from.induct) auto

lemma calls_from_snoc: "calls_from t (calls @ [(c, k, later)]) \<Longrightarrow> t \<le> later \<and> valid_rate_limit_key k \<and> calls_from t calls"
  using calls_from_end [of t calls] by (simp add: calls_from_append)

text \<open>Requests to the middleware, each \<open>(replica, request, time)\<close>, and their answers.\<close>

fun serve_calls ::
  "('c \<Rightarrow> api_request \<Rightarrow> time \<Rightarrow> 's \<Rightarrow> 's \<times> answer) \<Rightarrow> ('c \<times> api_request \<times> time) list \<Rightarrow> 's \<Rightarrow> answer list" where
  "serve_calls mw [] s = []"
| "serve_calls mw ((c, r, now) # calls) s = (case mw c r now s of (s1, a) \<Rightarrow> a # serve_calls mw calls s1)"

fun times_within :: "time \<Rightarrow> time \<Rightarrow> ('c \<times> api_request \<times> time) list \<Rightarrow> bool" where
  "times_within t t' [] = (t \<le> t')"
| "times_within t t' ((c, r, now) # calls) = (t \<le> now \<and> times_within now t' calls)"

definition count_calls :: "(api_request \<Rightarrow> answer \<Rightarrow> bool) \<Rightarrow> ('c \<times> api_request \<times> time) list \<Rightarrow> answer list \<Rightarrow> int" where
  "count_calls P calls as = int (length (filter (\<lambda>((c, r, now), a). P r a) (zip calls as)))"

subsection \<open>What a store of arrival times promises\<close>

text \<open>
  An allowance whose products stay within an \<open>int64\<close>; a store may round the interval up to a
  microsecond.
\<close>

definition fits :: "rate_allowance \<Rightarrow> bool" where
  "fits a \<longleftrightarrow> valid_allowance a \<and> ra_burst a * max 1000 (ra_interval a) < 2 ^ 63"

text \<open>
  \<open>ahead t s k\<close> is how far the arrival time of key \<open>k\<close> runs ahead of \<open>t\<close>. A store reads the time
  through \<open>clock\<close> and spaces the calls of an allowance by \<open>pace\<close>: a call is admitted exactly when
  the arrival time is at most the burst less one call ahead, moves it by one \<open>pace\<close> then, and leaves
  every other key alone.
\<close>

locale rate_tokens =
  fixes token :: "'c \<Rightarrow> 's tokens" and ahead :: "time \<Rightarrow> 's \<Rightarrow> string \<Rightarrow> int"
    and clock :: "time \<Rightarrow> time" and pace :: "rate_allowance \<Rightarrow> duration"
  assumes clock_mono: "t \<le> t' \<Longrightarrow> clock t \<le> clock t'"
    and clock_grain: "clock (t + max 0 (ahead t s k - n * pace a)) = clock t + max 0 (ahead t s k - n * pace a)"
    and pace_pos: "fits a \<Longrightarrow> 0 < pace a"
    and ahead_nonneg: "0 \<le> ahead t s k"
    and ahead_later: "0 \<le> t \<Longrightarrow> t \<le> t' \<Longrightarrow> ahead t' s k = max 0 (ahead t s k - (clock t' - clock t))"
    and decides: "\<lbrakk>fits a; valid_rate_limit_key k; 0 \<le> now; token c a k now s = (s', r)\<rbrakk> \<Longrightarrow>
      \<exists>w. r = Inr (w, ahead now s k \<le> (ra_burst a - 1) * pace a)"
    and charges: "\<lbrakk>fits a; valid_rate_limit_key k; 0 \<le> now; token c a k now s = (s', r)\<rbrakk> \<Longrightarrow>
      ahead now s' k' = ahead now s k' + (if k' = k \<and> ahead now s k \<le> (ra_burst a - 1) * pace a then pace a else 0)"
    and waits: "\<lbrakk>fits a; valid_rate_limit_key k; 0 \<le> now; token c a k now s = (s', Inr (w, ok));
      ahead now s k \<le> ra_burst a * pace a\<rbrakk> \<Longrightarrow> w = max 0 (ahead now s k - (ra_burst a - 1) * pace a)"

lemma rate_tokensI:
  assumes "\<And>t t'. t \<le> t' \<Longrightarrow> clock t \<le> clock t'"
    "\<And>t s k n a. clock (t + max 0 (ahead t s k - n * pace a)) = clock t + max 0 (ahead t s k - n * pace a)" "\<And>a. fits a \<Longrightarrow> 0 < pace a" "\<And>t s k. 0 \<le> ahead t s k"
    and "\<And>t t' s k. 0 \<le> t \<Longrightarrow> t \<le> t' \<Longrightarrow> ahead t' s k = max 0 (ahead t s k - (clock t' - clock t))"
    and steps: "\<And>c a k now s s' r k'. \<lbrakk>fits a; valid_rate_limit_key k; 0 \<le> now; token c a k now s = (s', r)\<rbrakk> \<Longrightarrow>
      \<exists>w. r = Inr (w, ahead now s k \<le> (ra_burst a - 1) * pace a)
        \<and> (ahead now s k \<le> ra_burst a * pace a \<longrightarrow> w = max 0 (ahead now s k - (ra_burst a - 1) * pace a))
        \<and> ahead now s' k' = ahead now s k'
            + (if k' = k \<and> ahead now s k \<le> (ra_burst a - 1) * pace a then pace a else 0)"
  shows "rate_tokens token ahead clock pace"
proof
  fix c a k now s s' r k'
  assume p: "fits a" "valid_rate_limit_key k" "0 \<le> now" "token c a k now s = (s', r)"
  show "\<exists>w. r = Inr (w, ahead now s k \<le> (ra_burst a - 1) * pace a)" using steps [OF p] by blast
  show "ahead now s' k' = ahead now s k' + (if k' = k \<and> ahead now s k \<le> (ra_burst a - 1) * pace a then pace a else 0)"
    using steps [OF p, of k'] by blast
next
  fix c a k now s s' w ok
  assume p: "fits a" "valid_rate_limit_key k" "0 \<le> now" "token c a k now s = (s', Inr (w, ok))"
    and "ahead now s k \<le> ra_burst a * pace a"
  then show "w = max 0 (ahead now s k - (ra_burst a - 1) * pace a)" using steps [OF p] by blast
qed (fact assms)+

subsection \<open>The three stores keep the promise\<close>

lemma fits_pos: "fits a \<Longrightarrow> 0 < ra_interval a \<and> 1 \<le> ra_burst a"
  by (simp add: fits_def valid_allowance_def)

lemma fits_product: "fits a \<Longrightarrow> 0 \<le> p \<Longrightarrow> p \<le> max 1000 (ra_interval a) \<Longrightarrow> ra_burst a * p < 2 ^ 63"
  by (smt (verit) fits_def fits_pos mult_left_mono)

lemma fits_tolerance:
  assumes "fits a" "0 < p" "p \<le> max 1000 (ra_interval a)"
  shows "int64 ((ra_burst a - 1) * p) = (ra_burst a - 1) * p" "0 \<le> (ra_burst a - 1) * p"
    "(ra_burst a - 1) * p + p < 2 ^ 63"
proof -
  have b: "ra_burst a * p < 2 ^ 63" using fits_product assms by simp
  have n: "0 \<le> (ra_burst a - 1) * p" using fits_pos [OF assms(1)] assms(2) by simp
  have e: "(ra_burst a - 1) * p + p = ra_burst a * p" by (simp add: algebra_simps)
  show "0 \<le> (ra_burst a - 1) * p" by (rule n)
  show "(ra_burst a - 1) * p + p < 2 ^ 63" using b e by simp
  show "int64 ((ra_burst a - 1) * p) = (ra_burst a - 1) * p"
    using b e n assms(2) by (intro int64_id) linarith+
qed

lemma admit_by_room:
  assumes "fits a"
  shows "admit a arrival now = (let d = max 0 (arrival - now); tol = (ra_burst a - 1) * ra_interval a in
    if d \<le> tol then (now + d + ra_interval a, 0, True) else (arrival, min (2 ^ 63 - 1) d - tol, False))"
proof -
  note t = fits_tolerance [OF assms, of "ra_interval a"] and i = fits_pos [OF assms]
  define tol where "tol = (ra_burst a - 1) * ra_interval a"
  have tol: "0 \<le> tol" "tol + ra_interval a < 2 ^ 63" "tolerance a = tol"
    using t i by (simp_all add: tol_def tolerance_def)
  define d where "d = max 0 (arrival - now)"
  have start: "(if arrival < now then now else arrival) = now + d" by (simp add: d_def)
  have sub: "time_sub (now + d) now = min (2 ^ 63 - 1) d" by (simp add: time_sub_def d_def)
  have w: "int64 (min (2 ^ 63 - 1) d - tol) = min (2 ^ 63 - 1) d - tol"
    using tol i by (intro int64_id) (auto simp: d_def)
  have "(min (2 ^ 63 - 1) d - tol > 0) \<longleftrightarrow> \<not> d \<le> tol" using tol i by linarith
  then show ?thesis
    unfolding admit_def Let_def start sub tol(3) w by (simp add: tol_def [symmetric] d_def [symmetric])
qed

lemma drop_passed_ahead:
  "0 \<le> now \<Longrightarrow> max 0 (arrival_of (drop_passed now m) k - now) = max 0 (arrival_of m k - now)"
  by (simp add: arrival_of_def drop_passed_def split: option.split)

definition store_ahead :: "time \<Rightarrow> rate_store \<Rightarrow> string \<Rightarrow> int" where
  "store_ahead t s k = max 0 (arrival_of (rs_arrivals s) k - t)"

lemma admit_steps:
  assumes "fits a" "0 \<le> now" and s1: "s1 = s \<or> s1 = s\<lparr>rs_swept := now, rs_arrivals := drop_passed now (rs_arrivals s)\<rparr>"
    and adm: "admit a (arrival_of (rs_arrivals s1) k) now = (arrival, w, ok)"
  shows "ok \<longleftrightarrow> store_ahead now s k \<le> (ra_burst a - 1) * ra_interval a"
    and "store_ahead now s k \<le> ra_burst a * ra_interval a \<Longrightarrow> w = max 0 (store_ahead now s k - (ra_burst a - 1) * ra_interval a)"
    and "store_ahead now (if ok then s1\<lparr>rs_arrivals := (rs_arrivals s1)(k \<mapsto> arrival)\<rparr> else s1) k'
      = store_ahead now s k' + (if k' = k \<and> ok then ra_interval a else 0)"
proof -
  have same: "store_ahead now s1 x = store_ahead now s x" for x
    using s1 drop_passed_ahead [OF assms(2)] by (auto simp: store_ahead_def)
  have b: "ra_burst a * ra_interval a < 2 ^ 63" using fits_product [OF assms(1)] fits_pos [OF assms(1)] by simp
  have i: "0 < ra_interval a" "0 \<le> store_ahead now s k" using fits_pos [OF assms(1)] by (simp_all add: store_ahead_def)
  have e: "ra_burst a * ra_interval a = (ra_burst a - 1) * ra_interval a + ra_interval a" by (simp add: algebra_simps)
  note a = adm [unfolded admit_by_room [OF assms(1)] Let_def store_ahead_def [of now s1 k, symmetric] same]
  show ok: "ok \<longleftrightarrow> store_ahead now s k \<le> (ra_burst a - 1) * ra_interval a"
    using a by (auto split: if_splits)
  show "store_ahead now s k \<le> ra_burst a * ra_interval a \<Longrightarrow> w = max 0 (store_ahead now s k - (ra_burst a - 1) * ra_interval a)"
    using a b by (auto split: if_splits)
  have "ok \<Longrightarrow> arrival = now + store_ahead now s k + ra_interval a" using a ok by auto
  then show "store_ahead now (if ok then s1\<lparr>rs_arrivals := (rs_arrivals s1)(k \<mapsto> arrival)\<rparr> else s1) k'
      = store_ahead now s k' + (if k' = k \<and> ok then ra_interval a else 0)"
    using same [of k'] i by (auto simp: store_ahead_def arrival_of_def)
qed

lemma memory_take_steps:
  assumes "fits a" "valid_rate_limit_key k" "0 \<le> now" "memory_take a k now s = (s', r)"
  shows "\<exists>w. r = Inr (w, store_ahead now s k \<le> (ra_burst a - 1) * ra_interval a)
    \<and> (store_ahead now s k \<le> ra_burst a * ra_interval a \<longrightarrow> w = max 0 (store_ahead now s k - (ra_burst a - 1) * ra_interval a))
    \<and> store_ahead now s' k' = store_ahead now s k'
        + (if k' = k \<and> store_ahead now s k \<le> (ra_burst a - 1) * ra_interval a then ra_interval a else 0)"
proof -
  define s1 where "s1 = (if time_sub now (rs_swept s) \<ge> rate_sweep_interval
    then s\<lparr>rs_swept := now, rs_arrivals := drop_passed now (rs_arrivals s)\<rparr> else s)"
  obtain arrival w ok where adm: "admit a (arrival_of (rs_arrivals s1) k) now = (arrival, w, ok)" by (cases "admit a (arrival_of (rs_arrivals s1) k) now") auto
  have "s1 = s \<or> s1 = s\<lparr>rs_swept := now, rs_arrivals := drop_passed now (rs_arrivals s)\<rparr>" by (simp add: s1_def)
  note st = admit_steps [OF assms(1,3) this adm]
  have v: "valid_allowance a" using assms(1) by (simp add: fits_def)
  have "s' = (if ok then s1\<lparr>rs_arrivals := (rs_arrivals s1)(k \<mapsto> arrival)\<rparr> else s1)" "r = Inr (if ok then 0 else w, ok)"
    using assms(4) v assms(2) unfolding memory_take_def Let_def s1_def [symmetric] adm by (simp_all split: if_splits)
  moreover have "ok \<Longrightarrow> (if ok then 0 else w) = max 0 (store_ahead now s k - (ra_burst a - 1) * ra_interval a)"
    using st(1) by simp
  ultimately show ?thesis using st by auto
qed

lemma local_take_steps:
  assumes "fits a" "0 \<le> now" "local_take a k now s = (s', r)"
  shows "\<exists>w. r = Inr (w, store_ahead now s k \<le> (ra_burst a - 1) * ra_interval a)
    \<and> (store_ahead now s k \<le> ra_burst a * ra_interval a \<longrightarrow> w = max 0 (store_ahead now s k - (ra_burst a - 1) * ra_interval a))
    \<and> store_ahead now s' k' = store_ahead now s k'
        + (if k' = k \<and> store_ahead now s k \<le> (ra_burst a - 1) * ra_interval a then ra_interval a else 0)"
proof -
  define s1 where "s1 = (if time_sub now (rs_swept s) \<ge> rate_sweep_interval
    then s\<lparr>rs_swept := now, rs_arrivals := drop_passed now (rs_arrivals s)\<rparr> else s)"
  obtain arrival w ok where adm: "admit a (arrival_of (rs_arrivals s1) k) now = (arrival, w, ok)" by (cases "admit a (arrival_of (rs_arrivals s1) k) now") auto
  have "s1 = s \<or> s1 = s\<lparr>rs_swept := now, rs_arrivals := drop_passed now (rs_arrivals s)\<rparr>" by (simp add: s1_def)
  note st = admit_steps [OF assms(1,2) this adm]
  have "s' = (if ok then s1\<lparr>rs_arrivals := (rs_arrivals s1)(k \<mapsto> arrival)\<rparr> else s1)" "r = Inr (w, ok)"
    using assms(3) unfolding local_take_def Let_def s1_def [symmetric] adm by simp_all
  then show ?thesis using st by auto
qed

lemma store_ahead_nonneg: "0 \<le> store_ahead t s k"
  by (simp add: store_ahead_def)

lemma store_ahead_later: "t \<le> t' \<Longrightarrow> store_ahead t' s k = max 0 (store_ahead t s k - (t' - t))"
  by (simp add: store_ahead_def)

interpretation memory: rate_tokens "\<lambda>_ :: nat. memory_take" store_ahead "\<lambda>t. t" ra_interval
  by (rule rate_tokensI; (erule (3) memory_take_steps)?) (auto simp: store_ahead_later fits_pos store_ahead_nonneg)

interpretation own: rate_tokens "\<lambda>_ :: nat. local_take" store_ahead "\<lambda>t. t" ra_interval
  by (rule rate_tokensI; (erule (1) local_take_steps [rotated])?) (auto simp: store_ahead_later fits_pos store_ahead_nonneg)

subsubsection \<open>The shared table\<close>

definition db_ahead :: "time \<Rightarrow> rate_db \<Rightarrow> string \<Rightarrow> int" where
  "db_ahead t s k = (case db_rows s k of None \<Rightarrow> 0 | Some x \<Rightarrow> 1000 * max 0 (x - unix_micro t))"

definition micro_clock :: "time \<Rightarrow> time" where
  "micro_clock t = 1000 * unix_micro t"

definition micro_pace :: "rate_allowance \<Rightarrow> duration" where
  "micro_pace a = 1000 * micro_interval a"

lemma micro_pace_bounds: "0 < micro_interval a" "fits a \<Longrightarrow> micro_pace a \<le> max 1000 (ra_interval a)"
  by (auto simp: micro_pace_def micro_interval_def Let_def)

lemma micro_clock_grain: "micro_clock (t + 1000 * m) = micro_clock t + 1000 * m"
proof -
  have "unix_micro (t + 1000 * m) = (t - 62135596800 * 1000000000 + m * 1000) div 1000" by (simp add: unix_micro_def algebra_simps)
  also have "\<dots> = unix_micro t + m" by (subst div_mult_self1) (simp_all add: unix_micro_def)
  finally show ?thesis by (simp add: micro_clock_def)
qed

lemma unix_micro_mono: "t \<le> t' \<Longrightarrow> unix_micro t \<le> unix_micro t'"
  by (simp add: unix_micro_def zdiv_mono1)

lemma micro_pace_pos: "0 < micro_pace a"
  using micro_pace_bounds(1) by (simp add: micro_pace_def)

lemma micro_clock_mono: "t \<le> t' \<Longrightarrow> micro_clock t \<le> micro_clock t'"
  by (simp add: micro_clock_def unix_micro_mono)

text \<open>With no other replica in between, the first attempt decides.\<close>

abbreviation quiet :: "nat \<Rightarrow> (string \<rightharpoonup> int) \<Rightarrow> (string \<rightharpoonup> int)" where
  "quiet \<equiv> \<lambda>_ rows. rows"

lemma take_attempts_quiet:
  "take_attempts 0 quiet a k now rows = (case take_once (\<lambda>rows. rows) a k now rows of (rows', w, ok, _) \<Rightarrow> (rows', w, ok))"
  by (subst take_attempts.simps) (auto simp: take_once_def Let_def split: prod.splits option.splits)

text \<open>
  A row collected in between is absent at the next attempt, which admits the call as a first one: a
  third attempt is never made.
\<close>

lemma collected_row_admits:
  assumes "take_once (between 0) a k now rows = (rows1, w, ok, True)"
  shows "take_attempts 0 between a k now rows = (rows1(k \<mapsto> unix_micro now + micro_interval a), 0, True)"
proof -
  have "rows1 k = None" using assms by (auto simp: take_once_def Let_def split: option.splits if_splits)
  then have "take_once (between 1) a k now rows1 = (rows1(k \<mapsto> unix_micro now + micro_interval a), 0, True, False)"
    by (simp add: take_once_def Let_def)
  then show ?thesis using assms by (simp add: take_attempts.simps [of 0] take_attempts.simps [of "Suc 0"])
qed

lemma db_ahead_nonneg: "0 \<le> db_ahead t s k"
  by (simp add: db_ahead_def split: option.split)

lemma db_ahead_later:
  "t \<le> t' \<Longrightarrow> db_ahead t' s k = max 0 (db_ahead t s k - (micro_clock t' - micro_clock t))"
  using unix_micro_mono [of t t'] by (auto simp: db_ahead_def micro_clock_def max_def split: option.split)

lemma db_grain:
  "micro_clock (t + max 0 (db_ahead t s k - n * micro_pace a)) = micro_clock t + max 0 (db_ahead t s k - n * micro_pace a)"
proof -
  have "\<exists>m. max 0 (db_ahead t s k - n * micro_pace a) = 1000 * m"
  proof (cases "db_ahead t s k - n * micro_pace a \<le> 0")
    case False
    obtain x where "db_ahead t s k = 1000 * x"
      by (cases "db_rows s k") (auto simp: db_ahead_def intro: that [of 0] that)
    with False have "max 0 (db_ahead t s k - n * micro_pace a) = 1000 * (x - n * micro_interval a)"
      by (simp add: micro_pace_def algebra_simps)
    then show ?thesis by blast
  qed (auto intro: exI [of _ 0])
  then show ?thesis using micro_clock_grain by auto
qed

lemma sweep_ahead: "db_ahead now (sweep_rate_limits replica now s) k = db_ahead now s k"
  by (simp add: sweep_rate_limits_def db_ahead_def drop_passed_def split: option.split)

lemma take_once_steps:
  assumes "fits a" and once: "take_once (\<lambda>rows. rows) a k now (db_rows s) = (rows', w, ok, coll)"
  shows "ok \<longleftrightarrow> db_ahead now s k \<le> (ra_burst a - 1) * micro_pace a"
    and "db_ahead now s k \<le> ra_burst a * micro_pace a \<Longrightarrow> w = max 0 (db_ahead now s k - (ra_burst a - 1) * micro_pace a)"
    and "db_ahead now (s\<lparr>db_rows := rows'\<rparr>) k' = db_ahead now s k' + (if k' = k \<and> ok then micro_pace a else 0)"
proof -
  note m = micro_pace_bounds and i = fits_pos [OF assms(1)]
  define tol where "tol = (ra_burst a - 1) * micro_interval a"
  have le: "micro_interval a \<le> max 1000 (ra_interval a)" using m(2) [OF assms(1)] m(1) by (simp add: micro_pace_def)
  note t = fits_tolerance [OF assms(1) m(1) le, folded tol_def]
  have P: "(ra_burst a - 1) * micro_pace a = 1000 * tol" "micro_pace a = 1000 * micro_interval a"
    by (simp_all add: tol_def micro_pace_def)
  have B: "ra_burst a * micro_pace a = 1000 * tol + 1000 * micro_interval a" by (simp add: tol_def micro_pace_def algebra_simps)
  have lim: "1000 * micro_interval a < 2 ^ 63"
    using fits_tolerance(2,3) [OF assms(1), of "micro_pace a"] m(1) m(2) [OF assms(1)] unfolding micro_pace_def
    by (smt (verit))
  have w64: "int64 ((x - unix_micro now - tol) * 1000) = (x - unix_micro now - tol) * 1000"
    if "\<not> x - unix_micro now \<le> tol" "1000 * (x - unix_micro now) \<le> 1000 * tol + 1000 * micro_interval a" for x
    using that lim by (intro int64_id) auto
  note o = once [unfolded take_once_def Let_def t(1) tol_def [symmetric]]
  show "ok \<longleftrightarrow> db_ahead now s k \<le> (ra_burst a - 1) * micro_pace a"
    using o t(2) unfolding P(1) by (auto simp: db_ahead_def split: option.splits if_splits)
  show "db_ahead now s k \<le> ra_burst a * micro_pace a \<Longrightarrow> w = max 0 (db_ahead now s k - (ra_burst a - 1) * micro_pace a)"
    using o t(2) w64 [unfolded left_diff_distrib] unfolding P(1) B by (auto simp: db_ahead_def split: option.splits if_splits)
  show "db_ahead now (s\<lparr>db_rows := rows'\<rparr>) k' = db_ahead now s k' + (if k' = k \<and> ok then micro_pace a else 0)"
    using o m(1) [of a] unfolding P(2) by (auto simp: db_ahead_def max_def split: option.splits if_splits)
qed

lemma sql_take_steps:
  assumes "fits a" "valid_rate_limit_key k" "0 \<le> now" "sql_take quiet replica a k now s = (s', r)"
  shows "\<exists>w. r = Inr (w, db_ahead now s k \<le> (ra_burst a - 1) * micro_pace a)
    \<and> (db_ahead now s k \<le> ra_burst a * micro_pace a \<longrightarrow> w = max 0 (db_ahead now s k - (ra_burst a - 1) * micro_pace a))
    \<and> db_ahead now s' k' = db_ahead now s k'
        + (if k' = k \<and> db_ahead now s k \<le> (ra_burst a - 1) * micro_pace a then micro_pace a else 0)"
proof -
  define s1 where "s1 = sweep_rate_limits replica now s"
  obtain rows w ok coll where once: "take_once (\<lambda>rows. rows) a k now (db_rows s1) = (rows, w, ok, coll)"
    by (cases "take_once (\<lambda>rows. rows) a k now (db_rows s1)") auto
  have v: "valid_allowance a" using assms(1) by (simp add: fits_def)
  have "s' = s1\<lparr>db_rows := rows\<rparr>" "r = Inr (w, ok)"
    using assms(4) v assms(2) once unfolding sql_take_def Let_def s1_def [symmetric] take_attempts_quiet by simp_all
  then show ?thesis
    using take_once_steps [OF assms(1) once] sweep_ahead [of now replica s, folded s1_def] by auto
qed

interpretation shared: rate_tokens "sql_take quiet" db_ahead micro_clock micro_pace
  by (rule rate_tokensI; (erule (3) sql_take_steps)?)
    (simp_all add: db_ahead_later db_ahead_nonneg db_grain micro_clock_mono micro_pace_pos)

subsection \<open>A store of arrival times is a bucket per key\<close>

definition agrees :: "('s \<Rightarrow> string \<Rightarrow> int) \<Rightarrow> time \<Rightarrow> (rate_allowance \<Rightarrow> duration) \<Rightarrow> (string \<Rightarrow> rate_allowance)
  \<Rightarrow> 's \<Rightarrow> (string \<Rightarrow> bucket) \<Rightarrow> bool" where
  "agrees ahead_now now pace allow s bs \<longleftrightarrow> (\<forall>k. ahead_now s k \<le> ra_burst (allow k) * pace (allow k)
     \<and> min (ra_burst (allow k) * pace (allow k)) (bk_level (bs k) + (now - bk_at (bs k)))
       = ra_burst (allow k) * pace (allow k) - ahead_now s k)"

context rate_tokens begin

lemma agrees_later:
  assumes "agrees (ahead t) (clock t) pace allow s bs" "0 \<le> t" "t \<le> t'"
  shows "agrees (ahead t') (clock t') pace allow s bs"
  unfolding agrees_def
proof (intro allI conjI)
  fix k
  define P where "P = ra_burst (allow k) * pace (allow k)"
  have a: "ahead t s k \<le> P" "min P (bk_level (bs k) + (clock t - bk_at (bs k))) = P - ahead t s k"
    using assms(1) by (simp_all add: agrees_def P_def)
  note l = ahead_later [OF assms(2,3), of s k] and m = clock_mono [OF assms(3)] and n = ahead_nonneg [of t s k]
  show "ahead t' s k \<le> ra_burst (allow k) * pace (allow k)" using a(1) l m n by (simp add: P_def [symmetric])
  show "min (ra_burst (allow k) * pace (allow k)) (bk_level (bs k) + (clock t' - bk_at (bs k)))
      = ra_burst (allow k) * pace (allow k) - ahead t' s k"
    using a l m n unfolding P_def [symmetric] by linarith
qed

lemma agrees_take:
  assumes "agrees (ahead now) (clock now) pace allow s bs" "0 \<le> now" "valid_rate_limit_key k" and f: "\<And>k. fits (allow k)"
    and t: "token c (allow k) k now s = (s', r)"
    and b: "bucket_take (ra_burst (allow k)) (pace (allow k)) (clock now) (bs k) = (b, wait, ok)"
  shows "r = Inr (wait, ok)" "agrees (ahead now) (clock now) pace allow s' (bs(k := b))"
proof -
  define P where "P = pace (allow k)"
  define B where "B = ra_burst (allow k)"
  define h where "h = ahead now s k"
  have P: "0 < P" using pace_pos [OF f] by (simp add: P_def)
  have e: "(B - 1) * P = B * P - P" by (simp add: algebra_simps)
  have h: "0 \<le> h" "h \<le> B * P" "min (B * P) (bk_level (bs k) + (clock now - bk_at (bs k))) = B * P - h"
    using assms(1) ahead_nonneg by (simp_all add: agrees_def P_def B_def h_def)
  note facts = decides [OF f assms(3,2) t] waits [OF f assms(3,2), of c k s s'] charges [OF f assms(3,2) t]
  note b' = b [unfolded bucket_take_def Let_def, folded P_def B_def, unfolded h(3)]
  obtain w where r: "r = Inr (w, h \<le> B * P - P)" using facts(1) e by (auto simp: P_def B_def h_def)
  have w: "w = max 0 (h - (B * P - P))" using facts(2) t h(2) e unfolding r by (simp add: P_def B_def h_def)
  show "r = Inr (wait, ok)" using b' r w by (auto split: if_splits)
  show "agrees (ahead now) (clock now) pace allow s' (bs(k := b))"
    unfolding agrees_def
  proof
    fix x
    show "ahead now s' x \<le> ra_burst (allow x) * pace (allow x) \<and> min (ra_burst (allow x) * pace (allow x))
        (bk_level ((bs(k := b)) x) + (clock now - bk_at ((bs(k := b)) x))) = ra_burst (allow x) * pace (allow x) - ahead now s' x"
    proof (cases "x = k")
      case True
      have "ahead now s' k = h + (if h \<le> B * P - P then P else 0)" using facts(3) [of k] e by (simp add: P_def B_def h_def)
      then show ?thesis using b' h P unfolding True P_def [symmetric] B_def [symmetric] by (auto split: if_splits)
    next
      case False
      then show ?thesis using assms(1) facts(3) [of x] by (simp add: agrees_def)
    qed
  qed
qed

theorem calls_are_bucket_calls:
  assumes "\<And>k. fits (allow k)" "agrees (ahead t) (clock t) pace allow s bs" "0 \<le> t" "calls_from t calls"
  shows "fst (take_calls token allow calls s) = bucket_calls clock pace allow calls bs"
    and "\<exists>bs'. agrees (ahead (end_time t calls)) (clock (end_time t calls))
      pace allow (snd (take_calls token allow calls s)) bs'"
proof -
  have "fst (take_calls token allow calls s) = bucket_calls clock pace allow calls bs \<and>
    (\<exists>bs'. agrees (ahead (end_time t calls)) (clock (end_time t calls))
      pace allow (snd (take_calls token allow calls s)) bs')"
    using assms(2-)
  proof (induction calls arbitrary: t s bs)
    case (Cons x calls)
    obtain c k now where x: "x = (c, k, now)" by (cases x)
    obtain s1 r where tk: "token c (allow k) k now s = (s1, r)" by fastforce
    obtain b wait ok where bk: "bucket_take (ra_burst (allow k)) (pace (allow k)) (clock now) (bs k) = (b, wait, ok)"
      using prod_cases3 by blast
    have t: "t \<le> now" "0 \<le> now" "valid_rate_limit_key k" "calls_from now calls" using Cons.prems x by auto
    note st = agrees_take [OF agrees_later [OF Cons.prems(1,2) t(1)] t(2,3) assms(1) tk bk]
    show ?case using Cons.IH [OF st(2) t(2,4)] st(1) tk bk x by (auto simp: fun_upd_def split: prod.splits)
  qed auto
  then show "fst (take_calls token allow calls s) = bucket_calls clock pace allow calls bs"
    "\<exists>bs'. agrees (ahead (end_time t calls)) (clock (end_time t calls))
      pace allow (snd (take_calls token allow calls s)) bs'" by blast+
qed

lemma other_keys_keep:
  assumes "\<And>k. fits (allow k)" "0 \<le> t" "calls_from t (calls @ [(c, k, later)])" "k \<notin> (\<lambda>(_, k, _). k) ` set calls"
  shows "ahead later (snd (take_calls token allow calls s)) k = ahead later s k"
  using assms(2-)
proof (induction calls arbitrary: t s)
  case (Cons x calls)
  obtain c' k' now where x: "x = (c', k', now)" by (cases x)
  obtain s1 r where tk: "token c' (allow k') k' now s = (s1, r)" by fastforce
  have t: "0 \<le> now" "valid_rate_limit_key k'" "calls_from now (calls @ [(c, k, later)])" "k \<noteq> k'" using Cons.prems x by auto
  have nl: "now \<le> later" using calls_from_snoc [OF t(3)] by simp
  have "ahead now s1 k = ahead now s k" using charges [OF assms(1) t(2,1) tk, of k] t(4) by simp
  then have "ahead later s1 k = ahead later s k"
    using ahead_later [OF t(1) nl, of s1 k] ahead_later [OF t(1) nl, of s k] by simp
  then show ?case using Cons.IH [OF t(1,3), of s1] Cons.prems(3) tk x by (auto split: prod.splits)
qed simp

theorem wait_is_enough:
  assumes "\<And>k. fits (allow k)" "0 \<le> now" "valid_rate_limit_key k" "ahead now s k \<le> ra_burst (allow k) * pace (allow k)"
    and r: "token c (allow k) k now s = (s1, Inr (w, False))"
    and later: "calls_from now (others @ [(c', k, later)])" "now + w \<le> later" "k \<notin> (\<lambda>(_, k, _). k) ` set others"
  shows "snd (token c' (allow k) k later (snd (take_calls token allow others s1))) = Inr (0, True)"
proof -
  define P B where "P = pace (allow k)" and "B = ra_burst (allow k)"
  have w: "w = max 0 (ahead now s k - (B - 1) * P)"
    using waits [OF assms(1,3,2) r assms(4)] by (simp add: P_def B_def)
  have full: "\<not> ahead now s k \<le> (B - 1) * P" using decides [OF assms(1,3,2) r] by (auto simp: P_def B_def)
  have P: "0 < P" "1 \<le> B" using pace_pos [OF assms(1)] fits_pos [OF assms(1)] by (simp_all add: P_def B_def)
  have "clock now + w = clock (now + w)" using clock_grain [of now s k "B - 1" "allow k"] w by (simp add: P_def)
  also have "\<dots> \<le> clock later" by (rule clock_mono [OF later(2)])
  finally have c: "clock now + w \<le> clock later" .
  have nl: "now \<le> later" using w later(2) by simp
  define s2 where "s2 = snd (take_calls token allow others s1)"
  have "ahead now s1 k = ahead now s k" using charges [OF assms(1,3,2) r, of k] full by (simp add: P_def B_def)
  then have "ahead later s2 k = max 0 (ahead now s k - (clock later - clock now))"
    using other_keys_keep [OF assms(1,2) later(1,3)] ahead_later [OF assms(2) nl, of s1 k] by (simp add: s2_def)
  moreover have "0 \<le> (B - 1) * P" using P by simp
  ultimately have a: "ahead later s2 k \<le> (B - 1) * P" using c w full by linarith
  have z: "0 \<le> later" using nl assms(2) by simp
  obtain s3 v where t: "token c' (allow k) k later s2 = (s3, v)" by fastforce
  obtain x where v: "v = Inr (x, True)" using decides [OF assms(1,3) z t] a by (auto simp: P_def B_def)
  have "(B - 1) * P \<le> B * P" using P by simp
  then have "ahead later s2 k \<le> B * P" using a by linarith
  then have "x = max 0 (ahead later s2 k - (B - 1) * P)"
    using waits [OF assms(1,3) z, of c' k s2 s3 x True] t v by (simp add: P_def B_def)
  then show ?thesis using a t v by (simp add: s2_def [symmetric])
qed

subsection \<open>What the middleware lets through\<close>

lemma limiter_take_steps:
  assumes "fits a" "valid_rate_limit_key k" "0 \<le> now" "limiter_take (token c) k a now s = (s', w, limited)"
  shows "limited \<longleftrightarrow> \<not> ahead now s k \<le> (ra_burst a - 1) * pace a"
    and "ahead now s' x = ahead now s x + (if x = k \<and> \<not> limited then pace a else 0)"
proof -
  obtain s1 r where t: "token c a k now s = (s1, r)" by fastforce
  obtain v where r: "r = Inr (v, ahead now s k \<le> (ra_burst a - 1) * pace a)" using decides [OF assms(1-3) t] by blast
  have e: "s' = s1" "limited \<longleftrightarrow> \<not> ahead now s k \<le> (ra_burst a - 1) * pace a"
    using assms(4) t r by (auto simp: limiter_take_def)
  show "limited \<longleftrightarrow> \<not> ahead now s k \<le> (ra_burst a - 1) * pace a" by (rule e(2))
  show "ahead now s' x = ahead now s x + (if x = k \<and> \<not> limited then pace a else 0)"
    using charges [OF assms(1-3) t] e by simp
qed

text \<open>
  A key is budgeted by a step when no step lowers its arrival time, and each counted one finds room
  for the call and pays its pace.
\<close>

lemma budget:
  assumes "0 < P" "0 \<le> t"
    and step: "\<And>c r now s s' a. \<lbrakk>0 \<le> now; mw c r now s = (s', a)\<rbrakk> \<Longrightarrow> ahead now s K \<le> ahead now s' K
      \<and> (counted r a \<longrightarrow> ahead now s K + P \<le> ahead now s' K \<and> ahead now s K \<le> (B - 1) * P)"
    and "times_within t t' calls" and "0 < count_calls counted calls (serve_calls mw calls s)"
  shows "ahead t s K + count_calls counted calls (serve_calls mw calls s) * P \<le> B * P + (clock t' - clock t)"
  using assms(2,4,5)
proof (induction calls arbitrary: t s)
  case Nil
  then show ?case by (simp add: count_calls_def)
next
  case (Cons x calls)
  obtain c r now where x: "x = (c, r, now)" by (cases x)
  obtain s1 a where m: "mw c r now s = (s1, a)" by fastforce
  have t: "t \<le> now" "0 \<le> now" "times_within now t' calls" using Cons.prems x by auto
  have "now \<le> t'" using t(3) by (induction calls arbitrary: now) force+
  then have cl: "clock t \<le> clock now" "clock now \<le> clock t'" using clock_mono t(1) by simp_all
  define n where "n = count_calls counted calls (serve_calls mw calls s1)"
  have N: "count_calls counted (x # calls) (serve_calls mw (x # calls) s) = n + (if counted r a then 1 else 0)"
    by (simp add: n_def count_calls_def x m)
  have n: "0 \<le> n" by (simp add: n_def count_calls_def)
  note st = step [OF t(2) m]
  have past: "ahead t s K \<le> ahead now s K + (clock now - clock t)"
    using ahead_later [OF Cons.prems(1) t(1), of s K] by linarith
  have IH: "0 < n \<Longrightarrow> ahead now s1 K + n * P \<le> B * P + (clock t' - clock now)"
    using Cons.IH [OF t(2,3)] by (simp add: n_def)
  have e1: "(n + 1) * P = n * P + P" and e2: "(B - 1) * P = B * P - P" by (simp_all add: algebra_simps)
  show ?case
  proof (cases "counted r a")
    case True
    then have "ahead now s K + P \<le> ahead now s1 K" "ahead now s K \<le> B * P - P" using st e2 by simp_all
    moreover have "n * P = 0 \<or> ahead now s1 K + n * P \<le> B * P + (clock t' - clock now)" using IH n by (cases "n = 0") auto
    ultimately have "ahead t s K + (n * P + P) \<le> B * P + (clock t' - clock t)" using past cl by linarith
    then show ?thesis using True by (simp add: N e1)
  next
    case False
    then have "ahead now s1 K + n * P \<le> B * P + (clock t' - clock now)" using Cons.prems(3) IH by (simp add: N)
    then have "ahead t s K + n * P \<le> B * P + (clock t' - clock t)" using past cl st by linarith
    then show ?thesis using False by (simp add: N)
  qed
qed

lemma budget_bound:
  assumes "fits a" "0 \<le> t"
    and step: "\<And>c r now s s' ans. \<lbrakk>0 \<le> now; mw c r now s = (s', ans)\<rbrakk> \<Longrightarrow> ahead now s K \<le> ahead now s' K
      \<and> (counted r ans \<longrightarrow> ahead now s K + pace a \<le> ahead now s' K \<and> ahead now s K \<le> (ra_burst a - 1) * pace a)"
    and "times_within t t' calls"
  shows "count_calls counted calls (serve_calls mw calls s) \<le> ra_burst a + (clock t' - clock t) div pace a"
proof -
  define n where "n = count_calls counted calls (serve_calls mw calls s)"
  note P = pace_pos [OF assms(1)] and b = fits_pos [OF assms(1)]
  have "t \<le> t'" using assms(4) by (induction calls arbitrary: t) force+
  then have cl: "0 \<le> clock t' - clock t" using clock_mono by simp
  have "n * pace a \<le> ra_burst a * pace a + (clock t' - clock t)"
  proof (cases "0 < n")
    case True
    have "ahead t s K + n * pace a \<le> ra_burst a * pace a + (clock t' - clock t)"
      unfolding n_def by (rule budget [OF P assms(2) _ assms(4)], erule (1) step) (use True in \<open>simp add: n_def\<close>)
    then show ?thesis using ahead_nonneg [of t s K] by simp
  next
    case False
    then have "n * pace a \<le> 0" using P by (simp add: mult_nonpos_nonneg)
    moreover have "0 \<le> ra_burst a * pace a" using P b by simp
    ultimately show ?thesis using cl by linarith
  qed
  then have "(n - ra_burst a) * pace a \<le> clock t' - clock t" by (simp add: algebra_simps)
  then have "n - ra_burst a \<le> (clock t' - clock t) div pace a"
    using P by (metis nonzero_mult_div_cancel_right order_less_irrefl zdiv_mono1)
  then show ?thesis by (simp add: n_def)
qed

lemma middleware_steps:
  assumes tiers: "\<And>m. fits (tier_allowance (method_tier published reference m))" and posting: "fits posting_allowance"
    and hash: "\<And>x. valid_rate_limit_key (hash x)" and now: "0 \<le> now"
    and mw: "middleware published reference hash (token c) r now s = (s', ans)"
  defines "A \<equiv> tier_allowance (method_tier published reference (api_method r))"
  shows "ahead now s k \<le> ahead now s' k"
    and "\<lbrakk>api_method r \<noteq> []; CHR ''/'' \<notin> set (api_method r); \<not> is_rate_limited ans\<rbrakk> \<Longrightarrow>
      ahead now s (method_key hash r) + pace A \<le> ahead now s' (method_key hash r)
      \<and> ahead now s (method_key hash r) \<le> (ra_burst A - 1) * pace A"
    and "\<lbrakk>api_method r = ''chat.postMessage''; ar_channel r = Some ch; ans = Served\<rbrakk> \<Longrightarrow>
      ahead now s (channel_key hash ch r) + pace posting_allowance \<le> ahead now s' (channel_key hash ch r)
      \<and> ahead now s (channel_key hash ch r) \<le> (ra_burst posting_allowance - 1) * pace posting_allowance"
proof -
  have pp: "0 < pace A" "0 < pace posting_allowance" using pace_pos tiers posting by (simp_all add: A_def)
  have key: "valid_rate_limit_key (method_key hash r)" "valid_rate_limit_key (channel_key hash x r)" for x
    using hash by (simp_all add: method_key_def channel_key_def)
  obtain s1 w1 l1 where t1: "limiter_take (token c) (method_key hash r) A now s = (s1, w1, l1)" using prod_cases3 by blast
  note f1 = limiter_take_steps [OF tiers [of "api_method r", folded A_def] key(1) now t1]
  have up1: "ahead now s k \<le> ahead now s1 k" for k using f1(2) [of k] pp by simp
  obtain s2 w2 l2 where t2: "limiter_take (token c) (channel_key hash (the (ar_channel r)) r) posting_allowance now s1 = (s2, w2, l2)"
    using prod_cases3 by blast
  note f2 = limiter_take_steps [OF posting key(2) now t2]
  have up2: "ahead now s1 k \<le> ahead now s2 k" for k using f2(2) [of k] pp by simp
  note up = up1 up2 order_trans [OF up1 up2]
  consider (plain) "api_method r = [] \<or> CHR ''/'' \<in> set (api_method r)" "s' = s" "ans = Served"
    | (refused) "l1" "s' = s1" "is_rate_limited ans"
    | (method_only) "\<not> l1" "s' = s1" "ans = Served" "api_method r \<noteq> ''chat.postMessage'' \<or> ar_channel r = None"
    | (posting_refused) ch where "\<not> l1" "s' = s2" "ans \<noteq> Served" "ar_channel r = Some ch"
    | (posted) ch where "\<not> l1" "\<not> l2" "s' = s2" "ans = Served" "ar_channel r = Some ch"
    using mw t1 t2 unfolding middleware_def Let_def A_def [symmetric]
    by (auto split: if_splits option.splits bool.splits)
  note cs = this
  show "ahead now s k \<le> ahead now s' k" using up by (cases rule: cs) auto
  show "\<lbrakk>api_method r \<noteq> []; CHR ''/'' \<notin> set (api_method r); \<not> is_rate_limited ans\<rbrakk> \<Longrightarrow>
      ahead now s (method_key hash r) + pace A \<le> ahead now s' (method_key hash r)
      \<and> ahead now s (method_key hash r) \<le> (ra_burst A - 1) * pace A"
    using f1(1) f1(2) [of "method_key hash r"] up2 [of "method_key hash r"] by (cases rule: cs) auto
  show "\<lbrakk>api_method r = ''chat.postMessage''; ar_channel r = Some ch; ans = Served\<rbrakk> \<Longrightarrow>
      ahead now s (channel_key hash ch r) + pace posting_allowance \<le> ahead now s' (channel_key hash ch r)
      \<and> ahead now s (channel_key hash ch r) \<le> (ra_burst posting_allowance - 1) * pace posting_allowance"
    using f2(1) f2(2) [of "channel_key hash ch r"] up1 [of "channel_key hash ch r"] by (cases rule: cs) auto
qed

lemma method_budget:
  assumes tiers: "\<And>m. fits (tier_allowance (method_tier published reference m))" and posting: "fits posting_allowance"
    and hash: "\<And>x. valid_rate_limit_key (hash x)" and "0 \<le> t" "times_within t t' calls"
    and plain: "method \<noteq> []" "CHR ''/'' \<notin> set method"
  shows "count_calls (\<lambda>r a. api_method r = method \<and> rate_limit_credential hash r = credential \<and> \<not> is_rate_limited a) calls
      (serve_calls (\<lambda>c. middleware published reference hash (token c)) calls s)
    \<le> ra_burst (tier_allowance (method_tier published reference method))
      + (clock t' - clock t) div pace (tier_allowance (method_tier published reference method))"
proof (rule budget_bound [OF tiers assms(4) _ assms(5)], intro conjI impI; (elim conjE)?)
  fix c r now s s' ans
  assume m: "(0::int) \<le> now" "middleware published reference hash (token c) r now s = (s', ans)"
  let ?K = "hash (''method'' @ CHR 0x00 # method @ CHR 0x00 # credential)"
  let ?A = "tier_allowance (method_tier published reference method)"
  note st = middleware_steps [OF tiers posting hash m]
  show "ahead now s ?K \<le> ahead now s' ?K" by (rule st(1))
  assume r: "api_method r = method" "rate_limit_credential hash r = credential" "\<not> is_rate_limited ans"
  then have "method_key hash r = ?K" by (simp add: method_key_def)
  then show "ahead now s ?K + pace ?A \<le> ahead now s' ?K" "ahead now s ?K \<le> (ra_burst ?A - 1) * pace ?A"
    using st(2) r plain by simp_all
qed

lemma channel_budget:
  assumes tiers: "\<And>m. fits (tier_allowance (method_tier published reference m))" and posting: "fits posting_allowance"
    and hash: "\<And>x. valid_rate_limit_key (hash x)" and "0 \<le> t" "times_within t t' calls"
  shows "count_calls (\<lambda>r a. api_method r = ''chat.postMessage'' \<and> ar_channel r = Some channel
        \<and> rate_limit_credential hash r = credential \<and> a = Served) calls
      (serve_calls (\<lambda>c. middleware published reference hash (token c)) calls s)
    \<le> ra_burst posting_allowance + (clock t' - clock t) div pace posting_allowance"
proof (rule budget_bound [OF posting assms(4) _ assms(5)], intro conjI impI; (elim conjE)?)
  fix c r now s s' ans
  assume m: "(0::int) \<le> now" "middleware published reference hash (token c) r now s = (s', ans)"
  let ?L = "hash (''channel'' @ CHR 0x00 # channel @ CHR 0x00 # credential)"
  note st = middleware_steps [OF tiers posting hash m]
  show "ahead now s ?L \<le> ahead now s' ?L" by (rule st(1))
  assume r: "api_method r = ''chat.postMessage''" "ar_channel r = Some channel" "rate_limit_credential hash r = credential" "ans = Served"
  then have "channel_key hash channel r = ?L" by (simp add: channel_key_def)
  then show "ahead now s ?L + pace posting_allowance \<le> ahead now s' ?L"
    "ahead now s ?L \<le> (ra_burst posting_allowance - 1) * pace posting_allowance"
    using st(3) [OF r(1,2,4)] by simp_all
qed

end

subsection \<open>Properties\<close>

definition fresh_store :: rate_store where
  "fresh_store = \<lparr>rs_arrivals = Map.empty, rs_swept = 0\<rparr>"

definition fresh_db :: rate_db where
  "fresh_db = \<lparr>db_rows = Map.empty, db_swept = \<lambda>_. 0\<rparr>"

definition documented_tiers :: "rate_tier list" where
  "documented_tiers = [tier1, tier2, tier3, tier4, tier_hundreds, tier_blocks_validate]"

lemma tiers_fit:
  assumes "ran published \<subseteq> set documented_tiers" "ran reference \<subseteq> set documented_tiers"
  shows "fits (tier_allowance (method_tier published reference m))"
    and "micro_pace (tier_allowance (method_tier published reference m)) = ra_interval (tier_allowance (method_tier published reference m))"
proof -
  have "method_tier published reference m \<in> set documented_tiers"
    using assms by (auto simp: method_tier_def ran_def split: option.split) (simp add: documented_tiers_def)
  then show "fits (tier_allowance (method_tier published reference m))"
    "micro_pace (tier_allowance (method_tier published reference m)) = ra_interval (tier_allowance (method_tier published reference m))"
    by (auto simp: documented_tiers_def tier1_def tier2_def tier3_def tier4_def tier_hundreds_def tier_blocks_validate_def
      tier_allowance_def fits_def valid_allowance_def micro_pace_def micro_interval_def)
qed

lemma posting_fits: "fits posting_allowance" "micro_pace posting_allowance = ra_interval posting_allowance"
  by (simp_all add: posting_allowance_def fits_def valid_allowance_def micro_pace_def micro_interval_def)

lemma fresh_agrees:
  assumes "\<And>k. fits (allow k)"
  shows "agrees (store_ahead 0) 0 ra_interval allow fresh_store (full_buckets (\<lambda>t. t) ra_interval allow)"
    and "agrees (db_ahead 0) (micro_clock 0) micro_pace allow fresh_db (full_buckets micro_clock micro_pace allow)"
proof -
  have "0 \<le> ra_burst (allow k) * ra_interval (allow k)" "0 \<le> ra_burst (allow k) * micro_pace (allow k)" for k
    using fits_pos [OF assms, of k] micro_pace_pos [of "allow k"] by simp_all
  then show "agrees (store_ahead 0) 0 ra_interval allow fresh_store (full_buckets (\<lambda>t. t) ra_interval allow)"
    and "agrees (db_ahead 0) (micro_clock 0) micro_pace allow fresh_db (full_buckets micro_clock micro_pace allow)"
    by (simp_all add: agrees_def store_ahead_def arrival_of_def db_ahead_def fresh_store_def fresh_db_def full_buckets_def)
qed

text \<open>
  C18. Starting from an empty store, over calls at nondecreasing times to any keys, the memory store
  and the Web API process's own store answer every call exactly as a token bucket per key does: the
  bucket holds \<^verbatim>\<open>Burst\<close> tokens, gains one every \<^verbatim>\<open>Interval\<close>, and a refusal reports the time to the
  next token. The shared SQL table answers so whichever replica each call comes from and however
  often each replica sweeps, with the clock and the interval read in microseconds: the replicas
  together admit what one would.
\<close>

theorem rate_limit_is_token_bucket:
  assumes "\<And>k. fits (allow k)" "calls_from 0 calls"
  shows "fst (take_calls (\<lambda>_ :: nat. memory_take) allow calls fresh_store)
        = bucket_calls (\<lambda>t. t) ra_interval allow calls (full_buckets (\<lambda>t. t) ra_interval allow)
    \<and> fst (take_calls (\<lambda>_ :: nat. local_take) allow calls fresh_store)
        = bucket_calls (\<lambda>t. t) ra_interval allow calls (full_buckets (\<lambda>t. t) ra_interval allow)
    \<and> fst (take_calls (sql_take quiet) allow calls fresh_db)
        = bucket_calls micro_clock micro_pace allow calls (full_buckets micro_clock micro_pace allow)"
  using memory.calls_are_bucket_calls(1) [OF assms(1) fresh_agrees(1) [of allow] _ assms(2)]
    own.calls_are_bucket_calls(1) [OF assms(1) fresh_agrees(1) [of allow] _ assms(2)]
    shared.calls_are_bucket_calls(1) [OF assms(1) fresh_agrees(2) [of allow] _ assms(2)]
  by (simp add: assms(1))

definition example_allow :: "string \<Rightarrow> rate_allowance" where
  "example_allow k = \<lparr>ra_interval = 1000000000, ra_burst = 2\<rparr>"

definition example_calls :: "(nat \<times> string \<times> time) list" where
  "example_calls = [(0, ''k'', 62135596801000000000), (1, ''k'', 62135596801000001000), (0, ''k'', 62135596801500000000)]"

lemma example_fits: "fits (example_allow k)"
  by (simp add: fits_def example_allow_def valid_allowance_def)

theorem rate_limit_is_token_bucket_witness:
  "fst (take_calls (sql_take quiet) example_allow example_calls fresh_db)
    = [Inr (0, True), Inr (0, True), Inr (500000000, False)]"
proof -
  have "calls_from 0 example_calls" by code_simp
  then have "fst (take_calls (sql_take quiet) example_allow example_calls fresh_db)
      = bucket_calls micro_clock micro_pace example_allow example_calls (full_buckets micro_clock micro_pace example_allow)"
    using rate_limit_is_token_bucket [of example_allow example_calls] example_fits by blast
  also have "\<dots> = [Inr (0, True), Inr (0, True), Inr (500000000, False)]" by code_simp
  finally show ?thesis .
qed


definition post_to :: "string \<Rightarrow> api_request" where
  "post_to channel = \<lparr>ar_path = ''/api/chat.postMessage'', ar_token = ''xoxb-1'', ar_remote = ''10.0.0.1:80'', ar_channel = Some channel\<rparr>"

definition six_posts :: "(nat \<times> api_request \<times> time) list" where
  "six_posts = map (\<lambda>i. (i mod 2, post_to ''C1'', 62135596801000000000)) [0 ..< 6]"

definition post_tiers :: "string \<rightharpoonup> rate_tier" where
  "post_tiers m = (if m = ''chat.postMessage'' then Some tier_hundreds else None)"


lemma retry_after_covers: "wait \<le> retry_after_seconds wait * 1000000000"
  by (simp add: retry_after_seconds_def Let_def) linarith

text \<open>
  A refused caller that waits out its \<^verbatim>\<open>Retry-After\<close> is admitted: after any calls by any
  replicas, when a call on a key is refused with a wait and its caller calls again no sooner than
  the whole seconds that header carries, through whichever replica and whatever calls other keys had
  in between, the call is admitted.
\<close>

theorem retry_after_admitted:
  assumes "\<And>k. fits (allow k)" "calls_from 0 (calls @ (c, k, now) # others @ [(c', k, later)])"
    and "take_calls (sql_take quiet) allow calls fresh_db = (answers, s)"
    and "sql_take quiet c (allow k) k now s = (s1, Inr (wait, False))"
    and "k \<notin> (\<lambda>(_, k, _). k) ` set others" "now + retry_after_seconds wait * 1000000000 \<le> later"
  shows "snd (sql_take quiet c' (allow k) k later (snd (take_calls (sql_take quiet) allow others s1))) = Inr (0, True)"
proof -
  let ?t = "end_time 0 calls"
  have cs: "calls_from 0 calls" "?t \<le> now" "valid_rate_limit_key k" "calls_from now (others @ [(c', k, later)])" "0 \<le> ?t"
    using assms(2) calls_from_end [of 0 calls] by (simp_all add: calls_from_append)
  obtain bs where "agrees (db_ahead ?t) (micro_clock ?t) micro_pace allow s bs"
    using shared.calls_are_bucket_calls(2) [OF assms(1) fresh_agrees(2) [of allow] _ cs(1)] assms(1,3) by auto
  then have "agrees (db_ahead now) (micro_clock now) micro_pace allow s bs" by (rule shared.agrees_later) (use cs in auto)
  then have room: "db_ahead now s k \<le> ra_burst (allow k) * micro_pace (allow k)" by (simp add: agrees_def)
  have later: "now + wait \<le> later" using retry_after_covers [of wait] assms(6) by linarith
  have z: "0 \<le> now" using cs by simp
  show ?thesis by (rule shared.wait_is_enough [where allow = allow, OF assms(1) z cs(3) room assms(4) cs(4) later assms(5)])
qed

theorem retry_after_admitted_witness:
  "\<exists>s1. sql_take quiet 0 (example_allow ''k'') ''k'' 62135596801500000000
        (snd (take_calls (sql_take quiet) example_allow (take 2 example_calls) fresh_db)) = (s1, Inr (500000000, False))
    \<and> snd (sql_take quiet 3 (example_allow ''k'') ''k'' 62135596802500000000 s1) = Inr (0, True)"
proof -
  let ?s = "snd (take_calls (sql_take quiet) example_allow (take 2 example_calls) fresh_db)"
  let ?r = "sql_take quiet 0 (example_allow ''k'') ''k'' 62135596801500000000 ?s"
  have "snd ?r = Inr (500000000, False)" by code_simp
  then have r: "?r = (fst ?r, Inr (500000000, False))" by (metis prod.collapse)
  have c: "calls_from 0 (take 2 example_calls @ (0, ''k'', 62135596801500000000) # [] @ [(3, ''k'', 62135596802500000000)])"
    by code_simp
  have l: "62135596801500000000 + retry_after_seconds 500000000 * 1000000000 \<le> 62135596802500000000" by code_simp
  have "snd (sql_take quiet 3 (example_allow ''k'') ''k'' 62135596802500000000 (snd (take_calls (sql_take quiet) example_allow [] (fst ?r))))
      = Inr (0, True)"
    by (rule retry_after_admitted [OF example_fits c prod.collapse [symmetric] r _ l]) simp
  then show ?thesis by (intro exI [of _ "fst ?r"] conjI r) simp
qed

end
