(* ===== verification/Huddle.thy ===== *)
theory Huddle
  imports SOC_Prelude "HOL-Library.AList"
begin

section \<open>The huddle forwarding unit\<close>

text \<open>
  \<^verbatim>\<open>Room\<close> and \<^verbatim>\<open>Manager\<close> of \<^verbatim>\<open>internal/huddlesfu\<close>: each participant of a huddle holds one peer
  connection to the server, which forwards every published track to every other participant and
  renegotiates when that set changes. The WebRTC library (\<^verbatim>\<open>pion\<close>) is a set of calls that may each
  refuse, decided by the argument \<open>lib\<close>; of its state the code reads only the senders of a
  connection, which hold the tracks added and not removed, and the description of an offer names the
  senders it was made over. An operation is atomic: the locks of the code allow finer interleavings
  only between the reconciliation of the tracks and the offers. A map's iteration order is the order
  of its association list. Every connection and every forwarded track carries a number of its own,
  the pointer the code compares.
\<close>

subsection \<open>Keys and stream names\<close>

definition forward_delimiter :: char where
  "forward_delimiter = CHR 0x00"

definition forward_key :: "string \<Rightarrow> string \<Rightarrow> string" where
  "forward_key owner track = owner @ [forward_delimiter] @ track"

definition forward_owner :: "string \<Rightarrow> string" where
  "forward_owner key = takeWhile (\<lambda>c. c \<noteq> forward_delimiter) key"

definition screen_suffix :: string where
  "screen_suffix = ''.screen''"

definition forward_stream_id :: "string \<Rightarrow> bool \<Rightarrow> string" where
  "forward_stream_id owner screen = (if screen then owner @ screen_suffix else owner)"

definition has_suffix :: "string \<Rightarrow> string \<Rightarrow> bool" where
  "has_suffix suffix s \<longleftrightarrow> length suffix \<le> length s \<and> drop (length s - length suffix) s = suffix"

definition forwarded_owner :: "string \<Rightarrow> string" where
  "forwarded_owner stream = (if has_suffix screen_suffix stream then take (length stream - length screen_suffix) stream else stream)"

definition forwarded_is_screen :: "string \<Rightarrow> bool" where
  "forwarded_is_screen stream = has_suffix screen_suffix stream"

subsection \<open>The room\<close>

record local_track =
  lt_ref :: nat
  lt_id :: string
  lt_stream :: string

datatype lib_call =
  NewConnection | RemoteOffer | MakeAnswer | RemoteAnswer | AddCandidate | NewTrack
| AddTrack string local_track | RemoveTrack string local_track | MakeOffer string nat

type_synonym lib = "lib_call \<Rightarrow> bool"

record peer =
  pe_conn :: nat
  pe_senders :: "local_track list"
  pe_ready :: bool
  pe_negotiating :: bool
  pe_dirty :: bool
  pe_screen_stream :: string
  pe_screen :: "(string \<times> local_track) option"

text \<open>What a connection exchanged, in order: the offers sent to its browser and the answers it gave.\<close>

datatype exchange = Offered nat "local_track list" | Answered nat

record room =
  rm_peers :: "(string \<times> peer) list"
  rm_forwards :: "(string \<times> local_track) list"
  rm_closed :: bool
  rm_next :: nat
  rm_log :: "exchange list"

datatype room_error = RoomClosed | AlreadyInRoom | NotInRoom | LibraryRefused | UnexpectedKind

definition new_room :: room where
  "new_room = \<lparr>rm_peers = [], rm_forwards = [], rm_closed = False, rm_next = 0, rm_log = []\<rparr>"

definition by_id :: "local_track list \<Rightarrow> (string \<times> local_track) list" where
  "by_id tracks = fold (\<lambda>l m. AList.update (lt_id l) l m) tracks []"

definition desired :: "(string \<times> local_track) list \<Rightarrow> string \<Rightarrow> (string \<times> local_track) list" where
  "desired forwards i = by_id (map snd (filter (\<lambda>(key, _). forward_owner key \<noteq> i) forwards))"

definition reconcile :: "lib \<Rightarrow> (string \<times> local_track) list \<Rightarrow> string \<Rightarrow> peer \<Rightarrow> peer \<times> bool" where
  "reconcile lib forwards i p =
     (let want = desired forwards i; existing = by_id (pe_senders p);
          removed = map snd (filter (\<lambda>(t, l). map_of want t = None \<and> lib (RemoveTrack i l)) existing);
          added = map snd (filter (\<lambda>(t, l). map_of existing t = None \<and> lib (AddTrack i l)) want)
      in (p\<lparr>pe_senders := filter (\<lambda>l. l \<notin> set removed) (pe_senders p) @ added\<rparr>, removed \<noteq> [] \<or> added \<noteq> []))"

definition offer :: "lib \<Rightarrow> string \<Rightarrow> peer \<Rightarrow> peer \<times> exchange list" where
  "offer lib i p =
     (if \<not> pe_ready p \<or> pe_negotiating p \<or> \<not> pe_dirty p then (p, [])
      else if list_ex (\<lambda>attempt. lib (MakeOffer i attempt)) [0 ..< 3]
      then (p\<lparr>pe_dirty := False, pe_negotiating := True\<rparr>, [Offered (pe_conn p) (pe_senders p)])
      else (p\<lparr>pe_negotiating := False, pe_dirty := True\<rparr>, []))"

definition synchronize_peer :: "lib \<Rightarrow> (string \<times> local_track) list \<Rightarrow> string \<Rightarrow> peer \<Rightarrow> peer \<times> exchange list" where
  "synchronize_peer lib forwards i p =
     (case reconcile lib forwards i p of (p1, changed) \<Rightarrow> offer lib i (if changed then p1\<lparr>pe_dirty := True\<rparr> else p1))"

definition synchronize :: "lib \<Rightarrow> room \<Rightarrow> room" where
  "synchronize lib r =
     (if rm_closed r then r
      else
        let done_peers = map (\<lambda>(i, p). (i, synchronize_peer lib (rm_forwards r) i p)) (rm_peers r)
        in r\<lparr>rm_peers := map (\<lambda>(i, p, _). (i, p)) done_peers,
             rm_log := rm_log r @ concat (map (\<lambda>(_, _, sent). sent) done_peers)\<rparr>)"

definition set_peer :: "string \<Rightarrow> peer \<Rightarrow> room \<Rightarrow> room" where
  "set_peer i p r = r\<lparr>rm_peers := AList.update i p (rm_peers r)\<rparr>"

definition join :: "lib \<Rightarrow> string \<Rightarrow> room \<Rightarrow> room \<times> room_error option" where
  "join lib i r =
     (if rm_closed r then (r, Some RoomClosed)
      else if map_of (rm_peers r) i \<noteq> None then (r, Some AlreadyInRoom)
      else if \<not> lib NewConnection then (r, Some LibraryRefused)
      else (set_peer i \<lparr>pe_conn = rm_next r, pe_senders = [], pe_ready = False, pe_negotiating = False,
              pe_dirty = False, pe_screen_stream = [], pe_screen = None\<rparr> r\<lparr>rm_next := Suc (rm_next r)\<rparr>, None))"

definition answer_offer :: "lib \<Rightarrow> string \<Rightarrow> string \<Rightarrow> room \<Rightarrow> room \<times> room_error option" where
  "answer_offer lib i screen_stream r =
     (case map_of (rm_peers r) i of
        None \<Rightarrow> (r, Some NotInRoom)
      | Some p \<Rightarrow>
          let p1 = p\<lparr>pe_screen_stream := screen_stream\<rparr>; r1 = set_peer i p1 r
          in if \<not> lib RemoteOffer then (r1, Some LibraryRefused)
             else if \<not> lib MakeAnswer then (r1, Some LibraryRefused)
             else (synchronize lib (set_peer i (p1\<lparr>pe_ready := True\<rparr>) r1), None))"

definition set_screen_active :: "lib \<Rightarrow> string \<Rightarrow> bool \<Rightarrow> room \<Rightarrow> room" where
  "set_screen_active lib i active r =
     (case map_of (rm_peers r) i of
        None \<Rightarrow> r
      | Some p \<Rightarrow>
          if rm_closed r then r
          else (case pe_screen p of
              None \<Rightarrow> r
            | Some (key, l) \<Rightarrow>
                synchronize lib
                  (if active then r\<lparr>rm_forwards := AList.update key l (rm_forwards r)\<rparr>
                   else if map_of (rm_forwards r) key = Some l then r\<lparr>rm_forwards := AList.delete key (rm_forwards r)\<rparr>
                   else r)))"

datatype signal_kind = AnswerKind | CandidateKind bool | ScreenOff | ScreenOn | OtherKind

text \<open>A candidate signal says whether it carries one.\<close>

definition room_signal :: "lib \<Rightarrow> string \<Rightarrow> signal_kind \<Rightarrow> room \<Rightarrow> room \<times> room_error option" where
  "room_signal lib i kind r =
     (case map_of (rm_peers r) i of
        None \<Rightarrow> (r, Some NotInRoom)
      | Some p \<Rightarrow>
          (case kind of
             AnswerKind \<Rightarrow>
               (synchronize lib ((set_peer i (p\<lparr>pe_negotiating := False\<rparr>) r)\<lparr>rm_log := rm_log r @ [Answered (pe_conn p)]\<rparr>),
                if lib RemoteAnswer then None else Some LibraryRefused)
           | CandidateKind carried \<Rightarrow> (r, if \<not> carried \<or> lib AddCandidate then None else Some LibraryRefused)
           | ScreenOff \<Rightarrow> (set_screen_active lib i False r, None)
           | ScreenOn \<Rightarrow> (set_screen_active lib i True r, None)
           | OtherKind \<Rightarrow> (r, Some UnexpectedKind)))"

definition leave :: "lib \<Rightarrow> string \<Rightarrow> room \<Rightarrow> room" where
  "leave lib i r =
     (case map_of (rm_peers r) i of
        None \<Rightarrow> r
      | Some p \<Rightarrow>
          synchronize lib (r\<lparr>rm_peers := AList.delete i (rm_peers r),
            rm_forwards := filter (\<lambda>(key, _). forward_owner key \<noteq> i) (rm_forwards r)\<rparr>))"

text \<open>
  \<^verbatim>\<open>OnConnectionStateChange\<close> of a connection of participant \<open>i\<close> reports it failed or closed. The
  callback runs whenever the library calls it, after the connection left the room too.
\<close>

definition connection_gone :: "lib \<Rightarrow> string \<Rightarrow> nat \<Rightarrow> room \<Rightarrow> room" where
  "connection_gone lib i conn r = leave lib i r"

definition close_room :: "room \<Rightarrow> room" where
  "close_room r = (if rm_closed r then r else r\<lparr>rm_closed := True, rm_peers := [], rm_forwards := []\<rparr>)"

text \<open>\<^verbatim>\<open>publish\<close> until its first packet, and from the end of the track on.\<close>

definition publish :: "lib \<Rightarrow> string \<Rightarrow> string \<Rightarrow> string \<Rightarrow> room \<Rightarrow> room" where
  "publish lib owner track stream r =
     (let key = forward_key owner track; current = map_of (rm_peers r) owner;
          screen = (case current of None \<Rightarrow> False | Some p \<Rightarrow> pe_screen_stream p \<noteq> [] \<and> stream = pe_screen_stream p);
          l = \<lparr>lt_ref = rm_next r, lt_id = track, lt_stream = forward_stream_id owner screen\<rparr>
      in if \<not> lib NewTrack then r
         else
           let r1 = r\<lparr>rm_next := Suc (rm_next r)\<rparr>;
               r2 = (case current of Some p \<Rightarrow> if screen then set_peer owner (p\<lparr>pe_screen := Some (key, l)\<rparr>) r1 else r1
                     | None \<Rightarrow> r1)
           in if rm_closed r2 then r2
              else synchronize lib (r2\<lparr>rm_forwards := AList.update key l (rm_forwards r2)\<rparr>))"

definition publish_end :: "lib \<Rightarrow> string \<Rightarrow> local_track \<Rightarrow> room \<Rightarrow> room" where
  "publish_end lib key l r =
     synchronize lib (if map_of (rm_forwards r) key = Some l then r\<lparr>rm_forwards := AList.delete key (rm_forwards r)\<rparr> else r)"

subsection \<open>The manager\<close>

type_synonym manager = "(string \<times> room) list"

definition manager_room :: "lib \<Rightarrow> string \<Rightarrow> string \<Rightarrow> manager \<Rightarrow> manager \<times> room_error option" where
  "manager_room lib call participant m =
     (let r = (case map_of m call of Some r \<Rightarrow> r | None \<Rightarrow> new_room); m1 = AList.update call r m
      in if map_of (rm_peers r) participant \<noteq> None then (m1, None)
         else case join lib participant r of (r1, e) \<Rightarrow> (AList.update call r1 m1, e))"

definition manager_offer :: "lib \<Rightarrow> string \<Rightarrow> string \<Rightarrow> string \<Rightarrow> manager \<Rightarrow> manager \<times> room_error option" where
  "manager_offer lib call participant screen_stream m =
     (case manager_room lib call participant m of
        (m1, Some e) \<Rightarrow> (m1, Some e)
      | (m1, None) \<Rightarrow>
          (case answer_offer lib participant screen_stream (the (map_of m1 call)) of
             (r, e) \<Rightarrow> (AList.update call r m1, e)))"

definition manager_signal :: "lib \<Rightarrow> string \<Rightarrow> string \<Rightarrow> signal_kind \<Rightarrow> manager \<Rightarrow> manager \<times> room_error option" where
  "manager_signal lib call participant kind m =
     (case map_of m call of
        None \<Rightarrow> (m, Some RoomClosed)
      | Some r \<Rightarrow> (case room_signal lib participant kind r of (r1, e) \<Rightarrow> (AList.update call r1 m, e)))"

definition manager_leave :: "lib \<Rightarrow> string \<Rightarrow> string \<Rightarrow> manager \<Rightarrow> manager" where
  "manager_leave lib call participant m =
     (case map_of m call of
        None \<Rightarrow> m
      | Some r \<Rightarrow> let r1 = leave lib participant r
                 in if rm_peers r1 = [] then AList.delete call m else AList.update call r1 m)"

definition manager_gone :: "lib \<Rightarrow> string \<Rightarrow> string \<Rightarrow> nat \<Rightarrow> manager \<Rightarrow> manager" where
  "manager_gone lib call participant conn m =
     (case map_of m call of None \<Rightarrow> m | Some r \<Rightarrow> AList.update call (connection_gone lib participant conn r) m)"

subsection \<open>Runs of a room\<close>

datatype room_event =
  Joins string | Answers string string | Signals string signal_kind | Leaves string | Gone string nat
| Publishes string string string | Ends string local_track | Closes

definition room_step :: "lib \<Rightarrow> room_event \<Rightarrow> room \<Rightarrow> room" where
  "room_step lib ev r = (case ev of
     Joins i \<Rightarrow> fst (join lib i r)
   | Answers i stream \<Rightarrow> fst (answer_offer lib i stream r)
   | Signals i kind \<Rightarrow> fst (room_signal lib i kind r)
   | Leaves i \<Rightarrow> leave lib i r
   | Gone i conn \<Rightarrow> connection_gone lib i conn r
   | Publishes owner track stream \<Rightarrow> publish lib owner track stream r
   | Ends key l \<Rightarrow> publish_end lib key l r
   | Closes \<Rightarrow> close_room r)"

definition run_room :: "(lib \<times> room_event) list \<Rightarrow> room \<Rightarrow> room" where
  "run_room evs r = fold (\<lambda>(lib, ev). room_step lib ev) evs r"

text \<open>
  What one connection exchanged: \<open>talk\<close> is \<open>None\<close> when an offer was sent while another one was
  unanswered, and otherwise whether one is unanswered now; \<open>described\<close> is what the last offer named.
\<close>

primrec conn_of :: "exchange \<Rightarrow> nat" where
  "conn_of (Offered c ts) = c"
| "conn_of (Answered c) = c"

definition of_conn :: "nat \<Rightarrow> exchange list \<Rightarrow> exchange list" where
  "of_conn c log = filter (\<lambda>e. conn_of e = c) log"

fun talk :: "bool \<Rightarrow> exchange list \<Rightarrow> bool option" where
  "talk b [] = Some b"
| "talk b (Offered c ts # es) = (if b then None else talk True es)"
| "talk b (Answered c # es) = talk False es"

definition described :: "exchange list \<Rightarrow> local_track list" where
  "described es = fold (\<lambda>e d. case e of Offered c ts \<Rightarrow> ts | Answered c \<Rightarrow> d) es []"

definition peer_ok :: "exchange list \<Rightarrow> peer \<Rightarrow> bool" where
  "peer_ok log p \<longleftrightarrow> talk False (of_conn (pe_conn p) log) = Some (pe_negotiating p)
     \<and> (\<not> pe_dirty p \<longrightarrow> described (of_conn (pe_conn p) log) = pe_senders p)
     \<and> distinct (map lt_id (pe_senders p))"

definition room_ok :: "room \<Rightarrow> bool" where
  "room_ok r \<longleftrightarrow> distinct (map fst (rm_peers r)) \<and> distinct (map (pe_conn \<circ> snd) (rm_peers r))
     \<and> (\<forall>p \<in> snd ` set (rm_peers r). pe_conn p < rm_next r \<and> peer_ok (rm_log r) p)
     \<and> (\<forall>e \<in> set (rm_log r). conn_of e < rm_next r) \<and> (\<forall>c. talk False (of_conn c (rm_log r)) \<noteq> None)"

subsection \<open>Tracks by id\<close>

lemma update_subset: "set (AList.update k v al) \<subseteq> insert (k, v) (set al)"
  by (induction al) auto

lemma by_id_distinct: "distinct (map fst (by_id ls))"
proof -
  have "distinct (map fst m0) \<Longrightarrow> distinct (map fst (fold (\<lambda>l m. AList.update (lt_id l) l m) ls m0))" for m0
    by (induction ls arbitrary: m0) (auto simp: distinct_update)
  from this [of "[]"] show ?thesis by (simp add: by_id_def)
qed

lemma by_id_subset: "set (by_id ls) \<subseteq> (\<lambda>l. (lt_id l, l)) ` set ls"
proof -
  have "set (fold (\<lambda>l m. AList.update (lt_id l) l m) ls m0) \<subseteq> set m0 \<union> (\<lambda>l. (lt_id l, l)) ` set ls" for m0
    using update_subset by (induction ls arbitrary: m0) fastforce+
  from this [of "[]"] show ?thesis by (simp add: by_id_def)
qed

lemma by_id_keys: "fst ` set (by_id ls) = lt_id ` set ls"
proof -
  have "fst ` set (fold (\<lambda>l m. AList.update (lt_id l) l m) ls m0) = fst ` set m0 \<union> lt_id ` set ls" for m0
    by (induction ls arbitrary: m0) (auto simp: dom_update)
  from this [of "[]"] show ?thesis by (simp add: by_id_def)
qed

lemma by_id_None: "map_of (by_id ls) t = None \<longleftrightarrow> t \<notin> lt_id ` set ls"
  using by_id_keys [of ls] by (simp add: map_of_eq_None_iff)

lemma by_id_all: "distinct (map lt_id ls) \<Longrightarrow> set (map snd (by_id ls)) = set ls"
proof
  show "set (map snd (by_id ls)) \<subseteq> set ls" using by_id_subset [of ls] by auto
  assume d: "distinct (map lt_id ls)"
  show "set ls \<subseteq> set (map snd (by_id ls))"
  proof
    fix l assume l: "l \<in> set ls"
    then obtain x where "(lt_id l, x) \<in> set (by_id ls)" using by_id_keys [of ls] by force
    moreover from this have "x \<in> set ls" "lt_id x = lt_id l" using by_id_subset [of ls] by auto
    then have "x = l" using l d by (auto simp: distinct_map dest: inj_onD)
    ultimately show "l \<in> set (map snd (by_id ls))" by force
  qed
qed

text \<open>A peer reconciled by a library that refuses nothing sends the tracks it should, by id.\<close>

lemma reconcile_senders:
  assumes "reconcile lib fs i p = (p1, changed)" and d: "distinct (map lt_id (pe_senders p))"
  shows "distinct (map lt_id (pe_senders p1))" and "\<not> changed \<Longrightarrow> p1 = p"
    and "p1 = p\<lparr>pe_senders := pe_senders p1\<rparr>"
    and "(\<And>c. lib c) \<Longrightarrow> lt_id ` set (pe_senders p1) = {lt_id l |k l. (k, l) \<in> set fs \<and> forward_owner k \<noteq> i}"
    and "l \<in> set (pe_senders p1) \<Longrightarrow> l \<in> set (pe_senders p) \<or> (\<exists>k. (k, l) \<in> set fs \<and> forward_owner k \<noteq> i)"
proof -
  define others where "others = map snd (filter (\<lambda>(key, _). forward_owner key \<noteq> i) fs)"
  have O: "lt_id ` set others = {lt_id l |k l. (k, l) \<in> set fs \<and> forward_owner k \<noteq> i}"
    "x \<in> set others \<longleftrightarrow> (\<exists>k. (k, x) \<in> set fs \<and> forward_owner k \<noteq> i)" for x
    by (auto simp: others_def image_iff) force+
  define removed where "removed = map snd (filter (\<lambda>(t, l). map_of (by_id others) t = None \<and> lib (RemoveTrack i l)) (by_id (pe_senders p)))"
  define added where "added = map snd (filter (\<lambda>(t, l). map_of (by_id (pe_senders p)) t = None \<and> lib (AddTrack i l)) (by_id others))"
  have p1: "p1 = p\<lparr>pe_senders := filter (\<lambda>l. l \<notin> set removed) (pe_senders p) @ added\<rparr>" and ch: "changed \<longleftrightarrow> removed \<noteq> [] \<or> added \<noteq> []"
    using assms(1) by (simp_all add: reconcile_def desired_def Let_def others_def removed_def added_def)
  have idm: "map lt_id (map snd (filter P (by_id ls))) = map fst (filter P (by_id ls))" for P ls
    using by_id_subset [of ls] by auto
  have da: "distinct (map lt_id added)" unfolding added_def idm using by_id_distinct [of others] by (simp add: distinct_map_filter)
  have na: "lt_id l \<notin> lt_id ` set (pe_senders p)" "l \<in> set others" if "l \<in> set added" for l
    using that by_id_subset [of others] by (auto simp: added_def by_id_None)
  have "lt_id x \<noteq> lt_id l" if "x \<in> set (pe_senders p)" "l \<in> set added" for x l using na(1) [OF that(2)] that(1) by (metis imageI)
  then show "distinct (map lt_id (pe_senders p1))" using d da p1 by (auto simp: distinct_map_filter)
  show "\<not> changed \<Longrightarrow> p1 = p" using p1 ch by simp
  show "p1 = p\<lparr>pe_senders := pe_senders p1\<rparr>" using p1 by simp
  show "l \<in> set (pe_senders p1) \<Longrightarrow> l \<in> set (pe_senders p) \<or> (\<exists>k. (k, l) \<in> set fs \<and> forward_owner k \<noteq> i)"
    using p1 na(2) O(2) by auto
  assume ok: "\<And>c. lib c"
  have r: "l \<in> set removed \<longleftrightarrow> lt_id l \<notin> lt_id ` set others" if "l \<in> set (pe_senders p)" for l
  proof -
    have "l \<in> set (map snd (by_id (pe_senders p)))" using by_id_all [OF d] that by simp
    then show ?thesis using by_id_subset [of "pe_senders p"] by (auto simp: removed_def ok by_id_None image_iff) force+
  qed
  have a: "lt_id ` set added = lt_id ` set others - lt_id ` set (pe_senders p)"
  proof -
    have "lt_id ` set added = fst ` {x \<in> set (by_id others). map_of (by_id (pe_senders p)) (fst x) = None}"
      using by_id_subset [of others] by (auto simp: added_def ok image_iff) force+
    moreover have "fst ` {x \<in> S. fst x \<notin> B} = fst ` S - B" for S :: "(string \<times> local_track) set" and B by auto
    ultimately show ?thesis by (simp add: by_id_None by_id_keys)
  qed
  show "lt_id ` set (pe_senders p1) = {lt_id l |k l. (k, l) \<in> set fs \<and> forward_owner k \<noteq> i}"
  proof -
    have "lt_id ` {x \<in> set (pe_senders p). x \<notin> set removed} = lt_id ` set (pe_senders p) \<inter> lt_id ` set others"
      using r by (auto simp del: image_iff)
    then show ?thesis unfolding O(1) [symmetric] p1 using a by (auto simp: image_Un simp del: image_iff)
  qed
qed

subsection \<open>Negotiation\<close>

lemma talk_append: "talk b (xs @ ys) = (case talk b xs of None \<Rightarrow> None | Some b' \<Rightarrow> talk b' ys)"
  by (induction b xs rule: talk.induct) auto

lemma described_snoc [simp]: "described (es @ [Offered c ts]) = ts" "described (es @ [Answered c]) = described es"
  by (simp_all add: described_def)

lemma of_conn_append: "of_conn c (xs @ ys) = of_conn c xs @ of_conn c ys"
  by (simp add: of_conn_def)

lemma sync_peer:
  assumes "synchronize_peer lib fs i p = (p', sent)"
  shows "pe_conn p' = pe_conn p" "\<forall>e \<in> set sent. conn_of e = pe_conn p"
    and "peer_ok log p \<Longrightarrow> of_conn (pe_conn p) log' = of_conn (pe_conn p) log @ sent \<Longrightarrow> peer_ok log' p'"
    and "peer_ok log p \<Longrightarrow> talk False (of_conn (pe_conn p) log @ sent) \<noteq> None"
    and "pe_ready p' = pe_ready p"
proof -
  obtain p1 changed where rc: "reconcile lib fs i p = (p1, changed)" by fastforce
  define q where "q = (if changed then p1\<lparr>pe_dirty := True\<rparr> else p1)"
  have off: "offer lib i q = (p', sent)" using assms rc by (simp add: synchronize_peer_def q_def)
  have p1: "p1 = p\<lparr>pe_senders := pe_senders p1\<rparr>" if "distinct (map lt_id (pe_senders p))" using reconcile_senders(3) [OF rc that] .
  have keep: "pe_conn q = pe_conn p" "pe_ready q = pe_ready p" "pe_negotiating q = pe_negotiating p"
    using rc by (auto simp: q_def reconcile_def Let_def)
  have sent: "sent = [] \<and> pe_negotiating p' = pe_negotiating q \<and> pe_dirty p' = pe_dirty q
      \<or> sent = [Offered (pe_conn q) (pe_senders q)] \<and> \<not> pe_negotiating q \<and> pe_negotiating p' \<and> \<not> pe_dirty p'"
    and same: "pe_conn p' = pe_conn q" "pe_senders p' = pe_senders q" "pe_ready p' = pe_ready q"
    using off by (auto simp: offer_def split: if_splits)
  show "pe_conn p' = pe_conn p" "\<forall>e \<in> set sent. conn_of e = pe_conn p" "pe_ready p' = pe_ready p"
    using same keep sent by auto
  assume ok: "peer_ok log p"
  then have d: "distinct (map lt_id (pe_senders p))" by (simp add: peer_ok_def)
  have dq: "distinct (map lt_id (pe_senders q))" using reconcile_senders(1) [OF rc d] by (simp add: q_def)
  have clean: "\<not> pe_dirty q \<Longrightarrow> pe_senders q = pe_senders p \<and> \<not> pe_dirty p" using reconcile_senders(2) [OF rc d] by (auto simp: q_def split: if_splits)
  show "talk False (of_conn (pe_conn p) log @ sent) \<noteq> None"
    using ok sent keep by (auto simp: peer_ok_def talk_append)
  assume log': "of_conn (pe_conn p) log' = of_conn (pe_conn p) log @ sent"
  from sent show "peer_ok log' p'"
  proof (elim disjE conjE)
    assume "sent = []" "pe_negotiating p' = pe_negotiating q" "pe_dirty p' = pe_dirty q"
    then show ?thesis using ok log' same keep dq clean unfolding peer_ok_def by (cases "pe_dirty q") simp_all
  next
    assume "sent = [Offered (pe_conn q) (pe_senders q)]" "\<not> pe_negotiating q" "pe_negotiating p'" "\<not> pe_dirty p'"
    then show ?thesis using ok log' same keep dq by (simp add: peer_ok_def talk_append)
  qed
qed

lemma sync_sent: "e \<in> set (snd (synchronize_peer lib fs i p)) \<Longrightarrow> conn_of e = pe_conn p"
  using sync_peer(2) [OF prod.collapse [symmetric]] by blast

lemma sync_conn: "pe_conn (fst (synchronize_peer lib fs i p)) = pe_conn p"
  by (rule sync_peer(1) [OF prod.collapse [symmetric]])

lemma of_conn_concat:
  assumes "distinct (map fst cs)" "\<And>c es e. (c, es) \<in> set cs \<Longrightarrow> e \<in> set es \<Longrightarrow> conn_of e = c"
  shows "(c, es) \<in> set cs \<Longrightarrow> of_conn c (concat (map snd cs)) = es"
    and "c \<notin> fst ` set cs \<Longrightarrow> of_conn c (concat (map snd cs)) = []"
proof -
  have other: "c \<notin> fst ` set cs \<Longrightarrow> of_conn c (concat (map snd cs)) = []"
    if "\<And>c es e. (c, es) \<in> set cs \<Longrightarrow> e \<in> set es \<Longrightarrow> conn_of e = c" for cs :: "(nat \<times> exchange list) list" and c
    unfolding of_conn_def filter_empty_conv
  proof (intro ballI notI)
    fix e assume c: "c \<notin> fst ` set cs" and e: "e \<in> set (concat (map snd cs))" "conn_of e = c"
    then obtain c' es' where m: "(c', es') \<in> set cs" "e \<in> set es'" by auto
    have "fst (c', es') \<in> fst ` set cs" using m(1) by (rule imageI)
    then show False using that [OF m] e(2) c by simp
  qed
  show "c \<notin> fst ` set cs \<Longrightarrow> of_conn c (concat (map snd cs)) = []" using other assms(2) by blast
  show "(c, es) \<in> set cs \<Longrightarrow> of_conn c (concat (map snd cs)) = es"
    using assms
  proof (induction cs)
    case (Cons x cs)
    obtain c' es' where x: "x = (c', es')" by (cases x)
    have mine: "of_conn c es' = (if c' = c then es' else [])"
      using Cons.prems(3) [of c' es'] x by (auto simp: of_conn_def filter_id_conv filter_empty_conv)
    have rest: "c \<notin> fst ` set cs \<Longrightarrow> of_conn c (concat (map snd cs)) = []" using other [of cs c] Cons.prems(3) by auto
    show ?case
    proof (cases "(c, es) \<in> set cs")
      case True
      then have "c' \<noteq> c" using Cons.prems(2) x by force
      moreover have "of_conn c (concat (map snd cs)) = es" by (rule Cons.IH [OF True]) (use Cons.prems in auto)
      ultimately show ?thesis using mine x by (simp add: of_conn_append)
    next
      case False
      then have "x = (c, es)" "c \<notin> fst ` set cs" using Cons.prems(1,2) x by auto
      then show ?thesis using mine rest x by (simp add: of_conn_append)
    qed
  qed simp
qed

lemma synchronize_peers:
  assumes "\<not> rm_closed r"
  shows "rm_peers (synchronize lib r) = map (\<lambda>(i, p). (i, fst (synchronize_peer lib (rm_forwards r) i p))) (rm_peers r)"
    and "rm_log (synchronize lib r) = rm_log r
      @ concat (map snd (map (\<lambda>(i, p). (pe_conn p, snd (synchronize_peer lib (rm_forwards r) i p))) (rm_peers r)))"
    and "rm_forwards (synchronize lib r) = rm_forwards r" "rm_next (synchronize lib r) = rm_next r"
    and "rm_closed (synchronize lib r) = rm_closed r"
  using assms by (auto simp: synchronize_def Let_def comp_def split_beta intro!: arg_cong [of _ _ concat])

lemma synchronize_frame [simp]:
  "rm_forwards (synchronize lib r) = rm_forwards r" "rm_next (synchronize lib r) = rm_next r"
  "rm_closed (synchronize lib r) = rm_closed r"
  by (simp_all add: synchronize_def Let_def)

lemma synchronize_ok:
  assumes "room_ok r"
  shows "room_ok (synchronize lib r)"
proof (cases "rm_closed r")
  case True
  then show ?thesis using assms by (simp add: synchronize_def)
next
  case up: False
  define cs where "cs = map (\<lambda>(i, p). (pe_conn p, snd (synchronize_peer lib (rm_forwards r) i p))) (rm_peers r)"
  note st = synchronize_peers [OF up, of lib, folded cs_def]
  have ok: "\<And>i p. (i, p) \<in> set (rm_peers r) \<Longrightarrow> pe_conn p < rm_next r \<and> peer_ok (rm_log r) p"
    and dist: "distinct (map fst (rm_peers r))" "distinct (map (pe_conn \<circ> snd) (rm_peers r))"
    and old: "\<And>e. e \<in> set (rm_log r) \<Longrightarrow> conn_of e < rm_next r" "\<And>c. talk False (of_conn c (rm_log r)) \<noteq> None"
    using assms by (force simp: room_ok_def)+
  have conns: "conn_of e = c" if "(c, es) \<in> set cs" "e \<in> set es" for c es e
    using that sync_sent by (auto simp: cs_def)
  have dc: "distinct (map fst cs)" using dist(2) by (simp add: cs_def comp_def split_beta)
  note own = of_conn_concat [OF dc conns]
  have new: "peer_ok (rm_log r @ concat (map snd cs)) (fst (synchronize_peer lib (rm_forwards r) i p))"
    "talk False (of_conn (pe_conn p) (rm_log r @ concat (map snd cs))) \<noteq> None" if m: "(i, p) \<in> set (rm_peers r)" for i p
  proof -
    obtain p' sent where sp: "synchronize_peer lib (rm_forwards r) i p = (p', sent)" by fastforce
    have "(pe_conn p, sent) \<in> set cs" using m sp by (force simp: cs_def)
    then have e: "of_conn (pe_conn p) (rm_log r @ concat (map snd cs)) = of_conn (pe_conn p) (rm_log r) @ sent"
      using own(1) by (simp add: of_conn_append)
    show "peer_ok (rm_log r @ concat (map snd cs)) (fst (synchronize_peer lib (rm_forwards r) i p))"
      using sync_peer(3) [OF sp conjunct2 [OF ok [OF m]] e] sp by simp
    show "talk False (of_conn (pe_conn p) (rm_log r @ concat (map snd cs))) \<noteq> None"
      unfolding e using sync_peer(4) [OF sp conjunct2 [OF ok [OF m]]] .
  qed
  have talk: "talk False (of_conn c (rm_log r @ concat (map snd cs))) \<noteq> None" for c
  proof (cases "c \<in> fst ` set cs")
    case True
    then show ?thesis using new(2) by (force simp: cs_def)
  next
    case False
    then show ?thesis using own(2) old(2) by (simp add: of_conn_append)
  qed
  have "conn_of e < rm_next r" if "e \<in> set (concat (map snd cs))" for e
    using that conns ok by (fastforce simp: cs_def)
  then show ?thesis
    unfolding room_ok_def st using dist old(1) talk new(1) ok sync_conn
    by (auto simp: comp_def split_beta)
qed

lemma update_set: "distinct (map fst al) \<Longrightarrow> set (AList.update i p al) = insert (i, p) {x \<in> set al. fst x \<noteq> i}"
  by (induction al) (auto simp: image_iff)

lemma update_map_same:
  "distinct (map fst al) \<Longrightarrow> map_of al i = Some p \<Longrightarrow> f p' = f p \<Longrightarrow> map (f \<circ> snd) (AList.update i p' al) = map (f \<circ> snd) al"
  by (induction al) auto

lemma update_new: "map_of al i = None \<Longrightarrow> AList.update i p al = al @ [(i, p)]"
  by (induction al) (auto split: if_splits)

lemma delete_filter: "AList.delete k al = filter (\<lambda>(k', _). k' \<noteq> k) al"
  by (induction al) auto

lemma room_okD:
  assumes "room_ok r"
  shows "distinct (map fst (rm_peers r))" "distinct (map (pe_conn \<circ> snd) (rm_peers r))"
    and "(i, p) \<in> set (rm_peers r) \<Longrightarrow> pe_conn p < rm_next r \<and> peer_ok (rm_log r) p"
    and "e \<in> set (rm_log r) \<Longrightarrow> conn_of e < rm_next r" "talk False (of_conn c (rm_log r)) \<noteq> None"
  using assms by (force simp: room_ok_def)+

lemma set_peer_twice [simp]: "set_peer i p' (set_peer i p r) = set_peer i p' r"
  by (simp add: set_peer_def)

lemma set_peer_ok:
  assumes "room_ok r" "map_of (rm_peers r) i = Some p"
    and "pe_conn p' = pe_conn p" "pe_senders p' = pe_senders p" "pe_dirty p' = pe_dirty p" "pe_negotiating p' = pe_negotiating p"
  shows "room_ok (set_peer i p' r)"
proof -
  note d = room_okD [OF assms(1)]
  have "peer_ok (rm_log r) p'" "pe_conn p' < rm_next r"
    using d(3) [OF map_of_SomeD [OF assms(2)]] assms(3-) by (simp_all add: peer_ok_def)
  then show ?thesis
    using assms(1) update_map_same [OF d(1) assms(2), where f = pe_conn, OF assms(3)]
    by (auto simp: room_ok_def set_peer_def update_set distinct_update)
qed

lemma answered_ok:
  assumes "room_ok r" "map_of (rm_peers r) i = Some p"
  shows "room_ok ((set_peer i (p\<lparr>pe_negotiating := False\<rparr>) r)\<lparr>rm_log := rm_log r @ [Answered (pe_conn p)]\<rparr>)"
proof -
  note d = room_okD [OF assms(1)]
  let ?log = "rm_log r @ [Answered (pe_conn p)]"
  note m = map_of_SomeD [OF assms(2)]
  have same: "of_conn c ?log = (if c = pe_conn p then of_conn c (rm_log r) @ [Answered c] else of_conn c (rm_log r))" for c
    by (simp add: of_conn_def)
  have p: "peer_ok ?log (p\<lparr>pe_negotiating := False\<rparr>)"
    using d(3) [OF m] by (auto simp: peer_ok_def same talk_append)
  have "pe_conn q \<noteq> pe_conn p" if "(j, q) \<in> set (rm_peers r)" "j \<noteq> i" for j q
  proof -
    have inj: "inj_on (pe_conn \<circ> snd) (set (rm_peers r))" using d(2) by (simp add: distinct_map)
    then show ?thesis using inj_onD [OF inj, of "(j, q)" "(i, p)"] that m by auto
  qed
  then have q: "peer_ok ?log q" if "(j, q) \<in> set (rm_peers r)" "j \<noteq> i" for j q
    using d(3) [OF that(1)] that by (simp add: peer_ok_def same)
  have t: "talk False (of_conn c ?log) \<noteq> None" for c
    using d(5) [of c] by (auto simp: same talk_append)
  have b: "pe_conn p < rm_next r" using d(3) [OF m] by simp
  show ?thesis
    using d(1-4) update_map_same [OF d(1) assms(2), where f = pe_conn and p' = "p\<lparr>pe_negotiating := False\<rparr>"] p q t b
    unfolding room_ok_def set_peer_def by (auto simp: update_set distinct_update)
qed

lemma join_ok:
  assumes "room_ok r"
  shows "room_ok (fst (join lib i r))"
proof -
  note d = room_okD [OF assms]
  have fresh: "of_conn (rm_next r) (rm_log r) = []" using d(4) by (force simp: of_conn_def filter_empty_conv)
  have "peer_ok (rm_log r) \<lparr>pe_conn = rm_next r, pe_senders = [], pe_ready = False, pe_negotiating = False,
              pe_dirty = False, pe_screen_stream = [], pe_screen = None\<rparr>"
    by (simp add: peer_ok_def fresh described_def)
  moreover have "rm_next r \<notin> pe_conn ` snd ` set (rm_peers r)" using d(3) by force
  moreover have "pe_conn p < Suc (rm_next r)" if "(j, p) \<in> set (rm_peers r)" for j p using d(3) [OF that] by simp
  ultimately show ?thesis
    using assms d(4) by (auto simp: join_def set_peer_def room_ok_def update_new map_of_eq_None_iff less_Suc_eq image_comp)
qed

lemma fewer_peers_ok:
  assumes "room_ok r"
  shows "room_ok (r\<lparr>rm_peers := filter P (rm_peers r), rm_forwards := fs\<rparr>)"
  using assms by (auto simp: room_ok_def distinct_map_filter)

lemma forwards_ok [simp]: "room_ok (r\<lparr>rm_forwards := fs\<rparr>) = room_ok r"
  by (simp add: room_ok_def)

lemma next_ok: "room_ok r \<Longrightarrow> room_ok (r\<lparr>rm_next := Suc (rm_next r)\<rparr>)"
  by (auto simp: room_ok_def intro: less_SucI)

lemma screen_ok: "room_ok r \<Longrightarrow> room_ok (set_screen_active lib i active r)"
  by (auto simp: set_screen_active_def intro!: synchronize_ok split: option.split)

lemma close_ok: "room_ok r \<Longrightarrow> room_ok (close_room r)"
  by (auto simp: close_room_def room_ok_def)

lemma room_step_ok:
  assumes "room_ok r"
  shows "room_ok (room_step lib ev r)"
proof (cases ev)
  case (Answers i stream)
  then show ?thesis
    using assms by (auto simp: room_step_def answer_offer_def Let_def intro!: synchronize_ok set_peer_ok split: option.split)
next
  case (Signals i kind)
  then show ?thesis using assms
    by (auto simp: room_step_def room_signal_def intro!: synchronize_ok answered_ok screen_ok split: option.split signal_kind.split)
next
  case (Publishes owner track stream)
  then show ?thesis using assms
    by (auto simp: room_step_def publish_def Let_def next_ok intro!: synchronize_ok set_peer_ok split: option.split)
qed (use assms in \<open>auto simp: room_step_def leave_def connection_gone_def publish_end_def delete_filter
    intro!: synchronize_ok join_ok close_ok fewer_peers_ok split: option.split\<close>)

lemma new_room_ok: "room_ok new_room"
  by (simp add: room_ok_def new_room_def of_conn_def)

lemma run_room_ok: "room_ok r \<Longrightarrow> room_ok (run_room evs r)"
  by (induction evs arbitrary: r) (auto simp: run_room_def room_step_ok)

subsection \<open>Who receives what\<close>

definition others :: "(string \<times> local_track) list \<Rightarrow> string \<Rightarrow> local_track set" where
  "others fs i = {l. \<exists>k. (k, l) \<in> set fs \<and> forward_owner k \<noteq> i}"

definition one_track_per_id :: "(string \<times> local_track) list \<Rightarrow> (string \<times> local_track) list \<Rightarrow> bool" where
  "one_track_per_id fs fs' \<longleftrightarrow> (\<forall>l \<in> snd ` set fs. \<forall>l' \<in> snd ` set fs'. lt_id l = lt_id l' \<longrightarrow> l = l')"

definition steady :: "room \<Rightarrow> bool" where
  "steady r \<longleftrightarrow> (rm_closed r \<longrightarrow> rm_peers r = []) \<and> (\<forall>(i, p) \<in> set (rm_peers r). set (pe_senders p) \<subseteq> others (rm_forwards r) i
     \<and> (pe_ready p \<longrightarrow> set (pe_senders p) = others (rm_forwards r) i \<and> (pe_negotiating p \<or> \<not> pe_dirty p)))"

abbreviation willing :: lib where
  "willing \<equiv> \<lambda>_. True"

fun clean_run :: "room_event list \<Rightarrow> room \<Rightarrow> bool" where
  "clean_run [] r = True"
| "clean_run (ev # evs) r =
     (let r1 = room_step willing ev r
      in one_track_per_id (rm_forwards r) (rm_forwards r1) \<and> one_track_per_id (rm_forwards r1) (rm_forwards r1) \<and> clean_run evs r1)"

lemma sync_peer_willing:
  assumes "synchronize_peer willing fs i p = (p', sent)" "distinct (map lt_id (pe_senders p))"
  shows "lt_id ` set (pe_senders p') = lt_id ` others fs i" "set (pe_senders p') \<subseteq> set (pe_senders p) \<union> others fs i"
    and "pe_ready p' \<Longrightarrow> pe_negotiating p' \<or> \<not> pe_dirty p'"
proof -
  obtain p1 changed where rc: "reconcile willing fs i p = (p1, changed)" by fastforce
  have off: "offer willing i (if changed then p1\<lparr>pe_dirty := True\<rparr> else p1) = (p', sent)"
    using assms(1) rc by (simp add: synchronize_peer_def)
  then have same: "pe_senders p' = pe_senders p1" by (auto simp: offer_def split: if_splits)
  show "lt_id ` set (pe_senders p') = lt_id ` others fs i"
    unfolding same using reconcile_senders(4) [OF rc assms(2) TrueI] by (auto simp: others_def image_iff)
  show "set (pe_senders p') \<subseteq> set (pe_senders p) \<union> others fs i"
    unfolding same using reconcile_senders(5) [OF rc assms(2)] by (auto simp: others_def)
  have "list_ex (\<lambda>attempt. True) [0 ..< 3]" by (simp add: upt_rec)
  then show "pe_ready p' \<Longrightarrow> pe_negotiating p' \<or> \<not> pe_dirty p'"
    using off by (auto simp: offer_def split: if_splits)
qed

lemma sync_steady:
  assumes "room_ok r" "rm_closed r \<Longrightarrow> rm_peers r = []"
    and one: "one_track_per_id fs (rm_forwards r)" "one_track_per_id (rm_forwards r) (rm_forwards r)"
    and old: "\<And>i p. (i, p) \<in> set (rm_peers r) \<Longrightarrow> set (pe_senders p) \<subseteq> others fs i"
  shows "steady (synchronize willing r)"
proof (cases "rm_closed r")
  case True
  then show ?thesis using assms(2) by (simp add: synchronize_def steady_def)
next
  case up: False
  let ?fs = "rm_forwards r"
  have eq: "set (pe_senders p') = others ?fs i \<and> (pe_ready p' \<longrightarrow> pe_negotiating p' \<or> \<not> pe_dirty p')"
    if m: "(i, p) \<in> set (rm_peers r)" and sp: "synchronize_peer willing ?fs i p = (p', sent)" for i p p' sent
  proof -
    have d: "distinct (map lt_id (pe_senders p))" using room_okD(3) [OF assms(1) m] by (simp add: peer_ok_def)
    note w = sync_peer_willing [OF sp d]
    have sub: "l \<in> others ?fs i" if l: "l \<in> set (pe_senders p')" for l
    proof -
      have "lt_id l \<in> lt_id ` others ?fs i" using w(1) l by auto
      then obtain l' where l': "l' \<in> others ?fs i" "lt_id l = lt_id l'" by auto
      have "l \<in> others fs i \<or> l \<in> others ?fs i" using w(2) l old [OF m] by auto
      then have "l = l'" using one l' by (force simp: others_def one_track_per_id_def)
      then show ?thesis using l' by simp
    qed
    have "l \<in> set (pe_senders p')" if l: "l \<in> others ?fs i" for l
    proof -
      have "lt_id l \<in> lt_id ` set (pe_senders p')" using w(1) l by auto
      then obtain l' where l': "l' \<in> set (pe_senders p')" "lt_id l = lt_id l'" by auto
      then have "l = l'" using sub [OF l'(1)] one(2) l by (force simp: others_def one_track_per_id_def)
      then show ?thesis using l' by simp
    qed
    then show ?thesis using sub w(3) by blast
  qed
  then show ?thesis
    unfolding steady_def synchronize_frame synchronize_peers(1) [OF up] using up
    by (auto simp: split_beta) (metis eq prod.collapse)+
qed

lemma set_peer_frame [simp]:
  "rm_forwards (set_peer i p r) = rm_forwards r" "rm_closed (set_peer i p r) = rm_closed r"
  "rm_next (set_peer i p r) = rm_next r" "rm_log (set_peer i p r) = rm_log r"
  "rm_peers (set_peer i p r) = AList.update i p (rm_peers r)"
  by (simp_all add: set_peer_def)

lemma steady_set:
  assumes "room_ok r" "steady r" "map_of (rm_peers r) i = Some p"
    and "pe_senders p' = pe_senders p" "pe_ready p' = pe_ready p" "pe_negotiating p' = pe_negotiating p" "pe_dirty p' = pe_dirty p"
  shows "steady (set_peer i p' r)"
  using assms map_of_SomeD [OF assms(3)] by (auto simp: steady_def update_set [OF room_okD(1) [OF assms(1)]])

lemma steady_sub: "steady r \<Longrightarrow> (i, p) \<in> set (rm_peers r) \<Longrightarrow> set (pe_senders p) \<subseteq> others (rm_forwards r) i"
  by (auto simp: steady_def)

lemma steady_closed: "steady r \<Longrightarrow> map_of (rm_peers r) i = Some p \<Longrightarrow> \<not> rm_closed r"
  by (auto simp: steady_def)

text \<open>A peer replaced by one with the same senders, and tracks that moved: what precedes a synchronization.\<close>

lemma sync_after_set:
  assumes "room_ok r" "steady r" "map_of (rm_peers r) i = Some p" "pe_senders p' = pe_senders p"
    and "room_ok r1" "rm_peers r1 = AList.update i p' (rm_peers r)" "\<not> rm_closed r1"
    and "one_track_per_id (rm_forwards r) (rm_forwards r1)" "one_track_per_id (rm_forwards r1) (rm_forwards r1)"
  shows "steady (synchronize willing r1)"
proof (rule sync_steady [OF assms(5) _ assms(8,9)])
  fix j q
  assume "(j, q) \<in> set (rm_peers r1)"
  then show "set (pe_senders q) \<subseteq> others (rm_forwards r) j"
    using steady_sub [OF assms(2), of j q] steady_sub [OF assms(2) map_of_SomeD [OF assms(3)]] assms(4)
    unfolding assms(6) update_set [OF room_okD(1) [OF assms(1)]] by auto
qed (use assms(7) in simp)

lemma sync_after_change:
  assumes "steady r" "room_ok r1" "set (rm_peers r1) \<subseteq> set (rm_peers r)" "rm_closed r1 = rm_closed r"
    and "one_track_per_id (rm_forwards r) (rm_forwards r1)" "one_track_per_id (rm_forwards r1) (rm_forwards r1)"
  shows "steady (synchronize willing r1)"
  by (rule sync_steady [OF assms(2) _ assms(5,6)]) (use assms(1,3,4) steady_sub [OF assms(1)] in \<open>auto simp: steady_def\<close>)

lemma screen_steady:
  assumes "room_ok r" "steady r" "one_track_per_id (rm_forwards r) (rm_forwards (set_screen_active willing i active r))"
    "one_track_per_id (rm_forwards (set_screen_active willing i active r)) (rm_forwards (set_screen_active willing i active r))"
  shows "steady (set_screen_active willing i active r)"
proof (cases "\<exists>p k l. map_of (rm_peers r) i = Some p \<and> pe_screen p = Some (k, l)")
  case False
  then show ?thesis using assms(2) by (auto simp: set_screen_active_def split: option.split)
next
  case True
  then obtain p k l where p: "map_of (rm_peers r) i = Some p" "pe_screen p = Some (k, l)" by blast
  define r1 where "r1 = (if active then r\<lparr>rm_forwards := AList.update k l (rm_forwards r)\<rparr>
    else if map_of (rm_forwards r) k = Some l then r\<lparr>rm_forwards := AList.delete k (rm_forwards r)\<rparr> else r)"
  have e: "set_screen_active willing i active r = synchronize willing r1"
    using p steady_closed [OF assms(2) p(1)] by (simp add: set_screen_active_def r1_def)
  have "room_ok r1" "rm_peers r1 = rm_peers r" "rm_closed r1 = rm_closed r" using assms(1) by (simp_all add: r1_def)
  then show ?thesis using sync_after_change [OF assms(2), of r1] assms(3,4) unfolding e by simp
qed

lemma answer_steady:
  assumes "room_ok r" "steady r" "one_track_per_id (rm_forwards r) (rm_forwards r)"
  shows "steady (fst (answer_offer willing i stream r))"
proof (cases "map_of (rm_peers r) i")
  case (Some p)
  let ?p = "p\<lparr>pe_screen_stream := stream, pe_ready := True\<rparr>"
  have "room_ok (set_peer i ?p r)" by (rule set_peer_ok [OF assms(1) Some]) simp_all
  then have "steady (synchronize willing (set_peer i ?p r))"
    using steady_closed [OF assms(2) Some] assms(3) by (intro sync_after_set [OF assms(1,2) Some]) auto
  then show ?thesis using Some by (simp add: answer_offer_def Let_def)
qed (use assms in \<open>simp add: answer_offer_def\<close>)

lemma signal_steady:
  assumes "room_ok r" "steady r" "one_track_per_id (rm_forwards r) (rm_forwards (fst (room_signal willing i kind r)))"
    "one_track_per_id (rm_forwards (fst (room_signal willing i kind r))) (rm_forwards (fst (room_signal willing i kind r)))"
  shows "steady (fst (room_signal willing i kind r))"
proof (cases "map_of (rm_peers r) i")
  case (Some p)
  show ?thesis
  proof (cases kind)
    case AnswerKind
    let ?r = "(set_peer i (p\<lparr>pe_negotiating := False\<rparr>) r)\<lparr>rm_log := rm_log r @ [Answered (pe_conn p)]\<rparr>"
    have "steady (synchronize willing ?r)"
      using steady_closed [OF assms(2) Some] assms(3,4) answered_ok [OF assms(1) Some] Some AnswerKind
      by (intro sync_after_set [OF assms(1,2) Some]) (auto simp: room_signal_def)
    then show ?thesis using AnswerKind Some by (simp add: room_signal_def)
  qed (use Some assms screen_steady [OF assms(1,2)] in \<open>simp_all add: room_signal_def\<close>)
qed (use assms in \<open>simp add: room_signal_def\<close>)

lemma publish_steady:
  assumes "room_ok r" "steady r" "one_track_per_id (rm_forwards r) (rm_forwards (publish willing owner track stream r))"
    "one_track_per_id (rm_forwards (publish willing owner track stream r)) (rm_forwards (publish willing owner track stream r))"
  shows "steady (publish willing owner track stream r)"
proof (cases "map_of (rm_peers r) owner")
  case None
  define r1 where "r1 = r\<lparr>rm_next := Suc (rm_next r)\<rparr>"
  define l where "l = \<lparr>lt_ref = rm_next r, lt_id = track, lt_stream = forward_stream_id owner False\<rparr>"
  have e: "publish willing owner track stream r = (if rm_closed r then r1
      else synchronize willing (r1\<lparr>rm_forwards := AList.update (forward_key owner track) l (rm_forwards r)\<rparr>))"
    using None by (simp add: publish_def Let_def r1_def l_def)
  show ?thesis
  proof (cases "rm_closed r")
    case True
    then show ?thesis using assms(2) unfolding e by (simp add: steady_def r1_def)
  next
    case False
    then show ?thesis using assms(2-4) next_ok [OF assms(1)] unfolding e
      by (simp add: r1_def) (intro sync_after_change [OF assms(2)], auto)
  qed
next
  case (Some p)
  define screen where "screen = (pe_screen_stream p \<noteq> [] \<and> stream = pe_screen_stream p)"
  define l where "l = \<lparr>lt_ref = rm_next r, lt_id = track, lt_stream = forward_stream_id owner screen\<rparr>"
  define p' where "p' = (if screen then p\<lparr>pe_screen := Some (forward_key owner track, l)\<rparr> else p)"
  define r1 where "r1 = (set_peer owner p' (r\<lparr>rm_next := Suc (rm_next r)\<rparr>))
    \<lparr>rm_forwards := AList.update (forward_key owner track) l (rm_forwards r)\<rparr>"
  have up: "\<not> rm_closed r" by (rule steady_closed [OF assms(2) Some])
  have same: "set_peer owner p x = x" if "rm_peers x = rm_peers r" for x :: room
    using that update_triv [OF Some] by (simp add: set_peer_def)
  have e: "publish willing owner track stream r = synchronize willing r1"
    using Some up same [of "r\<lparr>rm_next := Suc (rm_next r)\<rparr>"]
    by (simp add: publish_def Let_def r1_def l_def screen_def p'_def)
  have "room_ok r1" unfolding r1_def forwards_ok
    by (rule set_peer_ok [OF next_ok [OF assms(1)], of _ p]) (simp_all add: Some p'_def)
  moreover have "rm_peers r1 = AList.update owner p' (rm_peers r)" "\<not> rm_closed r1" using up by (simp_all add: r1_def)
  ultimately show ?thesis using assms(3,4) unfolding e
    by (intro sync_after_set [OF assms(1,2) Some, of p']) (auto simp: p'_def)
qed

lemma room_step_steady:
  assumes "room_ok r" "steady r" "one_track_per_id (rm_forwards r) (rm_forwards (room_step willing ev r))"
    "one_track_per_id (rm_forwards (room_step willing ev r)) (rm_forwards (room_step willing ev r))"
  shows "steady (room_step willing ev r)"
proof -
  have gone: "steady (leave willing i r)"
    if "one_track_per_id (rm_forwards r) (rm_forwards (leave willing i r))"
      "one_track_per_id (rm_forwards (leave willing i r)) (rm_forwards (leave willing i r))" for i
    using that assms(1,2) unfolding leave_def delete_filter
    by (auto split: option.splits intro!: sync_after_change [OF assms(2)] fewer_peers_ok)
  show ?thesis
  proof (cases ev)
    case (Joins i)
    then show ?thesis using assms(2) by (auto simp: room_step_def join_def steady_def update_new)
  next
    case (Answers i stream)
    then show ?thesis using answer_steady [OF assms(1,2)] assms(3,4) by (simp add: room_step_def one_track_per_id_def answer_offer_def Let_def split: option.splits)
  next
    case (Signals i kind)
    then show ?thesis using signal_steady [OF assms(1,2)] assms(3,4) by (simp add: room_step_def)
  next
    case (Publishes owner track stream)
    then show ?thesis using publish_steady [OF assms(1,2)] assms(3,4) by (simp add: room_step_def)
  next
    case (Ends key l)
    then show ?thesis using assms unfolding room_step_def
      by (auto simp: publish_end_def intro!: sync_after_change [OF assms(2)])
  next
    case Closes
    then show ?thesis using assms(2) by (simp add: room_step_def close_room_def steady_def)
  qed (use assms gone in \<open>simp_all add: room_step_def connection_gone_def\<close>)
qed

lemma clean_run_steady:
  assumes "clean_run evs r" "room_ok r" "steady r"
  shows "steady (run_room (map (Pair willing) evs) r)"
  using assms
proof (induction evs arbitrary: r)
  case (Cons ev evs)
  have "steady (room_step willing ev r)" using room_step_steady [OF Cons.prems(2,3)] Cons.prems(1) by (simp add: Let_def)
  then show ?case using Cons room_step_ok [OF Cons.prems(2)] by (simp add: run_room_def Let_def)
qed (simp add: run_room_def)

lemma forward_owner_key: "forward_delimiter \<notin> set owner \<Longrightarrow> forward_owner (forward_key owner track) = owner"
  by (induction owner) (auto simp: forward_owner_def forward_key_def)

lemma stream_id_roundtrip:
  "forwarded_owner (forward_stream_id owner True) = owner \<and> forwarded_is_screen (forward_stream_id owner True)"
  "\<not> has_suffix screen_suffix owner \<Longrightarrow>
    forwarded_owner (forward_stream_id owner False) = owner \<and> \<not> forwarded_is_screen (forward_stream_id owner False)"
  by (auto simp: forwarded_owner_def forward_stream_id_def forwarded_is_screen_def has_suffix_def)

subsection \<open>Properties\<close>

text \<open>
  C20. Negotiation with a browser never collides and strands no change. In every run of a room, with
  whatever the library refuses: no connection is ever offered a description while an earlier one is
  unanswered; a participant marked as negotiating has exactly one unanswered offer; and one whose
  tracks are not marked as changed was last offered exactly the tracks its connection sends.
\<close>

theorem huddle_negotiation_sound:
  "talk False (of_conn c (rm_log (run_room evs new_room))) \<noteq> None
   \<and> list_all (\<lambda>(i, p). talk False (of_conn (pe_conn p) (rm_log (run_room evs new_room))) = Some (pe_negotiating p)
        \<and> (pe_dirty p \<or> described (of_conn (pe_conn p) (rm_log (run_room evs new_room))) = pe_senders p))
      (rm_peers (run_room evs new_room))"
  using run_room_ok [OF new_room_ok, of evs] by (fastforce simp: room_ok_def peer_ok_def list_all_iff)


definition two_share :: "room_event list" where
  "two_share = [Joins ''U1'', Answers ''U1'' ''s1'', Joins ''U2'', Answers ''U2'' [], Publishes ''U1'' ''cam'' ''c1'',
     Publishes ''U1'' ''scr'' ''s1'', Signals ''U2'' AnswerKind, Signals ''U1'' ScreenOff]"


text \<open>
  The tracks are told apart by the id their publisher's browser gave them alone. A participant who
  publishes a track under the id of another participant's keeps one of the two from everyone else.
\<close>

lemma same_track_id_masks:
  "map lt_stream (pe_senders (the (map_of (rm_peers (run_room (map (Pair willing)
     [Joins ''U1'', Joins ''U2'', Joins ''U3'', Answers ''U3'' [], Publishes ''U1'' ''mic'' ''a'', Publishes ''U2'' ''mic'' ''b'']) new_room)) ''U3''))) = [''U1'']"
  by code_simp

text \<open>
  The callback of a closed connection names its participant, not the connection: when it arrives
  after the participant came back, it removes the new connection.
\<close>

lemma late_close_evicts_rejoined:
  "map_of (rm_peers (run_room (map (Pair willing) [Joins ''U1'', Leaves ''U1'', Joins ''U1'', Gone ''U1'' 0]) new_room)) ''U1'' = None"
  by code_simp

text \<open>
  A screen track that ended is still what resuming the share puts back.
\<close>

lemma resume_forwards_ended_screen:
  "map lt_id (pe_senders (the (map_of (rm_peers (run_room (map (Pair willing)
     [Joins ''U1'', Answers ''U1'' ''s'', Joins ''U2'', Answers ''U2'' [], Publishes ''U1'' ''scr'' ''s'',
      Ends (forward_key ''U1'' ''scr'') \<lparr>lt_ref = 2, lt_id = ''scr'', lt_stream = ''U1.screen''\<rparr>, Signals ''U1'' ScreenOn]) new_room)) ''U2''))) = [''scr'']"
  by code_simp

text \<open>
  A room whose last participant's connection fails is emptied but stays with the manager: only
  \<^verbatim>\<open>Manager.Leave\<close> disposes of rooms.
\<close>

lemma failed_connection_leaves_room:
  "map_of (manager_gone willing ''C1'' ''U1'' 0 (fst (manager_offer willing ''C1'' ''U1'' [] []))) ''C1'' \<noteq> None
   \<and> rm_peers (the (map_of (manager_gone willing ''C1'' ''U1'' 0 (fst (manager_offer willing ''C1'' ''U1'' [] []))) ''C1'')) = []"
  by code_simp

text \<open>A participant who leaves through the manager leaves no room behind when it was the last.\<close>

lemma last_leave_disposes:
  assumes "map_of m call = Some r" "rm_peers (leave lib participant r) = []" "distinct (map fst m)"
  shows "map_of (manager_leave lib call participant m) call = None"
  using assms by (simp add: manager_leave_def Let_def delete_conv')

end
