(* ===== verification/Mentions.thy ===== *)
theory Mentions
  imports Go_Values
begin

section \<open>Whom a message names\<close>

text \<open>
  \<^verbatim>\<open>internal/domain/mentions.go\<close> and \<^verbatim>\<open>MatchesNotificationKeyword\<close> of \<^verbatim>\<open>internal/domain/models.go\<close>. A
  message's recipients are the user and user-group identifiers of its mrkdwn text and of the typed
  elements of its blocks; anything else in the blocks is opaque data. The scanners work on the
  bytes of the text. What \<^verbatim>\<open>encoding/json\<close> decodes a document into is a \<open>json\<close> value (an object is
  its key-value pairs, each key once); the decoder itself, \<^verbatim>\<open>strings.ToLower\<close> and the Unicode
  classes of letters and numbers are arguments.
\<close>

datatype json =
  JNull | JBool bool | JNumber string | JString string | JArray "json list" | JObject "(string \<times> json) list"

datatype mention = UserMention string | GroupMention string

definition between :: "char \<Rightarrow> char \<Rightarrow> char \<Rightarrow> bool" where
  "between lo hi c \<longleftrightarrow> (of_char lo :: nat) \<le> of_char c \<and> (of_char c :: nat) \<le> of_char hi"

definition upper_or_digit :: "char \<Rightarrow> bool" where
  "upper_or_digit c \<longleftrightarrow> between CHR ''A'' CHR ''Z'' c \<or> between CHR ''0'' CHR ''9'' c"

definition valid_group_mention_id :: "string \<Rightarrow> bool" where
  "valid_group_mention_id value \<longleftrightarrow>
     \<not> (length value < 2 \<or> hd value \<noteq> CHR ''S'') \<and> list_all upper_or_digit (tl value)"

definition valid_user_mention_id :: "string \<Rightarrow> bool" where
  "valid_user_mention_id value \<longleftrightarrow>
     \<not> (length value < 2 \<or> (hd value \<noteq> CHR ''U'' \<and> hd value \<noteq> CHR ''W''))
     \<and> list_all (\<lambda>c. upper_or_digit c \<or> between CHR ''a'' CHR ''z'' c) (tl value)"

text \<open>What follows the first occurrence of a pattern, as \<^verbatim>\<open>strings.Index\<close> finds it.\<close>

fun after_first :: "string \<Rightarrow> string \<Rightarrow> string option" where
  "after_first pat [] = (if pat = [] then Some [] else None)"
| "after_first pat (c # cs) =
     (if take (length pat) (c # cs) = pat then Some (drop (length pat) (c # cs)) else after_first pat cs)"

lemma after_first_length: "after_first pat s = Some r \<Longrightarrow> length r \<le> length s"
  by (induction s) (auto split: if_splits)

text \<open>The loop of the two scanners: references opened by \<open>pat\<close>, closed by \<open>>\<close>, labelled after \<open>|\<close>.\<close>

function scan_mentions :: "string \<Rightarrow> (string \<Rightarrow> bool) \<Rightarrow> string \<Rightarrow> string list" where
  "scan_mentions pat valid value =
     (case after_first pat value of
        None \<Rightarrow> []
      | Some rest \<Rightarrow>
          if CHR ''>'' \<notin> set rest then []
          else
            let raw = takeWhile (\<lambda>c. c \<noteq> CHR ''|'') (takeWhile (\<lambda>c. c \<noteq> CHR ''>'') rest)
            in (if valid raw then [raw] else []) @ scan_mentions pat valid (tl (dropWhile (\<lambda>c. c \<noteq> CHR ''>'') rest)))"
  by pat_completeness auto
termination
proof (relation "measure (\<lambda>(pat, valid, value). length value)")
  show "wf (measure (\<lambda>(pat :: string, valid :: string \<Rightarrow> bool, value :: string). length value))" by simp
next
  fix pat :: string and valid :: "string \<Rightarrow> bool" and s rest :: string
  assume a: "after_first pat s = Some rest" "\<not> CHR ''>'' \<notin> set rest"
  have "dropWhile (\<lambda>c. c \<noteq> CHR ''>'') rest \<noteq> []" using a(2) by (simp add: dropWhile_eq_Nil_conv)
  then have "length (tl (dropWhile (\<lambda>c. c \<noteq> CHR ''>'') rest)) < length (dropWhile (\<lambda>c. c \<noteq> CHR ''>'') rest)"
    by (cases "dropWhile (\<lambda>c. c \<noteq> CHR ''>'') rest") auto
  also have "\<dots> \<le> length s" using length_dropWhile_le after_first_length [OF a(1)] le_trans by blast
  finally show "((pat, valid, tl (dropWhile (\<lambda>c. c \<noteq> CHR ''>'') rest)), pat, valid, s)
      \<in> measure (\<lambda>(pat, valid, value). length value)" by simp
qed

declare scan_mentions.simps [simp del]

definition sorted_distinct :: "string list \<Rightarrow> string list" where
  "sorted_distinct xs = sort (remdups xs)"

definition user_mention_prefix :: string where
  "user_mention_prefix = ''<@''"

definition group_mention_prefix :: string where
  "group_mention_prefix = ''<!subteam^''"

definition mentioned_users :: "string list \<Rightarrow> string list" where
  "mentioned_users values = sorted_distinct (concat (map (scan_mentions user_mention_prefix valid_user_mention_id) values))"

definition mentioned_user_groups :: "string list \<Rightarrow> string list" where
  "mentioned_user_groups values =
     sorted_distinct (concat (map (scan_mentions group_mention_prefix valid_group_mention_id) values))"

definition text_mentions :: "string \<Rightarrow> mention list" where
  "text_mentions value =
     map UserMention (mentioned_users [value]) @ map GroupMention (mentioned_user_groups [value])"

definition own_mentions :: "(string \<rightharpoonup> json) \<Rightarrow> mention list" where
  "own_mentions typed =
     (if typed ''type'' = Some (JString ''mrkdwn'') \<or> typed ''type'' = Some (JString ''markdown'') then
        (case typed ''text'' of Some (JString t) \<Rightarrow> text_mentions t | _ \<Rightarrow> [])
      else if typed ''type'' = Some (JString ''user'') then
        (case typed ''user_id'' of Some (JString i) \<Rightarrow> (if valid_user_mention_id i then [UserMention i] else []) | _ \<Rightarrow> [])
      else if typed ''type'' = Some (JString ''usergroup'') then
        (case typed ''usergroup_id'' of Some (JString i) \<Rightarrow> (if valid_group_mention_id i then [GroupMention i] else []) | _ \<Rightarrow> [])
      else [])"

fun visit :: "json \<Rightarrow> mention list" where
  "visit (JArray typed) = concat (map visit typed)"
| "visit (JObject typed) = own_mentions (map_of typed) @ concat (map (\<lambda>kv. visit (snd kv)) typed)"
| "visit _ = []"

text \<open>\<open>parse\<close> is \<^verbatim>\<open>json.Unmarshal\<close>, \<open>None\<close> its error.\<close>

definition mentions_in_message :: "(string \<Rightarrow> json option) \<Rightarrow> string \<Rightarrow> string \<Rightarrow> string list \<times> string list" where
  "mentions_in_message parse message_text blocks =
     (let found = text_mentions message_text @ (case parse blocks of Some value \<Rightarrow> visit value | None \<Rightarrow> [])
      in (sorted_distinct [i. UserMention i \<leftarrow> found], sorted_distinct [i. GroupMention i \<leftarrow> found]))"

subsection \<open>Keywords\<close>

definition keyword_at :: "(nat \<Rightarrow> bool) \<Rightarrow> nat list \<Rightarrow> nat list \<Rightarrow> nat \<Rightarrow> bool" where
  "keyword_at word haystack needle start \<longleftrightarrow>
     (\<forall>k < length needle. haystack ! (start + k) = needle ! k)
     \<and> \<not> (start > 0 \<and> word (haystack ! (start - 1)))
     \<and> \<not> (start + length needle < length haystack \<and> word (haystack ! (start + length needle)))"

definition matches_keyword :: "(string \<Rightarrow> nat list) \<Rightarrow> (nat \<Rightarrow> bool) \<Rightarrow> string \<Rightarrow> string list \<Rightarrow> bool" where
  "matches_keyword lower word message_text keywords \<longleftrightarrow>
     (let haystack = lower message_text in
      list_ex (\<lambda>keyword.
        let needle = lower (trim_space keyword) in
        \<not> (length needle = 0 \<or> length needle > length haystack)
        \<and> list_ex (keyword_at word haystack needle) [0..<length haystack - length needle + 1]) keywords)"

subsection \<open>What the scanners find\<close>

lemma sorted_distinct_set [simp]: "set (sorted_distinct xs) = set xs"
  by (simp add: sorted_distinct_def)

lemma sorted_distinct_same: "set xs = set ys \<Longrightarrow> sorted_distinct xs = sorted_distinct ys"
  unfolding sorted_distinct_def by (metis sorted_list_of_set_sort_remdups)

lemma after_first_cons: "after_first (p # ps) (p # ps @ rest) = Some rest"
  by simp

lemma after_first_skip: "p \<notin> set s \<Longrightarrow> after_first (p # ps) (s @ t) = after_first (p # ps) t"
  by (induction s) auto

lemma after_first_none: "p \<notin> set s \<Longrightarrow> after_first (p # ps) s = None"
  by (induction s) auto

lemma after_first_split: "after_first pat s = Some r \<Longrightarrow> \<exists>pre. s = pre @ pat @ r"
proof (induction s)
  case (Cons c cs)
  show ?case
  proof (cases "take (length pat) (c # cs) = pat")
    case True
    then have "c # cs = pat @ r" using Cons.prems by (metis append_take_drop_id after_first.simps(2) option.inject)
    then show ?thesis by (metis append_Nil)
  next
    case False
    then obtain pre where "cs = pre @ pat @ r" using Cons by auto
    then have "c # cs = (c # pre) @ pat @ r" by simp
    then show ?thesis by blast
  qed
qed (auto split: if_splits)

text \<open>Every reference found is written in the text, whole, between the opening and \<open>>\<close> or \<open>|\<close>.\<close>

lemma scan_mentions_sound:
  "u \<in> set (scan_mentions pat valid s) \<Longrightarrow>
    valid u \<and> (\<exists>pre post. s = pre @ pat @ u @ post \<and> post \<noteq> [] \<and> hd post \<in> {CHR ''>'', CHR ''|''})"
proof (induction pat valid s rule: scan_mentions.induct)
  case (1 pat valid s)
  obtain r where r: "after_first pat s = Some r" and close: "CHR ''>'' \<in> set r"
    using "1.prems" scan_mentions.simps [of pat valid s] by (fastforce split: option.splits if_splits)
  obtain pre where s: "s = pre @ pat @ r" using after_first_split r by blast
  let ?inner = "takeWhile (\<lambda>c. c \<noteq> CHR ''>'') r" and ?rest = "dropWhile (\<lambda>c. c \<noteq> CHR ''>'') r"
  let ?raw = "takeWhile (\<lambda>c. c \<noteq> CHR ''|'') ?inner" and ?label = "dropWhile (\<lambda>c. c \<noteq> CHR ''|'') ?inner"
  have ne: "?rest \<noteq> []" using close by (simp add: dropWhile_eq_Nil_conv)
  then have hr: "hd ?rest = CHR ''>''" using hd_dropWhile [of "\<lambda>c. c \<noteq> CHR ''>''" r] by auto
  have parts: "r = ?raw @ ?label @ ?rest" by (metis append.assoc takeWhile_dropWhile_id)
  have rest: "r = ?inner @ [CHR ''>''] @ tl ?rest" using ne hr by (metis append_Cons append_Nil list.collapse takeWhile_dropWhile_id)
  have "u \<in> set ((if valid ?raw then [?raw] else []) @ scan_mentions pat valid (tl ?rest))"
    using "1.prems" r close by (subst (asm) scan_mentions.simps) (auto simp: Let_def)
  then consider "valid ?raw" "u = ?raw" | "u \<in> set (scan_mentions pat valid (tl ?rest))" by (auto split: if_splits)
  then show ?case
  proof cases
    case 1
    have "?label @ ?rest \<noteq> []" using ne by simp
    moreover have "hd (?label @ ?rest) \<in> {CHR ''>'', CHR ''|''}"
      using hr hd_dropWhile [of "\<lambda>c. c \<noteq> CHR ''|''" ?inner] by (cases "?label = []") (auto simp: hd_append)
    moreover have "s = pre @ pat @ u @ ?label @ ?rest" using s parts 1(2) by simp
    ultimately show ?thesis using 1 by blast
  next
    case 2
    then obtain pre' post where p: "valid u" "tl ?rest = pre' @ pat @ u @ post" "post \<noteq> []" "hd post \<in> {CHR ''>'', CHR ''|''}"
      using "1.IH" [OF r] close by blast
    have "s = (pre @ pat @ ?inner @ [CHR ''>''] @ pre') @ pat @ u @ post" using s rest p(2) by (metis append.assoc)
    then show ?thesis using p by blast
  qed
qed

subsection \<open>Only what a message says is a mention\<close>

text \<open>The objects of a document, at any depth.\<close>

fun objects_in :: "json \<Rightarrow> (string \<rightharpoonup> json) list" where
  "objects_in (JArray typed) = concat (map objects_in typed)"
| "objects_in (JObject typed) = map_of typed # concat (map (\<lambda>kv. objects_in (snd kv)) typed)"
| "objects_in _ = []"

lemma concat_map_concat: "concat (map f (concat xss)) = concat (map (\<lambda>xs. concat (map f xs)) xss)"
  by (induction xss) auto

lemma visit_objects: "visit j = concat (map own_mentions (objects_in j))"
proof (induction j rule: visit.induct)
  case (1 typed)
  then show ?case by (simp add: concat_map_concat comp_def cong: map_cong)
next
  case (2 typed)
  then have "map (\<lambda>kv. visit (snd kv)) typed = map (\<lambda>kv. concat (map own_mentions (objects_in (snd kv)))) typed"
    by auto
  then show ?case by (simp add: concat_map_concat comp_def del: map_eq_conv)
qed auto

text \<open>A text as its author means it: plain stretches and references with an optional label.\<close>

datatype piece = Plain string | NamedUser string "string option" | NamedGroup string "string option"

definition label_of :: "string option \<Rightarrow> string" where
  "label_of l = (case l of None \<Rightarrow> [] | Some t \<Rightarrow> CHR ''|'' # t)"

fun written :: "piece \<Rightarrow> string" where
  "written (Plain t) = t"
| "written (NamedUser u l) = user_mention_prefix @ u @ label_of l @ ''>''"
| "written (NamedGroup g l) = group_mention_prefix @ g @ label_of l @ ''>''"

definition plain_label :: "string option \<Rightarrow> bool" where
  "plain_label l \<longleftrightarrow> (case l of None \<Rightarrow> True | Some t \<Rightarrow> CHR ''<'' \<notin> set t \<and> CHR ''>'' \<notin> set t)"

fun writable :: "piece \<Rightarrow> bool" where
  "writable (Plain t) \<longleftrightarrow> CHR ''<'' \<notin> set t"
| "writable (NamedUser u l) \<longleftrightarrow> valid_user_mention_id u \<and> plain_label l"
| "writable (NamedGroup g l) \<longleftrightarrow> valid_group_mention_id g \<and> plain_label l"

fun user_of :: "piece \<Rightarrow> string list" where
  "user_of (NamedUser u l) = [u]" | "user_of _ = []"

fun group_of :: "piece \<Rightarrow> string list" where
  "group_of (NamedGroup g l) = [g]" | "group_of _ = []"

definition plain_id :: "string \<Rightarrow> bool" where
  "plain_id u \<longleftrightarrow> CHR ''<'' \<notin> set u \<and> CHR ''>'' \<notin> set u \<and> CHR ''|'' \<notin> set u"

lemma valid_plain: "valid_user_mention_id u \<Longrightarrow> plain_id u" "valid_group_mention_id u \<Longrightarrow> plain_id u"
  by (cases u; auto simp: valid_user_mention_id_def valid_group_mention_id_def plain_id_def list_all_iff
      upper_or_digit_def between_def)+

lemma scan_skip:
  assumes "pat = CHR ''<'' # ps" "CHR ''<'' \<notin> set t"
  shows "scan_mentions pat valid (t @ s) = scan_mentions pat valid s"
  using after_first_skip [OF assms(2), of ps s] assms(1)
  by (subst (1 2) scan_mentions.simps) simp

lemma scan_reference:
  assumes "pat = CHR ''<'' # ps" "plain_id u" "valid u" "plain_label l"
  shows "scan_mentions pat valid (pat @ u @ label_of l @ ''>'' @ s) = u # scan_mentions pat valid s"
proof -
  have f: "after_first pat (pat @ u @ label_of l @ ''>'' @ s) = Some (u @ label_of l @ ''>'' @ s)" using assms(1) by simp
  have n: "\<forall>c \<in> set (u @ label_of l). c \<noteq> CHR ''>''"
    using assms(2,4) by (auto simp: plain_id_def plain_label_def label_of_def split: option.splits)
  then have t: "takeWhile (\<lambda>c. c \<noteq> CHR ''>'') ((u @ label_of l) @ ''>'' @ s) = u @ label_of l"
    "dropWhile (\<lambda>c. c \<noteq> CHR ''>'') ((u @ label_of l) @ ''>'' @ s) = ''>'' @ s"
    by (subst takeWhile_append2, blast, simp) (subst dropWhile_append2, use n in blast, simp)
  have "\<forall>c \<in> set u. c \<noteq> CHR ''|''" using assms(2) by (auto simp: plain_id_def)
  then have "takeWhile (\<lambda>c. c \<noteq> CHR ''|'') (u @ label_of l) = u"
    by (simp add: takeWhile_append2 label_of_def split: option.splits)
  then show ?thesis using t assms(3) by (subst scan_mentions.simps) (simp add: f [simplified] Let_def)
qed

lemma scan_other:
  assumes "pat = CHR ''<'' # p # ps" "q \<noteq> p" "CHR ''<'' \<notin> set (q # t)"
  shows "scan_mentions pat valid (CHR ''<'' # q # t @ s) = scan_mentions pat valid s"
proof -
  have "after_first pat (CHR ''<'' # q # t @ s) = after_first pat ((q # t) @ s)" using assms(1,2) by simp
  also have "\<dots> = after_first pat s" unfolding assms(1) using assms(3) by (rule after_first_skip)
  finally show ?thesis by (subst (1 2) scan_mentions.simps) simp
qed

lemma scan_users:
  "list_all writable ps \<Longrightarrow> scan_mentions user_mention_prefix valid_user_mention_id (concat (map written ps)) = concat (map user_of ps)"
proof (induction ps)
  case (Cons x ps)
  show ?case
  proof (cases x)
    case (Plain t)
    then show ?thesis using Cons scan_skip [of user_mention_prefix "''@''" t] by (simp add: user_mention_prefix_def)
  next
    case (NamedUser u l)
    then show ?thesis using Cons valid_plain(1)
      scan_reference [of user_mention_prefix "''@''" u valid_user_mention_id l] by (simp add: user_mention_prefix_def)
  next
    case (NamedGroup g l)
    then have "CHR ''<'' \<notin> set (g @ label_of l)"
      using Cons.prems valid_plain(2) [of g] by (auto simp: plain_id_def plain_label_def label_of_def split: option.splits)
    then show ?thesis using Cons NamedGroup
      scan_other [of user_mention_prefix "CHR ''@''" "[]" "CHR ''!''" "''subteam^'' @ g @ label_of l @ ''>''"]
      by (simp add: user_mention_prefix_def group_mention_prefix_def)
  qed
qed (simp add: scan_mentions.simps user_mention_prefix_def)

lemma scan_groups:
  "list_all writable ps \<Longrightarrow> scan_mentions group_mention_prefix valid_group_mention_id (concat (map written ps)) = concat (map group_of ps)"
proof (induction ps)
  case (Cons x ps)
  show ?case
  proof (cases x)
    case (Plain t)
    then show ?thesis using Cons scan_skip [of group_mention_prefix "''!subteam^''" t] by (simp add: group_mention_prefix_def)
  next
    case (NamedGroup g l)
    then show ?thesis using Cons valid_plain(2)
      scan_reference [of group_mention_prefix "''!subteam^''" g valid_group_mention_id l] by (simp add: group_mention_prefix_def)
  next
    case (NamedUser u l)
    then have "CHR ''<'' \<notin> set (u @ label_of l)"
      using Cons.prems valid_plain(1) [of u] by (auto simp: plain_id_def plain_label_def label_of_def split: option.splits)
    then show ?thesis using Cons NamedUser
      scan_other [of group_mention_prefix "CHR ''!''" "''subteam^''" "CHR ''@''" "u @ label_of l @ ''>''"]
      by (simp add: user_mention_prefix_def group_mention_prefix_def)
  qed
qed (simp add: scan_mentions.simps group_mention_prefix_def)

text \<open>
  C28. A message notifies exactly whom it names. Of a text written from plain stretches and
  references, and of blocks decoded to a document, the recipients are the users and groups the
  references name and those the document's own mrkdwn, user and usergroup objects name, sorted and
  each once; nothing else in the document is a recipient.
\<close>

theorem mentions_are_what_is_written:
  assumes "list_all writable ps" "parse blocks = Some doc"
  shows "mentions_in_message parse (concat (map written ps)) blocks =
    (sorted_distinct (concat (map user_of ps) @ [i. obj \<leftarrow> objects_in doc, UserMention i \<leftarrow> own_mentions obj]),
     sorted_distinct (concat (map group_of ps) @ [i. obj \<leftarrow> objects_in doc, GroupMention i \<leftarrow> own_mentions obj]))"
  using assms
  by (simp add: mentions_in_message_def visit_objects text_mentions_def mentioned_users_def mentioned_user_groups_def
      scan_users scan_groups)
    (intro conjI sorted_distinct_same; auto)

lemma mentions_are_what_is_written_witness:
  "mentions_in_message (\<lambda>b. if b = ''[]'' then Some (JArray []) else None)
     (concat (map written [Plain ''hi '', NamedUser ''U2'' (Some ''bo''), NamedGroup ''S1'' None, NamedUser ''U1'' None])) ''[]''
   = ([''U1'', ''U2''], [''S1''])"
  using mentions_are_what_is_written
      [of "[Plain ''hi '', NamedUser ''U2'' (Some ''bo''), NamedGroup ''S1'' None, NamedUser ''U1'' None]"
        "\<lambda>b. if b = ''[]'' then Some (JArray []) else None" "''[]''" "JArray []"]
  by (simp add: valid_user_mention_id_def valid_group_mention_id_def upper_or_digit_def between_def plain_label_def
      sorted_distinct_def less_char_def less_eq_char_def)

text \<open>
  What the scanner does not see: a reference that an unclosed opening swallows. Slack's clients do
  not write such text.
\<close>

lemma swallowed_reference: "mentioned_users [''<@<@U1>''] = []"
  by (simp add: mentioned_users_def scan_mentions.simps user_mention_prefix_def valid_user_mention_id_def sorted_distinct_def)

end
