(* ===== verification/Timestamps.thy ===== *)
theory Timestamps
  imports Go_Values
begin

section \<open>Message timestamps\<close>

text \<open>
  \<^verbatim>\<open>NewMessageTimestamp\<close>, \<^verbatim>\<open>MessageInstant\<close>, \<^verbatim>\<open>ParseMessageTimestamp\<close> and \<^verbatim>\<open>ParseTimestampBound\<close> of
  \<^verbatim>\<open>internal/domain/ids.go\<close>. A message's timestamp is its public identifier within a conversation:
  Unix seconds, a dot and six digits of microseconds. Read cursors, thread roots and pages key on
  it, so reading one back must give exactly the instant the message is stored at.
\<close>

definition unix_epoch :: time where
  "unix_epoch = 62135596800 * 1000000000"

definition unix_seconds :: "time \<Rightarrow> int" where
  "unix_seconds t = (t - unix_epoch) div 1000000000"

definition nanosecond :: "time \<Rightarrow> int" where
  "nanosecond t = (t - unix_epoch) mod 1000000000"

definition signed_decimal :: "int \<Rightarrow> string" where
  "signed_decimal i = (if i < 0 then CHR ''-'' # decimal (nat (- i)) else decimal (nat i))"

definition padded6 :: "nat \<Rightarrow> string" where
  "padded6 n = replicate (6 - length (decimal n)) (CHR ''0'') @ decimal n"

definition new_message_timestamp :: "time \<Rightarrow> string" where
  "new_message_timestamp t = signed_decimal (unix_seconds t) @ CHR ''.'' # padded6 (nat (nanosecond t div 1000))"

definition message_instant :: "time \<Rightarrow> time" where
  "message_instant t = t - t mod 1000"

definition is_digit :: "char \<Rightarrow> bool" where
  "is_digit c \<longleftrightarrow> 48 \<le> (of_char c :: nat) \<and> (of_char c :: nat) \<le> 57"

definition ascii_digits :: "string \<Rightarrow> bool" where
  "ascii_digits s \<longleftrightarrow> s \<noteq> [] \<and> list_all is_digit s"

definition max_timestamp_seconds :: int where
  "max_timestamp_seconds = (2 ^ 63 - 1 - 999999) div 1000000"

fun read_micros :: "nat \<Rightarrow> string \<Rightarrow> int \<Rightarrow> int" where
  "read_micros 0 fraction micros = micros"
| "read_micros (Suc n) [] micros = read_micros n [] (micros * 10)"
| "read_micros (Suc n) (c # cs) micros = read_micros n cs (micros * 10 + (of_char c - 48))"

text \<open>
  \<^verbatim>\<open>strconv.ParseInt\<close> refuses what does not fit 63 bits; so does the bound on the seconds.
\<close>

definition parse_slack_timestamp :: "string \<Rightarrow> bool \<Rightarrow> time option" where
  "parse_slack_timestamp raw identifier =
     (let whole = takeWhile (\<lambda>c. c \<noteq> CHR ''.'') raw; rest = dropWhile (\<lambda>c. c \<noteq> CHR ''.'') raw;
          dotted = rest \<noteq> []; fraction = tl rest
      in if \<not> ascii_digits whole \<or> length fraction > 6 \<or> (fraction \<noteq> [] \<and> \<not> ascii_digits fraction)
            \<or> (identifier \<and> (\<not> dotted \<or> length fraction \<noteq> 6)) then None
         else
           let seconds = int (undecimal whole)
           in if seconds > max_timestamp_seconds then None
              else Some (unix_epoch + seconds * 1000000000 + read_micros 6 fraction 0 * 1000))"

definition parse_message_timestamp :: "string \<Rightarrow> time option" where
  "parse_message_timestamp value = parse_slack_timestamp value True"

definition parse_timestamp_bound :: "string \<Rightarrow> time option" where
  "parse_timestamp_bound raw = parse_slack_timestamp (trim_space raw) False"

subsection \<open>Digits\<close>

lemma is_digit_char: "(d::nat) < 10 \<Longrightarrow> is_digit (char_of (48 + d))"
  by (simp add: is_digit_def of_char_of)

lemma decimal_digits: "list_all is_digit (decimal n)"
proof (induction n rule: decimal.induct)
  case (1 n)
  then show ?case by (subst decimal.simps) (simp add: is_digit_char del: decimal.simps)
qed

lemma decimal_not_empty: "decimal n \<noteq> []"
  by (subst decimal.simps) simp

lemma decimal_length: "n < 10 ^ k \<Longrightarrow> 0 < k \<Longrightarrow> length (decimal n) \<le> k"
proof (induction n arbitrary: k rule: decimal.induct)
  case (1 n)
  show ?case
  proof (cases "n < 10")
    case True
    then show ?thesis using 1 by (subst decimal.simps) simp
  next
    case False
    then obtain m where k: "k = Suc m" using "1.prems" by (cases k) auto
    then have m: "0 < m" using False "1.prems" by (cases m) auto
    have "n div 10 < 10 ^ m" using "1.prems" k by (simp add: less_mult_imp_div_less)
    then have "length (decimal (n div 10)) \<le> m" using "1.IH" [OF False] m by simp
    then show ?thesis using False k by (subst decimal.simps) simp
  qed
qed

lemma padded6_digits: "list_all is_digit (padded6 n)" "padded6 n \<noteq> []"
  using decimal_digits [of n] decimal_not_empty [of n] by (auto simp: padded6_def is_digit_def list_all_iff)

lemma padded6_length: "n < 1000000 \<Longrightarrow> length (padded6 n) = 6"
  using decimal_length [of n 6] by (simp add: padded6_def)

lemma undecimal_append: "undecimal (xs @ ys) = fold (\<lambda>c a. 10 * a + (of_char c - 48)) ys (undecimal xs)"
  by (simp add: undecimal_def)

lemma undecimal_zeros: "undecimal (replicate k (CHR ''0'')) = 0"
  by (induction k) (simp_all add: undecimal_def)

lemma undecimal_padded6: "undecimal (padded6 n) = n"
  unfolding padded6_def undecimal_append undecimal_zeros using undecimal_decimal by (simp add: undecimal_def)

lemma read_micros_fold:
  "list_all is_digit s \<Longrightarrow>
    read_micros (length s) s (int a) = int (fold (\<lambda>c a. 10 * a + (of_char c - 48)) s a)"
proof (induction s arbitrary: a)
  case (Cons c cs)
  have "int a * 10 + (of_char c - 48) = int (10 * a + (of_char c - 48))"
    using Cons.prems by (simp add: is_digit_def of_nat_diff of_char_def)
  then show ?case using Cons.IH [of "10 * a + (of_char c - 48)"] Cons.prems by (simp add: ac_simps)
qed simp

lemma digit_not_dot: "is_digit c \<Longrightarrow> c \<noteq> CHR ''.''"
  by (auto simp: is_digit_def)

lemma parse_parts:
  assumes "ascii_digits whole" "ascii_digits fraction" "length fraction = 6" "int (undecimal whole) \<le> max_timestamp_seconds"
  shows "parse_slack_timestamp (whole @ CHR ''.'' # fraction) identifier
    = Some (unix_epoch + int (undecimal whole) * 1000000000 + int (undecimal fraction) * 1000)"
proof -
  have d: "\<forall>c \<in> set whole. c \<noteq> CHR ''.''" using assms(1) digit_not_dot by (auto simp: ascii_digits_def list_all_iff)
  have t: "takeWhile (\<lambda>c. c \<noteq> CHR ''.'') (whole @ CHR ''.'' # fraction) = whole"
    "dropWhile (\<lambda>c. c \<noteq> CHR ''.'') (whole @ CHR ''.'' # fraction) = CHR ''.'' # fraction"
    using d by (simp_all add: takeWhile_append dropWhile_append)
  have "read_micros 6 fraction 0 = int (undecimal fraction)"
    using read_micros_fold [of fraction 0] assms(2,3) by (simp add: undecimal_def ascii_digits_def)
  then show ?thesis using assms unfolding parse_slack_timestamp_def t Let_def by simp
qed

lemma instant_parts: "unix_epoch + unix_seconds t * 1000000000 + (nanosecond t div 1000) * 1000 = message_instant t"
proof -
  have "t - unix_epoch = unix_seconds t * 1000000000 + nanosecond t" by (simp add: unix_seconds_def nanosecond_def)
  moreover have "nanosecond t mod 1000 = t mod 1000"
  proof -
    have "nanosecond t mod 1000 = (t - unix_epoch) mod 1000" by (simp add: nanosecond_def mod_mod_cancel)
    also have "\<dots> = t mod 1000" by (simp add: unix_epoch_def mod_diff_eq [symmetric])
    finally show ?thesis .
  qed
  moreover have "nanosecond t div 1000 * 1000 = nanosecond t - nanosecond t mod 1000"
    using minus_mod_eq_div_mult [of "nanosecond t" 1000] by simp
  ultimately show ?thesis by (simp add: message_instant_def)
qed

lemma timestamp_of_instant: "new_message_timestamp (message_instant t) = new_message_timestamp t"
proof -
  let ?u = "message_instant t" and ?n = "nanosecond t"
  have u: "?u - unix_epoch = unix_seconds t * 1000000000 + ?n div 1000 * 1000"
    using instant_parts [of t] by linarith
  have n: "0 \<le> ?n" "?n < 1000000000" by (simp_all add: nanosecond_def)
  then have "0 \<le> ?n div 1000 * 1000" by (simp add: pos_imp_zdiv_nonneg_iff)
  moreover have "?n div 1000 * 1000 < 1000000000"
    using n div_mult_mod_eq [of ?n 1000] pos_mod_sign [of 1000 ?n] by linarith
  ultimately have r: "0 \<le> ?n div 1000 * 1000" "?n div 1000 * 1000 < 1000000000" by blast+
  have "unix_seconds ?u = unix_seconds t"
    unfolding unix_seconds_def [of ?u] u using r by (simp add: div_pos_pos_trivial)
  moreover have "nanosecond ?u = ?n div 1000 * 1000"
    unfolding nanosecond_def [of ?u] u using r by (simp add: mod_pos_pos_trivial)
  ultimately show ?thesis by (simp add: new_message_timestamp_def)
qed

text \<open>
  C27. A message's timestamp names its instant. Read back, as an identifier or as a bound, the
  timestamp of any instant since 1970 that the reader's range covers is that instant to the
  microsecond, which is what a message is stored with; so two stored messages have one timestamp
  only when they have one instant.
\<close>

theorem timestamp_names_instant:
  assumes "unix_epoch \<le> t" "unix_seconds t \<le> max_timestamp_seconds"
  shows "parse_message_timestamp (new_message_timestamp t) = Some (message_instant t)
    \<and> parse_slack_timestamp (new_message_timestamp t) False = Some (message_instant t)
    \<and> new_message_timestamp (message_instant t) = new_message_timestamp t"
proof -
  have s: "0 \<le> unix_seconds t" using assms(1) by (simp add: unix_seconds_def pos_imp_zdiv_nonneg_iff)
  have "nanosecond t < 1000000000" "0 \<le> nanosecond t" by (simp_all add: nanosecond_def)
  then have n: "0 \<le> nanosecond t div 1000" "nat (nanosecond t div 1000) < 1000000" by linarith+
  have p: "new_message_timestamp t = decimal (nat (unix_seconds t)) @ CHR ''.'' # padded6 (nat (nanosecond t div 1000))"
    using s by (simp add: new_message_timestamp_def signed_decimal_def)
  have "parse_slack_timestamp (new_message_timestamp t) b = Some (message_instant t)" for b
    unfolding p using parse_parts [of "decimal (nat (unix_seconds t))" "padded6 (nat (nanosecond t div 1000))" b]
      decimal_digits decimal_not_empty padded6_digits padded6_length [OF n(2)] assms(2) s n(1) instant_parts [of t]
    by (simp add: ascii_digits_def undecimal_decimal undecimal_padded6)
  then show ?thesis by (simp add: parse_message_timestamp_def timestamp_of_instant)
qed

lemma timestamp_names_instant_witness:
  "parse_message_timestamp (new_message_timestamp (unix_epoch + 1700000000123456789))
     = Some (message_instant (unix_epoch + 1700000000123456789))"
  using timestamp_names_instant [of "unix_epoch + 1700000000123456789"]
  by (simp add: unix_seconds_def max_timestamp_seconds_def)

end
