(* ===== verification/Messages.thy ===== *)
theory Messages
  imports Mentions Timestamps Outbox_Store "HOL-Library.AList"
begin

section \<open>Messages in memory\<close>

text \<open>
  The message operations of \<^verbatim>\<open>internal/store/memory/memory.go\<close> and the retry of
  \<^verbatim>\<open>internal/service/messages.go\<close> around them: posting with its activity and read cursor, editing,
  deleting, the notices a conversation change posts, and the lookups. The records hold the fields
  these operations read or write and the text they carry. \<^verbatim>\<open>s.messages\<close> and \<^verbatim>\<open>s.scheduled\<close> are
  iterated, so they are association lists; \<^verbatim>\<open>memberships\<close> lists the keys of each conversation's member map; the other maps
  are read and written by key. Of a saved item, a comment, an access grant, a
  download and a list item's file only what they point at is kept, and of a list's items when they
  were updated. What normalizes a message's JSON is an argument, as are the decoder
  and the Unicode tables the mentions need (\<open>library\<close>).
\<close>

record stored_file =
  file_id :: string
  file_workspace :: string
  file_deleted :: bool
  file_created :: time
  file_blob_key :: string
  file_shared :: "string list"

record message =
  msg_id :: string
  msg_workspace :: string
  msg_conversation :: string
  msg_author :: string
  msg_app :: string
  msg_text :: string
  msg_blocks :: string
  msg_attachments :: string
  msg_metadata :: string
  msg_stream :: string
  msg_thread :: string
  msg_broadcast :: bool
  msg_created :: time
  msg_edited_at :: time
  msg_edited_by :: string
  msg_subtype :: string
  msg_deleted :: bool
  msg_unfurls :: "string \<rightharpoonup> string"
  msg_files :: "stored_file list"

datatype conversation_kind = KindUnset | PublicChannel | PrivateChannel | DirectIM | GroupIM

record conversation =
  conv_id :: string
  conv_workspace :: string
  conv_name :: string
  conv_kind :: conversation_kind
  conv_archived :: bool

definition zero_conversation :: conversation where
  "zero_conversation = \<lparr>conv_id = [], conv_workspace = [], conv_name = [], conv_kind = KindUnset, conv_archived = False\<rparr>"

definition or_public :: "conversation_kind \<Rightarrow> conversation_kind" where
  "or_public k = (if k = KindUnset then PublicChannel else k)"

definition direct_or_group :: "conversation \<Rightarrow> bool" where
  "direct_or_group c \<longleftrightarrow> conv_kind c = DirectIM \<or> conv_kind c = GroupIM"

record account =
  account_workspace :: string
  account_deleted :: bool

record user_group =
  group_workspace :: string
  group_enabled :: bool
  group_deleted_at :: time
  group_users :: "string list"

datatype level = LevelUnset | LevelInherit | LevelAll | LevelMentions | LevelMute

record workspace_preferences =
  wp_level :: level
  wp_activity_channels :: bool
  wp_keywords :: "string list"
  wp_vips :: "string list"

record conversation_preferences =
  cp_level :: level
  cp_follow_every_thread :: bool

record sidebar_section =
  section_workspace :: string
  section_user :: string
  section_level :: level
  section_conversations :: "string list"

definition default_workspace_preferences :: workspace_preferences where
  "default_workspace_preferences =
     \<lparr>wp_level = LevelMentions, wp_activity_channels = True, wp_keywords = [], wp_vips = []\<rparr>"

definition default_conversation_preferences :: conversation_preferences where
  "default_conversation_preferences = \<lparr>cp_level = LevelInherit, cp_follow_every_thread = False\<rparr>"

definition effective_level_with_section :: "conversation_preferences \<Rightarrow> level \<Rightarrow> workspace_preferences \<Rightarrow> level" where
  "effective_level_with_section preferences sect workspace =
     (if cp_level preferences \<noteq> LevelInherit then cp_level preferences
      else if sect \<noteq> LevelUnset \<and> sect \<noteq> LevelInherit then sect
      else wp_level workspace)"

record activity_item =
  item_id :: string
  item_workspace :: string
  item_user :: string
  item_kinds :: "string list"
  item_actor :: string
  item_conversation :: string
  item_message :: string
  item_occurred :: time
  item_read :: time
  item_cleared :: time

record read_cursor =
  cursor_workspace :: string
  cursor_user :: string
  cursor_conversation :: string
  cursor_last_read :: string
  cursor_updated :: time

record draft_attachment =
  att_upload :: string
  att_name :: string
  att_title :: string
  att_mime :: string
  att_size :: int

record external_upload =
  upload_workspace :: string
  upload_uploader :: string
  upload_uploaded :: bool

record scheduled_message =
  sched_workspace :: string
  sched_id :: string
  sched_channel :: string
  sched_author :: string
  sched_app :: string
  sched_bot :: string
  sched_credential :: string
  sched_text :: string
  sched_blocks :: string
  sched_attachments :: string
  sched_metadata :: string
  sched_stream :: string
  sched_thread :: string
  sched_post_at :: time
  sched_created :: time
  sched_delivered_at :: time
  sched_failed_at :: time
  sched_failure_code :: string
  sched_files :: "draft_attachment list"

record retention_policy =
  message_days :: int
  file_days :: int
  canvas_list_days :: int

record document =
  doc_workspace :: string
  doc_updated :: time

record chat =
  conversations :: "string \<rightharpoonup> conversation"
  memberships :: "string \<Rightarrow> string list"
  messages :: "(string \<times> message list) list"
  idempotency :: "string \<rightharpoonup> string"
  read_cursors :: "string \<rightharpoonup> read_cursor"
  activity_items :: "string \<rightharpoonup> activity_item"
  closed_directs :: "string set"
  thread_follows :: "string set"
  files :: "string \<rightharpoonup> stored_file"
  file_shares :: "string \<Rightarrow> string list"
  users :: "string \<rightharpoonup> account"
  members :: "string \<rightharpoonup> bool"
  user_groups :: "string \<rightharpoonup> user_group"
  conversation_access :: "string \<Rightarrow> string list"
  workspace_prefs :: "string \<rightharpoonup> workspace_preferences"
  conversation_prefs :: "string \<rightharpoonup> conversation_preferences"
  sidebar_sections :: "sidebar_section list"
  scheduled :: "(string \<times> scheduled_message) list"
  scheduled_delivered :: "string set"
  scheduled_leases :: "string \<rightharpoonup> lease"
  scheduled_next :: "string \<rightharpoonup> time"
  uploads :: "string \<rightharpoonup> external_upload"
  workspaces :: "string set"
  reactions :: "string \<rightharpoonup> (string \<times> string) list"
  pins :: "string \<rightharpoonup> string list"
  stars :: "string \<Rightarrow> string set"
  saved_items :: "string \<rightharpoonup> string"
  file_grants :: "string \<rightharpoonup> string"
  list_item_files :: "string \<rightharpoonup> string \<times> string"
  file_comments :: "string \<rightharpoonup> string"
  retention_policies :: "string \<rightharpoonup> retention_policy"
  conversation_retention :: "string \<rightharpoonup> int"
  retention_swept_at :: "string \<rightharpoonup> time"
  canvases :: "string \<rightharpoonup> document"
  canvas_revisions :: "string \<rightharpoonup> string list"
  canvas_access :: "string \<rightharpoonup> string"
  canvas_comments :: "string \<rightharpoonup> string"
  list_docs :: "string \<rightharpoonup> document"
  list_items :: "string \<Rightarrow> time list"
  list_item_comments :: "string \<rightharpoonup> string"
  list_access :: "string \<rightharpoonup> string"
  list_downloads :: "string \<rightharpoonup> string"
  documents_swept_at :: "string \<rightharpoonup> time"
  chat_outbox :: "event list"

record library =
  lib_blocks :: "string \<Rightarrow> string option"
  lib_attachments :: "string \<Rightarrow> string option"
  lib_unfurls :: "(string \<rightharpoonup> string) \<Rightarrow> (string \<rightharpoonup> string) option"
  lib_parse_json :: "string \<Rightarrow> json option"
  lib_lower_runes :: "string \<Rightarrow> nat list"
  lib_letter_or_number :: "nat \<Rightarrow> bool"

text \<open>\<^verbatim>\<open>New\<close>: the store before its first operation.\<close>

definition new_store :: chat where
  "new_store =
     \<lparr>conversations = Map.empty, memberships = (\<lambda>_. []), messages = [], idempotency = Map.empty,
      read_cursors = Map.empty, activity_items = Map.empty, closed_directs = {}, thread_follows = {}, files =
      Map.empty, file_shares = (\<lambda>_. []), users = Map.empty, members = Map.empty, user_groups =
      Map.empty, conversation_access = (\<lambda>_. []), workspace_prefs = Map.empty, conversation_prefs =
      Map.empty, sidebar_sections = [], scheduled = [], scheduled_delivered = {},
      scheduled_leases = Map.empty, scheduled_next = Map.empty, uploads = Map.empty, workspaces = {},
      reactions = Map.empty, pins = Map.empty, stars = (\<lambda>_. {}), saved_items = Map.empty, file_grants =
      Map.empty, list_item_files = Map.empty, file_comments = Map.empty, retention_policies = Map.empty,
      conversation_retention = Map.empty, retention_swept_at = Map.empty, canvases = Map.empty,
      canvas_revisions = Map.empty, canvas_access = Map.empty, canvas_comments = Map.empty, list_docs =
      Map.empty, list_items = (\<lambda>_. []), list_item_comments = Map.empty, list_access = Map.empty,
      list_downloads = Map.empty, documents_swept_at = Map.empty, chat_outbox = []\<rparr>"

subsection \<open>Keys\<close>

abbreviation nul :: char where "nul \<equiv> CHR 0x00"

definition member_key :: "string \<Rightarrow> string \<Rightarrow> string" where
  "member_key workspace user = workspace @ nul # user"

definition notification_key :: "string \<Rightarrow> string \<Rightarrow> string \<Rightarrow> string" where
  "notification_key workspace user conversation = member_key workspace user @ nul # conversation"

definition idempotency_key_for :: "string \<Rightarrow> string \<Rightarrow> string \<Rightarrow> string" where
  "idempotency_key_for workspace user key = workspace @ nul # user @ nul # key"

definition read_cursor_key :: "string \<Rightarrow> string \<Rightarrow> string \<Rightarrow> string" where
  "read_cursor_key workspace user conversation = workspace @ nul # user @ nul # conversation"

definition direct_open_key :: "string \<Rightarrow> string \<Rightarrow> string \<Rightarrow> string" where
  "direct_open_key workspace user conversation = workspace @ nul # user @ nul # conversation"

definition thread_follow_key :: "string \<Rightarrow> string \<Rightarrow> string \<Rightarrow> string \<Rightarrow> string" where
  "thread_follow_key workspace user conversation root = notification_key workspace user conversation @ nul # root"

definition activity_id_for :: "string \<Rightarrow> string \<Rightarrow> string" where
  "activity_id_for recipient source_key = ''activity:'' @ recipient @ '':'' @ source_key"

subsection \<open>Lookups\<close>

definition messages_of :: "chat \<Rightarrow> string \<Rightarrow> message list" where
  "messages_of s conversation = (case map_of (messages s) conversation of None \<Rightarrow> [] | Some ms \<Rightarrow> ms)"

definition put_messages :: "string \<Rightarrow> message list \<Rightarrow> chat \<Rightarrow> chat" where
  "put_messages conversation ms s = s\<lparr>messages := AList.update conversation ms (messages s)\<rparr>"

definition all_messages :: "chat \<Rightarrow> message list" where
  "all_messages s = concat (map snd (messages s))"

definition conversation_of :: "chat \<Rightarrow> string \<Rightarrow> conversation" where
  "conversation_of s c = (case conversations s c of None \<Rightarrow> zero_conversation | Some v \<Rightarrow> v)"

definition message_locked :: "chat \<Rightarrow> string \<Rightarrow> store_error + message" where
  "message_locked s i = (case find (\<lambda>m. msg_id m = i) (all_messages s) of None \<Rightarrow> Inl NotFound | Some m \<Rightarrow> Inr m)"

definition clone_message :: "chat \<Rightarrow> message \<Rightarrow> message" where
  "clone_message s m = m\<lparr>msg_files := map (\<lambda>attached.
     (case files s (file_id attached) of None \<Rightarrow> attached | Some current \<Rightarrow> current)
       \<lparr>file_shared := file_shares s (file_id attached)\<rparr>) (msg_files m)\<rparr>"

definition get_message :: "chat \<Rightarrow> string \<Rightarrow> store_error + message" where
  "get_message s i = (case message_locked s i of Inl e \<Rightarrow> Inl e | Inr m \<Rightarrow> Inr (clone_message s m))"

definition get_idempotent_message :: "chat \<Rightarrow> string \<Rightarrow> string \<Rightarrow> string \<Rightarrow> store_error + message" where
  "get_idempotent_message s workspace user key =
     (case idempotency s (idempotency_key_for workspace user key) of None \<Rightarrow> Inl NotFound | Some i \<Rightarrow> get_message s i)"

definition get_message_by_created_at :: "chat \<Rightarrow> string \<Rightarrow> time \<Rightarrow> store_error + message" where
  "get_message_by_created_at s conversation created =
     (case find (\<lambda>m. message_instant (msg_created m) = message_instant created) (messages_of s conversation) of
        None \<Rightarrow> Inl NotFound | Some m \<Rightarrow> Inr (clone_message s m))"

subsection \<open>Who is told of a message\<close>

definition group_restricts :: "chat \<Rightarrow> string \<Rightarrow> string \<Rightarrow> string \<Rightarrow> bool" where
  "group_restricts s workspace user g = (case user_groups s g of
     None \<Rightarrow> False
   | Some grp \<Rightarrow> \<not> (group_workspace grp \<noteq> workspace \<or> \<not> group_enabled grp \<or> \<not> is_zero_time (group_deleted_at grp))
       \<and> user \<in> set (group_users grp))"

definition can_view_activity_source :: "chat \<Rightarrow> string \<Rightarrow> string \<Rightarrow> conversation \<Rightarrow> bool" where
  "can_view_activity_source s workspace user conversation =
     (case users s user of None \<Rightarrow> False | Some acct \<Rightarrow>
        if account_workspace acct \<noteq> workspace \<or> account_deleted acct then False
        else if members s (member_key workspace user) \<noteq> Some True then False
        else if or_public (conv_kind conversation) = PublicChannel then conv_workspace conversation = workspace
        else if user \<notin> set (memberships s (conv_id conversation)) then False
        else if conversation_access s (conv_id conversation) = [] then True
        else list_ex (group_restricts s workspace user) (conversation_access s (conv_id conversation)))"

definition section_level_locked :: "chat \<Rightarrow> string \<Rightarrow> string \<Rightarrow> string \<Rightarrow> level" where
  "section_level_locked s workspace user conversation =
     (case find (\<lambda>x. section_workspace x = workspace \<and> section_user x = user \<and> conversation \<in> set (section_conversations x))
        (sidebar_sections s) of None \<Rightarrow> LevelUnset | Some x \<Rightarrow> section_level x)"

definition thread_root :: "message \<Rightarrow> string" where
  "thread_root m = (if msg_thread m \<noteq> [] then msg_thread m else new_message_timestamp (msg_created m))"

text \<open>\<open>add\<close> refuses the empty user, the author and who may not see the conversation.\<close>

definition addable :: "chat \<Rightarrow> message \<Rightarrow> string \<Rightarrow> bool" where
  "addable s m user \<longleftrightarrow> \<not> (user = [] \<or> user = msg_author m)
     \<and> can_view_activity_source s (msg_workspace m) user (conversation_of s (msg_conversation m))"

definition add_recipient :: "chat \<Rightarrow> message \<Rightarrow> string \<Rightarrow> string \<Rightarrow> (string \<times> string) list" where
  "add_recipient s m user kind = (if addable s m user then [(user, kind)] else [])"

definition mention_recipients :: "chat \<Rightarrow> message \<Rightarrow> string \<Rightarrow> (string \<times> string) list" where
  "mention_recipients s m user = add_recipient s m user ''mention''
     @ (if msg_thread m \<noteq> [] then add_recipient s m user ''thread'' else [])"

text \<open>Everyone the text and blocks mention, one by one and through their user groups.\<close>

definition mentioned_members :: "library \<Rightarrow> chat \<Rightarrow> message \<Rightarrow> string list" where
  "mentioned_members L s m =
     (case mentions_in_message (lib_parse_json L) (msg_text m) (msg_blocks m) of (us, gs) \<Rightarrow>
        us @ concat (map (\<lambda>g. case user_groups s g of
            None \<Rightarrow> []
          | Some grp \<Rightarrow> if group_workspace grp \<noteq> msg_workspace m \<or> \<not> group_enabled grp
                \<or> \<not> is_zero_time (group_deleted_at grp) then [] else group_users grp) gs))"

definition follow_by :: "message \<Rightarrow> string \<Rightarrow> string" where
  "follow_by m user = thread_follow_key (msg_workspace m) user (msg_conversation m) (thread_root m)"

definition follows_after_mentions :: "library \<Rightarrow> chat \<Rightarrow> message \<Rightarrow> string set" where
  "follows_after_mentions L s m = set (follow_by m (msg_author m) #
     (if msg_thread m \<noteq> [] then map (follow_by m) (filter (addable s m) (mentioned_members L s m)) else []))
     \<union> thread_follows s"

definition member_recipients :: "library \<Rightarrow> chat \<Rightarrow> message \<Rightarrow> string set \<Rightarrow> string \<Rightarrow> (string \<times> string) list" where
  "member_recipients L s m follows user =
     (let conversation = conversation_of s (msg_conversation m);
          wp = (case workspace_prefs s (member_key (msg_workspace m) user) of
                  None \<Rightarrow> default_workspace_preferences | Some stored \<Rightarrow> stored);
          cp = (case conversation_prefs s (notification_key (msg_workspace m) user (msg_conversation m)) of
                  None \<Rightarrow> default_conversation_preferences | Some stored \<Rightarrow> stored);
          effective = effective_level_with_section cp (section_level_locked s (msg_workspace m) user (msg_conversation m)) wp;
          keyword = effective \<noteq> LevelMute \<and> matches_keyword (lib_lower_runes L) (lib_letter_or_number L) (msg_text m) (wp_keywords wp)
      in (if direct_or_group conversation then add_recipient s m user ''dm'' else [])
       @ (if msg_thread m = [] \<and> \<not> direct_or_group conversation then
            (if msg_author m \<in> set (wp_vips wp) then add_recipient s m user ''channel'' else [])
          @ (if effective = LevelAll \<and> wp_activity_channels wp then add_recipient s m user ''channel'' else [])
          @ (if keyword then add_recipient s m user ''keyword'' else [])
          else [])
       @ (if msg_thread m \<noteq> [] \<and> (cp_follow_every_thread cp \<or> follow_by m user \<in> follows) then
            add_recipient s m user ''thread''
          @ (if \<not> direct_or_group conversation \<and> keyword then add_recipient s m user ''keyword'' else [])
          else []))"

definition root_author :: "chat \<Rightarrow> message \<Rightarrow> string option" where
  "root_author s m =
     (if msg_thread m = [] then None
      else case parse_message_timestamp (msg_thread m) of
        None \<Rightarrow> None
      | Some root_at \<Rightarrow> map_option msg_author (find (\<lambda>c. msg_created c = root_at) (messages_of s (msg_conversation m))))"

definition message_recipients :: "library \<Rightarrow> chat \<Rightarrow> message \<Rightarrow> (string \<times> string) list" where
  "message_recipients L s m =
     concat (map (mention_recipients s m) (mentioned_members L s m))
     @ concat (map (member_recipients L s m (follows_after_mentions L s m)) (memberships s (msg_conversation m)))
     @ (case root_author s m of None \<Rightarrow> [] | Some author \<Rightarrow> add_recipient s m author ''thread'')"

definition message_item :: "message \<Rightarrow> (string \<times> string) list \<Rightarrow> string \<Rightarrow> activity_item" where
  "message_item m recipients user =
     \<lparr>item_id = activity_id_for user (''message:'' @ msg_id m), item_workspace = msg_workspace m, item_user = user,
      item_kinds = sort (remdups [kind. (u, kind) \<leftarrow> recipients, u = user] @ (if msg_app m \<noteq> [] then [''app''] else [])),
      item_actor = msg_author m, item_conversation = msg_conversation m, item_message = msg_id m,
      item_occurred = msg_created m, item_read = 0, item_cleared = 0\<rparr>"

definition create_message_activity :: "library \<Rightarrow> message \<Rightarrow> chat \<Rightarrow> chat" where
  "create_message_activity L m s =
     (let recipients = message_recipients L s m;
          follows = follows_after_mentions L s m
            \<union> (case root_author s m of None \<Rightarrow> {} | Some author \<Rightarrow> {follow_by m author})
      in s\<lparr>thread_follows := follows,
           activity_items := fold (\<lambda>user items. items(activity_id_for user (''message:'' @ msg_id m)
             \<mapsto> message_item m recipients user)) (remdups (map fst recipients)) (activity_items s)\<rparr>)"

subsection \<open>Read cursors\<close>

definition author_post_advances_read_cursor :: "message \<Rightarrow> bool" where
  "author_post_advances_read_cursor m \<longleftrightarrow> msg_author m \<noteq> [] \<and> (msg_thread m = [] \<or> msg_broadcast m)"

definition items_of :: "string \<Rightarrow> string \<Rightarrow> string \<Rightarrow> activity_item \<Rightarrow> bool" where
  "items_of workspace user conversation i \<longleftrightarrow>
     item_workspace i = workspace \<and> item_user i = user \<and> item_conversation i = conversation"

definition covered :: "chat \<Rightarrow> message \<Rightarrow> bool" where
  "covered s m = (case read_cursors s (read_cursor_key (msg_workspace m) (msg_author m) (msg_conversation m)) of
     None \<Rightarrow> False
   | Some current \<Rightarrow> (case parse_message_timestamp (cursor_last_read current) of
        None \<Rightarrow> False
      | Some read_at \<Rightarrow> \<not> message_instant (msg_created m) > message_instant read_at))"

definition advance_author_read_cursor :: "message \<Rightarrow> chat \<Rightarrow> chat" where
  "advance_author_read_cursor m s =
     (if \<not> author_post_advances_read_cursor m \<or> covered s m then s
      else let cursor = \<lparr>cursor_workspace = msg_workspace m, cursor_user = msg_author m,
                 cursor_conversation = msg_conversation m, cursor_last_read = new_message_timestamp (msg_created m),
                 cursor_updated = msg_created m\<rparr>
        in s\<lparr>read_cursors := (read_cursors s)(read_cursor_key (msg_workspace m) (msg_author m) (msg_conversation m) \<mapsto> cursor),
             activity_items := (\<lambda>i. map_option (\<lambda>item.
               if items_of (msg_workspace m) (msg_author m) (msg_conversation m) item \<and> is_zero_time (item_read item)
                  \<and> \<not> item_occurred item > msg_created m
               then item\<lparr>item_read := msg_created m\<rparr> else item) (activity_items s i))\<rparr>)"

definition set_read_cursor_locked :: "read_cursor \<Rightarrow> time \<Rightarrow> event \<Rightarrow> chat \<Rightarrow> chat" where
  "set_read_cursor_locked cursor read_at ev s =
     s\<lparr>read_cursors := (read_cursors s)(read_cursor_key (cursor_workspace cursor) (cursor_user cursor) (cursor_conversation cursor) \<mapsto> cursor),
       activity_items := (\<lambda>i. map_option (\<lambda>item.
         if \<not> items_of (cursor_workspace cursor) (cursor_user cursor) (cursor_conversation cursor) item then item
         else if \<not> item_occurred item > read_at \<and> is_zero_time (item_read item) then item\<lparr>item_read := cursor_updated cursor\<rparr>
         else if item_occurred item > read_at \<and> \<not> is_zero_time (item_read item) then item\<lparr>item_read := 0\<rparr>
         else item) (activity_items s i)),
       chat_outbox := chat_outbox s @ [ev]\<rparr>"

definition set_read_cursor :: "read_cursor \<Rightarrow> event \<Rightarrow> chat \<Rightarrow> chat \<times> store_error option" where
  "set_read_cursor cursor ev s = (case parse_message_timestamp (cursor_last_read cursor) of
     None \<Rightarrow> (s, Some Malformed)
   | Some read_at \<Rightarrow> (set_read_cursor_locked cursor read_at ev s, None))"

definition set_read_cursors :: "(read_cursor \<times> event) list \<Rightarrow> chat \<Rightarrow> chat \<times> store_error option" where
  "set_read_cursors updates s =
     (let read_at = map (\<lambda>u. parse_message_timestamp (cursor_last_read (fst u))) updates
      in if None \<in> set read_at then (s, Some Malformed)
         else (fold (\<lambda>(u, at). set_read_cursor_locked (fst u) (the at) (snd u)) (zip updates read_at) s, None))"

subsection \<open>Posting\<close>

definition message_before :: "message \<Rightarrow> message \<Rightarrow> bool" where
  "message_before left right \<longleftrightarrow>
     (if msg_created left = msg_created right then msg_id left < msg_id right else msg_created left < msg_created right)"

definition insert_message :: "message \<Rightarrow> message list \<Rightarrow> message list" where
  "insert_message m values =
     (let index = sort_search (length values) (\<lambda>i. message_before m (values ! i))
      in take index values @ m # drop index values)"

definition reopen_directs :: "message \<Rightarrow> chat \<Rightarrow> chat" where
  "reopen_directs m s =
     (if direct_or_group (conversation_of s (msg_conversation m)) then
        s\<lparr>closed_directs := closed_directs s
            - set (map (\<lambda>member. direct_open_key (msg_workspace m) member (msg_conversation m)) (memberships s (msg_conversation m)))\<rparr>
      else s)"

definition insert_committed_message :: "library \<Rightarrow> message \<Rightarrow> chat \<Rightarrow> chat" where
  "insert_committed_message L m s =
     advance_author_read_cursor m (create_message_activity L m (reopen_directs m
       (put_messages (msg_conversation m) (insert_message m (messages_of s (msg_conversation m))) s)))"

definition commit_message :: "library \<Rightarrow> message \<Rightarrow> event \<Rightarrow> string \<Rightarrow> chat \<Rightarrow> chat" where
  "commit_message L m ev key s =
     (let s1 = insert_committed_message L m s; s2 = s1\<lparr>chat_outbox := chat_outbox s1 @ [ev]\<rparr>
      in if key \<noteq> [] then s2\<lparr>idempotency := (idempotency s2)(idempotency_key_for (msg_workspace m) (msg_author m) key \<mapsto> msg_id m)\<rparr>
         else s2)"

fun resolve_files :: "chat \<Rightarrow> message \<Rightarrow> stored_file list \<Rightarrow> string list \<Rightarrow> stored_file list \<Rightarrow> store_error + stored_file list" where
  "resolve_files s m [] seen found = Inr found"
| "resolve_files s m (requested # rest) seen found =
     (if file_id requested = [] then Inl InvalidArgument
      else if file_id requested \<in> set seen then Inl InvalidArgument
      else case files s (file_id requested) of
        None \<Rightarrow> Inl NotFound
      | Some f \<Rightarrow>
          if file_deleted f \<or> file_workspace f \<noteq> msg_workspace m \<or> msg_conversation m \<notin> set (file_shares s (file_id requested))
          then Inl NotFound
          else resolve_files s m rest (file_id requested # seen) (found @ [f\<lparr>file_shared := file_shares s (file_id requested)\<rparr>]))"

definition prepare_message :: "message \<Rightarrow> string \<Rightarrow> chat \<Rightarrow> store_error + message" where
  "prepare_message m key s =
     (if conversations s (msg_conversation m) = None then Inl NotFound
      else case resolve_files s m (msg_files m) [] [] of
        Inl e \<Rightarrow> Inl e
      | Inr found \<Rightarrow>
          (case message_locked s (msg_id m) of
             Inr _ \<Rightarrow> Inl AlreadyExists
           | Inl _ \<Rightarrow>
               if key \<noteq> [] \<and> idempotency s (idempotency_key_for (msg_workspace m) (msg_author m) key) \<noteq> None
               then Inl IdempotencyConflict
               else if list_ex (\<lambda>existing. msg_created existing = msg_created m) (messages_of s (msg_conversation m))
               then Inl MessageTimestampTaken
               else Inr (m\<lparr>msg_files := found\<rparr>)))"

definition normalize_message :: "library \<Rightarrow> message \<Rightarrow> message option" where
  "normalize_message L m =
     (case (lib_blocks L (msg_blocks m), lib_attachments L (msg_attachments m), lib_unfurls L (msg_unfurls m)) of
        (Some blocks, Some attachments, Some unfurls) \<Rightarrow>
          Some (m\<lparr>msg_created := message_instant (msg_created m), msg_blocks := blocks,
                  msg_attachments := (if attachments = [] then ''[]'' else attachments), msg_unfurls := unfurls\<rparr>)
      | _ \<Rightarrow> None)"

definition create_message_locked :: "library \<Rightarrow> message \<Rightarrow> event \<Rightarrow> string \<Rightarrow> event list \<Rightarrow> chat \<Rightarrow> chat \<times> store_error option" where
  "create_message_locked L m ev key companions s =
     (case prepare_message m key s of
        Inl e \<Rightarrow> (s, Some e)
      | Inr m' \<Rightarrow> (let s' = commit_message L m' ev key s in (s'\<lparr>chat_outbox := chat_outbox s' @ companions\<rparr>, None)))"

definition create_message :: "library \<Rightarrow> message \<Rightarrow> event \<Rightarrow> string \<Rightarrow> event list \<Rightarrow> chat \<Rightarrow> chat \<times> store_error option" where
  "create_message L m ev key companions s =
     (case normalize_message L m of None \<Rightarrow> (s, Some Malformed)
      | Some m' \<Rightarrow> create_message_locked L m' ev key companions s)"

definition create_scheduled_message_post ::
  "library \<Rightarrow> string \<Rightarrow> message \<Rightarrow> event \<Rightarrow> event list \<Rightarrow> chat \<Rightarrow> chat \<times> store_error option" where
  "create_scheduled_message_post L i m ev companions s =
     (case normalize_message L m of None \<Rightarrow> (s, Some Malformed)
      | Some m' \<Rightarrow>
          (case map_of (scheduled s) i of
             None \<Rightarrow> (s, Some NotFound)
           | Some value' \<Rightarrow>
               if i = [] \<or> i \<in> scheduled_delivered s \<or> sched_workspace value' \<noteq> msg_workspace m'
                  \<or> sched_author value' \<noteq> msg_author m' \<or> sched_channel value' \<noteq> msg_conversation m'
               then (s, Some NotFound)
               else create_message_locked L m' ev i companions s))"

subsection \<open>Editing and deleting\<close>

text \<open>The loop over the conversation's messages for the one with the identifier.\<close>

fun replace_by_id :: "message \<Rightarrow> message list \<Rightarrow> message list option" where
  "replace_by_id m [] = None"
| "replace_by_id m (v # vs) = (if msg_id v = msg_id m then Some (m # vs) else map_option ((#) v) (replace_by_id m vs))"

definition update_message :: "message \<Rightarrow> event \<Rightarrow> event list \<Rightarrow> chat \<Rightarrow> chat \<times> store_error option" where
  "update_message m ev companions s =
     (case replace_by_id m (messages_of s (msg_conversation m)) of
        None \<Rightarrow> (s, Some NotFound)
      | Some values \<Rightarrow> ((put_messages (msg_conversation m) values s)\<lparr>chat_outbox := chat_outbox s @ [ev] @ companions\<rparr>, None))"

definition file_carried_elsewhere :: "chat \<Rightarrow> string \<Rightarrow> string \<Rightarrow> string \<Rightarrow> bool" where
  "file_carried_elsewhere s f conversation excluding =
     list_ex (\<lambda>m. \<not> (msg_id m = excluding \<or> msg_deleted m) \<and> list_ex (\<lambda>x. file_id x = f) (msg_files m))
       (messages_of s conversation)"

definition end_file_share :: "message \<Rightarrow> string \<times> event \<Rightarrow> chat \<Rightarrow> chat" where
  "end_file_share m = (\<lambda>(f, ev) s.
     if file_carried_elsewhere s f (msg_conversation m) (msg_id m) then s
     else let retained = filter (\<lambda>channel. channel \<noteq> msg_conversation m) (file_shares s f)
       in if length retained = length (file_shares s f) then s
          else s\<lparr>file_shares := (file_shares s)(f := retained), chat_outbox := chat_outbox s @ [ev]\<rparr>)"

definition end_file_shares :: "message \<Rightarrow> (string \<times> event) list \<Rightarrow> chat \<Rightarrow> chat" where
  "end_file_shares m unshares s = fold (end_file_share m) unshares s"

definition delete_message :: "message \<Rightarrow> event \<Rightarrow> (string \<times> event) list \<Rightarrow> chat \<Rightarrow> chat \<times> store_error option" where
  "delete_message m ev unshares s =
     (case replace_by_id m (messages_of s (msg_conversation m)) of
        None \<Rightarrow> (s, Some NotFound)
      | Some values \<Rightarrow>
          (end_file_shares m unshares
             ((put_messages (msg_conversation m) values s)\<lparr>chat_outbox := chat_outbox s @ [ev]\<rparr>), None))"

fun carried_files_ok :: "chat \<Rightarrow> message \<Rightarrow> stored_file list \<Rightarrow> string list \<Rightarrow> bool" where
  "carried_files_ok s m [] seen = True"
| "carried_files_ok s m (carried # rest) seen =
     (case files s (file_id carried) of
        None \<Rightarrow> False
      | Some f \<Rightarrow> \<not> (file_id carried \<in> set seen \<or> file_deleted f \<or> file_workspace f \<noteq> msg_workspace m)
          \<and> carried_files_ok s m rest (file_id carried # seen))"

definition grant_share :: "message \<Rightarrow> string \<times> event \<Rightarrow> chat \<Rightarrow> chat" where
  "grant_share m = (\<lambda>(f, ev) s.
     if msg_conversation m \<in> set (file_shares s f) then s
     else s\<lparr>file_shares := (file_shares s)(f := sort (file_shares s f @ [msg_conversation m])), chat_outbox := chat_outbox s @ [ev]\<rparr>)"

definition update_message_files ::
  "message \<Rightarrow> event \<Rightarrow> (string \<times> event) list \<Rightarrow> (string \<times> event) list \<Rightarrow> event list \<Rightarrow> chat \<Rightarrow> chat \<times> store_error option" where
  "update_message_files m ev grants unshares companions s =
     (case replace_by_id m (messages_of s (msg_conversation m)) of
        None \<Rightarrow> (s, Some NotFound)
      | Some values \<Rightarrow>
          if \<not> carried_files_ok s m (msg_files m) [] then (s, Some NotFound)
          else let s1 = (put_messages (msg_conversation m) values s)\<lparr>chat_outbox := chat_outbox s @ [ev]\<rparr>;
                   s2 = end_file_shares m unshares (fold (grant_share m) grants s1)
               in (s2\<lparr>chat_outbox := chat_outbox s2 @ companions\<rparr>, None))"

text \<open>
  Files shared with the message that carries them. The shares from before are kept so that they can
  be put back when the message is refused; a file that is missing ends the loop where it is.
\<close>

fun share_files :: "message \<Rightarrow> string list \<Rightarrow> (string \<rightharpoonup> string list) \<Rightarrow> chat \<Rightarrow> chat \<times> (string \<rightharpoonup> string list) option" where
  "share_files m [] previous s = (s, Some previous)"
| "share_files m (f # fs) previous s =
     (case files s f of
        None \<Rightarrow> (s, None)
      | Some x \<Rightarrow>
          if file_deleted x \<or> file_workspace x \<noteq> msg_workspace m then (s, None)
          else share_files m fs (previous(f \<mapsto> file_shares s f))
            (if msg_conversation m \<in> set (file_shares s f) then s
             else s\<lparr>file_shares := (file_shares s)(f := sort (file_shares s f @ [msg_conversation m]))\<rparr>))"

definition named_file :: "string \<Rightarrow> stored_file" where
  "named_file f = \<lparr>file_id = f, file_workspace = [], file_deleted = False, file_created = 0, file_blob_key = [], file_shared = []\<rparr>"

definition create_file_share_message :: "library \<Rightarrow> string list \<Rightarrow> message \<Rightarrow> event list \<Rightarrow> chat \<Rightarrow> chat \<times> store_error option" where
  "create_file_share_message L fs m emitted s =
     (if fs = [] \<or> emitted = [] then (s, Some InvalidArgument)
      else case normalize_message L (m\<lparr>msg_files := map named_file fs\<rparr>) of
        None \<Rightarrow> (s, Some Malformed)
      | Some normalized \<Rightarrow>
          (case share_files m fs (\<lambda>_. None) s of
             (s1, None) \<Rightarrow> (s1, Some NotFound)
           | (s1, Some previous) \<Rightarrow>
               (case create_message_locked L normalized (hd emitted) [] [] s1 of
                  (s2, Some e) \<Rightarrow>
                    (s2\<lparr>file_shares := (\<lambda>f. case previous f of Some channels \<Rightarrow> channels | None \<Rightarrow> file_shares s2 f)\<rparr>, Some e)
                | (s2, None) \<Rightarrow> (s2\<lparr>chat_outbox := chat_outbox s2 @ tl emitted\<rparr>, None))))"

subsection \<open>Notices\<close>

text \<open>The first instant from the notice's own, a microsecond at a time, no message has.\<close>

function next_free :: "time set \<Rightarrow> time \<Rightarrow> time" where
  "next_free taken t = (if finite taken \<and> t \<in> taken then next_free taken (t + 1000) else t)"
  by pat_completeness auto
termination
proof (relation "measure (\<lambda>(taken, t). card {x \<in> taken. t \<le> x})")
  show "wf (measure (\<lambda>(taken :: time set, t). card {x \<in> taken. t \<le> x}))" by simp
  fix taken :: "time set" and t :: time
  assume "finite taken \<and> t \<in> taken"
  then have "{x \<in> taken. t + 1000 \<le> x} \<subseteq> {x \<in> taken. t \<le> x} - {t}" "t \<in> {x \<in> taken. t \<le> x}" "finite {x \<in> taken. t \<le> x}" by auto
  then have "{x \<in> taken. t + 1000 \<le> x} \<subset> {x \<in> taken. t \<le> x}" "finite {x \<in> taken. t \<le> x}" by blast+
  then show "((taken, t + 1000), taken, t) \<in> measure (\<lambda>(taken, t). card {x \<in> taken. t \<le> x})"
    by (simp add: psubset_card_mono)
qed

declare next_free.simps [simp del]

definition instants :: "chat \<Rightarrow> string \<Rightarrow> time list" where
  "instants s conversation = map msg_created (messages_of s conversation)"

definition append_conversation_notice :: "message \<Rightarrow> chat \<Rightarrow> chat \<times> time" where
  "append_conversation_notice notice s =
     (let created = next_free (set (instants s (msg_conversation notice))) (msg_created notice)
      in (put_messages (msg_conversation notice)
            (messages_of s (msg_conversation notice) @ [notice\<lparr>msg_created := created\<rparr>]) s, created))"

definition append_conversation_notices :: "message list \<Rightarrow> chat \<Rightarrow> chat" where
  "append_conversation_notices notices s = fold (\<lambda>notice s. fst (append_conversation_notice notice s)) notices s"

subsection \<open>Posting through the service\<close>

text \<open>
  \<^verbatim>\<open>createMessage\<close> of \<^verbatim>\<open>internal/service/messages.go\<close>: while the store answers that the instant is
  taken, the next microsecond, with the event and the link events built again from the message.
  \<open>mk_event\<close> and \<open>mk_links\<close> build them; \<open>None\<close> is their error.
\<close>

definition post_once ::
  "library \<Rightarrow> (message \<Rightarrow> event option) \<Rightarrow> (message \<Rightarrow> event list option) \<Rightarrow> string \<Rightarrow> string \<Rightarrow> message \<Rightarrow> chat
    \<Rightarrow> chat \<times> store_error option" where
  "post_once L mk_event mk_links key scheduled_id m s =
     (case (mk_event m, mk_links m) of
        (Some ev, Some links) \<Rightarrow>
          if scheduled_id = [] then create_message L m ev key links s
          else create_scheduled_message_post L scheduled_id m ev links s
      | _ \<Rightarrow> (s, Some Malformed))"

lemma create_locked_taken:
  "create_message_locked L m ev key companions s = (s', Some MessageTimestampTaken) \<Longrightarrow>
    s' = s \<and> msg_created m \<in> set (instants s (msg_conversation m))"
proof -
  have f: "resolve_files s m fs seen found \<noteq> Inl MessageTimestampTaken" for fs seen found
    by (induction fs arbitrary: seen found) (auto split: option.splits)
  assume "create_message_locked L m ev key companions s = (s', Some MessageTimestampTaken)"
  then show ?thesis using f
    by (auto simp: create_message_locked_def prepare_message_def Let_def instants_def list_ex_iff
        intro: image_eqI [OF sym] split: sum.splits if_splits)
qed

lemma normalize_created:
  "normalize_message L m = Some m' \<Longrightarrow>
    msg_created m' = message_instant (msg_created m) \<and> msg_conversation m' = msg_conversation m \<and> msg_id m' = msg_id m
    \<and> msg_workspace m' = msg_workspace m \<and> msg_author m' = msg_author m \<and> msg_thread m' = msg_thread m
    \<and> msg_broadcast m' = msg_broadcast m \<and> msg_deleted m' = msg_deleted m"
  by (auto simp: normalize_message_def split: option.splits)

lemma post_once_taken:
  "post_once L mk_event mk_links key scheduled_id m s = (s', Some MessageTimestampTaken) \<Longrightarrow>
    s' = s \<and> message_instant (msg_created m) \<in> set (instants s (msg_conversation m))"
  by (auto simp: post_once_def create_message_def create_scheduled_message_post_def
      split: option.splits if_splits dest!: create_locked_taken normalize_created)

lemma instant_next: "message_instant (t + 1000) = message_instant t + 1000"
  by (simp add: message_instant_def)

function post_message ::
  "library \<Rightarrow> (message \<Rightarrow> event option) \<Rightarrow> (message \<Rightarrow> event list option) \<Rightarrow> string \<Rightarrow> string \<Rightarrow> message \<Rightarrow> chat
    \<Rightarrow> chat \<times> (store_error + message)" where
  "post_message L mk_event mk_links key scheduled_id m s =
     (case post_once L mk_event mk_links key scheduled_id m s of
        (s', None) \<Rightarrow> (s', Inr m)
      | (s', Some e) \<Rightarrow>
          if e = MessageTimestampTaken
          then post_message L mk_event mk_links key scheduled_id (m\<lparr>msg_created := msg_created m + 1000\<rparr>) s'
          else if e = IdempotencyConflict then (s', get_idempotent_message s' (msg_workspace m) (msg_author m) key)
          else (s', Inl e))"
  by pat_completeness auto
termination
proof (relation "measure (\<lambda>(L, mk_event, mk_links, key, scheduled_id, m, s).
    card {x \<in> set (instants s (msg_conversation m)). message_instant (msg_created m) \<le> x})", simp, goal_cases)
  case (1 L mk_event mk_links key scheduled_id m s s' o' e)
  then have t: "s' = s" "message_instant (msg_created m) \<in> set (instants s (msg_conversation m))"
    using post_once_taken by metis+
  let ?later = "\<lambda>t. {x \<in> set (instants s (msg_conversation m)). t \<le> x}"
  have "?later (message_instant (msg_created m) + 1000) \<subseteq> ?later (message_instant (msg_created m)) - {message_instant (msg_created m)}"
    by auto
  moreover have "message_instant (msg_created m) \<in> ?later (message_instant (msg_created m))" using t(2) by simp
  ultimately have "card (?later (message_instant (msg_created m) + 1000)) < card (?later (message_instant (msg_created m)))"
    by (intro psubset_card_mono) (simp, blast)
  then show ?case by (simp add: t(1) instant_next)
qed

declare post_message.simps [simp del]

end
