(* ===== verification/Retention.thy ===== *)
theory Retention
  imports Messages "HOL-Library.Sublist"
begin

section \<open>Message and file retention\<close>

text \<open>
  The retention operations of \<^verbatim>\<open>internal/store/memory/memory.go\<close>, the candidate selection of
  \<^verbatim>\<open>internal/store/sqlstore/sqlstore.go\<close> beside it, the policy functions of
  \<^verbatim>\<open>internal/domain/models.go\<close> and the worker of \<^verbatim>\<open>internal/scheduler/retention.go\<close> that claims
  conversations and sweeps them. This is the only operation that destroys messages. A loop over a
  Go map that stops early takes the order of the iteration as an argument.
\<close>

subsection \<open>Policies\<close>

definition retention_maximum_days :: int where
  "retention_maximum_days = 36500"

definition valid_retention_days :: "int \<Rightarrow> bool" where
  "valid_retention_days days \<longleftrightarrow> days \<ge> 0 \<and> days < retention_maximum_days"

definition valid_retention_policy :: "retention_policy \<Rightarrow> bool" where
  "valid_retention_policy policy \<longleftrightarrow> valid_retention_days (message_days policy) \<and> valid_retention_days (file_days policy)
     \<and> valid_retention_days (canvas_list_days policy)"

definition zero_policy :: retention_policy where
  "zero_policy = \<lparr>message_days = 0, file_days = 0, canvas_list_days = 0\<rparr>"

definition effective_days :: "int \<Rightarrow> retention_policy \<Rightarrow> int" where
  "effective_days override workspace = (if override > 0 then override else message_days workspace)"

definition day :: duration where
  "day = 24 * 3600000000000"

text \<open>\<^verbatim>\<open>time.Duration\<close> is 64 bits wide, so the product is taken there.\<close>

definition retention_horizon :: "int \<Rightarrow> time \<Rightarrow> time" where
  "retention_horizon days now = (if days \<le> 0 then 0 else now + int64 (int64 (- days) * day))"

subsection \<open>Claiming\<close>

fun claim_sweeps :: "string \<Rightarrow> time \<Rightarrow> time \<Rightarrow> int \<Rightarrow> string list \<Rightarrow> chat \<Rightarrow> string list \<Rightarrow> chat \<times> string list" where
  "claim_sweeps workspace before swept_at limit [] s claimed = (s, claimed)"
| "claim_sweeps workspace before swept_at limit (i # order) s claimed =
     (if int (length claimed) = limit then (s, claimed)
      else if workspace \<noteq> [] \<and> conv_workspace (conversation_of s i) \<noteq> workspace
        then claim_sweeps workspace before swept_at limit order s claimed
      else if (case retention_swept_at s i of None \<Rightarrow> False | Some swept \<Rightarrow> swept > before)
        then claim_sweeps workspace before swept_at limit order s claimed
      else claim_sweeps workspace before swept_at limit order
        (s\<lparr>retention_swept_at := (retention_swept_at s)(i \<mapsto> swept_at)\<rparr>) (claimed @ [i]))"

definition claim_retention_sweep ::
  "string list \<Rightarrow> string \<Rightarrow> time \<Rightarrow> time \<Rightarrow> int \<Rightarrow> chat \<Rightarrow> chat \<times> (store_error + string list)" where
  "claim_retention_sweep order workspace before swept_at limit s =
     (if limit \<le> 0 then (s, Inl InvalidArgument)
      else case claim_sweeps workspace before swept_at limit order s [] of (s', claimed) \<Rightarrow> (s', Inr (sort claimed)))"

subsection \<open>Sweeping messages\<close>

definition live_threads :: "time \<Rightarrow> message list \<Rightarrow> string set" where
  "live_threads horizon ms = set [msg_thread m. m \<leftarrow> ms, msg_thread m \<noteq> [] \<and> \<not> msg_created m < horizon]"

definition retained_by_thread :: "string set \<Rightarrow> message \<Rightarrow> bool" where
  "retained_by_thread live m \<longleftrightarrow>
     (if msg_thread m \<noteq> [] then msg_thread m \<in> live else new_message_timestamp (msg_created m) \<in> live)"

definition forget_message :: "string \<Rightarrow> message \<Rightarrow> chat \<Rightarrow> chat" where
  "forget_message conversation m s =
     s\<lparr>reactions := (reactions s)(msg_id m := None),
       pins := (pins s)(msg_id m := None),
       stars := (\<lambda>u. stars s u - {msg_id m}),
       saved_items := (\<lambda>i. if saved_items s i = Some (msg_id m) then None else saved_items s i),
       activity_items := (\<lambda>i. case activity_items s i of
          None \<Rightarrow> None | Some item \<Rightarrow> if item_message item = msg_id m then None else Some item),
       idempotency := (\<lambda>k. if idempotency s k = Some (msg_id m) then None else idempotency s k),
       thread_follows :=
         (if msg_thread m = [] then
            {k \<in> thread_follows s. \<not> (sublist conversation k \<and> suffix (new_message_timestamp (msg_created m)) k)}
          else thread_follows s)\<rparr>"

fun sweep_loop :: "time \<Rightarrow> int \<Rightarrow> string set \<Rightarrow> string \<Rightarrow> message list \<Rightarrow> chat \<times> message list \<times> int \<times> bool
    \<Rightarrow> chat \<times> message list \<times> int \<times> bool" where
  "sweep_loop horizon limit live conversation [] r = r"
| "sweep_loop horizon limit live conversation (m # ms) (s, retained, removed, complete) =
     sweep_loop horizon limit live conversation ms
       (if \<not> msg_created m < horizon then (s, retained @ [m], removed, complete)
        else if removed = limit then (s, retained @ [m], removed, False)
        else if retained_by_thread live m then (s, retained @ [m], removed, complete)
        else (forget_message conversation m s, retained, removed + 1, complete))"

definition sweep_messages :: "string \<Rightarrow> time \<Rightarrow> int \<Rightarrow> chat \<Rightarrow> chat \<times> int \<times> bool" where
  "sweep_messages conversation horizon limit s =
     (let ms = messages_of s conversation in
      case sweep_loop horizon limit (live_threads horizon ms) conversation ms (s, [], 0, True) of
        (s', retained, removed, complete) \<Rightarrow> (put_messages conversation retained s', removed, complete))"

text \<open>
  \<^verbatim>\<open>expiredMessages\<close> of the SQL profile: one query for the live threads, one for the first \<open>limit + 1\<close>
  rows before the horizon in (created, id) order, and the loop over those.
\<close>

fun expired_loop :: "int \<Rightarrow> string set \<Rightarrow> message list \<Rightarrow> message list \<Rightarrow> message list \<times> bool" where
  "expired_loop limit live [] expired = (expired, True)"
| "expired_loop limit live (m # ms) expired =
     (if int (length expired) = limit then (expired, False)
      else if retained_by_thread live m then expired_loop limit live ms expired
      else expired_loop limit live ms (expired @ [m]))"

definition expired_messages :: "time \<Rightarrow> int \<Rightarrow> message list \<Rightarrow> message list \<times> bool" where
  "expired_messages horizon limit ms =
     expired_loop limit (live_threads horizon ms)
       (take (nat (limit + 1)) (filter (\<lambda>m. msg_created m < horizon) ms)) []"

subsection \<open>Sweeping files\<close>

definition file_expired :: "string \<Rightarrow> string \<Rightarrow> time \<Rightarrow> chat \<Rightarrow> string \<Rightarrow> bool" where
  "file_expired workspace conversation horizon s i = (case files s i of
     None \<Rightarrow> False
   | Some f \<Rightarrow> \<not> (file_workspace f \<noteq> workspace \<or> file_deleted f \<or> \<not> file_created f < horizon)
       \<and> conversation \<in> set (file_shares s i) \<and> \<not> length (file_shares s i) > 1)"

fun expired_files :: "string \<Rightarrow> string \<Rightarrow> time \<Rightarrow> int \<Rightarrow> chat \<Rightarrow> string list \<Rightarrow> string list \<Rightarrow> string list" where
  "expired_files workspace conversation horizon limit s [] expired = expired"
| "expired_files workspace conversation horizon limit s (i # order) expired =
     (if int (length expired) = limit then expired
      else expired_files workspace conversation horizon limit s order
        (if file_expired workspace conversation horizon s i then expired @ [i] else expired))"

definition drop_file :: "string \<Rightarrow> chat \<Rightarrow> chat" where
  "drop_file i s = s\<lparr>files := (files s)(i := None), file_shares := (file_shares s)(i := []),
     file_grants := (file_grants s)(i := None),
     list_item_files := (\<lambda>k. case list_item_files s k of None \<Rightarrow> None | Some (l, f) \<Rightarrow> if f = i then None else Some (l, f)),
     file_comments := (\<lambda>k. if file_comments s k = Some i then None else file_comments s k),
     messages := map (\<lambda>(c, ms). (c, map (\<lambda>m. m\<lparr>msg_files := filter (\<lambda>f. file_id f \<noteq> i) (msg_files m)\<rparr>) ms)) (messages s)\<rparr>"

definition sweep_files :: "string list \<Rightarrow> string \<Rightarrow> string \<Rightarrow> time \<Rightarrow> int \<Rightarrow> chat \<Rightarrow> chat \<times> (string \<times> string) list" where
  "sweep_files order workspace conversation horizon limit s =
     (let expired = sort (expired_files workspace conversation horizon limit s order [])
      in (fold drop_file expired s,
          map (\<lambda>i. (i, case files s i of None \<Rightarrow> [] | Some f \<Rightarrow> file_blob_key f)) expired))"

record sweep_request =
  rq_workspace :: string
  rq_conversation :: string
  rq_message_horizon :: time
  rq_file_horizon :: time
  rq_swept_at :: time
  rq_limit :: int

record sweep_result =
  rs_conversation :: string
  rs_messages :: int
  rs_files :: int
  rs_swept_at :: time
  rs_complete :: bool
  rs_blobs :: "(string \<times> string) list"

definition sweep_retention :: "string list \<Rightarrow> sweep_request \<Rightarrow> chat \<Rightarrow> chat \<times> (store_error + sweep_result)" where
  "sweep_retention file_order rq s =
     (if rq_limit rq \<le> 0 then (s, Inl InvalidArgument)
      else case conversations s (rq_conversation rq) of
        None \<Rightarrow> (s, Inl NotFound)
      | Some c \<Rightarrow>
          if conv_workspace c \<noteq> rq_workspace rq then (s, Inl NotFound)
          else
            let (s1, removed, complete) =
                  (if is_zero_time (rq_message_horizon rq) then (s, 0, True)
                   else sweep_messages (rq_conversation rq) (rq_message_horizon rq) (rq_limit rq) s);
                (s2, blobs) =
                  (if is_zero_time (rq_file_horizon rq) then (s1, [])
                   else sweep_files file_order (rq_workspace rq) (rq_conversation rq) (rq_file_horizon rq) (rq_limit rq) s1)
            in (s2, Inr \<lparr>rs_conversation = rq_conversation rq, rs_messages = removed, rs_files = int (length blobs),
                   rs_swept_at = rq_swept_at rq, rs_complete = complete, rs_blobs = blobs\<rparr>))"

subsection \<open>The worker\<close>

definition retention_interval :: duration where
  "retention_interval = day"

definition get_retention_policy :: "chat \<Rightarrow> string \<Rightarrow> store_error + retention_policy" where
  "get_retention_policy s workspace =
     (if workspace \<notin> workspaces s then Inl NotFound
      else Inr (case retention_policies s workspace of None \<Rightarrow> zero_policy | Some policy \<Rightarrow> policy))"

definition get_conversation_retention :: "chat \<Rightarrow> string \<Rightarrow> string \<Rightarrow> store_error + int" where
  "get_conversation_retention s workspace conversation =
     (case conversations s conversation of
        None \<Rightarrow> Inl NotFound
      | Some c \<Rightarrow> if conv_workspace c \<noteq> workspace then Inl NotFound
          else Inr (case conversation_retention s conversation of None \<Rightarrow> 0 | Some days \<Rightarrow> days))"

definition set_conversation_retention :: "string \<Rightarrow> string \<Rightarrow> int \<Rightarrow> event \<Rightarrow> chat \<Rightarrow> chat \<times> store_error option" where
  "set_conversation_retention workspace conversation days ev s =
     (if days \<le> 0 \<or> \<not> valid_retention_days days then (s, Some InvalidArgument)
      else case conversations s conversation of
        None \<Rightarrow> (s, Some NotFound)
      | Some c \<Rightarrow> if conv_workspace c \<noteq> workspace then (s, Some NotFound)
          else (s\<lparr>conversation_retention := (conversation_retention s)(conversation \<mapsto> days),
                  chat_outbox := chat_outbox s @ [ev]\<rparr>, None))"

definition remove_conversation_retention :: "string \<Rightarrow> string \<Rightarrow> event \<Rightarrow> chat \<Rightarrow> chat \<times> store_error option" where
  "remove_conversation_retention workspace conversation ev s =
     (case conversations s conversation of
        None \<Rightarrow> (s, Some NotFound)
      | Some c \<Rightarrow> if conv_workspace c \<noteq> workspace then (s, Some NotFound)
          else (s\<lparr>conversation_retention := (conversation_retention s)(conversation := None),
                  chat_outbox := chat_outbox s @ [ev]\<rparr>, None))"

definition set_retention_policy :: "string \<Rightarrow> retention_policy \<Rightarrow> event \<Rightarrow> chat \<Rightarrow> chat \<times> store_error option" where
  "set_retention_policy workspace policy ev s =
     (if \<not> valid_retention_policy policy then (s, Some InvalidArgument)
      else if workspace \<notin> workspaces s then (s, Some NotFound)
      else (s\<lparr>retention_policies := (retention_policies s)(workspace \<mapsto> policy), chat_outbox := chat_outbox s @ [ev]\<rparr>, None))"

definition append_retention_events :: "string \<Rightarrow> event list \<Rightarrow> chat \<Rightarrow> chat \<times> store_error option" where
  "append_retention_events workspace emitted s =
     (if emitted = [] then (s, None)
      else if workspace \<notin> workspaces s then (s, Some NotFound)
      else (s\<lparr>chat_outbox := chat_outbox s @ emitted\<rparr>, None))"

text \<open>\<open>mk_events\<close> builds the summary and one blob-delete event per orphaned file; \<open>None\<close> is its error.\<close>

definition sweep_conversation ::
  "(string \<Rightarrow> sweep_result \<Rightarrow> event list option) \<Rightarrow> string list \<Rightarrow> int \<Rightarrow> string \<Rightarrow> time \<Rightarrow> chat
    \<Rightarrow> chat \<times> (store_error + sweep_result)" where
  "sweep_conversation mk_events file_order limit i now s =
     (case conversations s i of
        None \<Rightarrow> (s, Inl NotFound)
      | Some c \<Rightarrow>
          (case (get_retention_policy s (conv_workspace c), get_conversation_retention s (conv_workspace c) i) of
             (Inl e, _) \<Rightarrow> (s, Inl e)
           | (_, Inl e) \<Rightarrow> (s, Inl e)
           | (Inr policy, Inr override) \<Rightarrow>
               let rq = \<lparr>rq_workspace = conv_workspace c, rq_conversation = i,
                     rq_message_horizon = retention_horizon (effective_days override policy) now,
                     rq_file_horizon = retention_horizon (file_days policy) now, rq_swept_at = now, rq_limit = limit\<rparr>
               in if is_zero_time (rq_message_horizon rq) \<and> is_zero_time (rq_file_horizon rq) then
                    (s, Inr \<lparr>rs_conversation = i, rs_messages = 0, rs_files = 0, rs_swept_at = now, rs_complete = True, rs_blobs = []\<rparr>)
                  else
                    (case sweep_retention file_order rq s of
                       (s1, Inl e) \<Rightarrow> (s1, Inl e)
                     | (s1, Inr swept) \<Rightarrow>
                         if rs_messages swept = 0 \<and> rs_files swept = 0 then (s1, Inr swept)
                         else (case mk_events (conv_workspace c) swept of
                             None \<Rightarrow> (s1, Inl InvalidArgument)
                           | Some emitted \<Rightarrow>
                               (case append_retention_events (conv_workspace c) emitted s1 of
                                  (s2, Some e) \<Rightarrow> (s2, Inl e)
                                | (s2, None) \<Rightarrow> (s2, Inr swept))))))"

text \<open>
  The loop over the claimed conversations. \<open>canceled\<close> says before which of them the context is
  found ended; an error of one conversation is noted and the next is swept.
\<close>

fun sweep_claimed ::
  "(string \<Rightarrow> sweep_result \<Rightarrow> event list option) \<Rightarrow> string list \<Rightarrow> int \<Rightarrow> time \<Rightarrow> (nat \<Rightarrow> bool) \<Rightarrow> nat \<Rightarrow> string list \<Rightarrow> chat
    \<Rightarrow> nat \<Rightarrow> store_error list \<Rightarrow> chat \<times> nat \<times> store_error list \<times> bool" where
  "sweep_claimed mk_events file_order limit now canceled n [] s completed failures = (s, completed, failures, False)"
| "sweep_claimed mk_events file_order limit now canceled n (i # is) s completed failures =
     (if canceled n then (s, completed, failures, True)
      else case sweep_conversation mk_events file_order limit i now s of
        (s1, Inl e) \<Rightarrow> sweep_claimed mk_events file_order limit now canceled (Suc n) is s1 completed (failures @ [e])
      | (s1, Inr swept) \<Rightarrow> sweep_claimed mk_events file_order limit now canceled (Suc n) is s1 (Suc completed) failures)"

subsection \<open>Canvases and lists\<close>

definition document_pass_due :: "string \<Rightarrow> time \<Rightarrow> chat \<Rightarrow> string \<Rightarrow> bool" where
  "document_pass_due workspace before s i = (case retention_policies s i of
     None \<Rightarrow> False
   | Some policy \<Rightarrow> \<not> (canvas_list_days policy \<le> 0 \<or> (workspace \<noteq> [] \<and> i \<noteq> workspace))
       \<and> \<not> (case documents_swept_at s i of None \<Rightarrow> False | Some swept \<Rightarrow> swept > before))"

definition claim_document_retention_sweep ::
  "string list \<Rightarrow> string \<Rightarrow> time \<Rightarrow> time \<Rightarrow> int \<Rightarrow> chat \<Rightarrow> chat \<times> (store_error + string list)" where
  "claim_document_retention_sweep order workspace before swept_at limit s =
     (if limit \<le> 0 then (s, Inl InvalidArgument)
      else let due = take (nat limit) (sort (filter (document_pass_due workspace before s) order))
        in (s\<lparr>documents_swept_at := fold (\<lambda>i swept. swept(i \<mapsto> swept_at)) due (documents_swept_at s)\<rparr>, Inr due))"

definition canvas_expired :: "string \<Rightarrow> time \<Rightarrow> chat \<Rightarrow> string \<Rightarrow> bool" where
  "canvas_expired workspace horizon s i = (case canvases s i of
     None \<Rightarrow> False | Some c \<Rightarrow> doc_workspace c = workspace \<and> doc_updated c < horizon)"

definition list_expired :: "string \<Rightarrow> time \<Rightarrow> chat \<Rightarrow> string \<Rightarrow> bool" where
  "list_expired workspace horizon s i = (case list_docs s i of
     None \<Rightarrow> False
   | Some l \<Rightarrow> \<not> (doc_workspace l \<noteq> workspace \<or> \<not> doc_updated l < horizon)
       \<and> \<not> list_ex (\<lambda>updated. \<not> updated < horizon) (list_items s i))"

definition drop_canvas :: "string \<Rightarrow> chat \<Rightarrow> chat" where
  "drop_canvas i s = s\<lparr>canvases := (canvases s)(i := None), canvas_revisions := (canvas_revisions s)(i := None),
     canvas_access := (\<lambda>k. if canvas_access s k = Some i then None else canvas_access s k),
     canvas_comments := (\<lambda>k. if canvas_comments s k = Some i then None else canvas_comments s k)\<rparr>"

definition drop_list :: "string \<Rightarrow> chat \<Rightarrow> chat" where
  "drop_list i s = s\<lparr>list_docs := (list_docs s)(i := None), list_items := (list_items s)(i := []),
     list_item_comments := (\<lambda>k. if list_item_comments s k = Some i then None else list_item_comments s k),
     list_item_files := (\<lambda>k. case list_item_files s k of None \<Rightarrow> None | Some (l, f) \<Rightarrow> if l = i then None else Some (l, f)),
     list_access := (\<lambda>k. if list_access s k = Some i then None else list_access s k),
     list_downloads := (\<lambda>k. if list_downloads s k = Some i then None else list_downloads s k)\<rparr>"

definition sweep_document_retention ::
  "string list \<Rightarrow> string list \<Rightarrow> string \<Rightarrow> time \<Rightarrow> int \<Rightarrow> chat \<Rightarrow> chat \<times> (store_error + nat \<times> nat)" where
  "sweep_document_retention canvas_order list_order workspace horizon limit s =
     (if limit \<le> 0 then (s, Inl InvalidArgument)
      else let cs = take (nat limit) (sort (filter (canvas_expired workspace horizon s) canvas_order));
               s1 = fold drop_canvas cs s;
               ls = take (nat limit) (sort (filter (list_expired workspace horizon s1) list_order))
        in (fold drop_list ls s1, Inr (length cs, length ls)))"

definition documents_left :: "string list \<Rightarrow> string list \<Rightarrow> chat \<Rightarrow> nat" where
  "documents_left canvas_order list_order s =
     length (filter (\<lambda>i. canvases s i \<noteq> None) canvas_order) + length (filter (\<lambda>i. list_docs s i \<noteq> None) list_order)"

lemma canvases_after: "canvases (fold drop_canvas is s) = (\<lambda>i. if i \<in> set is then None else canvases s i)"
  by (induction "is" arbitrary: s) (auto simp: drop_canvas_def)

lemma lists_after: "list_docs (fold drop_list is s) = (\<lambda>i. if i \<in> set is then None else list_docs s i)"
  by (induction "is" arbitrary: s) (auto simp: drop_list_def)

lemma lists_kept: "list_docs (fold drop_canvas is s) = list_docs s"
  by (induction "is" arbitrary: s) (auto simp: drop_canvas_def)

lemma canvases_kept: "canvases (fold drop_list is s) = canvases s"
  by (induction "is" arbitrary: s) (auto simp: drop_list_def)

lemma filter_shrinks:
  assumes "\<And>i. Q i \<Longrightarrow> P i"
  shows "length (filter Q xs) \<le> length (filter P xs)"
    "i \<in> set xs \<Longrightarrow> P i \<Longrightarrow> \<not> Q i \<Longrightarrow> length (filter Q xs) < length (filter P xs)"
proof -
  show le: "length (filter Q xs) \<le> length (filter P xs)" for xs using assms by (induction xs) auto
  show "i \<in> set xs \<Longrightarrow> P i \<Longrightarrow> \<not> Q i \<Longrightarrow> length (filter Q xs) < length (filter P xs)"
    using assms le by (induction xs) (auto simp: less_Suc_eq_le)
qed

lemma sweep_documents_shrinks:
  assumes "sweep_document_retention canvas_order list_order workspace horizon limit s = (s', Inr (c, l))" "0 < c \<or> 0 < l"
  shows "documents_left canvas_order list_order s' < documents_left canvas_order list_order s"
proof -
  let ?cs = "take (nat limit) (sort (filter (canvas_expired workspace horizon s) canvas_order))"
  let ?s1 = "fold drop_canvas ?cs s"
  let ?ls = "take (nat limit) (sort (filter (list_expired workspace horizon ?s1) list_order))"
  have s': "s' = fold drop_list ?ls ?s1" "c = length ?cs" "l = length ?ls"
    using assms(1) by (auto simp: sweep_document_retention_def Let_def split: if_splits)
  have C: "canvases s' = (\<lambda>i. if i \<in> set ?cs then None else canvases s i)"
    unfolding s'(1) canvases_kept canvases_after ..
  have L: "list_docs s' = (\<lambda>i. if i \<in> set ?ls then None else list_docs s i)"
    unfolding s'(1) lists_after lists_kept ..
  have c: "i \<in> set canvas_order \<and> canvases s i \<noteq> None" if "i \<in> set ?cs" for i
    using in_set_takeD [OF that] by (auto simp: canvas_expired_def split: option.splits)
  have l: "i \<in> set list_order \<and> list_docs s i \<noteq> None" if "i \<in> set ?ls" for i
    using in_set_takeD [OF that] by (auto simp: list_expired_def lists_kept split: option.splits)
  have keptC: "canvases s' i \<noteq> None \<Longrightarrow> canvases s i \<noteq> None" and keptL: "list_docs s' i \<noteq> None \<Longrightarrow> list_docs s i \<noteq> None" for i
    unfolding C L by (metis option.distinct(1))+
  note le = filter_shrinks(1) [of "\<lambda>i. canvases s' i \<noteq> None" "\<lambda>i. canvases s i \<noteq> None" canvas_order, OF keptC]
    filter_shrinks(1) [of "\<lambda>i. list_docs s' i \<noteq> None" "\<lambda>i. list_docs s i \<noteq> None" list_order, OF keptL]
  from assms(2) show ?thesis
  proof
    assume "0 < c"
    then obtain i where i: "i \<in> set ?cs" using s'(2) by (metis length_greater_0_conv list.set_intros(1) neq_Nil_conv)
    then have "length (filter (\<lambda>i. canvases s' i \<noteq> None) canvas_order) < length (filter (\<lambda>i. canvases s i \<noteq> None) canvas_order)"
      using c [OF i] i by (intro filter_shrinks(2) [of "\<lambda>i. canvases s' i \<noteq> None" "\<lambda>i. canvases s i \<noteq> None" i, OF keptC]) (simp_all add: C)
    then show ?thesis using le(2) unfolding documents_left_def by linarith
  next
    assume "0 < l"
    then obtain i where i: "i \<in> set ?ls" using s'(3) by (metis length_greater_0_conv list.set_intros(1) neq_Nil_conv)
    then have "length (filter (\<lambda>i. list_docs s' i \<noteq> None) list_order) < length (filter (\<lambda>i. list_docs s i \<noteq> None) list_order)"
      using l [OF i] i by (intro filter_shrinks(2) [of "\<lambda>i. list_docs s' i \<noteq> None" "\<lambda>i. list_docs s i \<noteq> None" i, OF keptL]) (simp_all add: L)
    then show ?thesis using le(1) unfolding documents_left_def by linarith
  qed
qed

text \<open>\<^verbatim>\<open>sweepWorkspaceDocuments\<close>: pass after pass until one deletes fewer than the limit of both.\<close>

function sweep_documents_loop ::
  "(string \<Rightarrow> nat \<times> nat \<Rightarrow> event option) \<Rightarrow> string list \<Rightarrow> string list \<Rightarrow> string \<Rightarrow> time \<Rightarrow> int \<Rightarrow> chat \<Rightarrow> chat \<times> store_error option" where
  "sweep_documents_loop mk_summary canvas_order list_order workspace horizon limit s =
     (case sweep_document_retention canvas_order list_order workspace horizon limit s of
        (s1, Inl e) \<Rightarrow> (s1, Some e)
      | (s1, Inr (c, l)) \<Rightarrow>
          if c = 0 \<and> l = 0 then (s1, None)
          else (case mk_summary workspace (c, l) of
            None \<Rightarrow> (s1, Some InvalidArgument)
          | Some summary \<Rightarrow>
              if workspace \<notin> workspaces s1 then (s1, Some NotFound)
              else let s2 = s1\<lparr>chat_outbox := chat_outbox s1 @ [summary]\<rparr>
                in if int c < limit \<and> int l < limit then (s2, None)
                   else sweep_documents_loop mk_summary canvas_order list_order workspace horizon limit s2))"
  by pat_completeness auto
termination
proof (relation "measure (\<lambda>(mk_summary, canvas_order, list_order, workspace, horizon, limit, s).
    documents_left canvas_order list_order s)", simp, goal_cases)
  case (1 mk_summary canvas_order list_order workspace horizon limit s s1 r cl c l)
  then show ?case using sweep_documents_shrinks [of canvas_order list_order workspace horizon limit s s1 c l]
    by (auto simp: documents_left_def)
qed

declare sweep_documents_loop.simps [simp del]

definition sweep_workspace_documents ::
  "(string \<Rightarrow> nat \<times> nat \<Rightarrow> event option) \<Rightarrow> string list \<Rightarrow> string list \<Rightarrow> int \<Rightarrow> string \<Rightarrow> time \<Rightarrow> chat \<Rightarrow> chat \<times> store_error option" where
  "sweep_workspace_documents mk_summary canvas_order list_order limit workspace now s =
     (case get_retention_policy s workspace of
        Inl e \<Rightarrow> (s, Some e)
      | Inr policy \<Rightarrow>
          let horizon = retention_horizon (canvas_list_days policy) now
          in if is_zero_time horizon then (s, None)
             else sweep_documents_loop mk_summary canvas_order list_order workspace horizon limit s)"

text \<open>
  One run of the worker. The record holds what the run cannot compute: the orders in which the Go
  maps are iterated and the events it builds.
\<close>

record sweep_env =
  env_events :: "string \<Rightarrow> sweep_result \<Rightarrow> event list option"
  env_summary :: "string \<Rightarrow> nat \<times> nat \<Rightarrow> event option"
  env_conversations :: "string list"
  env_files :: "string list"
  env_policies :: "string list"
  env_canvases :: "string list"
  env_lists :: "string list"

definition sweep_documents :: "sweep_env \<Rightarrow> int \<Rightarrow> string \<Rightarrow> time \<Rightarrow> chat \<Rightarrow> chat \<times> store_error list" where
  "sweep_documents env limit workspace now s =
     (case claim_document_retention_sweep (env_policies env) workspace (now - retention_interval) now limit s of
        (s1, Inl e) \<Rightarrow> (s1, [e])
      | (s1, Inr claimed) \<Rightarrow>
          fold (\<lambda>w (s, failures).
            case sweep_workspace_documents (env_summary env) (env_canvases env) (env_lists env) limit w now s of
              (s', None) \<Rightarrow> (s', failures) | (s', Some e) \<Rightarrow> (s', failures @ [e])) claimed (s1, []))"

definition retention_run_once ::
  "sweep_env \<Rightarrow> int \<Rightarrow> string \<Rightarrow> time \<Rightarrow> (nat \<Rightarrow> bool) \<Rightarrow> chat \<Rightarrow> chat \<times> nat \<times> store_error list \<times> bool" where
  "retention_run_once env limit workspace clock canceled s =
     (let now = clock - clock mod 1000000000 in
      case claim_retention_sweep (env_conversations env) workspace (now - retention_interval) now limit s of
        (s1, Inl e) \<Rightarrow> (s1, 0, [e], False)
      | (s1, Inr claimed) \<Rightarrow>
          (case sweep_claimed (env_events env) (env_files env) limit now canceled 0 claimed s1 0 [] of
             (s2, completed, failures, True) \<Rightarrow> (s2, completed, failures, True)
           | (s2, completed, failures, False) \<Rightarrow>
               (case sweep_documents env limit workspace now s2 of
                  (s3, further) \<Rightarrow> (s3, completed, failures @ further, False))))"

end
