(* ===== verification/Message_Order.thy ===== *)
theory Message_Order
  imports Retention "HOL-Library.Multiset"
begin

section \<open>One order, one instant, one identifier\<close>

text \<open>
  What every read of a conversation relies on: its messages are held in the order of their
  instants, no two at one instant, no two messages anywhere with one identifier, and every
  idempotency key names a stored message. Posting, scheduled posting, sharing files, editing,
  deleting, marking read and retention keep it; the notices of a conversation change do not
  (\<open>notice_out_of_order\<close>).
\<close>

subsection \<open>What an operation leaves alone\<close>

lemma messages_of_put [simp]: "messages_of (put_messages c ms s) d = (if d = c then ms else messages_of s d)"
  by (simp add: messages_of_def put_messages_def update_conv')

lemma put_messages_simps [simp]:
  "messages (put_messages c ms s) = AList.update c ms (messages s)"
  "idempotency (put_messages c ms s) = idempotency s" "read_cursors (put_messages c ms s) = read_cursors s"
  "activity_items (put_messages c ms s) = activity_items s" "files (put_messages c ms s) = files s"
  "file_shares (put_messages c ms s) = file_shares s" "conversations (put_messages c ms s) = conversations s"
  "chat_outbox (put_messages c ms s) = chat_outbox s" "memberships (put_messages c ms s) = memberships s"
  "users (put_messages c ms s) = users s" "workspaces (put_messages c ms s) = workspaces s"
  by (simp_all add: put_messages_def)

lemma messages_frame [frame_simps]:
  "messages (create_message_activity L m s) = messages s" "idempotency (create_message_activity L m s) = idempotency s"
  "messages (advance_author_read_cursor m s) = messages s" "idempotency (advance_author_read_cursor m s) = idempotency s"
  "messages (reopen_directs m s) = messages s" "idempotency (reopen_directs m s) = idempotency s"
  "messages (set_read_cursor_locked cu t ev s) = messages s" "idempotency (set_read_cursor_locked cu t ev s) = idempotency s"
  "messages (forget_message c m s) = messages s"
  "messages (drop_canvas i s) = messages s" "idempotency (drop_canvas i s) = idempotency s"
  "messages (drop_list i s) = messages s" "idempotency (drop_list i s) = idempotency s"
  "idempotency (drop_file i s) = idempotency s"
  by (simp_all add: create_message_activity_def advance_author_read_cursor_def reopen_directs_def Let_def
      set_read_cursor_locked_def forget_message_def drop_canvas_def drop_list_def drop_file_def)

lemma conversations_frame [frame_simps]:
  "conversations (create_message_activity L m s) = conversations s"
  "conversations (advance_author_read_cursor m s) = conversations s"
  "conversations (reopen_directs m s) = conversations s"
  "conversations (insert_committed_message L m s) = conversations s"
  "conversations (commit_message L m ev key s) = conversations s"
  by (simp_all add: create_message_activity_def advance_author_read_cursor_def reopen_directs_def Let_def
      insert_committed_message_def commit_message_def)

lemma fold_frame: "(\<And>x s. f (g x s) = f s) \<Longrightarrow> f (fold g xs s) = f s"
  by (induction xs arbitrary: s) simp_all

lemma end_share_frame [frame_simps]:
  "messages (end_file_share m u s) = messages s" "idempotency (end_file_share m u s) = idempotency s"
  "messages (grant_share m u s) = messages s" "idempotency (grant_share m u s) = idempotency s"
  by (simp_all add: end_file_share_def grant_share_def Let_def split: prod.splits)

lemma messages_of_same: "messages s' = messages s \<Longrightarrow> messages_of s' c = messages_of s c"
  by (simp add: messages_of_def)

subsection \<open>All messages\<close>

lemma all_messages_update:
  "distinct (map fst al) \<Longrightarrow>
    mset (concat (map snd (AList.update c ms al))) + mset (case map_of al c of None \<Rightarrow> [] | Some x \<Rightarrow> x)
    = mset (concat (map snd al)) + mset ms"
proof (induction al)
  case (Cons p al)
  then show ?case
    by (cases "fst p = c") (auto simp: map_of_eq_None_iff fun_upd_def split: option.splits)
qed simp

definition kept_conversation :: "string \<Rightarrow> message list \<Rightarrow> bool" where
  "kept_conversation c ms \<longleftrightarrow> sorted_wrt (<) (map msg_created ms)
     \<and> (\<forall>m \<in> set ms. msg_conversation m = c \<and> message_instant (msg_created m) = msg_created m)"

definition kept_order :: "chat \<Rightarrow> bool" where
  "kept_order s \<longleftrightarrow> distinct (map fst (messages s)) \<and> (\<forall>c. kept_conversation c (messages_of s c))
     \<and> distinct (map msg_id (all_messages s))
     \<and> (\<forall>k i. idempotency s k = Some i \<longrightarrow> i \<in> msg_id ` set (all_messages s))"

lemma stored_somewhere: "distinct (map fst (messages s)) \<Longrightarrow> m \<in> set (all_messages s) \<longleftrightarrow> (\<exists>c. m \<in> set (messages_of s c))"
  by (force simp: all_messages_def messages_of_def split: option.splits dest: map_of_SomeD)

lemma kept_orderD:
  assumes "kept_order s"
  shows "distinct (map fst (messages s))" "kept_conversation c (messages_of s c)" "distinct (map msg_id (all_messages s))"
    "idempotency s k = Some i \<Longrightarrow> i \<in> msg_id ` set (all_messages s)"
  using assms by (auto simp: kept_order_def)

lemma kept_same: "kept_order s \<Longrightarrow> messages s' = messages s \<Longrightarrow> idempotency s' = idempotency s \<Longrightarrow> kept_order s'"
  by (simp add: kept_order_def messages_of_def all_messages_def)

lemma kept_order_outbox [simp]:
  "kept_order (s\<lparr>chat_outbox := x\<rparr>) = kept_order s" "kept_order (s\<lparr>file_shares := y\<rparr>) = kept_order s"
  by (simp_all add: kept_order_def messages_of_def all_messages_def)

text \<open>One conversation's list replaced, and no key left for a message that is gone.\<close>

lemma all_split:
  assumes "distinct (map fst (messages s))" "messages s' = AList.update c ms (messages s)"
  obtains rest where "mset (all_messages s) = mset (messages_of s c @ rest)" "mset (all_messages s') = mset (ms @ rest)"
proof -
  have "mset (messages_of s c) \<subseteq># mset (all_messages s)"
  proof (cases "map_of (messages s) c")
    case (Some x)
    then obtain xs ys where "messages s = xs @ (c, x) # ys" by (metis map_of_SomeD split_list)
    then show ?thesis using Some by (simp add: messages_of_def all_messages_def)
  qed (simp add: messages_of_def)
  then obtain r where r: "mset (all_messages s) = mset (messages_of s c) + r" by (metis subset_mset.add_diff_inverse)
  obtain rest where rest: "mset rest = r" by (metis ex_mset)
  have "mset (all_messages s') + mset (messages_of s c) = mset (all_messages s) + mset ms"
    using all_messages_update [OF assms(1), of c ms] by (simp add: all_messages_def messages_of_def assms(2))
  then have "mset (all_messages s') = mset ms + r" using r by (metis add.assoc add.commute add_left_imp_eq)
  then show ?thesis using that [of rest] r rest by simp
qed

lemma distinct_by_mset: "mset xs = mset ys \<Longrightarrow> distinct (map f xs) \<longleftrightarrow> distinct (map f ys)"
  by (metis mset_eq_imp_distinct_iff mset_map)

lemma kept_put:
  assumes k: "kept_order s" and m: "messages s' = AList.update c ms (messages s)" and c: "kept_conversation c ms"
    and ids: "distinct (map msg_id ms)"
    and new: "\<And>x. x \<in> set ms \<Longrightarrow> msg_id x \<in> msg_id ` set (all_messages s) \<Longrightarrow> msg_id x \<in> msg_id ` set (messages_of s c)"
    and keys: "\<And>k i. idempotency s' k = Some i \<Longrightarrow>
      i \<in> msg_id ` set ms \<or> (idempotency s k = Some i \<and> i \<notin> msg_id ` set (messages_of s c))"
  shows "kept_order s'"
proof -
  note K = kept_orderD [OF k]
  obtain rest where rest: "mset (all_messages s) = mset (messages_of s c @ rest)" "mset (all_messages s') = mset (ms @ rest)"
    using all_split [OF K(1) m] by blast
  have all: "set (all_messages s) = set (messages_of s c) \<union> set rest" "set (all_messages s') = set ms \<union> set rest"
    using rest by (metis mset_eq_setD set_append)+
  have old: "distinct (map msg_id (messages_of s c @ rest))" using distinct_by_mset [OF rest(1)] K(3) by blast
  have "msg_id ` set ms \<inter> msg_id ` set rest = {}"
    using new old all(1) by (fastforce simp: disjoint_iff)
  then have "distinct (map msg_id (ms @ rest))" using ids old by auto
  then have "distinct (map msg_id (all_messages s'))" using distinct_by_mset [OF rest(2)] by blast
  moreover have "messages_of s' d = (if d = c then ms else messages_of s d)" for d
    unfolding messages_of_def m by (simp add: update_conv')
  moreover have "distinct (map fst (messages s'))" unfolding m using K(1) by (rule distinct_update)
  moreover have "i \<in> msg_id ` set (all_messages s')" if "idempotency s' k = Some i" for k i
    using keys [OF that] K(4) [of k i] all by auto
  ultimately show ?thesis using K(2) c by (simp add: kept_order_def)
qed

subsection \<open>Posting keeps the order\<close>

lemma insert_message_split:
  assumes s: "sorted_wrt (<) (map msg_created vs)" and free: "msg_created m \<notin> msg_created ` set vs"
  shows "insert_message m vs = takeWhile (\<lambda>v. msg_created v < msg_created m) vs @ m # dropWhile (\<lambda>v. msg_created v < msg_created m) vs"
proof -
  let ?P = "\<lambda>v. msg_created v < msg_created m" and ?k = "length (takeWhile (\<lambda>v. msg_created v < msg_created m) vs)"
  have "message_before m (vs ! i) \<longleftrightarrow> ?k \<le> i" if i: "i < length vs" for i
  proof -
    have ne: "msg_created (vs ! i) \<noteq> msg_created m" using free i nth_mem by (metis image_eqI)
    then have "message_before m (vs ! i) \<longleftrightarrow> \<not> ?P (vs ! i)" by (auto simp: message_before_def)
    also have "\<dots> \<longleftrightarrow> ?k \<le> i"
    proof
      assume "\<not> ?P (vs ! i)"
      then show "?k \<le> i" using nth_length_takeWhile takeWhile_nth i by (metis not_le nth_mem set_takeWhileD)
    next
      assume k: "?k \<le> i"
      then have "\<not> ?P (vs ! ?k)" using i by (intro nth_length_takeWhile) simp
      moreover have "msg_created (vs ! ?k) \<le> msg_created (vs ! i)"
        using sorted_wrt_nth_less [OF s, of ?k i] k i by (cases "?k = i") auto
      ultimately show "\<not> ?P (vs ! i)" by simp
    qed
    finally show ?thesis .
  qed
  then have "sort_search (length vs) (\<lambda>i. message_before m (vs ! i)) = ?k"
    by (intro sort_search_finds) (simp_all add: length_takeWhile_le)
  then show ?thesis by (simp add: insert_message_def takeWhile_eq_take [symmetric] dropWhile_eq_drop [symmetric])
qed

lemma sorted_insert_between:
  fixes f :: "'a \<Rightarrow> 'b :: order"
  assumes "sorted_wrt (<) (map f (xs @ ys))" "\<forall>x \<in> set xs. f x < f m" "\<forall>y \<in> set ys. f m < f y"
  shows "sorted_wrt (<) (map f (xs @ m # ys))"
  using assms by (auto simp: sorted_wrt_append intro: less_trans)

lemma insert_message_kept:
  assumes "kept_conversation c vs" "msg_created m \<notin> msg_created ` set vs" "msg_conversation m = c"
    "message_instant (msg_created m) = msg_created m"
  shows "kept_conversation c (insert_message m vs)" "mset (insert_message m vs) = add_mset m (mset vs)"
proof -
  let ?P = "\<lambda>v. msg_created v < msg_created m"
  have s: "sorted_wrt (<) (map msg_created vs)" using assms(1) by (simp add: kept_conversation_def)
  note split = insert_message_split [OF s assms(2)]
  have "mset (takeWhile ?P vs) + mset (dropWhile ?P vs) = mset vs" by (metis mset_append takeWhile_dropWhile_id)
  then show M: "mset (insert_message m vs) = add_mset m (mset vs)" by (simp add: split)
  have "sorted_wrt (<) (map msg_created (takeWhile ?P vs @ dropWhile ?P vs))" using s by simp
  moreover have "msg_created m < msg_created v" if "v \<in> set (dropWhile ?P vs)" for v
  proof -
    have "set (dropWhile ?P vs) \<noteq> {}" by (rule notI) (use that in \<open>simp only: empty_iff\<close>)
    then obtain w ws where w: "dropWhile ?P vs = w # ws" by (auto simp only: set_empty neq_Nil_conv)
    then have "\<not> ?P w" by (metis hd_dropWhile list.distinct(1) list.sel(1))
    moreover have "w \<in> set vs" using w by (metis list.set_intros(1) set_dropWhileD)
    then have "msg_created w \<noteq> msg_created m" using assms(2) by (metis image_eqI)
    moreover have "msg_created w \<le> msg_created v"
      using \<open>sorted_wrt (<) (map msg_created (takeWhile ?P vs @ dropWhile ?P vs))\<close> that w by (fastforce simp: sorted_wrt_append)
    ultimately show ?thesis by simp
  qed
  ultimately have "sorted_wrt (<) (map msg_created (insert_message m vs))"
    unfolding split by (intro sorted_insert_between ballI) (auto dest: set_takeWhileD)
  moreover have "set (insert_message m vs) = insert m (set vs)" using M by (metis set_mset_add_mset_insert set_mset_mset)
  ultimately show "kept_conversation c (insert_message m vs)" using assms by (auto simp: kept_conversation_def)
qed

lemma prepare_messageD:
  assumes "prepare_message m key s = Inr m'"
  shows "\<exists>fs. m' = m\<lparr>msg_files := fs\<rparr>" "conversations s (msg_conversation m) \<noteq> None" "msg_id m \<notin> msg_id ` set (all_messages s)"
    "msg_created m \<notin> msg_created ` set (messages_of s (msg_conversation m))"
    "key \<noteq> [] \<Longrightarrow> idempotency s (idempotency_key_for (msg_workspace m) (msg_author m) key) = None"
  using assms
  by (auto simp: prepare_message_def message_locked_def list_ex_iff find_None_iff
      split: if_splits sum.splits option.splits)

lemma insert_committed_messages [frame_simps]:
  "messages (insert_committed_message L m s)
    = AList.update (msg_conversation m) (insert_message m (messages_of s (msg_conversation m))) (messages s)"
  "idempotency (insert_committed_message L m s) = idempotency s"
  by (simp_all add: insert_committed_message_def frame_simps)

lemma commit_messages [frame_simps]:
  "messages (commit_message L m ev key s) = messages (insert_committed_message L m s)"
  "idempotency (commit_message L m ev key s) = (if key \<noteq> []
     then (idempotency s)(idempotency_key_for (msg_workspace m) (msg_author m) key \<mapsto> msg_id m) else idempotency s)"
  by (simp_all add: commit_message_def Let_def frame_simps)

lemma commit_kept:
  assumes k: "kept_order s" and p: "prepare_message m key s = Inr m'" and i: "message_instant (msg_created m) = msg_created m"
  shows "kept_order (commit_message L m' ev key s)"
proof -
  let ?c = "msg_conversation m"
  obtain fs where m': "m' = m\<lparr>msg_files := fs\<rparr>" using prepare_messageD(1) [OF p] by blast
  note P = prepare_messageD(2-5) [OF p]
  have M: "messages (commit_message L m' ev key s) = AList.update ?c (insert_message m' (messages_of s ?c)) (messages s)"
    by (simp add: frame_simps m')
  have c: "kept_conversation ?c (insert_message m' (messages_of s ?c))"
    and ms: "mset (insert_message m' (messages_of s ?c)) = add_mset m' (mset (messages_of s ?c))"
    using insert_message_kept [OF kept_orderD(2) [OF k], of m' ?c] P(3) i by (simp_all add: m')
  have set_ms: "set (insert_message m' (messages_of s ?c)) = insert m' (set (messages_of s ?c))"
    using ms by (metis set_mset_add_mset_insert set_mset_mset)
  obtain rest where rest: "mset (all_messages s) = mset (messages_of s ?c @ rest)"
    using all_split [OF kept_orderD(1) [OF k] M] by metis
  have "distinct (map msg_id (messages_of s ?c @ rest))" using distinct_by_mset [OF rest] kept_orderD(3) [OF k] by blast
  moreover have "set (messages_of s ?c) \<subseteq> set (all_messages s)" using rest by (metis mset_eq_setD set_append Un_upper1)
  ultimately have "distinct (map msg_id (m' # messages_of s ?c))" using P(2) by (auto simp: m')
  then have ids: "distinct (map msg_id (insert_message m' (messages_of s ?c)))"
    using distinct_by_mset [of "insert_message m' (messages_of s ?c)" "m' # messages_of s ?c" msg_id] ms by auto
  show ?thesis
  proof (rule kept_put [OF k M c ids])
    show "msg_id x \<in> msg_id ` set (messages_of s ?c)"
      if "x \<in> set (insert_message m' (messages_of s ?c))" "msg_id x \<in> msg_id ` set (all_messages s)" for x
      using that P(2) unfolding set_ms by (auto simp: m')
    show "j \<in> msg_id ` set (insert_message m' (messages_of s ?c))
        \<or> (idempotency s q = Some j \<and> j \<notin> msg_id ` set (messages_of s ?c))"
      if "idempotency (commit_message L m' ev key s) q = Some j" for q j
      using that unfolding set_ms by (auto simp: frame_simps m' split: if_splits)
  qed
qed

lemma create_locked_kept:
  assumes "kept_order s" "create_message_locked L m ev key companions s = (s', r)" "message_instant (msg_created m) = msg_created m"
  shows "kept_order s'"
  using assms commit_kept [OF assms(1) _ assms(3)]
  by (auto simp: create_message_locked_def Let_def split: sum.splits)

lemma message_instant_idem [simp]: "message_instant (message_instant t) = message_instant t"
  by (simp add: message_instant_def mod_diff_left_eq)

lemma create_message_kept:
  assumes "kept_order s" "create_message L m ev key companions s = (s', r)"
  shows "kept_order s'"
proof (cases "normalize_message L m")
  case (Some m')
  then show ?thesis using create_locked_kept [OF assms(1), of L m'] assms(2) normalize_created [OF Some]
    by (simp add: create_message_def)
qed (use assms in \<open>simp add: create_message_def\<close>)

lemma scheduled_post_kept:
  assumes "kept_order s" "create_scheduled_message_post L i m ev companions s = (s', r)"
  shows "kept_order s'"
proof (cases "normalize_message L m")
  case (Some m')
  then show ?thesis using create_locked_kept [OF assms(1), of L m'] assms normalize_created [OF Some]
    by (auto simp: create_scheduled_message_post_def split: option.splits if_splits)
qed (use assms in \<open>simp add: create_scheduled_message_post_def\<close>)

subsection \<open>Sharing, editing and deleting keep it\<close>

lemma share_files_frame:
  "share_files m fs previous s = (s', r) \<Longrightarrow> messages s' = messages s \<and> idempotency s' = idempotency s"
  by (induction m fs previous s rule: share_files.induct) (auto split: option.splits if_splits)

lemma file_share_kept:
  assumes k: "kept_order s" and c: "create_file_share_message L fs m emitted s = (s', r)"
  shows "kept_order s'"
proof (cases "normalize_message L (m\<lparr>msg_files := map named_file fs\<rparr>)")
  case (Some n)
  obtain s1 p where s1: "share_files m fs (\<lambda>_. None) s = (s1, p)" by (cases "share_files m fs (\<lambda>_. None) s")
  have k1: "kept_order s1" using kept_same [OF k] share_files_frame [OF s1] by blast
  have "message_instant (msg_created n) = msg_created n" using normalize_created [OF Some] by simp
  then have "kept_order s2" if "create_message_locked L n (hd emitted) [] [] s1 = (s2, r')" for s2 r'
    using create_locked_kept [OF k1 that] by blast
  then show ?thesis using c k k1 Some s1
    by (auto simp: create_file_share_message_def split: if_splits option.splits prod.splits)
qed (use assms in \<open>auto simp: create_file_share_message_def split: if_splits\<close>)

lemma replace_by_id_split:
  "replace_by_id m ms = Some vals \<Longrightarrow> \<exists>xs v ys. ms = xs @ v # ys \<and> vals = xs @ m # ys \<and> msg_id v = msg_id m"
proof (induction ms arbitrary: vals)
  case (Cons v vs)
  show ?case
  proof (cases "msg_id v = msg_id m")
    case True
    then have "v # vs = [] @ v # vs \<and> vals = [] @ m # vs" using Cons.prems by simp
    then show ?thesis using True by blast
  next
    case False
    then obtain w where "replace_by_id m vs = Some w" "vals = v # w" using Cons.prems by auto
    then obtain xs u ys where "vs = xs @ u # ys" "vals = v # xs @ m # ys" "msg_id u = msg_id m" using Cons.IH by blast
    then have "v # vs = (v # xs) @ u # ys \<and> vals = (v # xs) @ m # ys \<and> msg_id u = msg_id m" by simp
    then show ?thesis by blast
  qed
qed simp

definition keeps_instant :: "message \<Rightarrow> chat \<Rightarrow> bool" where
  "keeps_instant m s \<longleftrightarrow> list_all (\<lambda>v. msg_id v = msg_id m \<longrightarrow> msg_created v = msg_created m) (messages_of s (msg_conversation m))"

lemma replace_kept:
  assumes k: "kept_order s" and r: "replace_by_id m (messages_of s (msg_conversation m)) = Some vals" and i: "keeps_instant m s"
    and s': "messages s' = AList.update (msg_conversation m) vals (messages s)" "idempotency s' = idempotency s"
  shows "kept_order s'"
proof -
  let ?c = "msg_conversation m"
  obtain xs v ys where v: "messages_of s ?c = xs @ v # ys" "vals = xs @ m # ys" "msg_id v = msg_id m"
    using replace_by_id_split [OF r] by blast
  then have created: "msg_created v = msg_created m" using i by (simp add: keeps_instant_def)
  have same: "map msg_created vals = map msg_created (messages_of s ?c)" "map msg_id vals = map msg_id (messages_of s ?c)"
    using v created by simp_all
  have "kept_conversation ?c vals"
    using kept_orderD(2) [OF k, of ?c] same(1) created v by (auto simp: kept_conversation_def)
  moreover have "distinct (map msg_id (messages_of s ?c))"
  proof -
    obtain rest where "mset (all_messages s) = mset (messages_of s ?c @ rest)" using all_split [OF kept_orderD(1) [OF k] s'(1)] by metis
    then show ?thesis using distinct_by_mset kept_orderD(3) [OF k] by (metis distinct_append map_append)
  qed
  ultimately show ?thesis
  proof (intro kept_put [OF k s'(1)])
    show "msg_id x \<in> msg_id ` set (messages_of s ?c)" if "x \<in> set vals" for x
      using that same(2) by (metis image_eqI list.set_map)
    show "j \<in> msg_id ` set vals \<or> (idempotency s q = Some j \<and> j \<notin> msg_id ` set (messages_of s ?c))"
      if "idempotency s' q = Some j" for q j
      using that same(2) s'(2) by (metis list.set_map)
  qed (simp_all add: same(2))
qed

lemma end_file_shares_frame [frame_simps]:
  "messages (end_file_shares m us s) = messages s" "idempotency (end_file_shares m us s) = idempotency s"
  "messages (fold (grant_share m) gs s) = messages s" "idempotency (fold (grant_share m) gs s) = idempotency s"
  by (simp_all add: end_file_shares_def fold_frame [of messages] fold_frame [of idempotency] frame_simps)

lemma edit_kept:
  assumes "kept_order s" "keeps_instant m s"
  shows "update_message m ev companions s = (s', r) \<Longrightarrow> kept_order s'"
    "delete_message m ev unshares s = (s', r) \<Longrightarrow> kept_order s'"
    "update_message_files m ev grants unshares companions s = (s', r) \<Longrightarrow> kept_order s'"
  using assms replace_kept [OF assms(1) _ assms(2)]
  by (auto simp: update_message_def delete_message_def update_message_files_def Let_def frame_simps
      split: option.splits if_splits)

lemma read_cursor_kept:
  "kept_order s \<Longrightarrow> kept_order (set_read_cursor_locked cursor read_at ev s)"
  "kept_order s \<Longrightarrow> set_read_cursor cursor ev s = (s', r) \<Longrightarrow> kept_order s'"
  "kept_order s \<Longrightarrow> set_read_cursors updates s = (s', r) \<Longrightarrow> kept_order s'"
proof -
  show one: "kept_order s \<Longrightarrow> kept_order (set_read_cursor_locked cursor read_at ev s)" for s cursor read_at ev
    by (rule kept_same) (simp_all add: frame_simps)
  show "kept_order s \<Longrightarrow> set_read_cursor cursor ev s = (s', r) \<Longrightarrow> kept_order s'"
    by (auto simp: set_read_cursor_def one split: option.splits)
  have many: "kept_order (fold (\<lambda>(u, at). set_read_cursor_locked (fst u) (the at) (snd u)) xs s)" if "kept_order s" for xs s
    using that by (induction xs arbitrary: s) (auto simp: one)
  show "kept_order s \<Longrightarrow> set_read_cursors updates s = (s', r) \<Longrightarrow> kept_order s'"
    by (auto simp: set_read_cursors_def many Let_def split: if_splits)
qed

subsection \<open>A sweep keeps it\<close>

text \<open>What the loop of a sweep does: the first so many of the expired messages go.\<close>

definition sweepable :: "time \<Rightarrow> string set \<Rightarrow> message \<Rightarrow> bool" where
  "sweepable horizon live m \<longleftrightarrow> msg_created m < horizon \<and> \<not> retained_by_thread live m"

fun without_first :: "nat \<Rightarrow> ('a \<Rightarrow> bool) \<Rightarrow> 'a list \<Rightarrow> 'a list" where
  "without_first n P [] = []"
| "without_first n P (x # xs) = (if P x \<and> 0 < n then without_first (n - 1) P xs else x # without_first n P xs)"

lemma without_first_in: "x \<in> set (without_first n P xs) \<Longrightarrow> x \<in> set xs"
  by (induction n P xs rule: without_first.induct) (auto split: if_splits)

lemma without_first_sorted: "sorted_wrt R (map f xs) \<Longrightarrow> sorted_wrt R (map f (without_first n P xs))"
  by (induction n P xs rule: without_first.induct) (auto dest: without_first_in)

lemma without_first_kept: "kept_conversation c ms \<Longrightarrow> kept_conversation c (without_first n P ms)"
  by (auto simp: kept_conversation_def without_first_sorted dest: without_first_in)

lemma without_first_mset: "mset xs = mset (without_first n P xs) + mset (take n (filter P xs))"
  by (induction n P xs rule: without_first.induct) (auto simp: take_Cons')

lemma without_first_none [simp]: "without_first 0 P xs = xs"
  by (induction xs) auto

lemma without_first_all: "length (filter P xs) \<le> n \<Longrightarrow> without_first n P xs = filter (\<lambda>x. \<not> P x) xs"
  by (induction n P xs rule: without_first.induct) auto

text \<open>Whether something older than the horizon comes after the last that may go.\<close>

fun cut_short :: "nat \<Rightarrow> ('a \<Rightarrow> bool) \<Rightarrow> ('a \<Rightarrow> bool) \<Rightarrow> 'a list \<Rightarrow> bool" where
  "cut_short n P Q [] \<longleftrightarrow> False"
| "cut_short n P Q (x # xs) \<longleftrightarrow> (n = 0 \<and> Q x) \<or> cut_short (if P x then n - 1 else n) P Q xs"

lemma not_cut_short:
  "\<not> cut_short n P Q xs \<Longrightarrow> (\<And>x. P x \<Longrightarrow> Q x) \<Longrightarrow> without_first n P xs = filter (\<lambda>x. \<not> P x) xs"
  by (induction n P xs rule: without_first.induct) (auto split: if_splits)

lemma cut_short_few: "length (filter P xs) < n \<Longrightarrow> \<not> cut_short n P Q xs"
  by (induction xs arbitrary: n) auto

lemma sweep_loop_result:
  assumes "0 \<le> n" "n \<le> limit"
  shows "sweep_loop horizon limit live c ms (s, kept, n, complete) =
    (let gone = take (nat (limit - n)) (filter (sweepable horizon live) ms)
     in (fold (forget_message c) gone s, kept @ without_first (nat (limit - n)) (sweepable horizon live) ms, n + int (length gone),
         complete \<and> \<not> cut_short (nat (limit - n)) (sweepable horizon live) (\<lambda>m. msg_created m < horizon) ms))"
  using assms
proof (induction ms arbitrary: s kept n complete)
  case (Cons m ms)
  consider (young) "\<not> msg_created m < horizon" | (full) "msg_created m < horizon" "n = limit"
    | (thread) "msg_created m < horizon" "n < limit" "retained_by_thread live m"
    | (goes) "msg_created m < horizon" "n < limit" "\<not> retained_by_thread live m" using Cons.prems by linarith
  then show ?case
  proof cases
    case goes
    then have "nat (limit - n) = Suc (nat (limit - (n + 1)))" by simp
    then show ?thesis using goes Cons.IH [of "n + 1" "forget_message c m s" kept complete] Cons.prems
      by (simp add: sweepable_def Let_def algebra_simps)
  qed (use Cons.IH [of n s "kept @ [m]"] Cons.prems in \<open>simp_all add: sweepable_def Let_def\<close>)
qed simp

lemma sweep_messages_result:
  assumes "0 < limit"
  shows "sweep_messages c horizon limit s =
    (let ms = messages_of s c; P = sweepable horizon (live_threads horizon ms); gone = take (nat limit) (filter P ms)
     in (put_messages c (without_first (nat limit) P ms) (fold (forget_message c) gone s), int (length gone),
         \<not> cut_short (nat limit) P (\<lambda>m. msg_created m < horizon) ms))"
  using assms by (simp add: sweep_messages_def sweep_loop_result Let_def)

lemma idempotency_forgotten:
  "idempotency (fold (forget_message c) ms s) k = Some i \<longleftrightarrow> idempotency s k = Some i \<and> i \<notin> msg_id ` set ms"
  by (induction ms arbitrary: s) (auto simp: forget_message_def)

lemma sweep_messages_kept:
  assumes k: "kept_order s" and l: "0 < limit" and r: "sweep_messages c horizon limit s = (s', n, complete)"
  shows "kept_order s'"
proof -
  let ?ms = "messages_of s c"
  let ?P = "sweepable horizon (live_threads horizon ?ms)"
  let ?kept = "without_first (nat limit) ?P ?ms" and ?gone = "take (nat limit) (filter ?P ?ms)"
  have s': "messages s' = AList.update c ?kept (messages s)" "idempotency s' = idempotency (fold (forget_message c) ?gone s)"
    using r sweep_messages_result [OF l, of c horizon s] by (auto simp: Let_def frame_simps fold_frame [of messages])
  have parts: "mset ?ms = mset (?kept @ ?gone)" using without_first_mset [of ?ms] by simp
  then have sets: "set ?ms = set ?kept \<union> set ?gone" by (metis mset_eq_setD set_append)
  have "kept_conversation c ?kept" by (rule without_first_kept [OF kept_orderD(2) [OF k]])
  moreover have d: "distinct (map msg_id (?kept @ ?gone))"
  proof -
    obtain rest where "mset (all_messages s) = mset (?ms @ rest)" using all_split [OF kept_orderD(1) [OF k] s'(1)] by metis
    then have "distinct (map msg_id ?ms)" using distinct_by_mset kept_orderD(3) [OF k] by (metis distinct_append map_append)
    then show ?thesis using distinct_by_mset [OF parts] by blast
  qed
  ultimately show ?thesis
  proof (intro kept_put [OF k s'(1)])
    show "msg_id x \<in> msg_id ` set ?ms" if "x \<in> set ?kept" for x using that sets by blast
    show "i \<in> msg_id ` set ?kept \<or> (idempotency s q = Some i \<and> i \<notin> msg_id ` set ?ms)" if "idempotency s' q = Some i" for q i
      using that unfolding s'(2) idempotency_forgotten sets by blast
  qed simp_all
qed

lemma drop_file_kept: "kept_order s \<Longrightarrow> kept_order (drop_file i s)"
proof -
  assume k: "kept_order s"
  let ?g = "\<lambda>m. m\<lparr>msg_files := filter (\<lambda>f. file_id f \<noteq> i) (msg_files m)\<rparr>"
  have m: "messages (drop_file i s) = map (\<lambda>(c, ms). (c, map ?g ms)) (messages s)" by (simp add: drop_file_def)
  have of': "messages_of (drop_file i s) c = map ?g (messages_of s c)" for c
    unfolding messages_of_def m by (simp add: map_of_map [simplified] map_option_case split: option.splits)
  have all: "all_messages (drop_file i s) = map ?g (all_messages s)"
    unfolding all_messages_def m by (simp add: map_concat comp_def case_prod_unfold)
  have "map fst (messages (drop_file i s)) = map fst (messages s)" unfolding m by (simp add: comp_def case_prod_unfold)
  then show ?thesis
    using k unfolding kept_order_def of' all
    by (auto simp: kept_conversation_def comp_def image_image frame_simps)
qed

subsection \<open>A run of the retention worker\<close>

text \<open>
  A run is made of a few steps: a watermark or the journal moves, a conversation is swept, a file, a
  canvas or a list is dropped. What holds across each of them and can be chained holds across the
  run.
\<close>

locale retention_steps =
  fixes R :: "chat \<Rightarrow> chat \<Rightarrow> bool"
  assumes stays: "R s s"
    and chains: "R s t \<Longrightarrow> R t u \<Longrightarrow> R s u"
    and watermark: "R s (s\<lparr>retention_swept_at := x\<rparr>)" "R s (s\<lparr>documents_swept_at := y\<rparr>)"
    and journals: "R s (s\<lparr>chat_outbox := z\<rparr>)"
    and documents: "R s (drop_canvas i s)" "R s (drop_list i s)"
    and one_file: "R s (drop_file i s)"
    and one_sweep: "0 < limit \<Longrightarrow> sweep_messages c horizon limit s = (s', n, complete) \<Longrightarrow> R s s'"
begin

lemma fold_steps: "(\<And>x s. R s (f x s)) \<Longrightarrow> R s (fold f xs s)"
  by (induction xs arbitrary: s) (auto intro: stays chains)

lemma retention: "sweep_retention file_order rq s = (s', r) \<Longrightarrow> R s s'"
  by (auto simp: sweep_retention_def sweep_files_def Let_def not_le split: if_splits option.splits prod.splits
      intro: stays one_sweep fold_steps one_file chains [OF one_sweep fold_steps])

lemma claims: "claim_sweeps workspace before swept_at limit order s claimed = (s', r) \<Longrightarrow> R s s'"
  by (induction workspace before swept_at limit order s claimed rule: claim_sweeps.induct)
    (auto split: if_splits intro: stays chains [OF watermark(1)])

lemma claims_retention: "claim_retention_sweep order workspace before swept_at limit s = (s', r) \<Longrightarrow> R s s'"
  by (auto simp: claim_retention_sweep_def dest: claims intro: stays split: if_splits prod.splits)

lemma appends: "append_retention_events workspace emitted s = (s', r) \<Longrightarrow> R s s'"
  by (auto simp: append_retention_events_def intro: stays journals split: if_splits)

lemma conversation: "sweep_conversation mk_events order limit i now s = (s', r) \<Longrightarrow> R s s'"
  by (auto simp: sweep_conversation_def Let_def split: option.splits sum.splits if_splits prod.splits
      intro: stays dest: retention appends intro: chains [OF retention appends])

lemma claimed: "sweep_claimed mk_events order limit now canceled n is s done' failures = (s', r) \<Longrightarrow> R s s'"
proof (induction mk_events order limit now canceled n "is" s done' failures rule: sweep_claimed.induct)
  case (2 mk_events order limit now canceled n i "is" s done' failures)
  then show ?case
    by (auto split: if_splits prod.splits sum.splits intro: stays chains [OF conversation])
qed (auto intro: stays)

lemma document: "sweep_document_retention cs ls workspace horizon limit s = (s', r) \<Longrightarrow> R s s'"
  by (auto simp: sweep_document_retention_def Let_def split: if_splits
      intro: stays chains [OF fold_steps fold_steps] documents)

lemma documents_loop: "sweep_documents_loop mk_summary cs ls workspace horizon limit s = (s', r) \<Longrightarrow> R s s'"
proof (induction mk_summary cs ls workspace horizon limit s rule: sweep_documents_loop.induct)
  case (1 mk_summary cs ls workspace horizon limit s)
  obtain s1 r1 where d: "sweep_document_retention cs ls workspace horizon limit s = (s1, r1)" by fastforce
  note 2 = document [OF d]
  then have 3: "R s (s1\<lparr>chat_outbox := z\<rparr>)" for z by (rule chains [OF _ journals])
  note loop = "1.prems" [unfolded sweep_documents_loop.simps [of _ _ _ _ _ _ s] d]
  show ?case
  proof (cases r1)
    case (Inr p)
    obtain c l where p: "p = (c, l)" by fastforce
    show ?thesis
    proof (cases "c = 0 \<and> l = 0 \<or> mk_summary workspace (c, l) = None \<or> workspace \<notin> workspaces s1 \<or> (int c < limit \<and> int l < limit)")
      case True
      then show ?thesis using loop Inr p 2 3 by (auto simp: Let_def split: if_splits option.splits)
    next
      case False
      then obtain summary where mk: "mk_summary workspace (c, l) = Some summary" by auto
      let ?s = "s1\<lparr>chat_outbox := chat_outbox s1 @ [summary]\<rparr>"
      have "sweep_documents_loop mk_summary cs ls workspace horizon limit ?s = (s', r)"
        using loop Inr p mk False by (simp add: Let_def split: if_splits)
      then have "R ?s s'" using "1.IH" [OF d [symmetric] Inr p [symmetric] _ mk] False p by auto
      then show ?thesis by (rule chains [OF 3])
    qed
  qed (use loop 2 in simp)
qed

lemma workspace_documents: "sweep_workspace_documents mk cs ls limit w now s = (s', r) \<Longrightarrow> R s s'"
  by (auto simp: sweep_workspace_documents_def Let_def dest: documents_loop intro: stays split: sum.splits if_splits)

lemma all_documents:
  assumes "sweep_documents env limit workspace now s = (s', r)"
  shows "R s s'"
proof -
  let ?f = "\<lambda>w (s, failures). case sweep_workspace_documents (env_summary env) (env_canvases env) (env_lists env) limit w now s of
    (s', None) \<Rightarrow> (s', failures) | (s', Some e) \<Rightarrow> (s', failures @ [e])"
  have many: "R s (fst (fold ?f ws (s, fs)))" for ws s fs
  proof (induction ws arbitrary: s fs)
    case (Cons w ws)
    obtain s1 e where w: "sweep_workspace_documents (env_summary env) (env_canvases env) (env_lists env) limit w now s = (s1, e)" by fastforce
    then show ?case using chains [OF workspace_documents [OF w] Cons.IH] by (simp split: option.splits)
  qed (simp add: stays)
  obtain s1 r1 where c: "claim_document_retention_sweep (env_policies env) workspace (now - retention_interval) now limit s = (s1, r1)"
    by fastforce
  then have 1: "R s s1" by (auto simp: claim_document_retention_sweep_def Let_def intro: stays watermark split: if_splits)
  show ?thesis
  proof (cases r1)
    case (Inr claimed)
    then have run: "fold ?f claimed (s1, []) = (s', r)" using assms c by (simp add: sweep_documents_def)
    show ?thesis using chains [OF 1 many, of claimed "[]"] unfolding run by simp
  qed (use assms c 1 in \<open>simp add: sweep_documents_def\<close>)
qed

lemma run: "retention_run_once env limit workspace clock canceled s = (s', r) \<Longrightarrow> R s s'"
  by (auto simp: retention_run_once_def Let_def split: prod.splits sum.splits bool.splits
      intro: claims_retention chains [OF claims_retention claimed] chains [OF chains [OF claims_retention claimed] all_documents])

end

text \<open>
  A run keeps the order, and it forgets a message and what names it together: the identifiers that
  are left were there before, and their keys with them.
\<close>

definition message_ids :: "chat \<Rightarrow> string set" where
  "message_ids s = msg_id ` set (all_messages s)"

definition forgets_together :: "chat \<Rightarrow> chat \<Rightarrow> bool" where
  "forgets_together s s' \<longleftrightarrow> message_ids s' \<subseteq> message_ids s
     \<and> (\<forall>k i. idempotency s k = Some i \<and> i \<in> message_ids s' \<longrightarrow> idempotency s' k = Some i)"

lemma drop_file_ids: "message_ids (drop_file i s) = message_ids s"
proof -
  have "all_messages (drop_file i s) = map (\<lambda>m. m\<lparr>msg_files := filter (\<lambda>f. file_id f \<noteq> i) (msg_files m)\<rparr>) (all_messages s)"
    by (simp add: all_messages_def drop_file_def map_concat comp_def case_prod_unfold)
  then show ?thesis by (simp add: message_ids_def image_image)
qed

lemma sweep_forgets_together:
  assumes k: "kept_order s" and l: "0 < limit" and r: "sweep_messages c horizon limit s = (s', n, complete)"
  shows "forgets_together s s'"
proof -
  let ?ms = "messages_of s c"
  let ?P = "sweepable horizon (live_threads horizon ?ms)"
  let ?kept = "without_first (nat limit) ?P ?ms" and ?gone = "take (nat limit) (filter ?P ?ms)"
  have s': "messages s' = AList.update c ?kept (messages s)" "idempotency s' = idempotency (fold (forget_message c) ?gone s)"
    using r sweep_messages_result [OF l, of c horizon s] by (auto simp: Let_def frame_simps fold_frame [of messages])
  obtain rest where rest: "mset (all_messages s) = mset (?ms @ rest)" "mset (all_messages s') = mset (?kept @ rest)"
    using all_split [OF kept_orderD(1) [OF k] s'(1)] by blast
  have parts: "mset (all_messages s) = mset (?gone @ ?kept @ rest)"
    using rest(1) without_first_mset [of ?ms "nat limit" ?P] by (simp add: add.commute)
  have "distinct (map msg_id (?gone @ ?kept @ rest))" using distinct_by_mset [OF parts] kept_orderD(3) [OF k] by blast
  moreover have "message_ids s' = msg_id ` (set ?kept \<union> set rest)"
    unfolding message_ids_def using rest(2) by (metis mset_eq_setD set_append)
  moreover have "message_ids s = msg_id ` (set ?gone \<union> set ?kept \<union> set rest)"
    unfolding message_ids_def using parts by (metis mset_eq_setD set_append sup_assoc)
  ultimately show ?thesis unfolding forgets_together_def s'(2) idempotency_forgotten by auto
qed

interpretation kept: retention_steps "\<lambda>s s'. kept_order s \<longrightarrow> kept_order s' \<and> forgets_together s s'"
proof
  have same: "kept_order s \<longrightarrow> kept_order s' \<and> forgets_together s s'"
    if "messages s' = messages s" "idempotency s' = idempotency s" for s s'
    using that by (auto simp: forgets_together_def message_ids_def all_messages_def intro: kept_same)
  fix s t u :: chat and x y z i limit c horizon s' n complete
  show "kept_order s \<longrightarrow> kept_order s \<and> forgets_together s s" by (rule same) simp_all
  show "kept_order s \<longrightarrow> kept_order (s\<lparr>retention_swept_at := x\<rparr>) \<and> forgets_together s (s\<lparr>retention_swept_at := x\<rparr>)"
    by (rule same) simp_all
  show "kept_order s \<longrightarrow> kept_order (s\<lparr>documents_swept_at := y\<rparr>) \<and> forgets_together s (s\<lparr>documents_swept_at := y\<rparr>)"
    by (rule same) simp_all
  show "kept_order s \<longrightarrow> kept_order (s\<lparr>chat_outbox := z\<rparr>) \<and> forgets_together s (s\<lparr>chat_outbox := z\<rparr>)"
    by (rule same) simp_all
  show "kept_order s \<longrightarrow> kept_order (drop_canvas i s) \<and> forgets_together s (drop_canvas i s)"
    by (rule same) (simp_all add: frame_simps)
  show "kept_order s \<longrightarrow> kept_order (drop_list i s) \<and> forgets_together s (drop_list i s)"
    by (rule same) (simp_all add: frame_simps)
  show "kept_order s \<longrightarrow> kept_order (drop_file i s) \<and> forgets_together s (drop_file i s)"
    by (auto simp: drop_file_kept forgets_together_def drop_file_ids frame_simps)
  show "(kept_order s \<longrightarrow> kept_order t \<and> forgets_together s t) \<Longrightarrow> (kept_order t \<longrightarrow> kept_order u \<and> forgets_together t u) \<Longrightarrow>
      kept_order s \<longrightarrow> kept_order u \<and> forgets_together s u"
    by (auto simp: forgets_together_def)
  show "0 < limit \<Longrightarrow> sweep_messages c horizon limit s = (s', n, complete) \<Longrightarrow>
      kept_order s \<longrightarrow> kept_order s' \<and> forgets_together s s'"
    using sweep_messages_kept sweep_forgets_together by blast
qed

lemma retention_run_kept:
  "kept_order s \<Longrightarrow> retention_run_once env limit workspace clock canceled s = (s', r) \<Longrightarrow> kept_order s' \<and> forgets_together s s'"
  using kept.run by blast

subsection \<open>Every operation keeps it\<close>

text \<open>
  The operations on messages as steps of the store, whatever they answer. An edit or a deletion is
  given a message the service read before, so it has the stored instant.
\<close>

inductive chat_step :: "library \<Rightarrow> chat \<Rightarrow> chat \<Rightarrow> bool" for L where
  posts: "create_message L m ev key companions s = (s', r) \<Longrightarrow> chat_step L s s'"
| posts_scheduled: "create_scheduled_message_post L i m ev companions s = (s', r) \<Longrightarrow> chat_step L s s'"
| shares: "create_file_share_message L fs m emitted s = (s', r) \<Longrightarrow> chat_step L s s'"
| updates: "keeps_instant m s \<Longrightarrow> update_message m ev companions s = (s', r) \<Longrightarrow> chat_step L s s'"
| updates_files: "keeps_instant m s \<Longrightarrow> update_message_files m ev grants unshares companions s = (s', r) \<Longrightarrow> chat_step L s s'"
| deletes: "keeps_instant m s \<Longrightarrow> delete_message m ev unshares s = (s', r) \<Longrightarrow> chat_step L s s'"
| reads: "set_read_cursor cursor ev s = (s', r) \<Longrightarrow> chat_step L s s'"
| reads_many: "set_read_cursors cursors s = (s', r) \<Longrightarrow> chat_step L s s'"
| sweeps: "retention_run_once env limit workspace clock canceled s = (s', r') \<Longrightarrow> chat_step L s s'"

lemma step_kept: "chat_step L s s' \<Longrightarrow> kept_order s \<Longrightarrow> kept_order s'"
  by (induction rule: chat_step.induct)
    (auto intro: create_message_kept scheduled_post_kept file_share_kept edit_kept read_cursor_kept dest: retention_run_kept)

lemma steps_kept: "(chat_step L)\<^sup>*\<^sup>* s s' \<Longrightarrow> kept_order s \<Longrightarrow> kept_order s'"
  by (induction rule: rtranclp_induct) (auto intro: step_kept)

lemma empty_kept: "messages s = [] \<Longrightarrow> idempotency s = Map.empty \<Longrightarrow> kept_order s"
  by (simp add: kept_order_def kept_conversation_def messages_of_def all_messages_def)

lemma find_only: "distinct (map f xs) \<Longrightarrow> x \<in> set xs \<Longrightarrow> find (\<lambda>y. f y = f x) xs = Some x"
  by (induction xs) (auto intro: rev_image_eqI)

lemma kept_find:
  assumes k: "kept_order s" and m: "m \<in> set (messages_of s c)"
  shows "get_message s (msg_id m) = Inr (clone_message s m)"
    "get_message_by_created_at s c (msg_created m) = Inr (clone_message s m)"
proof -
  have "m \<in> set (all_messages s)" using stored_somewhere [OF kept_orderD(1) [OF k]] m by blast
  then show "get_message s (msg_id m) = Inr (clone_message s m)"
    using find_only [OF kept_orderD(3) [OF k]] by (simp add: get_message_def message_locked_def)
  have "sorted_wrt (<) (map msg_created (messages_of s c))" "\<forall>x \<in> set (messages_of s c). message_instant (msg_created x) = msg_created x"
    using kept_orderD(2) [OF k, of c] by (auto simp: kept_conversation_def)
  moreover have "find (\<lambda>x. message_instant (msg_created x) = message_instant (msg_created m)) (messages_of s c)
      = find (\<lambda>x. msg_created x = msg_created m) (messages_of s c)"
    using calculation(2) m by (intro find_cong) auto
  ultimately show "get_message_by_created_at s c (msg_created m) = Inr (clone_message s m)"
    using find_only [of msg_created "messages_of s c" m] m
    by (simp add: get_message_by_created_at_def strict_sorted_iff)
qed

text \<open>
  C22. However the store is used, a conversation's messages stay in the order of their instants, no
  two at one instant, and every one of them is what its identifier finds and what its timestamp
  finds.
\<close>

theorem messages_ordered_and_found:
  assumes "(chat_step L)\<^sup>*\<^sup>* s0 s" "messages s0 = []" "idempotency s0 = Map.empty" "m \<in> set (messages_of s c)"
  shows "sorted_wrt (<) (map msg_created (messages_of s c))
    \<and> get_message s (msg_id m) = Inr (clone_message s m)
    \<and> get_message_by_created_at s c (msg_created m) = Inr (clone_message s m)"
proof -
  have k: "kept_order s" using steps_kept [OF assms(1) empty_kept [OF assms(2,3)]] .
  then show ?thesis using kept_orderD(2) [OF k, of c] kept_find [OF k assms(4)] by (simp add: kept_conversation_def)
qed

end
