(* ===== verification/Message_Posts.thy ===== *)
theory Message_Posts
  imports Message_Order
begin

section \<open>Posting a message\<close>

text \<open>
  What the service's retry gives a poster: the first free microsecond at or after the clock's, the
  message found under it, and one message per idempotency key however often the request is sent.
\<close>

subsection \<open>The store as the examples use it\<close>

definition plain_library :: library where
  "plain_library = \<lparr>lib_blocks = Some, lib_attachments = Some, lib_unfurls = Some, lib_parse_json = (\<lambda>_. None),
     lib_lower_runes = (\<lambda>_. []), lib_letter_or_number = (\<lambda>_. False)\<rparr>"

definition sample_message :: "string \<Rightarrow> string \<Rightarrow> time \<Rightarrow> message" where
  "sample_message i thread t = \<lparr>msg_id = i, msg_workspace = ''T'', msg_conversation = ''C'', msg_author = ''U'', msg_app = [],
     msg_text = [], msg_blocks = [], msg_attachments = [], msg_metadata = [], msg_stream = [], msg_thread = thread,
     msg_broadcast = False, msg_created = t, msg_edited_at = 0, msg_edited_by = [], msg_subtype = [], msg_deleted = False,
     msg_unfurls = Map.empty, msg_files = []\<rparr>"

definition sample_store :: "message list \<Rightarrow> chat" where
  "sample_store ms = new_store\<lparr>workspaces := {''T''}, messages := [(''C'', ms)],
     conversations := [''C'' \<mapsto> \<lparr>conv_id = ''C'', conv_workspace = ''T'', conv_name = [], conv_kind = PublicChannel, conv_archived = False\<rparr>]\<rparr>"

definition sample_event :: event where
  "sample_event = \<lparr>ev_id = [], ev_workspace = ''T'', ev_topic = [], ev_payload = []\<rparr>"

lemmas sample_defs = plain_library_def sample_message_def sample_store_def new_store_def

lemma sample_of [simp]: "messages_of (sample_store ms) ''C'' = ms" "idempotency (sample_store ms) = Map.empty"
  "all_messages (sample_store ms) = ms"
  by (simp_all add: sample_store_def messages_of_def all_messages_def new_store_def)

subsection \<open>One attempt\<close>

text \<open>What the store would refuse for another reason than the instant.\<close>

definition postable :: "library \<Rightarrow> string \<Rightarrow> message \<Rightarrow> chat \<Rightarrow> message \<Rightarrow> bool" where
  "postable L key m s n \<longleftrightarrow> normalize_message L m = Some n
     \<and> conversations s (msg_conversation m) \<noteq> None
     \<and> (case resolve_files s n (msg_files n) [] [] of Inl _ \<Rightarrow> False | Inr _ \<Rightarrow> True)
     \<and> \<not> list_ex (\<lambda>x. msg_id x = msg_id m) (all_messages s)
     \<and> (key \<noteq> [] \<longrightarrow> idempotency s (idempotency_key_for (msg_workspace m) (msg_author m) key) = None)"

definition delayed :: "nat \<Rightarrow> message \<Rightarrow> message" where
  "delayed k m = m\<lparr>msg_created := msg_created m + 1000 * int k\<rparr>"

lemma resolve_files_created: "resolve_files s (m\<lparr>msg_created := t\<rparr>) fs seen found = resolve_files s m fs seen found"
  by (induction fs arbitrary: seen found) (auto split: option.splits)

lemma normalize_delayed:
  "normalize_message L m = Some n \<Longrightarrow> normalize_message L (delayed k m) = Some (delayed k n)"
  by (auto simp: normalize_message_def delayed_def message_instant_def split: option.splits)

lemma postable_delayed: "postable L key m s n \<Longrightarrow> postable L key (delayed k m) s (delayed k n)"
  by (auto simp: postable_def normalize_delayed resolve_files_created) (auto simp: delayed_def resolve_files_created)

lemma post_once_taken_iff:
  assumes "postable L key m s n" "message_instant (msg_created m) \<in> set (instants s (msg_conversation m))"
  shows "post_once L (\<lambda>x. Some (ev x)) (\<lambda>x. Some (links x)) key [] m s = (s, Some MessageTimestampTaken)"
  using assms normalize_created [of L m n]
  by (auto simp: postable_def post_once_def create_message_def create_message_locked_def prepare_message_def
      message_locked_def list_ex_iff instants_def find_Some_iff split: sum.splits option.splits)

lemma post_once_free:
  assumes p: "postable L key m s n" and free: "message_instant (msg_created m) \<notin> set (instants s (msg_conversation m))"
  obtains s' fs where "post_once L (\<lambda>x. Some (ev x)) (\<lambda>x. Some (links x)) key [] m s = (s', None)"
    "messages s' = AList.update (msg_conversation m) (insert_message (n\<lparr>msg_files := fs\<rparr>) (messages_of s (msg_conversation m))) (messages s)"
    "idempotency s' = (if key \<noteq> [] then (idempotency s)(idempotency_key_for (msg_workspace m) (msg_author m) key \<mapsto> msg_id m) else idempotency s)"
proof -
  have n: "normalize_message L m = Some n" using p by (simp add: postable_def)
  note N = normalize_created [OF n]
  obtain fs where fs: "resolve_files s n (msg_files n) [] [] = Inr fs" using p by (auto simp: postable_def split: sum.splits)
  have "find (\<lambda>x. msg_id x = msg_id n) (all_messages s) = None"
    using p N by (auto simp: postable_def list_ex_iff find_None_iff)
  moreover have "\<not> list_ex (\<lambda>x. msg_created x = msg_created n) (messages_of s (msg_conversation n))"
    using free N by (auto simp: instants_def list_ex_iff intro: image_eqI [OF sym])
  ultimately have "prepare_message n key s = Inr (n\<lparr>msg_files := fs\<rparr>)"
    using p N fs by (auto simp: postable_def prepare_message_def message_locked_def)
  then have "post_once L (\<lambda>x. Some (ev x)) (\<lambda>x. Some (links x)) key [] m s =
      ((let s' = commit_message L (n\<lparr>msg_files := fs\<rparr>) (ev m) key s in s'\<lparr>chat_outbox := chat_outbox s' @ links m\<rparr>), None)"
    using n by (simp add: post_once_def create_message_def create_message_locked_def Let_def)
  then show ?thesis using that N by (fastforce simp: frame_simps Let_def)
qed

lemma post_once_conversations:
  "post_once L (\<lambda>x. Some (ev x)) (\<lambda>x. Some (links x)) key [] m s = (s', r) \<Longrightarrow> conversations s' = conversations s"
  by (auto simp: post_once_def create_message_def create_message_locked_def Let_def frame_simps split: option.splits sum.splits)

lemma next_free_taken: "finite T \<Longrightarrow> t \<in> T \<Longrightarrow> next_free T t = next_free T (t + 1000)"
  by (subst next_free.simps) simp

lemma next_free_free: "t \<notin> T \<Longrightarrow> next_free T t = t"
  by (subst next_free.simps) simp

text \<open>
  C23. A post always ends, and takes the first free microsecond. A message the store has no other
  reason to refuse is stored at the first instant, counting in microseconds from the clock's, that
  no message of the conversation has; the answer carries that instant, and the conversation's other
  messages stay.
\<close>

theorem post_takes_first_free_instant:
  assumes "postable L key m s n"
  shows "\<exists>k s' fs. post_message L (\<lambda>x. Some (ev x)) (\<lambda>x. Some (links x)) key [] m s = (s', Inr (delayed k m))
    \<and> message_instant (msg_created m) + 1000 * int k = next_free (set (instants s (msg_conversation m))) (message_instant (msg_created m))
    \<and> messages_of s' (msg_conversation m) = insert_message (delayed k n\<lparr>msg_files := fs\<rparr>) (messages_of s (msg_conversation m))"
proof -
  let ?T = "set (instants s (msg_conversation m))"
  have "\<exists>k s' fs. post_message L (\<lambda>x. Some (ev x)) (\<lambda>x. Some (links x)) key [] (delayed j m) s = (s', Inr (delayed k m))
      \<and> message_instant (msg_created m) + 1000 * int k = next_free T t
      \<and> messages_of s' (msg_conversation m) = insert_message (delayed k n\<lparr>msg_files := fs\<rparr>) (messages_of s (msg_conversation m))"
    if "T = ?T" "t = message_instant (msg_created m) + 1000 * int j" for T t j
    using that
  proof (induction T t arbitrary: j rule: next_free.induct)
    case (1 T t)
    note p = postable_delayed [OF assms, of j]
    have c: "msg_conversation (delayed j m) = msg_conversation m" "message_instant (msg_created (delayed j m)) = t"
      by (simp_all add: delayed_def "1.prems"(2) message_instant_def)
    show ?case
    proof (cases "t \<in> T")
      case True
      then have once: "post_once L (\<lambda>x. Some (ev x)) (\<lambda>x. Some (links x)) key [] (delayed j m) s = (s, Some MessageTimestampTaken)"
        using post_once_taken_iff [OF p] c "1.prems"(1) by simp
      have next': "(delayed j m)\<lparr>msg_created := msg_created (delayed j m) + 1000\<rparr> = delayed (Suc j) m"
        by (simp add: delayed_def algebra_simps)
      have "post_message L (\<lambda>x. Some (ev x)) (\<lambda>x. Some (links x)) key [] (delayed j m) s
          = post_message L (\<lambda>x. Some (ev x)) (\<lambda>x. Some (links x)) key [] (delayed (Suc j) m) s"
        unfolding next' [symmetric] by (subst post_message.simps) (simp add: once)
      then show ?thesis using "1.IH" [of "Suc j"] "1.prems" True next_free_taken [of T t] by (simp add: algebra_simps)
    next
      case False
      then have "message_instant (msg_created (delayed j m)) \<notin> set (instants s (msg_conversation (delayed j m)))"
        using c "1.prems"(1) by simp
      then obtain s' fs where once: "post_once L (\<lambda>x. Some (ev x)) (\<lambda>x. Some (links x)) key [] (delayed j m) s = (s', None)"
        "messages s' = AList.update (msg_conversation m) (insert_message (delayed j n\<lparr>msg_files := fs\<rparr>) (messages_of s (msg_conversation m))) (messages s)"
        using post_once_free [OF p] c(1) by metis
      then have "post_message L (\<lambda>x. Some (ev x)) (\<lambda>x. Some (links x)) key [] (delayed j m) s = (s', Inr (delayed j m))"
        by (subst post_message.simps) simp
      moreover have "messages_of s' (msg_conversation m) = insert_message (delayed j n\<lparr>msg_files := fs\<rparr>) (messages_of s (msg_conversation m))"
        by (simp add: messages_of_def [of s'] once(2) update_conv')
      ultimately show ?thesis using next_free_free [OF False] "1.prems"(2)
        by (intro exI [of _ j] exI [of _ s'] exI [of _ fs]) simp
    qed
  qed
  from this [OF refl, of _ 0] show ?thesis by (simp add: delayed_def [of 0])
qed

lemma post_takes_first_free_instant_witness:
  "\<exists>s'. post_message plain_library (\<lambda>_. Some sample_event) (\<lambda>_. Some []) [] [] (sample_message ''B'' [] 5000)
      (sample_store [sample_message ''A'' [] 5000]) = (s', Inr (delayed 1 (sample_message ''B'' [] 5000)))"
proof -
  let ?s = "sample_store [sample_message ''A'' [] 5000]" and ?m = "sample_message ''B'' [] 5000"
  let ?n = "?m\<lparr>msg_attachments := ''[]''\<rparr>"
  have p: "postable plain_library [] ?m ?s ?n"
    by (auto simp: postable_def normalize_message_def sample_defs message_instant_def all_messages_def)
  have i: "instants ?s ''C'' = [5000]" by (simp add: instants_def) (simp add: sample_message_def)
  have nf: "next_free {5000} 5000 = 6000" by (simp add: next_free_taken next_free_free)
  obtain k s' where r: "post_message plain_library (\<lambda>_. Some sample_event) (\<lambda>_. Some []) [] [] ?m ?s = (s', Inr (delayed k ?m))"
    and k: "message_instant (msg_created ?m) + 1000 * int k = next_free (set (instants ?s (msg_conversation ?m))) (message_instant (msg_created ?m))"
    using post_takes_first_free_instant [OF p, of "\<lambda>_. sample_event" "\<lambda>_. []"] by blast
  have "k = 1" using k i nf by (simp add: sample_message_def message_instant_def)
  then show ?thesis using r by blast
qed

subsection \<open>One message per key\<close>

lemma get_message_id: "get_message s i = Inr m \<Longrightarrow> msg_id m = i"
  by (auto simp: get_message_def message_locked_def clone_message_def find_Some_iff split: option.splits)

lemma get_idempotent_keyed:
  "get_idempotent_message s w u key = Inr m \<Longrightarrow> idempotency s (idempotency_key_for w u key) = Some (msg_id m)"
  by (auto simp: get_idempotent_message_def get_message_id split: option.splits)

lemma post_once_keyed:
  assumes "post_once L (\<lambda>x. Some (ev x)) (\<lambda>x. Some (links x)) key [] m s = (s', None)" "key \<noteq> []"
  shows "idempotency s' (idempotency_key_for (msg_workspace m) (msg_author m) key) = Some (msg_id m)"
proof -
  obtain n where n: "normalize_message L m = Some n" "create_message_locked L n (ev m) key (links m) s = (s', None)"
    using assms(1) by (auto simp: post_once_def create_message_def split: option.splits)
  then obtain n' where "prepare_message n key s = Inr n'"
    "s' = (commit_message L n' (ev m) key s)\<lparr>chat_outbox := chat_outbox (commit_message L n' (ev m) key s) @ links m\<rparr>"
    by (auto simp: create_message_locked_def Let_def split: sum.splits)
  then show ?thesis using prepare_messageD(1) [of n key s n'] normalize_created [OF n(1)] assms(2) by (auto simp: frame_simps)
qed

lemma post_message_keyed:
  assumes "post_message L (\<lambda>x. Some (ev x)) (\<lambda>x. Some (links x)) key [] m s = (s', Inr m1)" "key \<noteq> []"
  shows "idempotency s' (idempotency_key_for (msg_workspace m) (msg_author m) key) = Some (msg_id m1)"
  using assms
proof (induction L "\<lambda>x. Some (ev x)" "\<lambda>x. Some (links x)" key "[] :: string" m s rule: post_message.induct)
  case (1 L key m s)
  obtain s1 r where once: "post_once L (\<lambda>x. Some (ev x)) (\<lambda>x. Some (links x)) key [] m s = (s1, r)" by fastforce
  consider "r = None" | "r = Some MessageTimestampTaken" | "r = Some IdempotencyConflict"
    | e where "r = Some e" "e \<noteq> MessageTimestampTaken" "e \<noteq> IdempotencyConflict" by (cases r) auto
  then show ?case
  proof cases
    case 1
    then show ?thesis using "1.prems" once post_once_keyed [of L ev links key m s s1] by (subst (asm) post_message.simps) auto
  next
    case 2
    then have "post_message L (\<lambda>x. Some (ev x)) (\<lambda>x. Some (links x)) key [] (m\<lparr>msg_created := msg_created m + 1000\<rparr>) s1 = (s', Inr m1)"
      using "1.prems"(1) once by (subst (asm) post_message.simps) simp
    then show ?thesis using "1.hyps" [OF once [symmetric] 2 refl] "1.prems"(2) by simp
  next
    case 3
    then show ?thesis using "1.prems" once get_idempotent_keyed by (subst (asm) post_message.simps) auto
  next
    case 4
    then show ?thesis using "1.prems" once by (subst (asm) post_message.simps) simp
  qed
qed

text \<open>
  C24. A repeated request posts once. After a post under an idempotency key has answered a message,
  the same author's next request under that key, whatever it says, changes nothing and answers that
  message as it is stored.
\<close>

theorem repeated_post_answers_first:
  assumes "post_message L (\<lambda>x. Some (ev x)) (\<lambda>x. Some (links x)) key [] m s = (s1, Inr m1)" "key \<noteq> []" "kept_order s1"
    and "postable L [] m' s1 n" "msg_workspace m' = msg_workspace m" "msg_author m' = msg_author m"
  shows "\<exists>stored. post_message L (\<lambda>x. Some (ev' x)) (\<lambda>x. Some (links' x)) key [] m' s1 = (s1, Inr stored)
    \<and> get_message s1 (msg_id m1) = Inr stored \<and> msg_id stored = msg_id m1"
proof -
  let ?k = "idempotency_key_for (msg_workspace m) (msg_author m) key"
  have i: "idempotency s1 ?k = Some (msg_id m1)" by (rule post_message_keyed [OF assms(1,2)])
  then obtain x where "x \<in> set (all_messages s1)" "msg_id x = msg_id m1" using kept_orderD(4) [OF assms(3)] by fastforce
  then obtain c where "x \<in> set (messages_of s1 c)" using stored_somewhere [OF kept_orderD(1) [OF assms(3)]] by blast
  then have g: "get_message s1 (msg_id m1) = Inr (clone_message s1 x)" using kept_find(1) [OF assms(3)] \<open>msg_id x = msg_id m1\<close> by metis
  have "post_once L (\<lambda>x. Some (ev' x)) (\<lambda>x. Some (links' x)) key [] m' s1 = (s1, Some IdempotencyConflict)"
    using assms(2,4,5,6) i normalize_created [of L m' n]
    by (auto simp: postable_def post_once_def create_message_def create_message_locked_def prepare_message_def
        message_locked_def list_ex_iff find_Some_iff split: sum.splits option.splits)
  then have "post_message L (\<lambda>x. Some (ev' x)) (\<lambda>x. Some (links' x)) key [] m' s1 = (s1, Inr (clone_message s1 x))"
    using i g assms(5,6) by (subst post_message.simps) (simp add: get_idempotent_message_def)
  then show ?thesis using g get_message_id by blast
qed

lemma repeated_post_answers_first_witness:
  "\<exists>s1 stored. post_message plain_library (\<lambda>_. Some sample_event) (\<lambda>_. Some []) ''k'' [] (sample_message ''B'' [] 9000) s1 = (s1, Inr stored)
    \<and> msg_id stored = ''A''"
proof -
  let ?m = "sample_message ''A'' [] 5000" and ?m' = "sample_message ''B'' [] 9000" and ?s = "sample_store []"
  have p: "postable plain_library ''k'' ?m ?s (?m\<lparr>msg_attachments := ''[]''\<rparr>)"
    by (auto simp: postable_def normalize_message_def sample_defs message_instant_def all_messages_def)
  have free: "message_instant (msg_created ?m) \<notin> set (instants ?s (msg_conversation ?m))"
    by (simp add: instants_def sample_message_def)
  obtain s1 fs where once: "post_once plain_library (\<lambda>_. Some sample_event) (\<lambda>_. Some []) ''k'' [] ?m ?s = (s1, None)"
    and m1: "messages s1 = AList.update (msg_conversation ?m)
      (insert_message (?m\<lparr>msg_attachments := ''[]'', msg_files := fs\<rparr>) (messages_of ?s (msg_conversation ?m))) (messages ?s)"
    using post_once_free [OF p free, of "\<lambda>_. sample_event" "\<lambda>_. []"] by blast
  have r: "post_message plain_library (\<lambda>_. Some sample_event) (\<lambda>_. Some []) ''k'' [] ?m ?s = (s1, Inr ?m)"
    using once by (subst post_message.simps) simp
  have step: "chat_step plain_library ?s s1"
    using once by (auto simp: post_once_def intro: chat_step.posts)
  have "kept_order ?s" by (simp add: kept_order_def kept_conversation_def messages_of_def all_messages_def sample_store_def new_store_def)
  then have k: "kept_order s1" using step_kept [OF step] by blast
  have "conversations s1 = conversations ?s" using post_once_conversations [OF once] .
  then have c: "conversations s1 ''C'' \<noteq> None" by (simp add: sample_store_def new_store_def)
  have "all_messages s1 = [?m\<lparr>msg_attachments := ''[]'', msg_files := fs\<rparr>]"
    by (simp add: all_messages_def m1 insert_message_def sample_store_def messages_of_def sample_message_def)
  then have p': "postable plain_library [] ?m' s1 (?m'\<lparr>msg_attachments := ''[]''\<rparr>)"
    using c by (auto simp: postable_def normalize_message_def message_instant_def plain_library_def sample_message_def)
  show ?thesis
    using repeated_post_answers_first [OF r _ k p', of "\<lambda>_. sample_event" "\<lambda>_. []"]
    by (auto simp: sample_message_def)
qed

lemma messages_ordered_and_found_witness:
  "\<exists>s m. messages_of s ''C'' = [m] \<and> msg_created m = 5000 \<and> get_message s ''A'' = Inr (clone_message s m)"
proof -
  let ?m = "sample_message ''A'' [] 5000" and ?s = "(sample_store [])\<lparr>messages := []\<rparr>"
  have p: "postable plain_library [] ?m ?s (?m\<lparr>msg_attachments := ''[]''\<rparr>)"
    by (auto simp: postable_def normalize_message_def sample_defs message_instant_def all_messages_def)
  have empty: "messages_of ?s c = []" for c by (simp add: messages_of_def)
  have free: "message_instant (msg_created ?m) \<notin> set (instants ?s (msg_conversation ?m))"
    by (simp add: instants_def empty)
  obtain s1 fs where once: "post_once plain_library (\<lambda>_. Some sample_event) (\<lambda>_. Some []) [] [] ?m ?s = (s1, None)"
    and m1: "messages s1 = AList.update (msg_conversation ?m)
      (insert_message (?m\<lparr>msg_attachments := ''[]'', msg_files := fs\<rparr>) (messages_of ?s (msg_conversation ?m))) (messages ?s)"
    using post_once_free [OF p free, of "\<lambda>_. sample_event" "\<lambda>_. []"] by blast
  have step: "(chat_step plain_library)\<^sup>*\<^sup>* ?s s1"
    using once by (auto simp: post_once_def intro: chat_step.posts)
  have c: "messages_of s1 ''C'' = [?m\<lparr>msg_attachments := ''[]'', msg_files := fs\<rparr>]"
    by (simp add: messages_of_def [of s1] m1 empty insert_message_def) (simp add: sample_message_def)
  have "get_message s1 (msg_id (?m\<lparr>msg_attachments := ''[]'', msg_files := fs\<rparr>))
      = Inr (clone_message s1 (?m\<lparr>msg_attachments := ''[]'', msg_files := fs\<rparr>))"
    using messages_ordered_and_found [OF step, of "?m\<lparr>msg_attachments := ''[]'', msg_files := fs\<rparr>" "''C''"]
    by (simp add: c)
  then show ?thesis using c
    by (intro exI [of _ s1] exI [of _ "?m\<lparr>msg_attachments := ''[]'', msg_files := fs\<rparr>"]) (simp add: sample_message_def)
qed

subsection \<open>Where the order is lost\<close>

text \<open>
  \<^verbatim>\<open>appendConversationNotice\<close> puts a notice at the end of the list, not at its place: a notice whose
  instant was read before a message that is already stored leaves the list out of order.
\<close>

lemma notice_out_of_order:
  "kept_order (sample_store [sample_message ''A'' [] 5000])"
  "instants (fst (append_conversation_notice (sample_message ''N'' [] 2000) (sample_store [sample_message ''A'' [] 5000]))) ''C'' = [5000, 2000]"
proof -
  show "kept_order (sample_store [sample_message ''A'' [] 5000])"
    by (simp add: kept_order_def kept_conversation_def messages_of_def all_messages_def sample_store_def new_store_def
        sample_message_def message_instant_def)
  have "next_free {5000} 2000 = 2000" by (simp add: next_free_free)
  then show "instants (fst (append_conversation_notice (sample_message ''N'' [] 2000) (sample_store [sample_message ''A'' [] 5000]))) ''C'' = [5000, 2000]"
    by (simp add: append_conversation_notice_def instants_def) (simp add: sample_message_def)
qed

text \<open>
  \<^verbatim>\<open>CreateFileShareMessage\<close> leaves the shares it made when a later file is missing: the request is
  refused, and the conversation keeps the first file.
\<close>

lemma refused_share_stays:
  assumes "s = (sample_store [])\<lparr>files := [''F'' \<mapsto> (named_file ''F'')\<lparr>file_workspace := ''T''\<rparr>]\<rparr>"
  shows "file_shares s ''F'' = []"
    "\<exists>s'. create_file_share_message plain_library [''F'', ''G''] (sample_message ''A'' [] 5000) [sample_event] s = (s', Some NotFound)
      \<and> file_shares s' ''F'' = [''C'']"
  by (simp_all add: assms create_file_share_message_def normalize_message_def sample_defs named_file_def message_instant_def)

end
