(* ===== verification/Paging.thy ===== *)
theory Paging
  imports SOC_Prelude
begin

section \<open>Pages with a keyset cursor\<close>

text \<open>
  Every list a client pages through is read the same way: the rows a request may see, in the order
  of their keys, strictly after the key the cursor names, at most the limit of them, with a cursor
  on the last one when there are more. The contract of such a read, and what a client that follows
  the cursors gets from it. The rows may change between two requests: \<open>walk\<close> reads its \<open>i\<close>-th page
  in the \<open>i\<close>-th state.
\<close>

definition after_key :: "('k \<Rightarrow> 'k \<Rightarrow> bool) \<Rightarrow> 'k option \<Rightarrow> 'k \<Rightarrow> bool" where
  "after_key before c k = (case c of None \<Rightarrow> True | Some d \<Rightarrow> before d k)"

fun walk :: "('s \<Rightarrow> 'k option \<Rightarrow> 'k list \<times> 'k option) \<Rightarrow> 's list \<Rightarrow> 'k option \<Rightarrow> 'k list \<times> bool" where
  "walk fetch [] c = ([], False)"
| "walk fetch (s # ss) c =
     (case fetch s c of
        (ks, None) \<Rightarrow> (ks, True)
      | (ks, Some d) \<Rightarrow> (case walk fetch ss (Some d) of (rest, ended) \<Rightarrow> (ks @ rest, ended)))"

locale keyset_pages =
  fixes before :: "'k \<Rightarrow> 'k \<Rightarrow> bool"
    and ok :: "'s \<Rightarrow> bool"
    and rows :: "'s \<Rightarrow> 'k list"
    and fetch :: "'s \<Rightarrow> 'k option \<Rightarrow> 'k list \<times> 'k option"
    and limit :: nat
    and good :: "'k \<Rightarrow> bool"
  assumes irreflexive: "\<not> before k k"
    and transitive: "before a b \<Longrightarrow> before b d \<Longrightarrow> before a d"
    and in_order: "ok s \<Longrightarrow> sorted_wrt before (rows s)"
    and positive: "0 < limit"
    and minted: "ok s \<Longrightarrow> k \<in> set (rows s) \<Longrightarrow> good k"
    and page: "ok s \<Longrightarrow> pred_option good c \<Longrightarrow> fetch s c =
      (let later = filter (after_key before c) (rows s)
       in (take limit later, if length later > limit then Some (later ! (limit - 1)) else None))"
begin

lemma later_sorted: "ok s \<Longrightarrow> sorted_wrt before (filter (after_key before c) (rows s))"
  by (simp add: in_order sorted_wrt_filter)

lemma page_rows:
  assumes "ok s" "fetch s c = (ks, d)" "pred_option good c"
  shows "sorted_wrt before ks" "set ks \<subseteq> {k \<in> set (rows s). after_key before c k}"
    "d = None \<Longrightarrow> set ks = {k \<in> set (rows s). after_key before c k}"
  using assms later_sorted [OF assms(1), of c]
  by (auto simp: page Let_def sorted_wrt_take split: if_splits dest: in_set_takeD)

lemma last_of_page:
  assumes "sorted_wrt before xs" "limit < length xs"
  shows "xs ! (limit - 1) \<in> set (take limit xs)"
    "k \<in> set (take limit xs) \<Longrightarrow> k = xs ! (limit - 1) \<or> before k (xs ! (limit - 1))"
    "k \<in> set (drop limit xs) \<Longrightarrow> before (xs ! (limit - 1)) k"
proof -
  let ?d = "xs ! (limit - 1)"
  have split: "xs = take (limit - 1) xs @ ?d # drop limit xs"
    using id_take_nth_drop [of "limit - 1" xs] assms(2) positive by simp
  have front: "take limit xs = take (limit - 1) xs @ [?d]"
    using take_Suc_conv_app_nth [of "limit - 1" xs] assms(2) positive by simp
  have o: "sorted_wrt before (take (limit - 1) xs @ ?d # drop limit xs)" using assms(1) split by metis
  show "?d \<in> set (take limit xs)" unfolding front by simp
  show "k = ?d \<or> before k ?d" if "k \<in> set (take limit xs)"
    using o that unfolding front by (auto simp: sorted_wrt_append)
  show "before ?d k" if "k \<in> set (drop limit xs)"
    using o that by (auto simp: sorted_wrt_append)
qed

lemma page_cursor:
  assumes "ok s" "fetch s c = (ks, Some d)" "pred_option good c"
  shows "d \<in> set ks" "good d" "\<And>k. k \<in> set ks \<Longrightarrow> k = d \<or> before k d"
    "\<And>k. k \<in> set (rows s) \<Longrightarrow> after_key before c k \<Longrightarrow> k \<in> set ks \<or> before d k"
proof -
  let ?later = "filter (after_key before c) (rows s)"
  have l: "limit < length ?later" "ks = take limit ?later" "d = ?later ! (limit - 1)"
    using assms by (auto simp: page Let_def split: if_splits)
  note p = last_of_page [OF later_sorted [OF assms(1)] l(1)]
  show d: "d \<in> set ks" and "\<And>k. k \<in> set ks \<Longrightarrow> k = d \<or> before k d" using p(1,2) unfolding l(2,3) .
  have "d \<in> set ?later" using d unfolding l(2) by (rule in_set_takeD)
  then show "good d" using minted [OF assms(1)] by simp
  show "k \<in> set ks \<or> before d k" if "k \<in> set (rows s)" "after_key before c k" for k
  proof -
    have "k \<in> set ?later" using that by simp
    then have "k \<in> set (take limit ?later) \<or> k \<in> set (drop limit ?later)" by (metis Un_iff append_take_drop_id set_append)
    then show ?thesis using p(3) unfolding l(2,3) by blast
  qed
qed

lemma after_more: "after_key before (Some d) k \<Longrightarrow> d \<in> set ks \<Longrightarrow> \<forall>x \<in> set ks. after_key before c x \<Longrightarrow> after_key before c k"
  using transitive by (fastforce simp: after_key_def split: option.splits)

lemma walk_cases:
  assumes "fetch s c = (ks, d)" "walk fetch (s # ss) c = (seen, ended)"
  obtains "d = None" "seen = ks" "ended"
  | d' rest where "d = Some d'" "walk fetch ss (Some d') = (rest, ended)" "seen = ks @ rest"
  using assms by (cases d) (auto split: prod.splits)

text \<open>What a walk lists is in order, so no row twice, after the cursor and visible at the time.\<close>

lemma walk_sound:
  "\<forall>s \<in> set ss. ok s \<Longrightarrow> pred_option good c \<Longrightarrow> walk fetch ss c = (seen, ended) \<Longrightarrow>
    sorted_wrt before seen \<and> (\<forall>k \<in> set seen. after_key before c k \<and> (\<exists>s \<in> set ss. k \<in> set (rows s)))"
proof (induction ss arbitrary: c seen)
  case (Cons s ss)
  obtain ks d where f: "fetch s c = (ks, d)" by (cases "fetch s c")
  have s: "ok s" using Cons.prems by simp
  note p = page_rows [OF s f Cons.prems(2)]
  from f Cons.prems(3) show ?case
  proof (cases rule: walk_cases)
    case 1
    then show ?thesis using p by auto
  next
    case (2 d' rest)
    note q = page_cursor [OF s f [unfolded 2(1)] Cons.prems(2)]
    have IH: "sorted_wrt before rest" "\<forall>k \<in> set rest. after_key before (Some d') k \<and> (\<exists>s \<in> set ss. k \<in> set (rows s))"
      using Cons.IH [OF _ _ 2(2)] Cons.prems(1) q(2) by auto
    have "before x y" if "x \<in> set ks" "y \<in> set rest" for x y
      using q(3) [OF that(1)] IH(2) that(2) transitive by (auto simp: after_key_def)
    moreover have "after_key before c y" if "y \<in> set rest" for y
      using after_more [of d' y ks c] IH(2) that q(1) p(2) by auto
    ultimately show ?thesis using p IH 2(3) by (auto simp: sorted_wrt_append)
  qed
qed simp

text \<open>A walk that ends has listed every row that was visible throughout.\<close>

lemma walk_complete:
  "\<forall>s \<in> set ss. ok s \<and> k \<in> set (rows s) \<Longrightarrow> pred_option good c \<Longrightarrow> after_key before c k \<Longrightarrow> walk fetch ss c = (seen, True) \<Longrightarrow> k \<in> set seen"
proof (induction ss arbitrary: c seen)
  case (Cons s ss)
  obtain ks d where f: "fetch s c = (ks, d)" by (cases "fetch s c")
  have s: "ok s" "k \<in> set (rows s)" using Cons.prems by simp_all
  from f Cons.prems(4) show ?case
  proof (cases rule: walk_cases)
    case 1
    then show ?thesis using page_rows(3) [OF s(1) f Cons.prems(2)] s(2) Cons.prems(3) by auto
  next
    case (2 d' rest)
    note q = page_cursor [OF s(1) f [unfolded 2(1)] Cons.prems(2)]
    have "k \<in> set ks \<or> before d' k" using q(4) s(2) Cons.prems(3) by blast
    then show ?thesis using Cons.IH [OF _ _ _ 2(2)] Cons.prems(1) q(2) 2(3) by (auto simp: after_key_def)
  qed
qed simp

lemma once: "sorted_wrt before ks \<Longrightarrow> distinct ks"
  by (induction ks) (auto simp: irreflexive)

lemma listed_once: "\<forall>s \<in> set ss. ok s \<Longrightarrow> pred_option good c \<Longrightarrow> walk fetch ss c = (seen, ended) \<Longrightarrow> distinct seen"
  using walk_sound once by blast

text \<open>Over rows that stay as they are the walk ends, with exactly them.\<close>

lemma filter_after_page:
  assumes "sorted_wrt before xs" "limit < length xs"
  shows "filter (before (xs ! (limit - 1))) xs = drop limit xs"
proof -
  let ?d = "xs ! (limit - 1)"
  note p = last_of_page [OF assms]
  have "\<not> before ?d k" if "k \<in> set (take limit xs)" for k
    using p(2) [OF that] irreflexive transitive by blast
  then have "filter (before ?d) (take limit xs) = []" by (simp add: filter_empty_conv)
  moreover have "filter (before ?d) (drop limit xs) = drop limit xs" using p(3) by (simp add: filter_id_conv)
  ultimately have "filter (before ?d) (take limit xs @ drop limit xs) = drop limit xs" by (simp only: filter_append append_Nil)
  then show ?thesis by simp
qed

lemma filter_after: "k \<in> set (filter (after_key before c) xs) \<Longrightarrow>
    filter (before k) xs = filter (before k) (filter (after_key before c) xs)"
  using transitive by (auto simp: after_key_def filter_filter intro!: filter_cong split: option.splits)

lemma walk_still:
  assumes "ok s"
  shows "length (filter (after_key before c) (rows s)) \<le> n \<Longrightarrow> pred_option good c \<Longrightarrow>
    walk fetch (replicate (Suc n) s) c = (filter (after_key before c) (rows s), True)"
proof (induction n arbitrary: c)
  case 0
  then show ?case using assms by (simp add: page)
next
  case (Suc n)
  let ?later = "filter (after_key before c) (rows s)"
  show ?case
  proof (cases "limit < length ?later")
    case True
    let ?d = "?later ! (limit - 1)"
    have "?d \<in> set ?later" using True by (intro nth_mem) simp
    then have "filter (before ?d) (rows s) = filter (before ?d) ?later" by (rule filter_after)
    also have "\<dots> = drop limit ?later" by (rule filter_after_page [OF later_sorted [OF assms] True])
    finally have d: "filter (after_key before (Some ?d)) (rows s) = drop limit ?later"
      by (simp add: after_key_def [abs_def])
    moreover have "length (drop limit ?later) \<le> n" using Suc.prems(1) positive True by simp
    moreover have "good ?d" using \<open>?d \<in> set ?later\<close> minted [OF assms] by simp
    ultimately have "walk fetch (replicate (Suc n) s) (Some ?d) = (drop limit ?later, True)" using Suc.IH by simp
    moreover have "fetch s c = (take limit ?later, Some ?d)" using True assms Suc.prems(2) by (simp add: page Let_def)
    ultimately show ?thesis by simp
  next
    case False
    then show ?thesis using assms Suc.prems(2) by (simp add: page)
  qed
qed

end

end
