(* ===== verification/History.thy ===== *)
theory History
  imports Message_Posts Paging "HOL-Library.Product_Lexorder"
begin

section \<open>Reading a conversation page by page\<close>

text \<open>
  \<^verbatim>\<open>ListMessages\<close> and \<^verbatim>\<open>ListThreadMessages\<close> of \<^verbatim>\<open>internal/store/memory/memory.go\<close> with the requests,
  windows and cursors of \<^verbatim>\<open>internal/domain/pagination.go\<close> and the checks of \<^verbatim>\<open>internal/store/store.go\<close>.
  A cursor's text is the base64 of a JSON object; here it is what the text decodes to, \<open>Garbled\<close> for
  a text that does not decode. The three reads are interpretations of \<open>keyset_pages\<close>.
\<close>

datatype cursor = NoCursor | CursorOf time string bool | Garbled

record page_request =
  pr_limit :: int
  pr_cursor :: cursor
  pr_descending :: bool

record message_window =
  win_oldest :: time
  win_latest :: time
  win_inclusive :: bool

record history_request =
  hr_page :: page_request
  hr_window :: message_window
  hr_roots_only :: bool

record thread_request =
  tr_page :: page_request
  tr_window :: message_window

record message_page =
  mp_messages :: "message list"
  mp_next :: cursor
  mp_has_more :: bool

definition page_after :: "page_request \<Rightarrow> time \<Rightarrow> string \<Rightarrow> time \<Rightarrow> string \<Rightarrow> bool" where
  "page_after r created i cursor_at cursor_id =
     (if pr_descending r then created < cursor_at \<or> (created = cursor_at \<and> i < cursor_id)
      else created > cursor_at \<or> (created = cursor_at \<and> i > cursor_id))"

definition window_contains :: "message_window \<Rightarrow> time \<Rightarrow> bool" where
  "window_contains w at =
     (if \<not> is_zero_time (win_oldest w) \<and> (at < win_oldest w \<or> (at = win_oldest w \<and> \<not> win_inclusive w)) then False
      else if \<not> is_zero_time (win_latest w) \<and> (at > win_latest w \<or> (at = win_latest w \<and> \<not> win_inclusive w)) then False
      else True)"

definition new_message_cursor :: "message \<Rightarrow> store_error + cursor" where
  "new_message_cursor m =
     (if msg_id m = [] \<or> \<not> utf8_valid (map of_char (msg_id m)) \<or> is_zero_time (msg_created m) then Inl InvalidCursor
      else Inr (CursorOf (msg_created m) (msg_id m) (msg_thread m = [])))"

definition decode_message_cursor_with_root :: "cursor \<Rightarrow> store_error + time \<times> string \<times> bool" where
  "decode_message_cursor_with_root c = (case c of
     NoCursor \<Rightarrow> Inr (0, [], False)
   | CursorOf at i root \<Rightarrow> if i = [] \<or> is_zero_time at then Inl InvalidCursor else Inr (at, i, root)
   | Garbled \<Rightarrow> Inl InvalidCursor)"

definition check_page :: "page_request \<Rightarrow> store_error option" where
  "check_page r = (if pr_limit r \<le> 0 then Some InvalidArgument else None)"

definition check_ascending_page :: "page_request \<Rightarrow> store_error option" where
  "check_ascending_page r = (case check_page r of Some e \<Rightarrow> Some e | None \<Rightarrow> if pr_descending r then Some InvalidArgument else None)"

subsection \<open>A conversation's history\<close>

definition listed :: "history_request \<Rightarrow> time \<Rightarrow> string \<Rightarrow> message \<Rightarrow> bool" where
  "listed h created i m =
     (if msg_deleted m \<or> \<not> window_contains (hr_window h) (msg_created m) then False
      else if hr_roots_only h \<and> msg_thread m \<noteq> [] \<and> \<not> msg_broadcast m then False
      else pr_cursor (hr_page h) = NoCursor \<or> page_after (hr_page h) (msg_created m) (msg_id m) created i)"

text \<open>The two loops: until one row more than the limit is found.\<close>

fun collect :: "chat \<Rightarrow> (message \<Rightarrow> bool) \<Rightarrow> int \<Rightarrow> message list \<Rightarrow> message list \<Rightarrow> message list" where
  "collect s p limit [] window = window"
| "collect s p limit (m # ms) window =
     (if int (length window) \<le> limit then collect s p limit ms (if p m then window @ [clone_message s m] else window) else window)"

definition finish_page :: "int \<Rightarrow> message list \<Rightarrow> store_error + message_page" where
  "finish_page limit window =
     (let has_more = int (length window) > limit; kept = (if has_more then take (nat limit) window else window)
      in if has_more then
           (case new_message_cursor (last kept) of
              Inl e \<Rightarrow> Inl e
            | Inr c \<Rightarrow> Inr \<lparr>mp_messages = kept, mp_next = c, mp_has_more = True\<rparr>)
         else Inr \<lparr>mp_messages = kept, mp_next = NoCursor, mp_has_more = False\<rparr>)"

definition list_messages :: "string \<Rightarrow> history_request \<Rightarrow> chat \<Rightarrow> store_error + message_page" where
  "list_messages conversation h s =
     (case check_page (hr_page h) of
        Some e \<Rightarrow> Inl e
      | None \<Rightarrow>
          (case decode_message_cursor_with_root (pr_cursor (hr_page h)) of
             Inl e \<Rightarrow> Inl e
           | Inr (created, i, _) \<Rightarrow>
               let ms = messages_of s conversation
               in finish_page (pr_limit (hr_page h))
                    (collect s (listed h created i) (pr_limit (hr_page h))
                      (if pr_descending (hr_page h) then rev ms else ms) [])))"

subsection \<open>A thread\<close>

definition append_sorted :: "('a \<Rightarrow> 'a \<Rightarrow> bool) \<Rightarrow> nat \<Rightarrow> 'a \<Rightarrow> 'a list \<Rightarrow> 'a list" where
  "append_sorted lt capacity x xs =
     (let index = sort_search (length xs) (\<lambda>i. lt x (xs ! i))
      in take capacity (take index xs @ x # drop index xs))"

definition thread_root_at :: "string \<Rightarrow> message \<Rightarrow> bool" where
  "thread_root_at root m \<longleftrightarrow> msg_thread m = [] \<and> new_message_timestamp (msg_created m) = root"

definition thread_message_before :: "string \<Rightarrow> message \<Rightarrow> message \<Rightarrow> bool" where
  "thread_message_before root left right =
     (if thread_root_at root left \<noteq> thread_root_at root right then thread_root_at root left else message_before left right)"

text \<open>\<open>any\<close> stands for the fields of the cursor's message that the comparison does not read.\<close>

definition cursor_message :: "time \<Rightarrow> string \<Rightarrow> bool \<Rightarrow> string \<Rightarrow> message \<Rightarrow> message" where
  "cursor_message created i root thread any = any\<lparr>msg_created := created, msg_id := i, msg_thread := (if root then [] else thread)\<rparr>"

definition thread_message_before_or_equal :: "message \<Rightarrow> time \<Rightarrow> string \<Rightarrow> bool \<Rightarrow> string \<Rightarrow> bool" where
  "thread_message_before_or_equal m created i root thread =
     (\<not> thread_message_before thread (cursor_message created i root thread m) m)"

definition in_thread :: "string \<Rightarrow> message_window \<Rightarrow> message \<Rightarrow> bool" where
  "in_thread timestamp w m \<longleftrightarrow> \<not> msg_deleted m
     \<and> (thread_root_at timestamp m \<or> (msg_thread m = timestamp \<and> window_contains w (msg_created m)))"

definition keep_in_thread ::
  "string \<Rightarrow> message_window \<Rightarrow> int \<Rightarrow> cursor \<Rightarrow> time \<Rightarrow> string \<Rightarrow> bool \<Rightarrow> chat \<Rightarrow> message \<Rightarrow> message list \<Rightarrow> message list" where
  "keep_in_thread timestamp w limit c start start_id start_root s m window =
     (if in_thread timestamp w m \<and> (c = NoCursor \<or> \<not> thread_message_before_or_equal m start start_id start_root timestamp)
      then append_sorted (thread_message_before timestamp) (nat (limit + 1)) (clone_message s m) window
      else window)"

definition list_thread_messages :: "string \<Rightarrow> string \<Rightarrow> thread_request \<Rightarrow> chat \<Rightarrow> store_error + message_page" where
  "list_thread_messages conversation timestamp t s =
     (case check_ascending_page (tr_page t) of
        Some e \<Rightarrow> Inl e
      | None \<Rightarrow>
          (case decode_message_cursor_with_root (pr_cursor (tr_page t)) of
             Inl e \<Rightarrow> Inl e
           | Inr (start, start_id, start_root) \<Rightarrow>
               finish_page (pr_limit (tr_page t))
                 (fold (keep_in_thread timestamp (tr_window t) (pr_limit (tr_page t)) (pr_cursor (tr_page t)) start start_id start_root s)
                   (messages_of s conversation) [])))"

subsection \<open>What the loops compute\<close>

lemma collect_take:
  "collect s p limit ms window = window @ take (nat (limit + 1) - length window) (map (clone_message s) (filter p ms))"
  if "0 \<le> limit" "int (length window) \<le> limit + 1"
  using that
proof (induction ms arbitrary: window)
  case (Cons m ms)
  show ?case
  proof (cases "int (length window) \<le> limit")
    case True
    then have "nat (limit + 1) - length window = Suc (nat (limit + 1) - Suc (length window))" by linarith
    then show ?thesis using Cons.IH [of "window @ [clone_message s m]"] Cons.IH [of window] Cons.prems True by simp
  qed (use Cons.prems in simp)
qed simp

definition cloned_ok :: "message \<Rightarrow> bool" where
  "cloned_ok m \<longleftrightarrow> msg_id m \<noteq> [] \<and> utf8_valid (map of_char (msg_id m)) \<and> msg_created m \<noteq> 0"

lemma clone_fields [simp]:
  "msg_id (clone_message s m) = msg_id m" "msg_created (clone_message s m) = msg_created m"
  "msg_thread (clone_message s m) = msg_thread m" "msg_deleted (clone_message s m) = msg_deleted m"
  "msg_broadcast (clone_message s m) = msg_broadcast m"
  by (simp_all add: clone_message_def)

lemma cloned_ok_clone [simp]: "cloned_ok (clone_message s m) = cloned_ok m"
  by (simp add: cloned_ok_def)

text \<open>
  A page of a window that was collected: the first \<open>limit\<close> rows, and a cursor on the last of them
  exactly when a row is left.
\<close>

lemma finish_page_take:
  assumes "0 < limit" "\<forall>m \<in> set rows. cloned_ok m"
  shows "finish_page limit (take (nat (limit + 1)) rows) =
    Inr \<lparr>mp_messages = take (nat limit) rows,
      mp_next = (if length rows > nat limit then
          (let m = rows ! (nat limit - 1) in CursorOf (msg_created m) (msg_id m) (msg_thread m = [])) else NoCursor),
      mp_has_more = length rows > nat limit\<rparr>"
proof (cases "length rows > nat limit")
  case True
  then have m: "int (length (take (nat (limit + 1)) rows)) > limit" using assms(1) by simp
  have k: "take (nat limit) (take (nat (limit + 1)) rows) = take (nat limit) rows" using assms(1) by (simp add: min_def)
  have l: "last (take (nat limit) rows) = rows ! (nat limit - 1)"
    using True assms(1) take_Suc_conv_app_nth [of "nat limit - 1" rows] by simp
  have "rows ! (nat limit - 1) \<in> set rows" using True assms(1) by (intro nth_mem) linarith
  then have "new_message_cursor (rows ! (nat limit - 1)) = Inr (CursorOf (msg_created (rows ! (nat limit - 1)))
      (msg_id (rows ! (nat limit - 1))) (msg_thread (rows ! (nat limit - 1)) = []))"
    using assms(2) by (auto simp: new_message_cursor_def cloned_ok_def)
  then show ?thesis using m k l True by (simp add: finish_page_def Let_def)
next
  case False
  then have "\<not> int (length rows) > limit" using assms(1) by linarith
  then show ?thesis using False assms(1) by (simp add: finish_page_def Let_def)
qed

subsection \<open>History as a keyset read\<close>

type_synonym row_key = "time \<times> string"

definition row_key :: "message \<Rightarrow> row_key" where
  "row_key m = (msg_created m, msg_id m)"

definition key_before :: "bool \<Rightarrow> row_key \<Rightarrow> row_key \<Rightarrow> bool" where
  "key_before descending a b \<longleftrightarrow>
     (if descending then fst b < fst a \<or> (fst b = fst a \<and> snd b < snd a) else fst a < fst b \<or> (fst a = fst b \<and> snd a < snd b))"

definition key_cursor :: "row_key option \<Rightarrow> cursor" where
  "key_cursor c = (case c of None \<Rightarrow> NoCursor | Some (t, i) \<Rightarrow> CursorOf t i False)"

definition cursor_key :: "cursor \<Rightarrow> row_key option" where
  "cursor_key c = (case c of CursorOf t i _ \<Rightarrow> Some (t, i) | _ \<Rightarrow> None)"

definition history_for :: "message_window \<Rightarrow> bool \<Rightarrow> bool \<Rightarrow> nat \<Rightarrow> cursor \<Rightarrow> history_request" where
  "history_for w roots descending n c =
     \<lparr>hr_page = \<lparr>pr_limit = int (Suc n), pr_cursor = c, pr_descending = descending\<rparr>, hr_window = w, hr_roots_only = roots\<rparr>"

text \<open>A client's next page: the keys of its rows and of its cursor.\<close>

definition page_keys :: "store_error + message_page \<Rightarrow> row_key list \<times> row_key option" where
  "page_keys r = (case r of Inl _ \<Rightarrow> ([], None) | Inr page \<Rightarrow> (map row_key (mp_messages page), cursor_key (mp_next page)))"

definition history_fetch ::
  "string \<Rightarrow> message_window \<Rightarrow> bool \<Rightarrow> bool \<Rightarrow> nat \<Rightarrow> chat \<Rightarrow> row_key option \<Rightarrow> row_key list \<times> row_key option" where
  "history_fetch conversation w roots descending n s c =
     page_keys (list_messages conversation (history_for w roots descending n (key_cursor c)) s)"

definition in_history :: "message_window \<Rightarrow> bool \<Rightarrow> message \<Rightarrow> bool" where
  "in_history w roots m \<longleftrightarrow>
     \<not> msg_deleted m \<and> window_contains w (msg_created m) \<and> \<not> (roots \<and> msg_thread m \<noteq> [] \<and> \<not> msg_broadcast m)"

definition history_rows :: "string \<Rightarrow> message_window \<Rightarrow> bool \<Rightarrow> bool \<Rightarrow> chat \<Rightarrow> row_key list" where
  "history_rows conversation w roots descending s =
     map row_key (filter (in_history w roots) (if descending then rev (messages_of s conversation) else messages_of s conversation))"

definition readable :: "string \<Rightarrow> chat \<Rightarrow> bool" where
  "readable conversation s \<longleftrightarrow> kept_conversation conversation (messages_of s conversation) \<and> list_all cloned_ok (messages_of s conversation)"

definition minted_key :: "row_key \<Rightarrow> bool" where
  "minted_key k \<longleftrightarrow> fst k \<noteq> 0 \<and> snd k \<noteq> []"

lemma key_before_strict: "\<not> key_before d k k" "key_before d a b \<Longrightarrow> key_before d b e \<Longrightarrow> key_before d a e"
  by (auto simp: key_before_def split: if_splits)

lemma history_sorted:
  assumes "readable conversation s"
  shows "sorted_wrt (key_before d) (history_rows conversation w roots d s)"
proof -
  let ?ms = "messages_of s conversation"
  have "sorted_wrt (<) (map msg_created ?ms)" using assms by (simp add: readable_def kept_conversation_def)
  then have up: "sorted_wrt (\<lambda>a b. msg_created a < msg_created b) ?ms" by (simp add: sorted_wrt_map)
  then have "sorted_wrt (\<lambda>a b. key_before False (row_key a) (row_key b)) ?ms"
    by (rule sorted_wrt_mono_rel [rotated]) (simp add: key_before_def row_key_def)
  moreover have "sorted_wrt (\<lambda>a b. key_before True (row_key a) (row_key b)) (rev ?ms)"
    unfolding sorted_wrt_rev using up by (rule sorted_wrt_mono_rel [rotated]) (simp add: key_before_def row_key_def)
  ultimately show ?thesis by (cases d) (simp_all add: history_rows_def sorted_wrt_map sorted_wrt_filter)
qed

lemma listed_after:
  "listed (history_for w roots d n (key_cursor c)) t i m
    \<longleftrightarrow> in_history w roots m \<and> after_key (key_before d) c (row_key m)"
  if "c = Some (t, i) \<or> c = None"
  using that by (auto simp: listed_def in_history_def history_for_def after_key_def key_cursor_def page_after_def key_before_def row_key_def)

lemma filter_key: "filter (\<lambda>k. P k) (map row_key ms) = map row_key (filter (\<lambda>m. P (row_key m)) ms)"
  by (simp add: filter_map comp_def)

lemma nat_page [simp]: "nat (1 + int n) = Suc n" "nat (2 + int n) = Suc (Suc n)"
  by simp_all

lemma row_key_clone [simp]: "row_key (clone_message s m) = row_key m"
  by (simp add: row_key_def)

lemma page_keys_take:
  assumes "\<forall>m \<in> set rows. cloned_ok m"
  shows "page_keys (finish_page (int (Suc n)) (take (nat (int (Suc n) + 1)) (map (clone_message s) rows))) =
    (let later = map row_key rows in (take (Suc n) later, if length later > Suc n then Some (later ! (Suc n - 1)) else None))"
  using assms
  by (subst finish_page_take)
    (auto simp: page_keys_def Let_def cursor_key_def take_map [symmetric] row_key_def [symmetric] comp_def)

lemma history_page:
  assumes r: "readable conversation s" and c: "pred_option minted_key c"
  shows "history_fetch conversation w roots d n s c =
    (let later = filter (after_key (key_before d) c) (history_rows conversation w roots d s)
     in (take (Suc n) later, if length later > Suc n then Some (later ! (Suc n - 1)) else None))"
proof -
  let ?ms = "if d then rev (messages_of s conversation) else messages_of s conversation"
  obtain t i where dec: "decode_message_cursor_with_root (key_cursor c) = Inr (t, i, False)" "c = Some (t, i) \<or> c = None"
    using c by (cases c) (auto simp: key_cursor_def decode_message_cursor_with_root_def minted_key_def)
  let ?rows = "filter (\<lambda>m. in_history w roots m \<and> after_key (key_before d) c (row_key m)) ?ms"
  have "history_fetch conversation w roots d n s c = page_keys (finish_page (int (Suc n))
      (collect s (listed (history_for w roots d n (key_cursor c)) t i) (int (Suc n)) ?ms []))"
    using dec(1) by (simp add: history_fetch_def list_messages_def history_for_def check_page_def Let_def)
  also have "\<dots> = page_keys (finish_page (int (Suc n)) (take (nat (int (Suc n) + 1)) (map (clone_message s) ?rows)))"
    by (simp add: collect_take ext [OF listed_after [OF dec(2)]])
  also have "\<dots> = (let later = map row_key ?rows in (take (Suc n) later, if length later > Suc n then Some (later ! (Suc n - 1)) else None))"
    using r by (intro page_keys_take) (auto simp: readable_def list_all_iff split: if_splits)
  also have "map row_key ?rows = filter (after_key (key_before d) c) (history_rows conversation w roots d s)"
    by (simp add: history_rows_def filter_key conj_commute)
  finally show ?thesis .
qed

interpretation history: keyset_pages "key_before d" "readable conversation" "history_rows conversation w roots d"
  "history_fetch conversation w roots d n" "Suc n" minted_key for d conversation w roots n
proof
  show "minted_key k" if "readable conversation s" "k \<in> set (history_rows conversation w roots d s)" for s k
    using that by (auto simp: history_rows_def readable_def list_all_iff minted_key_def row_key_def cloned_ok_def split: if_splits)
qed (use key_before_strict history_sorted history_page in \<open>auto split: if_splits\<close>)


lemma history_rows_reversed: "history_rows conversation w roots True s = rev (history_rows conversation w roots False s)"
  by (simp add: history_rows_def rev_map rev_filter [symmetric])

text \<open>
  Both directions visit the same rows. Read page by page while nothing changes, a conversation
  ends after as many pages as it needs, forwards with exactly its visible messages from the first to
  the last, and backwards with the same from the last to the first.
\<close>

theorem history_directions_agree:
  assumes "readable conversation s" "length (history_rows conversation w roots False s) \<le> m"
  shows "walk (history_fetch conversation w roots False n) (replicate (Suc m) s) None = (history_rows conversation w roots False s, True)
    \<and> walk (history_fetch conversation w roots True n) (replicate (Suc m) s) None = (rev (history_rows conversation w roots False s), True)"
proof -
  have "walk (history_fetch conversation w roots d n) (replicate (Suc m) s) None = (history_rows conversation w roots d s, True)" for d
  proof -
    have "length (history_rows conversation w roots d s) \<le> m" using assms(2) by (cases d) (simp_all add: history_rows_reversed)
    then show ?thesis using history.walk_still [OF assms(1), of d None w roots m n] by (simp add: after_key_def [abs_def])
  qed
  from this [of False] this [of True] show ?thesis by (simp add: history_rows_reversed)
qed

subsection \<open>A thread as a keyset read\<close>

type_synonym thread_key = "bool \<times> time \<times> string"

text \<open>The root first, then by instant and identifier: smaller is earlier.\<close>

definition thread_rank :: "string \<Rightarrow> message \<Rightarrow> thread_key" where
  "thread_rank root m = (\<not> thread_root_at root m, msg_created m, msg_id m)"

lemma thread_before_rank: "thread_message_before root a b \<longleftrightarrow> thread_rank root a < thread_rank root b"
  by (auto simp: thread_message_before_def thread_rank_def message_before_def less_prod_def')

lemma thread_rank_clone [simp]: "thread_rank root (clone_message s m) = thread_rank root m"
  by (simp add: thread_rank_def thread_root_at_def)

lemma insort_split:
  fixes f :: "'a \<Rightarrow> 'b :: linorder"
  assumes "sorted (map f xs)" "f x \<notin> f ` set xs"
  shows "insort_key f x xs = takeWhile (\<lambda>y. f y < f x) xs @ x # dropWhile (\<lambda>y. f y < f x) xs"
  using assms
proof (induction xs)
  case (Cons a xs)
  then have "f a \<noteq> f x" by auto
  then show ?case using Cons by (cases "f a < f x") (auto simp: not_less)
qed simp

lemma search_split:
  fixes f :: "'a \<Rightarrow> 'b :: linorder"
  assumes "sorted (map f xs)" "f x \<notin> f ` set xs"
  shows "sort_search (length xs) (\<lambda>i. f x < f (xs ! i)) = length (takeWhile (\<lambda>y. f y < f x) xs)"
proof (rule sort_search_finds)
  let ?k = "length (takeWhile (\<lambda>y. f y < f x) xs)"
  show "?k \<le> length xs" by (rule length_takeWhile_le)
  show "\<forall>i < length xs. f x < f (xs ! i) \<longleftrightarrow> ?k \<le> i"
  proof (intro allI impI iffI)
    fix i assume i: "i < length xs"
    show "?k \<le> i" if "f x < f (xs ! i)"
    proof (rule ccontr)
      assume "\<not> ?k \<le> i"
      then have "xs ! i \<in> set (takeWhile (\<lambda>y. f y < f x) xs)" by (metis not_le nth_mem takeWhile_nth)
      then show False using that by (auto dest: set_takeWhileD)
    qed
    show "f x < f (xs ! i)" if k: "?k \<le> i"
    proof -
      have "\<not> f (xs ! ?k) < f x" using k i by (intro nth_length_takeWhile) simp
      then have "f x \<le> f (xs ! i)" using sorted_nth_mono [OF assms(1), of ?k i] k i by simp
      moreover have "f (xs ! i) \<noteq> f x" using assms(2) i nth_mem by (metis image_eqI)
      ultimately show ?thesis by simp
    qed
  qed
qed

lemma append_sorted_insort:
  fixes f :: "'a \<Rightarrow> 'b :: linorder"
  assumes "sorted (map f xs)" "f x \<notin> f ` set xs"
  shows "append_sorted (\<lambda>a b. f a < f b) cap x xs = take cap (insort_key f x xs)"
  by (simp only: append_sorted_def Let_def search_split [OF assms] insort_split [OF assms] takeWhile_eq_take [symmetric] dropWhile_eq_drop [symmetric])

lemma take_insort:
  fixes f :: "'a \<Rightarrow> 'b :: linorder"
  shows "sorted (map f xs) \<Longrightarrow> take cap (insort_key f x (take cap xs)) = take cap (insort_key f x xs)"
proof (induction xs arbitrary: cap)
  case (Cons a xs)
  show ?case
  proof (cases cap)
    case (Suc k)
    then show ?thesis using Cons.IH [of k] Cons.prems by (cases k) (auto simp: take_Cons')
  qed simp
qed simp

text \<open>The loop keeps the first so many of the sorted rows.\<close>

lemma fold_append_sorted:
  fixes f :: "'a \<Rightarrow> 'b :: linorder"
  assumes "distinct (map f ys)" "sorted (map f xs)" "f ` set xs \<inter> f ` set ys = {}"
  shows "fold (append_sorted (\<lambda>a b. f a < f b) cap) ys (take cap xs) = take cap (fold (insort_key f) ys xs)"
  using assms
proof (induction ys arbitrary: xs)
  case (Cons y ys)
  have "sorted (map f (take cap xs))" using Cons.prems(2) by (simp add: sorted_wrt_take take_map [symmetric])
  moreover have "f y \<notin> f ` set (take cap xs)" using Cons.prems(3) by (auto dest: in_set_takeD)
  ultimately have "append_sorted (\<lambda>a b. f a < f b) cap y (take cap xs) = take cap (insort_key f y xs)"
    by (simp add: append_sorted_insort take_insort [OF Cons.prems(2)])
  moreover have "f ` set (insort_key f y xs) \<inter> f ` set ys = {}" using Cons.prems by (auto simp: set_insort_key)
  ultimately show ?case using Cons.IH [of "insort_key f y xs"] Cons.prems by (simp add: sorted_insort_key)
qed simp

lemma fold_insort_mset: "mset (fold (insort_key f) ys xs) = mset ys + mset xs"
  by (induction ys arbitrary: xs) simp_all

lemma fold_insort_sort:
  fixes f :: "'a \<Rightarrow> 'b :: linorder"
  assumes "distinct (map f ys)"
  shows "fold (insort_key f) ys [] = sort_key f ys"
proof -
  have s: "sorted (map f (fold (insort_key f) ys []))"
  proof -
    have "sorted (map f zs) \<Longrightarrow> sorted (map f (fold (insort_key f) ys zs))" for zs
      by (induction ys arbitrary: zs) (simp_all add: sorted_insort_key)
    then show ?thesis by simp
  qed
  have m: "mset (fold (insort_key f) ys []) = mset ys" by (simp add: fold_insort_mset)
  have "distinct (map f (fold (insort_key f) ys []))" using assms m distinct_by_mset by blast
  moreover have "distinct (map f (sort_key f ys))" using assms distinct_by_mset [of "sort_key f ys" ys f] by simp
  moreover have "set (fold (insort_key f) ys []) = set (sort_key f ys)" using m by (metis mset_eq_setD set_sort)
  moreover have "inj_on f (set (fold (insort_key f) ys []) \<union> set (sort_key f ys))"
    using assms m by (metis calculation(3) distinct_map set_sort sup.idem)
  ultimately show ?thesis using s by (intro map_sorted_distinct_set_unique [of f]) simp_all
qed

definition thread_keys :: "string \<Rightarrow> store_error + message_page \<Rightarrow> thread_key list \<times> thread_key option" where
  "thread_keys root r = (case r of
     Inl _ \<Rightarrow> ([], None)
   | Inr page \<Rightarrow> (map (thread_rank root) (mp_messages page), (case mp_next page of CursorOf t i rt \<Rightarrow> Some (\<not> rt, t, i) | _ \<Rightarrow> None)))"

definition thread_fetch ::
  "string \<Rightarrow> string \<Rightarrow> message_window \<Rightarrow> nat \<Rightarrow> chat \<Rightarrow> thread_key option \<Rightarrow> thread_key list \<times> thread_key option" where
  "thread_fetch conversation root w n s c =
     thread_keys root (list_thread_messages conversation root
       \<lparr>tr_page = \<lparr>pr_limit = int (Suc n), pr_cursor = (case c of None \<Rightarrow> NoCursor | Some (r, t, i) \<Rightarrow> CursorOf t i (\<not> r)),
          pr_descending = False\<rparr>, tr_window = w\<rparr> s)"

lemma thread_keys_take:
  assumes "\<forall>m \<in> set rows. cloned_ok m" "\<forall>m \<in> set rows. thread_rank root m = (msg_thread m \<noteq> [], msg_created m, msg_id m)"
  shows "thread_keys root (finish_page (int (Suc n)) (take (nat (int (Suc n) + 1)) (map (clone_message s) rows))) =
    (let later = map (thread_rank root) rows in (take (Suc n) later, if length later > Suc n then Some (later ! (Suc n - 1)) else None))"
  using assms
  by (subst finish_page_take) (auto simp: thread_keys_def Let_def take_map [symmetric] comp_def)

definition thread_rows :: "string \<Rightarrow> string \<Rightarrow> message_window \<Rightarrow> chat \<Rightarrow> thread_key list" where
  "thread_rows conversation root w s =
     map (thread_rank root) (sort_key (thread_rank root) (filter (in_thread root w) (messages_of s conversation)))"

definition thread_readable :: "string \<Rightarrow> string \<Rightarrow> chat \<Rightarrow> bool" where
  "thread_readable conversation root s \<longleftrightarrow> readable conversation s \<and> root \<noteq> []"

definition minted_thread_key :: "string \<Rightarrow> thread_key \<Rightarrow> bool" where
  "minted_thread_key root = (\<lambda>(r, t, i). t \<noteq> 0 \<and> i \<noteq> [] \<and> (r \<or> new_message_timestamp t = root))"

lemma ranks_distinct:
  assumes "readable conversation s"
  shows "distinct (map (thread_rank root) (filter P (messages_of s conversation)))"
proof -
  have "distinct (map msg_created (messages_of s conversation))"
    using assms by (simp add: readable_def kept_conversation_def strict_sorted_iff)
  then have "distinct (map (thread_rank root) (messages_of s conversation))"
    by (auto simp: distinct_map inj_on_def thread_rank_def)
  then show ?thesis by (simp add: distinct_map inj_on_def)
qed

lemma thread_member_root: "in_thread root w m \<Longrightarrow> root \<noteq> [] \<Longrightarrow> thread_root_at root m \<longleftrightarrow> msg_thread m = []"
  by (auto simp: in_thread_def thread_root_at_def)

lemma fold_if: "fold (\<lambda>m a. if P m then g m a else a) ms a = fold g (filter P ms) a"
  by (induction ms arbitrary: a) simp_all

lemma fold_map_arg: "fold (\<lambda>m. g (h m)) ms a = fold g (map h ms) a"
  by (induction ms arbitrary: a) simp_all

lemma filter_sort_key: "filter P (sort_key f xs) = sort_key f (filter P xs)"
  by (rule filter_sort)

lemma thread_page:
  assumes r: "thread_readable conversation root s" and c: "pred_option (minted_thread_key root) c"
  shows "thread_fetch conversation root w n s c =
    (let later = filter (after_key (<) c) (thread_rows conversation root w s)
     in (take (Suc n) later, if length later > Suc n then Some (later ! (Suc n - 1)) else None))"
proof -
  let ?ms = "messages_of s conversation" and ?f = "thread_rank root"
  let ?cursor = "case c of None \<Rightarrow> NoCursor | Some (r, t, i) \<Rightarrow> CursorOf t i (\<not> r)"
  have root: "root \<noteq> []" and rd: "readable conversation s" using r by (simp_all add: thread_readable_def)
  obtain t i cr where dec: "decode_message_cursor_with_root ?cursor = Inr (t, i, cr)"
    and pos: "?cursor = NoCursor \<or> \<not> thread_message_before_or_equal m t i cr root \<longleftrightarrow> after_key (<) c (?f m)" for m
  proof (cases c)
    case None
    then show ?thesis using that [of 0 "[]" False] by (simp add: decode_message_cursor_with_root_def after_key_def)
  next
    case (Some k)
    then obtain r t i where k: "c = Some (r, t, i)" by (cases k) auto
    have "?f (cursor_message t i (\<not> r) root m) = (r, t, i)" for m
      using c k root by (auto simp: cursor_message_def thread_rank_def thread_root_at_def minted_thread_key_def)
    then show ?thesis using that [of t i "\<not> r"] c k
      by (simp add: decode_message_cursor_with_root_def minted_thread_key_def thread_message_before_or_equal_def
          thread_before_rank after_key_def)
  qed
  let ?P = "\<lambda>m. in_thread root w m \<and> after_key (<) c (?f m)"
  let ?rows = "sort_key ?f (filter ?P ?ms)"
  have clone_sort: "sort_key ?f (map (clone_message s) xs) = map (clone_message s) (sort_key ?f xs)" for xs
  proof -
    have "insort_key ?f (clone_message s x) (map (clone_message s) ys) = map (clone_message s) (insort_key ?f x ys)" for x ys
      by (induction ys) simp_all
    then show ?thesis by (induction xs) simp_all
  qed
  have "fold (keep_in_thread root w (int (Suc n)) ?cursor t i cr s) ?ms []
      = fold (append_sorted (\<lambda>a b. ?f a < ?f b) (Suc (Suc n))) (map (clone_message s) (filter ?P ?ms)) (take (Suc (Suc n)) [])"
    by (simp add: keep_in_thread_def [abs_def] pos fold_if fold_map_arg thread_before_rank [abs_def])
  also have "\<dots> = take (Suc (Suc n)) (map (clone_message s) ?rows)"
  proof -
    have "distinct (map ?f (map (clone_message s) (filter ?P ?ms)))"
      using ranks_distinct [OF rd, of root ?P] by (simp add: comp_def)
    then show ?thesis by (subst fold_append_sorted) (simp_all add: fold_insort_sort clone_sort)
  qed
  finally have loop: "list_thread_messages conversation root
      \<lparr>tr_page = \<lparr>pr_limit = int (Suc n), pr_cursor = ?cursor, pr_descending = False\<rparr>, tr_window = w\<rparr> s
    = finish_page (int (Suc n)) (take (nat (int (Suc n) + 1)) (map (clone_message s) ?rows))"
    using dec by (simp add: list_thread_messages_def check_ascending_page_def check_page_def)
  have "\<forall>m \<in> set ?rows. cloned_ok m" using rd by (auto simp: readable_def list_all_iff)
  moreover have "\<forall>m \<in> set ?rows. ?f m = (msg_thread m \<noteq> [], msg_created m, msg_id m)"
    using thread_member_root [OF _ root] by (auto simp: thread_rank_def)
  ultimately have "thread_fetch conversation root w n s c =
      (let later = map ?f ?rows in (take (Suc n) later, if length later > Suc n then Some (later ! (Suc n - 1)) else None))"
    unfolding thread_fetch_def loop by (rule thread_keys_take)
  also have "map ?f ?rows = filter (after_key (<) c) (thread_rows conversation root w s)"
    by (simp add: thread_rows_def filter_map comp_def filter_sort_key conj_commute)
  finally show ?thesis .
qed

interpretation thread: keyset_pages "(<)" "thread_readable conversation root" "thread_rows conversation root w"
  "thread_fetch conversation root w n" "Suc n" "minted_thread_key root" for conversation root w n
proof
  show "sorted_wrt (<) (thread_rows conversation root w s)" if "thread_readable conversation root s" for s
  proof -
    have "distinct (map (thread_rank root) (filter (in_thread root w) (messages_of s conversation)))"
      using that ranks_distinct by (simp add: thread_readable_def)
    then have "distinct (thread_rows conversation root w s)"
      unfolding thread_rows_def using distinct_by_mset [of "sort_key (thread_rank root) (filter (in_thread root w) (messages_of s conversation))"
        "filter (in_thread root w) (messages_of s conversation)" "thread_rank root"] by simp
    then show ?thesis by (simp add: strict_sorted_iff thread_rows_def)
  qed
  show "minted_thread_key root k" if "thread_readable conversation root s" "k \<in> set (thread_rows conversation root w s)" for s k
    using that by (auto simp: thread_rows_def thread_readable_def readable_def list_all_iff minted_thread_key_def thread_rank_def
        cloned_ok_def thread_root_at_def)
qed (use thread_page in \<open>auto split: if_splits\<close>)

text \<open>
  A thread reads root first and then its replies in order, each once. A walk through a thread
  whose messages change meanwhile lists no message twice, keeps the order, and, when it ends, has
  listed every message that was in the thread all along; with nothing changing it is exactly the
  thread.
\<close>

theorem thread_pages_list_once:
  assumes "\<forall>s \<in> set ss. thread_readable conversation root s"
    "walk (thread_fetch conversation root w n) ss None = (seen, ended)"
  shows "sorted_wrt (<) seen \<and> distinct seen
    \<and> (ended \<longrightarrow> (\<forall>k. (\<forall>s \<in> set ss. k \<in> set (thread_rows conversation root w s)) \<longrightarrow> k \<in> set seen))
    \<and> (\<forall>s m. thread_readable conversation root s \<and> length (thread_rows conversation root w s) \<le> m \<longrightarrow>
        walk (thread_fetch conversation root w n) (replicate (Suc m) s) None = (thread_rows conversation root w s, True))"
proof (intro conjI impI allI)
  show "sorted_wrt (<) seen" using thread.walk_sound [OF assms(1) _ assms(2)] by simp
  show "distinct seen" using thread.listed_once [OF assms(1) _ assms(2)] by simp
  show "k \<in> set seen" if "ended" "\<forall>s \<in> set ss. k \<in> set (thread_rows conversation root w s)" for k
    using thread.walk_complete [of ss conversation root k w None n seen] assms that by (auto simp: after_key_def)
  show "walk (thread_fetch conversation root w n) (replicate (Suc m) s) None = (thread_rows conversation root w s, True)"
    if "thread_readable conversation root s \<and> length (thread_rows conversation root w s) \<le> m" for s m
    using thread.walk_still [of conversation root s None w m n] that by (simp add: after_key_def [abs_def])
qed

subsection \<open>Examples\<close>

definition everything :: message_window where
  "everything = \<lparr>win_oldest = 0, win_latest = 0, win_inclusive = False\<rparr>"

definition sample_talk :: chat where
  "sample_talk = sample_store [sample_message ''A'' [] 1000, sample_message ''B'' [] 2000, sample_message ''C'' [] 3000]"

lemma sample_talk_rows:
  "readable ''C'' sample_talk" "history_rows ''C'' everything False False sample_talk = [(1000, ''A''), (2000, ''B''), (3000, ''C'')]"
  by (simp_all add: readable_def sample_talk_def kept_conversation_def cloned_ok_def sample_message_def message_instant_def
      history_rows_def in_history_def everything_def window_contains_def row_key_def)

lemma history_directions_agree_witness:
  "walk (history_fetch ''C'' everything False True 0) (replicate 4 sample_talk) None = ([(3000, ''C''), (2000, ''B''), (1000, ''A'')], True)"
  using history_directions_agree [OF sample_talk_rows(1), of everything False 3 0] by (simp add: sample_talk_rows)


definition sample_root :: string where
  "sample_root = new_message_timestamp 2000"

definition sample_thread :: chat where
  "sample_thread = sample_store [sample_message ''A'' sample_root 1000, sample_message ''B'' [] 2000]"

lemma sample_root_not_empty: "sample_root \<noteq> []"
  by (simp add: sample_root_def new_message_timestamp_def)

lemma thread_pages_list_once_witness:
  "\<exists>seen. walk (thread_fetch ''C'' sample_root everything 0) [sample_thread] None = (seen, False) \<and> distinct seen"
proof -
  have t: "thread_readable ''C'' sample_root sample_thread"
    by (simp add: thread_readable_def sample_root_not_empty readable_def sample_thread_def kept_conversation_def cloned_ok_def
        message_instant_def) (simp add: sample_message_def)
  have rows: "length (thread_rows ''C'' sample_root everything sample_thread) = 2"
    by (simp add: thread_rows_def sample_thread_def in_thread_def sample_root_not_empty)
      (simp add: sample_message_def thread_root_at_def sample_root_def [symmetric] everything_def window_contains_def)
  obtain ks d where f: "thread_fetch ''C'' sample_root everything 0 sample_thread None = (ks, Some d)"
    using thread_page [OF t, of None everything 0] rows by (simp add: after_key_def [abs_def] Let_def)
  then have w: "walk (thread_fetch ''C'' sample_root everything 0) [sample_thread] None = (ks, False)" by simp
  have "\<forall>s \<in> set [sample_thread]. thread_readable ''C'' sample_root s" using t by simp
  from thread_pages_list_once [OF this w] w show ?thesis by blast
qed

subsection \<open>What an appended notice does to a walk\<close>

text \<open>
  The list a conversation notice left out of order (\<open>notice_out_of_order\<close>): a client that pages
  forward one row at a time is told after the first page that there is more, is given an empty
  second page, and never sees the notice.
\<close>

definition out_of_order :: chat where
  "out_of_order = fst (append_conversation_notice (sample_message ''N'' [] 2000) (sample_store [sample_message ''A'' [] 5000]))"

lemma notice_never_paged:
  "(2000, ''N'') \<in> set (history_rows ''C'' everything False False out_of_order)"
  "walk (history_fetch ''C'' everything False False 0) (replicate 3 out_of_order) None = ([(5000, ''A'')], True)"
proof -
  have m: "messages_of out_of_order ''C'' = [sample_message ''A'' [] 5000, sample_message ''N'' [] 2000]"
  proof -
    have "next_free {5000} 2000 = 2000" by (simp add: next_free_free)
    then show ?thesis by (simp add: out_of_order_def append_conversation_notice_def instants_def) (simp add: sample_message_def)
  qed
  then show "(2000, ''N'') \<in> set (history_rows ''C'' everything False False out_of_order)"
    by (simp add: history_rows_def in_history_def everything_def window_contains_def row_key_def sample_message_def)
  show "walk (history_fetch ''C'' everything False False 0) (replicate 3 out_of_order) None = ([(5000, ''A'')], True)"
    by (simp add: numeral_eq_Suc history_fetch_def list_messages_def history_for_def check_page_def key_cursor_def
        decode_message_cursor_with_root_def m listed_def everything_def window_contains_def page_after_def)
      (simp add: sample_message_def clone_message_def finish_page_def new_message_cursor_def page_keys_def row_key_def cursor_key_def
        decode_message_cursor_with_root_def m listed_def everything_def window_contains_def page_after_def Let_def)
qed

end
