(* ===== verification/Retention_Effects.thy ===== *)
theory Retention_Effects
  imports Message_Posts
begin

section \<open>What retention removes\<close>

text \<open>
  What one sweep removes and what it may not, how a backlog drains, and how often a conversation is
  swept; where a full batch breaks the thread rule, where the worker forgets that a sweep was not
  complete, and where the SQL profile's selection stops short.
\<close>

subsection \<open>One sweep\<close>

lemma sweep_messages_of:
  assumes "0 < limit" "sweep_messages c horizon limit s = (s', n, complete)"
  shows "messages_of s' d = (if d = c then without_first (nat limit) (sweepable horizon (live_threads horizon (messages_of s c))) (messages_of s c)
      else messages_of s d)"
    "n = int (length (take (nat limit) (filter (sweepable horizon (live_threads horizon (messages_of s c))) (messages_of s c))))"
    "complete \<longleftrightarrow> \<not> cut_short (nat limit) (sweepable horizon (live_threads horizon (messages_of s c))) (\<lambda>m. msg_created m < horizon) (messages_of s c)"
proof -
  have "messages (fold (forget_message c) ms s) = messages s" for ms by (simp add: fold_frame [of messages] frame_simps)
  then have "messages_of (fold (forget_message c) ms s) d = messages_of s d" for ms by (rule messages_of_same)
  then show "messages_of s' d = (if d = c then without_first (nat limit) (sweepable horizon (live_threads horizon (messages_of s c))) (messages_of s c)
      else messages_of s d)"
    "n = int (length (take (nat limit) (filter (sweepable horizon (live_threads horizon (messages_of s c))) (messages_of s c))))"
    "complete \<longleftrightarrow> \<not> cut_short (nat limit) (sweepable horizon (live_threads horizon (messages_of s c))) (\<lambda>m. msg_created m < horizon) (messages_of s c)"
    using assms sweep_messages_result [OF assms(1), of c horizon s] by (auto simp: Let_def)
qed

lemma without_first_not: "x \<in> set xs \<Longrightarrow> \<not> P x \<Longrightarrow> x \<in> set (without_first n P xs)"
  by (induction n P xs rule: without_first.induct) auto

lemma root_of_live: "msg_thread r = [] \<Longrightarrow> new_message_timestamp (msg_created r) \<in> live \<Longrightarrow> \<not> sweepable horizon live r"
  by (simp add: sweepable_def retained_by_thread_def)

lemma kept_reply_live:
  assumes "m \<in> set ms" "msg_thread m \<noteq> []" "\<not> sweepable horizon (live_threads horizon ms) m"
  shows "msg_thread m \<in> live_threads horizon ms"
  using assms by (auto simp: sweepable_def retained_by_thread_def live_threads_def)

text \<open>
  C26. A sweep removes what has expired and nothing else. Whatever its limit, it removes only messages
  of its conversation that are older than the horizon and in no live thread, and no more than the
  limit; a sweep that reports itself complete has removed all of those, and leaves no reply behind
  whose root it removed.
\<close>

theorem sweep_removes_the_expired:
  assumes "0 < limit" "sweep_messages c horizon limit s = (s', n, complete)"
  shows "(\<forall>d. d \<noteq> c \<longrightarrow> messages_of s' d = messages_of s d)
    \<and> n \<le> limit \<and> int (length (messages_of s c)) = int (length (messages_of s' c)) + n
    \<and> (\<forall>m \<in> set (messages_of s c). \<not> sweepable horizon (live_threads horizon (messages_of s c)) m \<longrightarrow> m \<in> set (messages_of s' c))
    \<and> (complete \<longrightarrow> messages_of s' c = filter (\<lambda>m. \<not> sweepable horizon (live_threads horizon (messages_of s c)) m) (messages_of s c)
        \<and> (\<forall>reply \<in> set (messages_of s' c). \<forall>root \<in> set (messages_of s c).
            msg_thread reply \<noteq> [] \<and> msg_thread root = [] \<and> new_message_timestamp (msg_created root) = msg_thread reply
            \<longrightarrow> root \<in> set (messages_of s' c)))"
proof -
  let ?ms = "messages_of s c"
  let ?P = "sweepable horizon (live_threads horizon ?ms)"
  note r = sweep_messages_of [OF assms]
  have len: "length ?ms = length (without_first (nat limit) ?P ?ms) + length (take (nat limit) (filter ?P ?ms))"
    using without_first_mset [of ?ms "nat limit" ?P] by (metis size_mset size_union)
  have all: "without_first (nat limit) ?P ?ms = filter (\<lambda>m. \<not> ?P m) ?ms" if complete
    using that r(3) not_cut_short [of "nat limit" ?P "\<lambda>m. msg_created m < horizon" ?ms] by (auto simp: sweepable_def)
  have "root \<in> set (messages_of s' c)"
    if "complete" "reply \<in> set (messages_of s' c)" "root \<in> set ?ms" "msg_thread reply \<noteq> []" "msg_thread root = []"
      "new_message_timestamp (msg_created root) = msg_thread reply" for reply root
  proof -
    have "reply \<in> set ?ms" "\<not> ?P reply" using that(2) all [OF that(1)] r(1) by auto
    then have "msg_thread reply \<in> live_threads horizon ?ms" using kept_reply_live that(4) by blast
    then have "\<not> ?P root" using root_of_live that(5,6) by metis
    then show ?thesis using all [OF that(1)] r(1) that(3) by simp
  qed
  moreover have "n \<le> limit" using r(2) assms(1) by simp
  moreover have "int (length ?ms) = int (length (messages_of s' c)) + n" using len r(1,2) by simp
  moreover have "\<forall>m \<in> set ?ms. \<not> ?P m \<longrightarrow> m \<in> set (messages_of s' c)" using r(1) without_first_not by fastforce
  ultimately show ?thesis using r(1) all by auto
qed

subsection \<open>A backlog drains\<close>

fun sweep_times :: "nat \<Rightarrow> string \<Rightarrow> time \<Rightarrow> int \<Rightarrow> chat \<Rightarrow> chat" where
  "sweep_times 0 c horizon limit s = s"
| "sweep_times (Suc k) c horizon limit s = sweep_times k c horizon limit (fst (sweep_messages c horizon limit s))"

lemma live_after_sweep:
  "live_threads horizon (without_first n (sweepable horizon live) ms) = live_threads horizon ms"
proof -
  have F: "filter (\<lambda>m. msg_thread m \<noteq> [] \<and> \<not> msg_created m < horizon) (without_first n (sweepable horizon live) ms)
      = filter (\<lambda>m. msg_thread m \<noteq> [] \<and> \<not> msg_created m < horizon) ms"
    by (induction n "sweepable horizon live" ms rule: without_first.induct) (auto simp: sweepable_def)
  have L: "live_threads horizon xs = msg_thread ` set (filter (\<lambda>m. msg_thread m \<noteq> [] \<and> \<not> msg_created m < horizon) xs)" for xs
    by (auto simp: live_threads_def)
  show ?thesis by (simp only: L F)
qed

lemma without_first_twice:
  "without_first m P (without_first n P xs) = without_first (n + m) P xs"
  by (induction n P xs rule: without_first.induct) auto

lemma sweep_times_of:
  assumes "0 < limit"
  shows "messages_of (sweep_times k c horizon limit s) c
    = without_first (k * nat limit) (sweepable horizon (live_threads horizon (messages_of s c))) (messages_of s c)"
proof (induction k arbitrary: s)
  case (Suc k)
  obtain s1 n x where s1: "sweep_messages c horizon limit s = (s1, n, x)" by (metis prod_cases3)
  have "messages_of s1 c = without_first (nat limit) (sweepable horizon (live_threads horizon (messages_of s c))) (messages_of s c)"
    using sweep_messages_of(1) [OF assms s1, of c] by simp
  then show ?case using Suc [of s1] s1 by (simp add: live_after_sweep without_first_twice)
qed simp

text \<open>
  Repeated sweeps reach everything that has expired. However large the backlog and however small
  the limit, sweeping a conversation to one horizon as often as the backlog needs removes every
  expired message and keeps every other one.
\<close>

theorem repeated_sweeps_drain:
  assumes "0 < limit" "length (filter (sweepable horizon (live_threads horizon (messages_of s c))) (messages_of s c)) \<le> k * nat limit"
  shows "messages_of (sweep_times k c horizon limit s) c
    = filter (\<lambda>m. \<not> sweepable horizon (live_threads horizon (messages_of s c)) m) (messages_of s c)"
  using assms by (simp add: sweep_times_of without_first_all)

subsection \<open>How often a conversation is swept\<close>

definition sweep_due :: "time \<Rightarrow> chat \<Rightarrow> string \<Rightarrow> bool" where
  "sweep_due before s i \<longleftrightarrow> \<not> (case retention_swept_at s i of None \<Rightarrow> False | Some swept \<Rightarrow> swept > before)"

lemma claim_sweeps_claims:
  "claim_sweeps workspace before swept_at limit order s claimed = (s', r) \<Longrightarrow> before < swept_at \<Longrightarrow>
    \<exists>new. r = claimed @ new \<and> (\<forall>i \<in> set new. sweep_due before s i)
      \<and> retention_swept_at s' = (\<lambda>i. if i \<in> set new then Some swept_at else retention_swept_at s i)"
proof (induction workspace before swept_at limit order s claimed rule: claim_sweeps.induct)
  case (2 workspace before swept_at limit i order s claimed)
  let ?s = "s\<lparr>retention_swept_at := (retention_swept_at s)(i \<mapsto> swept_at)\<rparr>"
  consider "int (length claimed) = limit" | "int (length claimed) \<noteq> limit" "workspace \<noteq> [] \<and> conv_workspace (conversation_of s i) \<noteq> workspace"
    | "int (length claimed) \<noteq> limit" "\<not> (workspace \<noteq> [] \<and> conv_workspace (conversation_of s i) \<noteq> workspace)" "\<not> sweep_due before s i"
    | "int (length claimed) \<noteq> limit" "\<not> (workspace \<noteq> [] \<and> conv_workspace (conversation_of s i) \<noteq> workspace)" "sweep_due before s i"
    by blast
  then show ?case
  proof cases
    case 4
    then have due: "\<not> (case retention_swept_at s i of None \<Rightarrow> False | Some swept \<Rightarrow> before < swept)"
      by (simp add: sweep_due_def)
    then have "claim_sweeps workspace before swept_at limit order ?s (claimed @ [i]) = (s', r)"
      using "2.prems"(1) 4(1,2) by (simp only: claim_sweeps.simps if_False)
    then obtain new where new: "r = (claimed @ [i]) @ new" "\<forall>j \<in> set new. sweep_due before ?s j"
      "retention_swept_at s' = (\<lambda>j. if j \<in> set new then Some swept_at else retention_swept_at ?s j)"
      using "2.IH"(3) [OF 4(1,2) due _ "2.prems"(2)] by blast
    have "sweep_due before s j" if "j \<in> set (i # new)" for j
      using that new(2) 4(3) "2.prems"(2) by (auto simp: sweep_due_def split: if_splits)
    then show ?thesis using new(1,3) by (intro exI [of _ "i # new"]) (auto simp: fun_eq_iff)
  qed (use "2" in \<open>auto simp: sweep_due_def\<close>)
qed auto

text \<open>
  A conversation is swept at most once an interval. Two claims less than the interval apart, in
  whatever order the conversations are looked at and whatever happens to the messages in between,
  have no conversation in common.
\<close>

theorem swept_once_an_interval:
  assumes "claim_retention_sweep order workspace (now - retention_interval) now limit s = (s1, Inr claimed)"
    "retention_swept_at s2 = retention_swept_at s1"
    "claim_retention_sweep order' workspace' (later - retention_interval) later limit' s2 = (s3, Inr claimed')"
    "now \<le> later" "later < now + retention_interval"
  shows "set claimed \<inter> set claimed' = {}"
proof -
  obtain r where r: "claim_sweeps workspace (now - retention_interval) now limit order s [] = (s1, r)" "claimed = sort r"
    using assms(1) by (auto simp: claim_retention_sweep_def split: if_splits prod.splits)
  obtain r' where r': "claim_sweeps workspace' (later - retention_interval) later limit' order' s2 [] = (s3, r')" "claimed' = sort r'"
    using assms(3) by (auto simp: claim_retention_sweep_def split: if_splits prod.splits)
  have i: "0 < retention_interval" by (simp add: retention_interval_def day_def)
  have "retention_swept_at s1 j = Some now" if "j \<in> set claimed" for j
    using claim_sweeps_claims [OF r(1)] i that r(2) by auto
  moreover have "sweep_due (later - retention_interval) s2 j" if "j \<in> set claimed'" for j
    using claim_sweeps_claims [OF r'(1)] i that r'(2) by auto
  ultimately have "j \<notin> set claimed" if "j \<in> set claimed'" for j
    using that assms(2,4,5) by (force simp: sweep_due_def)
  then show ?thesis by blast
qed

subsection \<open>Examples\<close>

definition old_thread :: chat where
  "old_thread = sample_store [sample_message ''R'' [] 1000, sample_message ''A'' (new_message_timestamp 1000) 2000]"

lemma thread_name_not_empty: "new_message_timestamp t \<noteq> []"
  by (simp add: new_message_timestamp_def)

lemma old_thread_live: "live_threads 5000 (messages_of old_thread ''C'') = {}"
  by (simp add: old_thread_def live_threads_def sample_message_def)

lemma old_thread_expired: "sweepable 5000 {} (sample_message i thread t) \<longleftrightarrow> t < 5000"
  by (simp add: sweepable_def retained_by_thread_def sample_message_def)

lemma sample_message_created: "msg_created (sample_message i th t) = t"
  by (simp add: sample_message_def)

lemma sweep_removes_the_expired_witness:
  "messages_of (fst (sweep_messages ''C'' 5000 9 old_thread)) ''C'' = []"
proof -
  obtain s' n x where r: "sweep_messages ''C'' 5000 9 old_thread = (s', n, x)" by (metis prod_cases3)
  have "x" using sweep_messages_of(3) [OF _ r] by (simp add: old_thread_live) (simp add: old_thread_def old_thread_expired)
  then have "messages_of s' ''C'' = filter (\<lambda>m. \<not> sweepable 5000 (live_threads 5000 (messages_of old_thread ''C'')) m) (messages_of old_thread ''C'')"
    using sweep_removes_the_expired [OF _ r] by simp
  then show ?thesis using r by (simp add: old_thread_live) (simp add: old_thread_def old_thread_expired)
qed

lemma repeated_sweeps_drain_witness: "messages_of (sweep_times 2 ''C'' 5000 1 old_thread) ''C'' = []"
  using repeated_sweeps_drain [of 1 5000 old_thread "''C''" 2]
  by (simp add: old_thread_live) (simp add: old_thread_def old_thread_expired)

text \<open>
  A batch that is full leaves a reply whose root it removed, until the next sweep: the thread rule
  holds of complete sweeps only.
\<close>

lemma full_batch_orphans_reply:
  "messages_of (fst (sweep_messages ''C'' 5000 1 old_thread)) ''C'' = [sample_message ''A'' (new_message_timestamp 1000) 2000]"
proof -
  obtain s' n x where r: "sweep_messages ''C'' 5000 1 old_thread = (s', n, x)" by (metis prod_cases3)
  then show ?thesis using sweep_messages_of(1) [OF _ r, of "''C''"] by (simp add: old_thread_live) (simp add: old_thread_def old_thread_expired)
qed

text \<open>
  That sweep says it is not complete, and the worker does not look: the conversation's watermark has
  moved when it was claimed, so what is left waits for the next interval, and a conversation in
  which more than the limit expires each day is never caught up.
\<close>

lemma incomplete_sweep_waits:
  "snd (snd (sweep_messages ''C'' 5000 1 old_thread)) = False"
  "claim_retention_sweep [''C''] ''T'' (day - retention_interval) day 1 old_thread
    = (old_thread\<lparr>retention_swept_at := [''C'' \<mapsto> day]\<rparr>, Inr [''C''])"
  "snd (claim_retention_sweep [''C''] ''T'' (day + 1 - retention_interval) (day + 1) 1
      (old_thread\<lparr>retention_swept_at := [''C'' \<mapsto> day]\<rparr>)) = Inr []"
proof -
  obtain s' n x where r: "sweep_messages ''C'' 5000 1 old_thread = (s', n, x)" by (metis prod_cases3)
  then show "snd (snd (sweep_messages ''C'' 5000 1 old_thread)) = False"
    using sweep_messages_of(3) [OF _ r] by (simp add: old_thread_live) (simp add: old_thread_def old_thread_expired sample_message_created)
  show "claim_retention_sweep [''C''] ''T'' (day - retention_interval) day 1 old_thread
    = (old_thread\<lparr>retention_swept_at := [''C'' \<mapsto> day]\<rparr>, Inr [''C''])"
    by (simp add: claim_retention_sweep_def old_thread_def sample_store_def new_store_def conversation_of_def)
  show "snd (claim_retention_sweep [''C''] ''T'' (day + 1 - retention_interval) (day + 1) 1
      (old_thread\<lparr>retention_swept_at := [''C'' \<mapsto> day]\<rparr>)) = Inr []"
    by (simp add: claim_retention_sweep_def retention_interval_def day_def)
qed

lemma swept_once_an_interval_witness:
  "set [''C''] \<inter> set ([] :: string list) = {}"
proof -
  have "snd (claim_retention_sweep [''C''] ''T'' (day + 1 - retention_interval) (day + 1) 1
      (old_thread\<lparr>retention_swept_at := [''C'' \<mapsto> day]\<rparr>)) = Inr []" by (rule incomplete_sweep_waits(3))
  then obtain s3 where s3: "claim_retention_sweep [''C''] ''T'' (day + 1 - retention_interval) (day + 1) 1
      (old_thread\<lparr>retention_swept_at := [''C'' \<mapsto> day]\<rparr>) = (s3, Inr [])" by (metis prod.collapse)
  show ?thesis
    by (rule swept_once_an_interval [OF incomplete_sweep_waits(2) refl s3]) (simp_all add: retention_interval_def day_def)
qed

subsection \<open>The SQL profile's selection\<close>

text \<open>Where no message is held back by a live thread the two profiles select the same messages.\<close>

lemma expired_loop_plain:
  "\<forall>m \<in> set ms. \<not> retained_by_thread live m \<Longrightarrow> int (length expired) \<le> limit \<Longrightarrow>
    expired_loop limit live ms expired = (expired @ take (nat limit - length expired) ms, length expired + length ms \<le> nat limit)"
proof (induction ms arbitrary: expired)
  case (Cons m ms)
  show ?case
  proof (cases "int (length expired) = limit")
    case False
    then have "nat limit - length expired = Suc (nat limit - Suc (length expired))" using Cons.prems(2) by linarith
    then show ?thesis using Cons.IH [of "expired @ [m]"] Cons.prems False by simp
  qed (use Cons.prems in simp)
qed simp

lemma profiles_agree:
  assumes "0 < limit" "\<forall>m \<in> set ms. msg_created m < horizon \<longrightarrow> \<not> retained_by_thread (live_threads horizon ms) m"
  shows "fst (expired_messages horizon limit ms) = take (nat limit) (filter (sweepable horizon (live_threads horizon ms)) ms)"
proof -
  have "filter (sweepable horizon (live_threads horizon ms)) ms = filter (\<lambda>m. msg_created m < horizon) ms"
    using assms(2) by (auto simp: sweepable_def intro: filter_cong)
  moreover have "\<forall>m \<in> set (take (nat (limit + 1)) (filter (\<lambda>m. msg_created m < horizon) ms)). \<not> retained_by_thread (live_threads horizon ms) m"
    using assms(2) by (auto dest: in_set_takeD)
  ultimately show ?thesis using assms(1) by (simp add: expired_messages_def expired_loop_plain min_def)
qed

text \<open>
  Where more old messages than the limit are held back by live threads, the SQL profile looks at
  nothing behind them: it selects nothing and reports the sweep complete, while the memory profile
  removes what has expired.
\<close>

definition held_back_thread :: "message list" where
  "held_back_thread = [sample_message ''R'' [] 1000, sample_message ''A'' (new_message_timestamp 1000) 2000,
     sample_message ''X'' [] 3000, sample_message ''B'' (new_message_timestamp 1000) 9000]"

lemma sql_sweep_starves:
  "expired_messages 5000 1 held_back_thread = ([], True)"
  "take 1 (filter (sweepable 5000 (live_threads 5000 held_back_thread)) held_back_thread) = [sample_message ''X'' [] 3000]"
proof -
  have l: "live_threads 5000 held_back_thread = {new_message_timestamp 1000}"
    by (simp add: held_back_thread_def live_threads_def) (simp add: sample_message_def thread_name_not_empty)
  show "expired_messages 5000 1 held_back_thread = ([], True)"
    by (simp add: expired_messages_def l) (simp add: held_back_thread_def sample_message_def retained_by_thread_def thread_name_not_empty numeral_eq_Suc)
  have ts: "new_message_timestamp 3000 \<noteq> new_message_timestamp 1000"
    by (simp add: new_message_timestamp_def unix_seconds_def nanosecond_def unix_epoch_def padded6_def decimal.simps)
  show "take 1 (filter (sweepable 5000 (live_threads 5000 held_back_thread)) held_back_thread) = [sample_message ''X'' [] 3000]"
    by (simp add: l) (simp add: held_back_thread_def sample_message_def sweepable_def retained_by_thread_def thread_name_not_empty ts)
qed

end
