(* ===== verification/Scheduled.thy ===== *)
theory Scheduled
  imports Messages "HOL-Library.Product_Lexorder"
begin

section \<open>Scheduled messages in memory\<close>

text \<open>
  The scheduled messages of \<^verbatim>\<open>internal/store/memory/memory.go\<close> with the rolling limit of
  \<^verbatim>\<open>internal/store/store.go\<close>: scheduling, rescheduling, unscheduling, and the leased queue the worker
  and \<open>Send now\<close> take them from. An operation that reads the clock takes its readings as
  arguments; the order in which the Go map is iterated never decides an outcome here.
\<close>

subsection \<open>The rolling limit\<close>

text \<open>
  \<^verbatim>\<open>ScheduledMessageLimitExceeded\<close>: two indices over the sorted instants. The inner loop ends at
  \<open>right\<close> at the latest, where the difference is zero and the window positive.
\<close>

function advance_left :: "time list \<Rightarrow> duration \<Rightarrow> nat \<Rightarrow> nat \<Rightarrow> nat" where
  "advance_left timestamps window right left =
     (if left < right \<and> time_sub (timestamps ! right) (timestamps ! left) > window
      then advance_left timestamps window right (left + 1) else left)"
  by pat_completeness auto
termination by (relation "measure (\<lambda>(timestamps, window, right, left). right - left)") auto

declare advance_left.simps [simp del]

fun window_loop :: "time list \<Rightarrow> duration \<Rightarrow> int \<Rightarrow> nat \<Rightarrow> nat list \<Rightarrow> bool" where
  "window_loop timestamps window limit left [] = False"
| "window_loop timestamps window limit left (right # rights) =
     (let left' = advance_left timestamps window right left
      in if int right - int left' + 1 > limit then True else window_loop timestamps window limit left' rights)"

definition scheduled_message_limit_exceeded :: "time list \<Rightarrow> time \<Rightarrow> duration \<Rightarrow> int \<Rightarrow> bool" where
  "scheduled_message_limit_exceeded existing candidate window limit =
     (if window \<le> 0 \<or> limit \<le> 0 then True
      else let timestamps = sort (existing @ [candidate])
        in window_loop timestamps window limit 0 [0..<length timestamps])"

subsection \<open>Scheduling\<close>

definition zero_scheduled :: scheduled_message where
  "zero_scheduled = \<lparr>sched_workspace = [], sched_id = [], sched_channel = [], sched_author = [], sched_app = [], sched_bot = [],
     sched_credential = [], sched_text = [], sched_blocks = [], sched_attachments = [], sched_metadata = [], sched_stream = [],
     sched_thread = [], sched_post_at = 0, sched_created = 0, sched_delivered_at = 0, sched_failed_at = 0,
     sched_failure_code = [], sched_files = []\<rparr>"

definition scheduled_of :: "chat \<Rightarrow> string \<Rightarrow> scheduled_message" where
  "scheduled_of s i = (case map_of (scheduled s) i of None \<Rightarrow> zero_scheduled | Some v \<Rightarrow> v)"

definition put_scheduled :: "string \<Rightarrow> scheduled_message \<Rightarrow> chat \<Rightarrow> chat" where
  "put_scheduled i v s = s\<lparr>scheduled := AList.update i v (scheduled s)\<rparr>"

definition upload_ready :: "chat \<Rightarrow> scheduled_message \<Rightarrow> string \<Rightarrow> bool" where
  "upload_ready s v u = (case uploads s u of
     None \<Rightarrow> False
   | Some x \<Rightarrow> \<not> (upload_workspace x \<noteq> sched_workspace v \<or> upload_uploader x \<noteq> sched_author v \<or> \<not> upload_uploaded x))"

definition upload_taken :: "chat \<Rightarrow> scheduled_message \<Rightarrow> string \<Rightarrow> bool" where
  "upload_taken s v u = list_ex (\<lambda>(i, x). \<not> (i = sched_id v \<or> i \<in> scheduled_delivered s)
     \<and> list_ex (\<lambda>existing. att_upload existing = u) (sched_files x)) (scheduled s)"

fun check_attachments :: "chat \<Rightarrow> scheduled_message \<Rightarrow> draft_attachment list \<Rightarrow> string list \<Rightarrow> store_error option" where
  "check_attachments s v [] seen = None"
| "check_attachments s v (a # rest) seen =
     (if att_upload a = [] \<or> att_name a = [] \<or> att_mime a = [] \<or> att_size a \<le> 0 \<or> \<not> upload_ready s v (att_upload a)
      then Some InvalidArgument
      else if att_upload a \<in> set seen then Some InvalidArgument
      else if upload_taken s v (att_upload a) then Some AlreadyExists
      else check_attachments s v rest (att_upload a # seen))"

definition validate_scheduled_attachments :: "chat \<Rightarrow> scheduled_message \<Rightarrow> store_error option" where
  "validate_scheduled_attachments s v =
     (if length (sched_files v) > 10 then Some InvalidArgument else check_attachments s v (sched_files v) [])"

text \<open>What both ways of scheduling check first.\<close>

definition refuse_schedule :: "scheduled_message \<Rightarrow> chat \<Rightarrow> store_error option" where
  "refuse_schedule v s =
     (if (case users s (sched_author v) of None \<Rightarrow> True
          | Some acct \<Rightarrow> account_workspace acct \<noteq> sched_workspace v \<or> account_deleted acct) then Some NotFound
      else if conversations s (sched_channel v) = None then Some NotFound
      else if map_of (scheduled s) (sched_id v) \<noteq> None then Some AlreadyExists
      else validate_scheduled_attachments s v)"

definition create_scheduled_message :: "scheduled_message \<Rightarrow> event \<Rightarrow> chat \<Rightarrow> chat \<times> store_error option" where
  "create_scheduled_message v ev s =
     (case refuse_schedule v s of
        Some e \<Rightarrow> (s, Some e)
      | None \<Rightarrow> ((put_scheduled (sched_id v) v s)\<lparr>chat_outbox := chat_outbox s @ [ev]\<rparr>, None))"

definition pending_in :: "string \<Rightarrow> string \<Rightarrow> chat \<Rightarrow> string \<times> scheduled_message \<Rightarrow> bool" where
  "pending_in workspace channel s = (\<lambda>(i, v). sched_workspace v = workspace \<and> sched_channel v = channel
     \<and> i \<notin> scheduled_delivered s \<and> is_zero_time (sched_failed_at v))"

text \<open>The pending messages of the channel within the window of an instant, but for the one being moved.\<close>

definition nearby :: "string \<Rightarrow> string \<Rightarrow> time \<Rightarrow> duration \<Rightarrow> string option \<Rightarrow> chat \<Rightarrow> time list" where
  "nearby workspace channel at window moved s =
     map (\<lambda>iv. sched_post_at (snd iv)) (filter (\<lambda>iv. Some (fst iv) \<noteq> moved \<and> pending_in workspace channel s iv
       \<and> \<not> sched_post_at (snd iv) < at - window \<and> \<not> sched_post_at (snd iv) > at + window) (scheduled s))"

definition create_scheduled_message_within_limit ::
  "scheduled_message \<Rightarrow> duration \<Rightarrow> int \<Rightarrow> event \<Rightarrow> chat \<Rightarrow> chat \<times> store_error option" where
  "create_scheduled_message_within_limit v window limit ev s =
     (if window \<le> 0 \<or> limit \<le> 0 then (s, Some InvalidArgument)
      else case refuse_schedule v s of
        Some e \<Rightarrow> (s, Some e)
      | None \<Rightarrow>
          if scheduled_message_limit_exceeded (nearby (sched_workspace v) (sched_channel v) (sched_post_at v) window None s)
               (sched_post_at v) window limit
          then (s, Some ScheduledMessageLimit)
          else ((put_scheduled (sched_id v) v s)\<lparr>chat_outbox := chat_outbox s @ [ev]\<rparr>, None))"

definition lease_live :: "chat \<Rightarrow> string \<Rightarrow> time \<Rightarrow> bool" where
  "lease_live s i now = (case scheduled_leases s i of None \<Rightarrow> False | Some l \<Rightarrow> le_expires l > now)"

record scheduled_update =
  up_workspace :: string
  up_id :: string
  up_channel :: string
  up_text :: string
  up_post_at :: time
  up_credential :: string

definition update_scheduled_message_within_limit ::
  "scheduled_update \<Rightarrow> duration \<Rightarrow> int \<Rightarrow> event \<Rightarrow> time \<Rightarrow> chat \<Rightarrow> chat \<times> (store_error + scheduled_message)" where
  "update_scheduled_message_within_limit u window limit ev now s =
     (if up_workspace u = [] \<or> up_id u = [] \<or> up_channel u = [] \<or> up_credential u = [] \<or> is_zero_time (up_post_at u)
         \<or> window \<le> 0 \<or> limit \<le> 0 then (s, Inl InvalidArgument)
      else case map_of (scheduled s) (up_id u) of
        None \<Rightarrow> (s, Inl NotFound)
      | Some v \<Rightarrow>
          if sched_workspace v \<noteq> up_workspace u \<or> sched_channel v \<noteq> up_channel u \<or> sched_credential v \<noteq> up_credential u
             \<or> up_id u \<in> scheduled_delivered s \<or> lease_live s (up_id u) now then (s, Inl NotFound)
          else if trim_space (up_text u) = [] \<and> sched_blocks v = [] \<and> sched_attachments v = [] \<and> sched_files v = []
            then (s, Inl InvalidArgument)
          else if scheduled_message_limit_exceeded
               (nearby (sched_workspace v) (sched_channel v) (up_post_at u) window (Some (up_id u)) s) (up_post_at u) window limit
            then (s, Inl ScheduledMessageLimit)
          else let v' = v\<lparr>sched_text := up_text u, sched_post_at := up_post_at u, sched_failed_at := 0, sched_failure_code := []\<rparr>
            in ((put_scheduled (up_id u) v' s)\<lparr>scheduled_next := (scheduled_next s)(up_id u := None),
                  chat_outbox := chat_outbox s @ [ev]\<rparr>, Inr v'))"

definition delete_scheduled_message ::
  "string \<Rightarrow> string \<Rightarrow> string \<Rightarrow> string \<Rightarrow> event \<Rightarrow> time \<Rightarrow> chat \<Rightarrow> chat \<times> store_error option" where
  "delete_scheduled_message workspace user channel i ev now s =
     (let v = scheduled_of s i in
      if map_of (scheduled s) i = None \<or> idempotency s (idempotency_key_for workspace user i) \<noteq> None
         \<or> sched_workspace v \<noteq> workspace \<or> sched_author v \<noteq> user \<or> sched_channel v \<noteq> channel \<or> lease_live s i now
      then (s, Some NotFound)
      else (s\<lparr>scheduled := AList.delete i (scheduled s), chat_outbox := chat_outbox s @ [ev]\<rparr>, None))"

definition delete_scheduled_message_for_credential ::
  "string \<Rightarrow> string \<Rightarrow> string \<Rightarrow> string \<Rightarrow> event \<Rightarrow> time \<Rightarrow> chat \<Rightarrow> chat \<times> store_error option" where
  "delete_scheduled_message_for_credential workspace credential channel i ev now s =
     (let v = scheduled_of s i in
      if credential = [] \<or> map_of (scheduled s) i = None \<or> sched_workspace v \<noteq> workspace \<or> sched_credential v \<noteq> credential
         \<or> sched_channel v \<noteq> channel \<or> idempotency s (idempotency_key_for (sched_workspace v) (sched_author v) i) \<noteq> None
         \<or> i \<in> scheduled_delivered s \<or> lease_live s i now
      then (s, Some NotFound)
      else (s\<lparr>scheduled := AList.delete i (scheduled s), scheduled_next := (scheduled_next s)(i := None),
              chat_outbox := chat_outbox s @ [ev]\<rparr>, None))"

definition get_scheduled_message :: "string \<Rightarrow> string \<Rightarrow> chat \<Rightarrow> store_error + scheduled_message" where
  "get_scheduled_message workspace i s =
     (case map_of (scheduled s) i of
        None \<Rightarrow> Inl NotFound
      | Some v \<Rightarrow> if sched_workspace v \<noteq> workspace \<or> i \<in> scheduled_delivered s then Inl NotFound else Inr v)"

subsection \<open>The leased queue\<close>

definition next_attempt_at :: "chat \<Rightarrow> string \<Rightarrow> time" where
  "next_attempt_at s i = (case scheduled_next s i of None \<Rightarrow> 0 | Some t \<Rightarrow> t)"

definition claimable :: "string \<Rightarrow> time \<Rightarrow> chat \<Rightarrow> scheduled_message \<Rightarrow> bool" where
  "claimable workspace now s v \<longleftrightarrow>
     \<not> ((workspace \<noteq> [] \<and> sched_workspace v \<noteq> workspace) \<or> sched_post_at v > now \<or> sched_id v \<in> scheduled_delivered s
        \<or> \<not> is_zero_time (sched_failed_at v) \<or> next_attempt_at s (sched_id v) > now)
     \<and> \<not> lease_live s (sched_id v) now"

definition due_order :: "scheduled_message \<Rightarrow> time \<times> string" where
  "due_order v = (sched_post_at v, sched_id v)"

definition claim_scheduled_messages ::
  "string \<Rightarrow> string \<Rightarrow> int \<Rightarrow> duration \<Rightarrow> time \<Rightarrow> chat \<Rightarrow> chat \<times> (store_error + scheduled_message list)" where
  "claim_scheduled_messages workspace owner limit lease now s =
     (if owner = [] \<or> limit \<le> 0 \<or> lease \<le> 0 then (s, Inl InvalidArgument)
      else let values = take (nat limit) (sort_key due_order (filter (claimable workspace now s) (map snd (scheduled s))))
        in (s\<lparr>scheduled_leases := fold (\<lambda>v ls. ls(sched_id v \<mapsto> \<lparr>le_owner = owner, le_expires = now + lease\<rparr>)) values
               (scheduled_leases s)\<rparr>, Inr values))"

definition claim_scheduled_message_for_credential ::
  "string \<Rightarrow> string \<Rightarrow> string \<Rightarrow> string \<Rightarrow> duration \<Rightarrow> time \<Rightarrow> chat \<Rightarrow> chat \<times> (store_error + scheduled_message)" where
  "claim_scheduled_message_for_credential workspace credential i owner lease now s =
     (if workspace = [] \<or> credential = [] \<or> i = [] \<or> owner = [] \<or> lease \<le> 0 then (s, Inl InvalidArgument)
      else case map_of (scheduled s) i of
        None \<Rightarrow> (s, Inl NotFound)
      | Some v \<Rightarrow>
          if sched_workspace v \<noteq> workspace \<or> sched_credential v \<noteq> credential \<or> i \<in> scheduled_delivered s \<or> lease_live s i now
          then (s, Inl NotFound)
          else (s\<lparr>scheduled_leases := (scheduled_leases s)(i \<mapsto> \<lparr>le_owner = owner, le_expires = now + lease\<rparr>)\<rparr>, Inr v))"

definition holds_scheduled :: "string \<Rightarrow> string \<Rightarrow> time \<Rightarrow> chat \<Rightarrow> bool" where
  "holds_scheduled owner i now s = (case scheduled_leases s i of
     None \<Rightarrow> False | Some current \<Rightarrow> \<not> (le_owner current \<noteq> owner \<or> \<not> le_expires current > now))"

definition renew_scheduled_message :: "string \<Rightarrow> string \<Rightarrow> duration \<Rightarrow> time \<Rightarrow> time \<Rightarrow> chat \<Rightarrow> chat \<times> store_error option" where
  "renew_scheduled_message owner i lease now now' s =
     (if \<not> holds_scheduled owner i now s then (s, Some LeaseConflict)
      else (s\<lparr>scheduled_leases := (scheduled_leases s)(i := map_option (\<lambda>l. l\<lparr>le_expires := now' + lease\<rparr>) (scheduled_leases s i))\<rparr>, None))"

definition mark_scheduled_message_delivered :: "string \<Rightarrow> string \<Rightarrow> time \<Rightarrow> time \<Rightarrow> chat \<Rightarrow> chat \<times> store_error option" where
  "mark_scheduled_message_delivered owner i now now' s =
     (if \<not> holds_scheduled owner i now s then (s, Some LeaseConflict)
      else ((put_scheduled i ((scheduled_of s i)\<lparr>sched_delivered_at := now', sched_failed_at := 0, sched_failure_code := []\<rparr>) s)
              \<lparr>scheduled_delivered := insert i (scheduled_delivered s), scheduled_leases := (scheduled_leases s)(i := None)\<rparr>, None))"

definition mark_scheduled_message_failed ::
  "string \<Rightarrow> string \<Rightarrow> string \<Rightarrow> time \<Rightarrow> event \<Rightarrow> time \<Rightarrow> chat \<Rightarrow> chat \<times> store_error option" where
  "mark_scheduled_message_failed owner i failure_code failed_at ev now s =
     (if failure_code = [] \<or> \<not> holds_scheduled owner i now s then (s, Some LeaseConflict)
      else ((put_scheduled i ((scheduled_of s i)\<lparr>sched_failure_code := failure_code, sched_failed_at := failed_at\<rparr>) s)
              \<lparr>scheduled_leases := (scheduled_leases s)(i := None), scheduled_next := (scheduled_next s)(i := None),
               chat_outbox := chat_outbox s @ [ev]\<rparr>, None))"

definition release_scheduled_message :: "string \<Rightarrow> string \<Rightarrow> time \<Rightarrow> time \<Rightarrow> chat \<Rightarrow> chat \<times> store_error option" where
  "release_scheduled_message owner i next_at now s =
     (if \<not> holds_scheduled owner i now s then (s, Some LeaseConflict)
      else (s\<lparr>scheduled_leases := (scheduled_leases s)(i := None), scheduled_next := (scheduled_next s)(i \<mapsto> next_at)\<rparr>, None))"

text \<open>\<^verbatim>\<open>EarliestScheduledMessage\<close>: the earliest instant at which one is due, zero when none is pending.\<close>

definition scheduled_deadline :: "chat \<Rightarrow> string \<times> scheduled_message \<Rightarrow> time" where
  "scheduled_deadline s = (\<lambda>(i, v). if next_attempt_at s i > sched_post_at v then next_attempt_at s i else sched_post_at v)"

definition awaits :: "string \<Rightarrow> chat \<Rightarrow> string \<times> scheduled_message \<Rightarrow> bool" where
  "awaits workspace s = (\<lambda>(i, v). \<not> ((workspace \<noteq> [] \<and> sched_workspace v \<noteq> workspace) \<or> i \<in> scheduled_delivered s
     \<or> \<not> is_zero_time (sched_failed_at v)))"

definition earlier_of :: "time \<Rightarrow> time \<Rightarrow> time" where
  "earlier_of deadline earliest = (if is_zero_time earliest \<or> deadline < earliest then deadline else earliest)"

definition earliest_scheduled_message :: "string \<Rightarrow> chat \<Rightarrow> time" where
  "earliest_scheduled_message workspace s =
     fold (\<lambda>iv earliest. if awaits workspace s iv then earlier_of (scheduled_deadline s iv) earliest else earliest) (scheduled s) 0"

end
