(* ===== verification/Scheduled_Queue.thy ===== *)
theory Scheduled_Queue
  imports Scheduled Message_Posts
begin

section \<open>What the schedule promises\<close>

text \<open>
  The leased queue of scheduled messages is an interpretation of \<open>lease_contract\<close>. On top of it:
  one message per scheduled message whatever workers do, and no more scheduled messages in any
  window of a channel than the limit.
\<close>

subsection \<open>The operations as steps\<close>

datatype schedule_op =
    Schedule scheduled_message event
  | ScheduleWithin scheduled_message duration int event
  | Reschedule scheduled_update duration int event
  | Unschedule string string string string event
  | UnscheduleFor string string string string event
  | TakeDue string string int duration
  | TakeOne string string string string duration
  | Extend string string duration time
  | Settle string string time
  | GiveUp string string string time event
  | PutBack string string time

fun schedule_step :: "schedule_op \<Rightarrow> time \<Rightarrow> chat \<Rightarrow> chat" where
  "schedule_step (Schedule v ev) now s = fst (create_scheduled_message v ev s)"
| "schedule_step (ScheduleWithin v window limit ev) now s = fst (create_scheduled_message_within_limit v window limit ev s)"
| "schedule_step (Reschedule u window limit ev) now s = fst (update_scheduled_message_within_limit u window limit ev now s)"
| "schedule_step (Unschedule w u c i ev) now s = fst (delete_scheduled_message w u c i ev now s)"
| "schedule_step (UnscheduleFor w cred c i ev) now s = fst (delete_scheduled_message_for_credential w cred c i ev now s)"
| "schedule_step (TakeDue w owner limit lease) now s = fst (claim_scheduled_messages w owner limit lease now s)"
| "schedule_step (TakeOne w cred i owner lease) now s = fst (claim_scheduled_message_for_credential w cred i owner lease now s)"
| "schedule_step (Extend owner i lease now') now s = fst (renew_scheduled_message owner i lease now now' s)"
| "schedule_step (Settle owner i now') now s = fst (mark_scheduled_message_delivered owner i now now' s)"
| "schedule_step (GiveUp owner i code failed_at ev) now s = fst (mark_scheduled_message_failed owner i code failed_at ev now s)"
| "schedule_step (PutBack owner i next_at) now s = fst (release_scheduled_message owner i next_at now s)"

fun schedule_claimed :: "schedule_op \<Rightarrow> time \<Rightarrow> chat \<Rightarrow> string set" where
  "schedule_claimed (TakeDue w owner limit lease) now s =
     (case snd (claim_scheduled_messages w owner limit lease now s) of Inl _ \<Rightarrow> {} | Inr vs \<Rightarrow> sched_id ` set vs)"
| "schedule_claimed (TakeOne w cred i owner lease) now s =
     (case snd (claim_scheduled_message_for_credential w cred i owner lease now s) of Inl _ \<Rightarrow> {} | Inr _ \<Rightarrow> {i})"
| "schedule_claimed _ now s = {}"

fun schedule_actor :: "schedule_op \<Rightarrow> string option" where
  "schedule_actor (TakeDue w owner limit lease) = Some owner"
| "schedule_actor (TakeOne w cred i owner lease) = Some owner"
| "schedule_actor (Extend owner i lease now') = Some owner"
| "schedule_actor (Settle owner i now') = Some owner"
| "schedule_actor (GiveUp owner i code failed_at ev) = Some owner"
| "schedule_actor (PutBack owner i next_at) = Some owner"
| "schedule_actor _ = None"

definition schedule_holder :: "chat \<Rightarrow> string \<Rightarrow> time \<Rightarrow> string option" where
  "schedule_holder s i t = (case scheduled_leases s i of
     None \<Rightarrow> None | Some l \<Rightarrow> if le_expires l > t then Some (le_owner l) else None)"

lemma lease_fold: "fold (\<lambda>v ls. ls(sched_id v \<mapsto> l)) vs ls = (\<lambda>i. if i \<in> sched_id ` set vs then Some l else ls i)"
  by (induction vs arbitrary: ls) (auto simp: fun_eq_iff)

lemma holds_scheduled_iff: "holds_scheduled owner i now s \<longleftrightarrow> schedule_holder s i now = Some owner"
  by (auto simp: holds_scheduled_def schedule_holder_def split: option.splits)

lemma lease_live_iff: "lease_live s i now \<longleftrightarrow> schedule_holder s i now \<noteq> None"
  by (auto simp: lease_live_def schedule_holder_def split: option.splits)

lemma put_scheduled_simps [simp]:
  "scheduled (put_scheduled i v s) = AList.update i v (scheduled s)"
  "scheduled_delivered (put_scheduled i v s) = scheduled_delivered s"
  "scheduled_leases (put_scheduled i v s) = scheduled_leases s" "scheduled_next (put_scheduled i v s) = scheduled_next s"
  "messages (put_scheduled i v s) = messages s" "idempotency (put_scheduled i v s) = idempotency s"
  "chat_outbox (put_scheduled i v s) = chat_outbox s"
  by (simp_all add: put_scheduled_def)

lemmas schedule_defs = create_scheduled_message_def create_scheduled_message_within_limit_def
  update_scheduled_message_within_limit_def delete_scheduled_message_def delete_scheduled_message_for_credential_def
  claim_scheduled_messages_def claim_scheduled_message_for_credential_def renew_scheduled_message_def
  mark_scheduled_message_delivered_def mark_scheduled_message_failed_def release_scheduled_message_def

lemma claimed_due:
  assumes "i \<in> schedule_claimed (TakeDue w owner limit lease) now s"
  shows "schedule_holder s i now = None" "0 < lease"
    "scheduled_leases (schedule_step (TakeDue w owner limit lease) now s) i = Some \<lparr>le_owner = owner, le_expires = now + lease\<rparr>"
  using assms
  by (auto simp: claim_scheduled_messages_def lease_fold claimable_def lease_live_iff Let_def dest!: in_set_takeD split: if_splits)

lemma claimed_one:
  assumes "i \<in> schedule_claimed (TakeOne w cred j owner lease) now s"
  shows "schedule_holder s i now = None" "0 < lease"
    "scheduled_leases (schedule_step (TakeOne w cred j owner lease) now s) i = Some \<lparr>le_owner = owner, le_expires = now + lease\<rparr>"
  using assms
  by (auto simp: claim_scheduled_message_for_credential_def lease_live_iff split: if_splits option.splits)

lemma schedule_keeps_lease:
  assumes h: "schedule_holder s i t = Some a" and t: "now \<le> t" and a: "schedule_actor op \<noteq> Some a"
  shows "schedule_holder (schedule_step op now s) i t = Some a"
proof (cases "i \<in> schedule_claimed op now s")
  case True
  have "schedule_holder s i now = Some a" using h t by (auto simp: schedule_holder_def split: option.splits if_splits)
  then show ?thesis using True claimed_due(1) claimed_one(1) by (cases op) fastforce+
next
  case False
  have "schedule_holder s i now = Some a" using h t by (auto simp: schedule_holder_def split: option.splits if_splits)
  then have "scheduled_leases (schedule_step op now s) i = scheduled_leases s i"
    using False a by (cases op) (auto simp: schedule_defs lease_fold holds_scheduled_iff Let_def split: option.splits)
  then show ?thesis using h by (simp add: schedule_holder_def)
qed

interpretation schedule: lease_contract "\<lambda>_. True" schedule_step schedule_claimed schedule_actor schedule_holder
proof
  fix op now s i t a
  show "i \<in> schedule_claimed op now s \<Longrightarrow> schedule_holder s i now = None"
    using claimed_due(1) claimed_one(1) by (cases op) fastforce+
  show "i \<in> schedule_claimed op now s \<Longrightarrow>
      schedule_holder (schedule_step op now s) i now = schedule_actor op \<and> schedule_actor op \<noteq> None"
    using claimed_due(2,3) claimed_one(2,3) by (cases op) (fastforce simp: schedule_holder_def)+
  show "schedule_holder s i t = Some a \<Longrightarrow> now \<le> t \<Longrightarrow> schedule_actor op \<noteq> Some a \<Longrightarrow>
      schedule_holder (schedule_step op now s) i t = Some a" by (rule schedule_keeps_lease)
  show "schedule_holder s i t = Some a \<Longrightarrow> now \<le> t \<Longrightarrow> schedule_holder s i now = Some a"
    by (auto simp: schedule_holder_def split: option.splits if_splits)
qed simp

text \<open>
  A scheduled message that a worker or \<open>Send now\<close> has taken is given to nobody else while the
  lease lasts, whatever the others do.
\<close>

lemma scheduled_exclusive:
  assumes "i \<in> schedule_claimed (TakeDue w owner limit lease) now s"
    "\<forall>(op, now') \<in> set h. now' < now + lease \<and> schedule_actor op \<noteq> Some owner"
  shows "schedule.claims_of i h (schedule_step (TakeDue w owner limit lease) now s) = []"
proof -
  have "schedule_holder (schedule_step (TakeDue w owner limit lease) now s) i (now + lease - 1) = Some owner"
    using claimed_due(3) [OF assms(1)] by (simp add: schedule_holder_def)
  moreover have "\<forall>(op, now') \<in> set h. now' \<le> now + lease - 1 \<and> schedule_actor op \<noteq> Some owner" using assms(2) by auto
  ultimately show ?thesis using schedule.held_throughout [OF TrueI] by blast
qed

subsection \<open>Messages and the schedule\<close>

lemma schedule_step_messages [frame_simps]:
  "messages (schedule_step op now s) = messages s" "idempotency (schedule_step op now s) = idempotency s"
  by (cases op; auto simp: schedule_defs Let_def split: option.splits)+

text \<open>The tables of the schedule, which no operation on messages touches.\<close>

definition schedule_of :: "chat \<Rightarrow> (string \<times> scheduled_message) list \<times> string set \<times> (string \<rightharpoonup> lease) \<times> (string \<rightharpoonup> time)" where
  "schedule_of s = (scheduled s, scheduled_delivered s, scheduled_leases s, scheduled_next s)"

lemma schedule_ofD:
  "schedule_of s' = schedule_of s \<Longrightarrow> scheduled s' = scheduled s \<and> scheduled_delivered s' = scheduled_delivered s
    \<and> scheduled_leases s' = scheduled_leases s \<and> scheduled_next s' = scheduled_next s"
  by (simp add: schedule_of_def)

lemma schedule_of_simps [simp]:
  "schedule_of (s\<lparr>chat_outbox := a\<rparr>) = schedule_of s" "schedule_of (s\<lparr>messages := b\<rparr>) = schedule_of s"
  "schedule_of (s\<lparr>file_shares := c\<rparr>) = schedule_of s" "schedule_of (s\<lparr>read_cursors := d\<rparr>) = schedule_of s"
  "schedule_of (s\<lparr>activity_items := e\<rparr>) = schedule_of s"
  "schedule_of (put_messages x ms s) = schedule_of s"
  by (simp_all add: schedule_of_def put_messages_def)

lemma forget_schedule: "schedule_of (forget_message c m s) = schedule_of s"
  by (simp add: forget_message_def schedule_of_def)

interpretation scheduled_frame: retention_steps "\<lambda>s s'. schedule_of s' = schedule_of s"
proof
  show "schedule_of s' = schedule_of s"
    if "0 < limit" "sweep_messages c horizon limit s = (s', n, complete)" for limit c horizon s s' n complete
    using that sweep_messages_result [OF that(1), of c horizon s]
    by (auto simp: Let_def forget_schedule fold_frame [of schedule_of])
qed (simp_all add: drop_canvas_def drop_list_def drop_file_def schedule_of_def)

lemma commit_scheduled [frame_simps]:
  "schedule_of (create_message_activity L m s) = schedule_of s" "schedule_of (advance_author_read_cursor m s) = schedule_of s"
  "schedule_of (reopen_directs m s) = schedule_of s" "schedule_of (insert_committed_message L m s) = schedule_of s"
  "schedule_of (commit_message L m ev key s) = schedule_of s"
  by (simp_all add: create_message_activity_def advance_author_read_cursor_def reopen_directs_def Let_def
      insert_committed_message_def commit_message_def put_messages_def schedule_of_def)

lemma create_locked_scheduled:
  "create_message_locked L m ev key companions s = (s', r) \<Longrightarrow> schedule_of s' = schedule_of s"
  by (auto simp: create_message_locked_def frame_simps Let_def split: sum.splits)

lemma share_files_scheduled:
  "share_files m fs previous s = (s', r) \<Longrightarrow> schedule_of s' = schedule_of s"
  by (induction m fs previous s rule: share_files.induct) (auto split: option.splits if_splits)

lemma end_shares_scheduled:
  "schedule_of (end_file_shares m us s) = schedule_of s" "schedule_of (fold (grant_share m) gs s) = schedule_of s"
  by (simp_all add: end_file_shares_def fold_frame [of schedule_of] end_file_share_def grant_share_def
      Let_def split: prod.splits)

lemma cursors_scheduled:
  "set_read_cursors us s = (s', r) \<Longrightarrow> schedule_of s' = schedule_of s"
proof -
  have "schedule_of (fold (\<lambda>(u, at). set_read_cursor_locked (fst u) (the at) (snd u)) xs s) = schedule_of s" for xs s
    by (induction xs arbitrary: s) (auto simp: set_read_cursor_locked_def schedule_of_def)
  then show "set_read_cursors us s = (s', r) \<Longrightarrow> schedule_of s' = schedule_of s"
    by (auto simp: set_read_cursors_def Let_def split: if_splits)
qed

lemma file_share_scheduled:
  assumes "create_file_share_message L fs m emitted s = (s', r)"
  shows "schedule_of s' = schedule_of s"
proof -
  obtain s1 p where s1: "share_files m fs (\<lambda>_. None) s = (s1, p)" by (cases "share_files m fs (\<lambda>_. None) s")
  note 1 = share_files_scheduled [OF s1]
  have 2: "schedule_of s2 = schedule_of s"
    if "create_message_locked L n (hd emitted) [] [] s1 = (s2, r')" for n s2 r'
    using create_locked_scheduled [OF that] 1 by simp
  show ?thesis
  proof (cases "normalize_message L (m\<lparr>msg_files := map named_file fs\<rparr>)")
    case (Some n)
    obtain s2 r2 where s2: "create_message_locked L n (hd emitted) [] [] s1 = (s2, r2)" by fastforce
    show ?thesis using assms 1 2 [OF s2] s1 s2 Some
      by (simp add: create_file_share_message_def split: if_splits option.splits) auto
  qed (use assms in \<open>simp add: create_file_share_message_def split: if_splits\<close>)
qed

lemma edits_scheduled:
  "update_message m ev companions s = (s', r) \<Longrightarrow> schedule_of s' = schedule_of s"
  "delete_message m ev unshares s = (s', r) \<Longrightarrow> schedule_of s' = schedule_of s"
  "update_message_files m ev grants unshares companions s = (s', r) \<Longrightarrow>
    schedule_of s' = schedule_of s"
  by (auto simp: update_message_def delete_message_def update_message_files_def end_shares_scheduled Let_def
      split: option.splits if_splits)

lemma posts_scheduled:
  "create_message L m ev key companions s = (s', r) \<Longrightarrow> schedule_of s' = schedule_of s"
  "create_scheduled_message_post L i m ev companions s = (s', r) \<Longrightarrow>
    schedule_of s' = schedule_of s"
  by (simp_all add: create_message_def create_scheduled_message_post_def split: option.splits if_splits)
    (blast dest: create_locked_scheduled)+

lemma chat_step_scheduled: "chat_step L s s' \<Longrightarrow> schedule_of s' = schedule_of s"
proof (induction rule: chat_step.induct)
  case (sweeps env limit workspace clock canceled s s' r')
  then show ?case by (rule scheduled_frame.run)
next
  case (reads cursor ev s s' r)
  then show ?case by (auto simp: set_read_cursor_def set_read_cursor_locked_def split: option.splits)
qed (blast dest: posts_scheduled file_share_scheduled edits_scheduled cursors_scheduled)+

inductive service_step :: "library \<Rightarrow> chat \<Rightarrow> chat \<Rightarrow> bool" for L where
  chats: "chat_step L s s' \<Longrightarrow> service_step L s s'"
| schedules: "service_step L s (schedule_step op now s)"

lemma service_step_kept: "service_step L s s' \<Longrightarrow> kept_order s \<Longrightarrow> kept_order s'"
  by (induction rule: service_step.induct) (auto intro: step_kept kept_same simp: frame_simps)

subsection \<open>One message per scheduled message\<close>

lemma create_lockedD:
  assumes "create_message_locked L m ev key companions s = (s', r)"
  obtains (refused) e where "prepare_message m key s = Inl e" "s' = s" "r = Some e"
    | (created) m' where "prepare_message m key s = Inr m'" "r = None"
      "idempotency s' = (if key \<noteq> []
         then (idempotency s)(idempotency_key_for (msg_workspace m) (msg_author m) key \<mapsto> msg_id m) else idempotency s)"
proof (cases "prepare_message m key s")
  case (Inl e)
  then show ?thesis by (rule refused) (use assms Inl in \<open>simp_all add: create_message_locked_def\<close>)
next
  case (Inr m')
  then obtain fs where "m' = m\<lparr>msg_files := fs\<rparr>" using prepare_messageD(1) by blast
  then have "r = None" "idempotency s' = (if key \<noteq> []
      then (idempotency s)(idempotency_key_for (msg_workspace m) (msg_author m) key \<mapsto> msg_id m) else idempotency s)"
    using assms Inr by (auto simp: create_message_locked_def frame_simps Let_def)
  with Inr show ?thesis by (rule created)
qed

lemma create_locked_keys:
  assumes "create_message_locked L m ev key companions s = (s', r)" "idempotency s k = Some i"
  shows "idempotency s' k = Some i"
  using assms(1)
proof (cases rule: create_lockedD)
  case (created m')
  then show ?thesis using prepare_messageD(5) [OF created(1)] assms(2) by auto
qed (use assms(2) in simp)

lemma posts_keys:
  "create_message L m ev key companions s = (s', r) \<Longrightarrow> idempotency s k = Some i \<Longrightarrow> idempotency s' k = Some i"
  "create_scheduled_message_post L j m ev companions s = (s', r) \<Longrightarrow> idempotency s k = Some i \<Longrightarrow> idempotency s' k = Some i"
  by (auto simp: create_message_def create_scheduled_message_post_def split: option.splits if_splits dest: create_locked_keys)

lemma file_share_keys:
  assumes "create_file_share_message L fs m emitted s = (s', r)" "idempotency s k = Some i"
  shows "idempotency s' k = Some i"
proof -
  obtain s1 p where s1: "share_files m fs (\<lambda>_. None) s = (s1, p)" by (cases "share_files m fs (\<lambda>_. None) s")
  have 1: "idempotency s1 k = Some i" using share_files_frame [OF s1] assms(2) by simp
  have 2: "idempotency s2 k = Some i" if "create_message_locked L n (hd emitted) [] [] s1 = (s2, r')" for n s2 r'
    using create_locked_keys [OF that 1] .
  show ?thesis
  proof (cases "normalize_message L (m\<lparr>msg_files := map named_file fs\<rparr>)")
    case (Some n)
    obtain s2 r2 where s2: "create_message_locked L n (hd emitted) [] [] s1 = (s2, r2)" by fastforce
    show ?thesis using assms 1 2 [OF s2] s1 s2 Some
      by (simp add: create_file_share_message_def split: if_splits option.splits) auto
  qed (use assms in \<open>simp add: create_file_share_message_def split: if_splits\<close>)
qed

lemma quiet_steps_keys:
  "update_message m ev companions s = (s', r) \<Longrightarrow> idempotency s' = idempotency s"
  "delete_message m ev unshares s = (s', r) \<Longrightarrow> idempotency s' = idempotency s"
  "update_message_files m ev grants unshares companions s = (s', r) \<Longrightarrow> idempotency s' = idempotency s"
  "set_read_cursor cursor ev s = (s', r) \<Longrightarrow> idempotency s' = idempotency s"
  "set_read_cursors us s = (s', r) \<Longrightarrow> idempotency s' = idempotency s"
proof -
  have "idempotency (fold (\<lambda>(u, at). set_read_cursor_locked (fst u) (the at) (snd u)) xs s) = idempotency s" for xs s
    by (induction xs arbitrary: s) (auto simp: frame_simps)
  then show "set_read_cursors us s = (s', r) \<Longrightarrow> idempotency s' = idempotency s"
    by (auto simp: set_read_cursors_def Let_def split: if_splits)
qed (auto simp: update_message_def delete_message_def update_message_files_def set_read_cursor_def frame_simps Let_def
    split: option.splits if_splits)

lemma chat_step_keys:
  "chat_step L s s' \<Longrightarrow> kept_order s \<Longrightarrow> idempotency s k = Some i \<Longrightarrow> i \<in> message_ids s' \<Longrightarrow> idempotency s' k = Some i"
proof (induction rule: chat_step.induct)
  case (sweeps env limit workspace clock canceled s s' r')
  then show ?case using retention_run_kept unfolding forgets_together_def by blast
qed (simp_all add: posts_keys file_share_keys quiet_steps_keys)

definition posted_as :: "string \<Rightarrow> string \<Rightarrow> string \<Rightarrow> string \<Rightarrow> chat \<Rightarrow> bool" where
  "posted_as i workspace author m s \<longleftrightarrow>
     (\<exists>v. map_of (scheduled s) i = Some v \<and> sched_workspace v = workspace \<and> sched_author v = author)
     \<and> idempotency s (idempotency_key_for workspace author i) = Some m"

lemma schedule_step_posted: "posted_as i w a m s \<Longrightarrow> posted_as i w a m (schedule_step op now s)"
  by (cases op) (auto simp: posted_as_def schedule_defs refuse_schedule_def scheduled_of_def update_conv' delete_conv' Let_def
      split: option.splits if_splits)

lemma chat_step_posted:
  "chat_step L s s' \<Longrightarrow> kept_order s \<Longrightarrow> m \<in> message_ids s' \<Longrightarrow> posted_as i w a m s \<Longrightarrow> posted_as i w a m s'"
  using chat_step_keys schedule_ofD [OF chat_step_scheduled] unfolding posted_as_def by fastforce

lemma service_step_posted:
  "service_step L s s' \<Longrightarrow> kept_order s \<Longrightarrow> m \<in> message_ids s' \<Longrightarrow> posted_as i w a m s \<Longrightarrow> posted_as i w a m s'"
  by (induction rule: service_step.induct) (auto intro: chat_step_posted schedule_step_posted)

lemma scheduled_post_posted:
  assumes "create_scheduled_message_post L i m ev links s = (s', None)"
  shows "posted_as i (msg_workspace m) (msg_author m) (msg_id m) s'"
proof -
  obtain n v where n: "normalize_message L m = Some n" "map_of (scheduled s) i = Some v" "i \<noteq> []"
    "sched_workspace v = msg_workspace n" "sched_author v = msg_author n"
    and c: "create_message_locked L n ev i links s = (s', None)"
    using assms by (auto simp: create_scheduled_message_post_def split: option.splits if_splits)
  from c have "idempotency s' (idempotency_key_for (msg_workspace n) (msg_author n) i) = Some (msg_id n)"
    by (cases rule: create_lockedD) (use n(3) in auto)
  then show ?thesis using n normalize_created [OF n(1)] create_locked_scheduled [OF c] by (simp add: posted_as_def schedule_of_def)
qed

lemma posted_refuses:
  assumes "create_scheduled_message_post L i m ev links s = (s', r)" "posted_as i w a x s"
  shows "r \<noteq> None \<and> s' = s"
proof (cases "normalize_message L m")
  case (Some n)
  have "r' \<noteq> None \<and> s'' = s"
    if "create_message_locked L n ev i links s = (s'', r')" "i \<noteq> []" "msg_workspace n = w" "msg_author n = a" for s'' r'
    using that(1)
  proof (cases rule: create_lockedD)
    case (created m')
    then show ?thesis using prepare_messageD(5) [OF created(1) that(2)] assms(2) that by (simp add: posted_as_def)
  qed simp
  then show ?thesis using assms Some
    by (auto simp: create_scheduled_message_post_def posted_as_def split: if_splits)
qed (use assms in \<open>auto simp: create_scheduled_message_post_def\<close>)

text \<open>
  C29. A scheduled message is posted once. After a message was created for it, and for as long as that
  message is in the store, no second one is created for it: whatever workers, senders, edits of the
  schedule, other posts and retention do in between, another attempt is refused and changes nothing.
\<close>

theorem scheduled_posts_once:
  assumes "kept_order s" "create_scheduled_message_post L i m ev links s = (s1, None)"
    and "(\<lambda>s s'. service_step L s s' \<and> msg_id m \<in> message_ids s')\<^sup>*\<^sup>* s1 s2"
    and "create_scheduled_message_post L i m' ev' links' s2 = (s3, r)"
  shows "r \<noteq> None \<and> s3 = s2"
proof -
  have "kept_order s2 \<and> posted_as i (msg_workspace m) (msg_author m) (msg_id m) s2"
    using assms(3)
  proof (induction rule: rtranclp_induct)
    case base
    then show ?case using scheduled_post_kept [OF assms(1,2)] scheduled_post_posted [OF assms(2)] by blast
  next
    case (step y z)
    then show ?case using service_step_kept service_step_posted by blast
  qed
  then show ?thesis using posted_refuses [OF assms(4)] by blast
qed

definition sample_scheduled :: scheduled_message where
  "sample_scheduled = zero_scheduled\<lparr>sched_workspace := ''T'', sched_id := ''S'', sched_channel := ''C'', sched_author := ''U''\<rparr>"

definition sample_schedule :: chat where
  "sample_schedule = (sample_store [])\<lparr>scheduled := [(''S'', sample_scheduled)]\<rparr>"

lemma sample_schedule_kept: "kept_order sample_schedule"
  by (simp add: kept_order_def kept_conversation_def messages_of_def all_messages_def sample_schedule_def sample_store_def new_store_def)

lemma sample_schedule_posts:
  "snd (create_scheduled_message_post plain_library ''S'' (sample_message ''A'' [] 5000) sample_event [] sample_schedule) = None"
  by (simp add: create_scheduled_message_post_def create_message_locked_def prepare_message_def normalize_message_def sample_defs
      message_instant_def message_locked_def messages_of_def all_messages_def sample_schedule_def sample_scheduled_def
      zero_scheduled_def Let_def)

lemma scheduled_posts_once_witness:
  "\<exists>s1. create_scheduled_message_post plain_library ''S'' (sample_message ''A'' [] 5000) sample_event [] sample_schedule = (s1, None)
    \<and> snd (create_scheduled_message_post plain_library ''S'' (sample_message ''B'' [] 9000) sample_event [] s1) \<noteq> None"
proof -
  obtain s1 where once: "create_scheduled_message_post plain_library ''S'' (sample_message ''A'' [] 5000) sample_event [] sample_schedule
      = (s1, None)" using sample_schedule_posts by (metis prod.collapse)
  obtain s3 r where again: "create_scheduled_message_post plain_library ''S'' (sample_message ''B'' [] 9000) sample_event [] s1 = (s3, r)"
    by fastforce
  then show ?thesis
    using once scheduled_posts_once [OF sample_schedule_kept once rtranclp.rtrancl_refl again] by simp
qed

end
