(* ===== verification/Schedule_Limit.thy ===== *)
theory Schedule_Limit
  imports Scheduled_Queue
begin

section \<open>The rolling limit of a channel\<close>

text \<open>
  \<^verbatim>\<open>ScheduledMessageLimitExceeded\<close> answers exactly whether some window would hold more instants than
  the limit, and the schedule keeps every window of every channel within it.
\<close>

subsection \<open>The two indices\<close>

definition in_window :: "time \<Rightarrow> duration \<Rightarrow> time \<Rightarrow> bool" where
  "in_window t window x \<longleftrightarrow> t \<le> x \<and> x \<le> t + window"

definition window_count :: "time \<Rightarrow> duration \<Rightarrow> time list \<Rightarrow> int" where
  "window_count t window xs = int (length (filter (in_window t window) xs))"

lemma window_count_mset: "mset xs = mset ys \<Longrightarrow> window_count t window xs = window_count t window ys"
  unfolding window_count_def by (metis mset_filter size_mset)

text \<open>The first index from which the instants up to \<open>right\<close> lie within one window.\<close>

definition window_start :: "time list \<Rightarrow> duration \<Rightarrow> nat \<Rightarrow> nat" where
  "window_start ts window right = (LEAST l. ts ! right - ts ! l \<le> window)"

lemma time_sub_window: "window < 2 ^ 63 - 1 \<Longrightarrow> t \<le> u \<Longrightarrow> time_sub u t > window \<longleftrightarrow> u - t > window"
  by (auto simp: time_sub_def)

lemma window_start_props:
  assumes "0 < window" "right < length ts"
  shows "ts ! right - ts ! window_start ts window right \<le> window" "window_start ts window right \<le> right"
    "\<And>l. l < window_start ts window right \<Longrightarrow> ts ! right - ts ! l > window"
proof -
  have r: "ts ! right - ts ! right \<le> window" using assms(1) by simp
  show "ts ! right - ts ! window_start ts window right \<le> window"
    unfolding window_start_def by (rule LeastI [of "\<lambda>l. ts ! right - ts ! l \<le> window", OF r])
  show "window_start ts window right \<le> right"
    unfolding window_start_def by (rule Least_le [of "\<lambda>l. ts ! right - ts ! l \<le> window", OF r])
  show "l < window_start ts window right \<Longrightarrow> ts ! right - ts ! l > window" for l
    unfolding window_start_def using not_less_Least [of l "\<lambda>l. ts ! right - ts ! l \<le> window"] by linarith
qed

lemma advance_left_start:
  assumes "sorted ts" "right < length ts" "0 < window" "window < 2 ^ 63 - 1" "left \<le> window_start ts window right"
  shows "advance_left ts window right left = window_start ts window right"
  using assms
proof (induction ts window right left rule: advance_left.induct)
  case (1 ts window right left)
  note start = window_start_props [OF "1.prems"(3,2)]
  show ?case
  proof (cases "left = window_start ts window right")
    case True
    then have "\<not> (left < right \<and> time_sub (ts ! right) (ts ! left) > window)"
      using start(1) time_sub_window [OF "1.prems"(4), of "ts ! left" "ts ! right"] sorted_nth_mono [OF "1.prems"(1), of left right] "1.prems"(2)
      by auto
    then show ?thesis using True by (subst advance_left.simps) (simp only: if_False)
  next
    case False
    then have l: "left < window_start ts window right" using "1.prems"(5) by simp
    then have "left < right" using start(2) by simp
    moreover have "time_sub (ts ! right) (ts ! left) > window"
      using start(3) [OF l] time_sub_window [OF "1.prems"(4), of "ts ! left" "ts ! right"]
        sorted_nth_mono [OF "1.prems"(1), of left right] "1.prems"(2) \<open>left < right\<close> by auto
    ultimately show ?thesis using "1.IH" "1.prems" l by (subst advance_left.simps) simp
  qed
qed

lemma window_start_mono:
  assumes "sorted ts" "right < length ts" "right' \<le> right" "0 < window"
  shows "window_start ts window right' \<le> window_start ts window right"
proof -
  have "ts ! right' \<le> ts ! right" using sorted_nth_mono [OF assms(1,3,2)] .
  then have "ts ! right' - ts ! window_start ts window right \<le> window"
    using window_start_props(1) [OF assms(4,2)] by linarith
  then show ?thesis unfolding window_start_def [of ts window right'] by (rule Least_le)
qed

lemma window_loop_iff:
  assumes "sorted ts" "0 < window" "window < 2 ^ 63 - 1" "left \<le> window_start ts window from" "k \<le> length ts"
  shows "window_loop ts window limit left [from..<k] \<longleftrightarrow>
    (\<exists>right \<in> {from..<k}. int right - int (window_start ts window right) + 1 > limit)"
  using assms
proof (induction "k - from" arbitrary: "from" left)
  case (Suc n)
  then have f: "from < k" by simp
  let ?s = "window_start ts window from"
  have adv: "advance_left ts window from left = ?s" using advance_left_start [OF Suc.prems(1) _ Suc.prems(2,3,4)] f Suc.prems(5) by simp
  have up: "[from..<k] = from # [Suc from..<k]" using f by (simp add: upt_conv_Cons)
  have split: "{from..<k} = insert from {Suc from..<k}" using f by auto
  show ?case
  proof (cases "Suc from < k")
    case True
    then have "?s \<le> window_start ts window (Suc from)" using window_start_mono [OF Suc.prems(1)] Suc.prems(2,5) by simp
    then have "window_loop ts window limit ?s [Suc from..<k] \<longleftrightarrow>
        (\<exists>right \<in> {Suc from..<k}. int right - int (window_start ts window right) + 1 > limit)"
      using Suc.hyps(1) [of "Suc from" ?s] Suc.hyps(2) Suc.prems(1-3,5) by simp
    then show ?thesis unfolding up split by (auto simp: adv Let_def)
  next
    case False
    then have "k = Suc from" using f by simp
    then show ?thesis by (auto simp: adv Let_def)
  qed
qed simp

text \<open>The instants of a sorted list that lie in a window are a stretch of it.\<close>

lemma window_indices:
  assumes "sorted ts" "0 < window" "right < length ts"
  shows "window_count (ts ! window_start ts window right) window ts \<ge> int right - int (window_start ts window right) + 1"
proof -
  let ?l = "window_start ts window right"
  note start = window_start_props [OF assms(2,3)]
  have "{?l..right} \<subseteq> {i. i < length ts \<and> in_window (ts ! ?l) window (ts ! i)}"
    using assms(1,3) start(1) by (auto simp: in_window_def intro: sorted_nth_mono order_trans [OF sorted_nth_mono])
  then have "card {?l..right} \<le> card {i. i < length ts \<and> in_window (ts ! ?l) window (ts ! i)}" by (intro card_mono) auto
  then show ?thesis using start(2) by (simp add: window_count_def length_filter_conv_card of_nat_diff)
qed

lemma window_within:
  assumes "sorted ts" "0 < window" "0 < limit"
    and "\<forall>right < length ts. int right - int (window_start ts window right) + 1 \<le> limit"
  shows "window_count t window ts \<le> limit"
proof -
  let ?I = "{i. i < length ts \<and> in_window t window (ts ! i)}"
  have count: "window_count t window ts = int (card ?I)" by (simp add: window_count_def length_filter_conv_card)
  show ?thesis
  proof (cases "?I = {}")
    case True
    then show ?thesis unfolding count using assms(3) by (simp only: card.empty)
  next
    case False
    have fin: "finite ?I" by simp
    define right where "right = Max ?I"
    have r: "right \<in> ?I" unfolding right_def using Max_in [OF fin False] .
    have "i \<in> {window_start ts window right..right}" if i: "i \<in> ?I" for i
    proof -
      have "i \<le> right" unfolding right_def using Max_ge [OF fin i] .
      moreover have "ts ! right - ts ! i \<le> window" using r i by (auto simp: in_window_def)
      then have "window_start ts window right \<le> i" unfolding window_start_def by (rule Least_le)
      ultimately show ?thesis by simp
    qed
    then have "card ?I \<le> card {window_start ts window right..right}" by (intro card_mono) auto
    then show ?thesis using assms(4) r window_start_props(2) [OF assms(2), of right ts]
      unfolding count by (fastforce simp: of_nat_diff)
  qed
qed

text \<open>The answer is exact.\<close>

lemma limit_exceeded_iff:
  assumes "0 < window" "window < 2 ^ 63 - 1" "0 < limit"
  shows "scheduled_message_limit_exceeded existing candidate window limit \<longleftrightarrow>
    (\<exists>t. window_count t window (existing @ [candidate]) > limit)"
proof -
  let ?ts = "sort (existing @ [candidate])"
  have count: "window_count t window ?ts = window_count t window (existing @ [candidate])" for t
    by (intro window_count_mset) simp
  have "scheduled_message_limit_exceeded existing candidate window limit \<longleftrightarrow>
      (\<exists>right \<in> {0..<length ?ts}. int right - int (window_start ?ts window right) + 1 > limit)"
    using assms window_loop_iff [of ?ts window 0 0 "length ?ts" limit]
    by (simp add: scheduled_message_limit_exceeded_def Let_def del: sort_append)
  also have "\<dots> \<longleftrightarrow> (\<exists>t. window_count t window ?ts > limit)"
  proof
    assume "\<exists>right \<in> {0..<length ?ts}. int right - int (window_start ?ts window right) + 1 > limit"
    then obtain right where "right < length ?ts" "int right - int (window_start ?ts window right) + 1 > limit"
      by (auto simp del: length_sort sort_append)
    then show "\<exists>t. window_count t window ?ts > limit"
      using window_indices [OF sorted_sort assms(1)] by (meson less_le_trans)
  next
    assume "\<exists>t. window_count t window ?ts > limit"
    then have "\<not> (\<forall>right < length ?ts. int right - int (window_start ?ts window right) + 1 \<le> limit)"
      using window_within [OF sorted_sort assms(1,3)] by (meson not_le)
    then show "\<exists>right \<in> {0..<length ?ts}. int right - int (window_start ?ts window right) + 1 > limit"
      by (auto simp del: length_sort sort_append simp: not_le)
  qed
  finally show ?thesis by (simp only: count)
qed

subsection \<open>Every window of a channel\<close>

definition pending_times :: "string \<Rightarrow> string \<Rightarrow> chat \<Rightarrow> time list" where
  "pending_times workspace channel s = map (\<lambda>iv. sched_post_at (snd iv)) (filter (pending_in workspace channel s) (scheduled s))"

definition channel_within :: "string \<Rightarrow> string \<Rightarrow> duration \<Rightarrow> int \<Rightarrow> chat \<Rightarrow> bool" where
  "channel_within workspace channel window limit s \<longleftrightarrow> distinct (map fst (scheduled s))
     \<and> (\<forall>t. window_count t window (pending_times workspace channel s) \<le> limit)"

text \<open>The service schedules with one window and one limit, and records a failure at the time it happens.\<close>

fun limited :: "duration \<Rightarrow> int \<Rightarrow> schedule_op \<Rightarrow> bool" where
  "limited window limit (Schedule v ev) = False"
| "limited window limit (ScheduleWithin v w l ev) = (w = window \<and> l = limit)"
| "limited window limit (Reschedule u w l ev) = (w = window \<and> l = limit)"
| "limited window limit (GiveUp owner i code failed_at ev) = (\<not> is_zero_time failed_at)"
| "limited window limit op = True"

lemma window_count_fewer: "(\<And>x. P x \<Longrightarrow> Q x) \<Longrightarrow> window_count t window (map f (filter P xs)) \<le> window_count t window (map f (filter Q xs))"
  by (induction xs) (auto simp: window_count_def)

lemma window_count_cong:
  "(\<And>x. x \<in> set xs \<Longrightarrow> in_window t window (f x) \<Longrightarrow> P x \<longleftrightarrow> Q x) \<Longrightarrow>
    window_count t window (map f (filter P xs)) = window_count t window (map f (filter Q xs))"
  by (induction xs) (auto simp: window_count_def)

lemma update_filter_mset:
  "distinct (map fst al) \<Longrightarrow>
    mset (filter P (AList.update i v al)) = mset (filter (\<lambda>iv. fst iv \<noteq> i \<and> P iv) al) + (if P (i, v) then {#(i, v)#} else {#})"
proof (induction al)
  case (Cons p al)
  show ?case
  proof (cases "fst p = i")
    case True
    then have "filter (\<lambda>iv. fst iv \<noteq> i \<and> P iv) al = filter P al" using Cons.prems True by (intro filter_cong) (auto intro: rev_image_eqI)
    then show ?thesis using True by (cases p) auto
  qed (use Cons in \<open>cases p; auto\<close>)
qed simp

lemma replace_within:
  assumes k: "channel_within w c window limit s" and window: "0 < window" "window < 2 ^ 63 - 1" "0 < limit"
    and s': "scheduled s' = AList.update i v (scheduled s)" "scheduled_delivered s \<subseteq> scheduled_delivered s'"
    and new: "pending_in w c s' (i, v) \<Longrightarrow> \<not> scheduled_message_limit_exceeded
      (map (\<lambda>iv. sched_post_at (snd iv)) (filter (\<lambda>iv. fst iv \<noteq> i \<and> pending_in w c s iv
         \<and> \<not> sched_post_at (snd iv) < sched_post_at v - window \<and> \<not> sched_post_at (snd iv) > sched_post_at v + window) (scheduled s)))
      (sched_post_at v) window limit"
  shows "channel_within w c window limit s'"
proof -
  let ?f = "\<lambda>iv. sched_post_at (snd iv)"
  let ?near = "\<lambda>iv. \<not> ?f iv < sched_post_at v - window \<and> \<not> ?f iv > sched_post_at v + window"
  let ?others = "\<lambda>t. window_count t window (map ?f (filter (\<lambda>iv. fst iv \<noteq> i \<and> pending_in w c s iv) (scheduled s)))"
  have d: "distinct (map fst (scheduled s))" and old: "window_count t window (pending_times w c s) \<le> limit" for t
    using k by (auto simp: channel_within_def)
  have others: "?others t \<le> limit" for t
    using old [of t] window_count_fewer [of "\<lambda>iv. fst iv \<noteq> i \<and> pending_in w c s iv" "pending_in w c s" t window ?f "scheduled s"]
    by (simp add: pending_times_def)
  have fewer: "window_count t window (map ?f (filter (\<lambda>iv. fst iv \<noteq> i \<and> pending_in w c s' iv) (scheduled s))) \<le> ?others t" for t
    using s'(2) by (intro window_count_fewer) (auto simp: pending_in_def)
  have new': "window_count t window (pending_times w c s')
      = window_count t window (map ?f (filter (\<lambda>iv. fst iv \<noteq> i \<and> pending_in w c s' iv) (scheduled s)))
        + (if pending_in w c s' (i, v) \<and> in_window t window (sched_post_at v) then 1 else 0)" for t
  proof -
    have "mset (pending_times w c s') = mset (map ?f (filter (\<lambda>iv. fst iv \<noteq> i \<and> pending_in w c s' iv) (scheduled s))
        @ (if pending_in w c s' (i, v) then [sched_post_at v] else []))"
      unfolding pending_times_def s'(1) mset_map update_filter_mset [OF d] by simp
    then show ?thesis by (subst window_count_mset, assumption) (simp add: window_count_def)
  qed
  have "window_count t window (pending_times w c s') \<le> limit" for t
  proof (cases "pending_in w c s' (i, v) \<and> in_window t window (sched_post_at v)")
    case True
    have "?others t = window_count t window (map ?f (filter (\<lambda>iv. fst iv \<noteq> i \<and> pending_in w c s iv \<and> ?near iv) (scheduled s)))"
      using True by (intro window_count_cong) (auto simp: in_window_def)
    moreover have "window_count t window (map ?f (filter (\<lambda>iv. fst iv \<noteq> i \<and> pending_in w c s iv \<and> ?near iv) (scheduled s)) @ [sched_post_at v]) \<le> limit"
      using new True limit_exceeded_iff [OF window] by (meson not_le)
    ultimately show ?thesis using True new' [of t] fewer [of t] by (simp add: window_count_def)
  qed (use new' [of t] fewer [of t] others [of t] in auto)
  moreover have "distinct (map fst (scheduled s'))" unfolding s'(1) using d by (rule distinct_update)
  ultimately show ?thesis by (simp add: channel_within_def)
qed

lemma remove_within:
  assumes "channel_within w c window limit s" "scheduled s' = filter Q (scheduled s)" "scheduled_delivered s' = scheduled_delivered s"
  shows "channel_within w c window limit s'"
proof -
  have "window_count t window (pending_times w c s') \<le> window_count t window (pending_times w c s)" for t
    unfolding pending_times_def assms(2) filter_filter using assms(3) by (intro window_count_fewer) (auto simp: pending_in_def)
  then show ?thesis using assms by (auto simp: channel_within_def distinct_map_filter intro: order_trans)
qed

lemma same_within:
  "channel_within w c window limit s \<Longrightarrow> scheduled s' = scheduled s \<Longrightarrow> scheduled_delivered s' = scheduled_delivered s \<Longrightarrow>
    channel_within w c window limit s'"
  by (simp add: channel_within_def pending_times_def pending_in_def cong: filter_cong)

lemma refuse_schedule_new: "refuse_schedule v s = None \<Longrightarrow> sched_id v \<notin> fst ` set (scheduled s)"
  by (auto simp: refuse_schedule_def map_of_eq_None_iff split: if_splits)

lemma schedule_step_within:
  assumes k: "channel_within w c window limit s" and window: "0 < window" "window < 2 ^ 63 - 1" "0 < limit"
    and op: "limited window limit op"
  shows "channel_within w c window limit (schedule_step op now s)"
proof (cases op)
  case (ScheduleWithin v w' l ev)
  show ?thesis
  proof (cases "snd (create_scheduled_message_within_limit v w' l ev s)")
    case None
    have r: "refuse_schedule v s = None" "\<not> scheduled_message_limit_exceeded
        (nearby (sched_workspace v) (sched_channel v) (sched_post_at v) window None s) (sched_post_at v) window limit"
      "scheduled (schedule_step op now s) = AList.update (sched_id v) v (scheduled s)"
      "scheduled_delivered (schedule_step op now s) = scheduled_delivered s"
      using None ScheduleWithin op by (auto simp: create_scheduled_message_within_limit_def split: if_splits option.splits)
    show ?thesis
    proof (rule replace_within [OF k window r(3)])
      assume p: "pending_in w c (schedule_step op now s) (sched_id v, v)"
      have "filter (\<lambda>iv. fst iv \<noteq> sched_id v \<and> pending_in w c s iv \<and> \<not> sched_post_at (snd iv) < sched_post_at v - window
            \<and> \<not> sched_post_at (snd iv) > sched_post_at v + window) (scheduled s)
          = filter (\<lambda>iv. Some (fst iv) \<noteq> None \<and> pending_in w c s iv \<and> \<not> sched_post_at (snd iv) < sched_post_at v - window
            \<and> \<not> sched_post_at (snd iv) > sched_post_at v + window) (scheduled s)"
        using refuse_schedule_new [OF r(1)] by (intro filter_cong) (auto intro: rev_image_eqI)
      then show "\<not> scheduled_message_limit_exceeded (map (\<lambda>iv. sched_post_at (snd iv))
          (filter (\<lambda>iv. fst iv \<noteq> sched_id v \<and> pending_in w c s iv \<and> \<not> sched_post_at (snd iv) < sched_post_at v - window
            \<and> \<not> sched_post_at (snd iv) > sched_post_at v + window) (scheduled s))) (sched_post_at v) window limit"
        using r(2) p by (simp add: nearby_def pending_in_def)
    qed (simp add: r(4))
  next
    case (Some e)
    then have "schedule_step op now s = s" using ScheduleWithin
      by (auto simp: create_scheduled_message_within_limit_def split: if_splits option.splits)
    then show ?thesis using k by simp
  qed
next
  case (Reschedule u w' l ev)
  show ?thesis
  proof (cases "snd (update_scheduled_message_within_limit u w' l ev now s)")
    case (Inr v')
    then obtain v where v: "map_of (scheduled s) (up_id u) = Some v" "sched_workspace v' = sched_workspace v"
      "sched_channel v' = sched_channel v" "sched_post_at v' = up_post_at u" "up_id u \<notin> scheduled_delivered s"
      and r: "\<not> scheduled_message_limit_exceeded
        (nearby (sched_workspace v) (sched_channel v) (up_post_at u) window (Some (up_id u)) s) (up_post_at u) window limit"
      "scheduled (schedule_step op now s) = AList.update (up_id u) v' (scheduled s)"
      "scheduled_delivered (schedule_step op now s) = scheduled_delivered s"
      using Reschedule op by (auto simp: update_scheduled_message_within_limit_def Let_def split: if_splits option.splits)
    show ?thesis
      by (rule replace_within [OF k window r(2)]) (use r v in \<open>auto simp: nearby_def pending_in_def\<close>)
  next
    case (Inl e)
    then have "schedule_step op now s = s" using Reschedule
      by (auto simp: update_scheduled_message_within_limit_def Let_def split: if_splits option.splits)
    then show ?thesis using k by simp
  qed
next
  case (Unschedule w' u c' i ev)
  then show ?thesis using k
    by (auto simp: delete_scheduled_message_def AList.delete_eq Let_def intro: remove_within)
next
  case (UnscheduleFor w' cred c' i ev)
  then show ?thesis using k
    by (auto simp: delete_scheduled_message_for_credential_def AList.delete_eq Let_def intro: remove_within)
next
  case (Settle owner i now')
  show ?thesis
  proof (cases "holds_scheduled owner i now s")
    case True
    then show ?thesis unfolding Settle
      by (intro replace_within [OF k window]) (auto simp: mark_scheduled_message_delivered_def pending_in_def)
  qed (use k Settle in \<open>simp add: mark_scheduled_message_delivered_def\<close>)
next
  case (GiveUp owner i code failed_at ev)
  show ?thesis
  proof (cases "code \<noteq> [] \<and> holds_scheduled owner i now s")
    case True
    then show ?thesis using op unfolding GiveUp
      by (intro replace_within [OF k window]) (auto simp: mark_scheduled_message_failed_def pending_in_def)
  qed (use k GiveUp in \<open>auto simp: mark_scheduled_message_failed_def\<close>)
qed (use k op in \<open>auto simp: schedule_defs Let_def intro: same_within split: option.splits\<close>)

text \<open>The service's steps: every operation on messages, and those on the schedule under one window and limit.\<close>

inductive limited_step :: "library \<Rightarrow> duration \<Rightarrow> int \<Rightarrow> chat \<Rightarrow> chat \<Rightarrow> bool" for L window limit where
  chats: "chat_step L s s' \<Longrightarrow> limited_step L window limit s s'"
| schedules: "limited window limit op \<Longrightarrow> limited_step L window limit s (schedule_step op now s)"

text \<open>
  C30. No channel is flooded by its schedule. However messages are scheduled, moved, sent, failed and
  withdrawn, and whatever else the service does, no window of the length of the limit's, wherever
  it begins, holds more than the limit of a channel's pending messages.
\<close>

theorem schedule_never_floods:
  assumes "(limited_step L window limit)\<^sup>*\<^sup>* s0 s" "scheduled s0 = []" "0 < window" "window < 2 ^ 63 - 1" "0 < limit"
  shows "length (filter (\<lambda>at. t \<le> at \<and> at \<le> t + window) (pending_times workspace channel s)) \<le> nat limit"
proof -
  have "channel_within workspace channel window limit s"
    using assms(1)
  proof (induction rule: rtranclp_induct)
    case base
    then show ?case using assms(2,5) by (simp add: channel_within_def pending_times_def window_count_def)
  next
    case (step y z)
    then show ?case using same_within schedule_ofD [OF chat_step_scheduled] schedule_step_within assms(3-5)
      by (auto elim!: limited_step.cases)
  qed
  then have "window_count t window (pending_times workspace channel s) \<le> limit" by (simp add: channel_within_def)
  then show ?thesis using assms(5) by (simp add: window_count_def in_window_def [abs_def] zle_int [symmetric] del: zle_int)
qed

definition limited_store :: chat where
  "limited_store = (sample_store [])\<lparr>users := [''U'' \<mapsto> \<lparr>account_workspace = ''T'', account_deleted = False\<rparr>]\<rparr>"

lemma schedule_never_floods_witness:
  "\<exists>s. pending_times ''T'' ''C'' s = [7] \<and> length (filter (\<lambda>at. 0 \<le> at \<and> at \<le> 0 + 10) (pending_times ''T'' ''C'' s)) \<le> nat 1
    \<and> snd (create_scheduled_message_within_limit (sample_scheduled\<lparr>sched_id := ''R'', sched_post_at := 12\<rparr>) 10 1 sample_event s)
      = Some ScheduledMessageLimit"
proof -
  let ?v = "sample_scheduled\<lparr>sched_post_at := 7\<rparr>"
  let ?s = "schedule_step (ScheduleWithin ?v 10 1 sample_event) 0 limited_store"
  have empty: "scheduled limited_store = []" by (simp add: limited_store_def sample_store_def new_store_def)
  have fits: "\<not> scheduled_message_limit_exceeded [] 7 10 1"
    by (simp add: scheduled_message_limit_exceeded_def advance_left.simps)
  have put: "?s = (put_scheduled ''S'' ?v limited_store)\<lparr>chat_outbox := chat_outbox limited_store @ [sample_event]\<rparr>"
    using fits by (simp add: create_scheduled_message_within_limit_def refuse_schedule_def nearby_def limited_store_def sample_defs
        sample_scheduled_def zero_scheduled_def validate_scheduled_attachments_def)
  have run: "(limited_step plain_library 10 1)\<^sup>*\<^sup>* limited_store ?s"
    by (intro r_into_rtranclp limited_step.schedules) simp
  have full: "scheduled_message_limit_exceeded [7] 12 10 1"
    by (simp add: scheduled_message_limit_exceeded_def advance_left.simps time_sub_def upt_rec)
  have times: "pending_times ''T'' ''C'' ?s = [7]" unfolding put
    by (simp add: pending_times_def pending_in_def limited_store_def sample_store_def new_store_def sample_scheduled_def zero_scheduled_def)
  moreover have "snd (create_scheduled_message_within_limit (sample_scheduled\<lparr>sched_id := ''R'', sched_post_at := 12\<rparr>) 10 1 sample_event ?s)
      = Some ScheduledMessageLimit" unfolding put
    using full by (simp add: create_scheduled_message_within_limit_def refuse_schedule_def nearby_def pending_in_def limited_store_def
        sample_defs sample_scheduled_def zero_scheduled_def validate_scheduled_attachments_def put_scheduled_def)
  moreover have "length (filter (\<lambda>at. 0 \<le> at \<and> at \<le> 0 + 10) (pending_times ''T'' ''C'' ?s)) \<le> nat 1"
    by (rule schedule_never_floods [OF run empty]) simp_all
  ultimately show ?thesis by blast
qed

end
