(* ===== verification/Schedule_Rows.thy ===== *)
theory Schedule_Rows
  imports Scheduled_Queue
begin

section \<open>What the tables of the schedule keep\<close>

text \<open>
  The four tables of the schedule agree while the clock does not run backwards: a row stands under its
  own identifier, a live lease is on a row, and a delivered one is leased to nobody. What a worker
  later writes under an identifier it was handed is then written to that message.
\<close>

definition schedule_sound :: "time \<Rightarrow> chat \<Rightarrow> bool" where
  "schedule_sound now s \<longleftrightarrow> distinct (map fst (scheduled s)) \<and> list_all (\<lambda>(i, v). sched_id v = i) (scheduled s)
     \<and> (\<forall>i. lease_live s i now \<longrightarrow> map_of (scheduled s) i \<noteq> None)
     \<and> (\<forall>i \<in> scheduled_delivered s. scheduled_leases s i = None)"

lemma sound_named: "schedule_sound now s \<Longrightarrow> map_of (scheduled s) i = Some v \<Longrightarrow> sched_id v = i"
  by (auto simp: schedule_sound_def list_all_iff dest!: map_of_SomeD)

lemma lease_live_earlier: "lease_live s i now \<Longrightarrow> t \<le> now \<Longrightarrow> lease_live s i t"
  by (auto simp: lease_live_def split: option.splits)

lemma sound_later: "schedule_sound t s \<Longrightarrow> t \<le> now \<Longrightarrow> schedule_sound now s"
  by (auto simp: schedule_sound_def dest: lease_live_earlier)

lemma named_update:
  "list_all (\<lambda>(i, v). sched_id v = i) al \<Longrightarrow> sched_id v = i \<Longrightarrow> list_all (\<lambda>(i, v). sched_id v = i) (AList.update i v al)"
  by (induction al) auto

text \<open>A row replaced under its own identifier, with leases that go no further than before.\<close>

lemma sound_put:
  assumes "schedule_sound now s" "sched_id v = i" "scheduled s' = AList.update i v (scheduled s)"
    and "\<And>j. scheduled_leases s' j \<noteq> None \<Longrightarrow> scheduled_leases s' j = scheduled_leases s j"
    and "scheduled_delivered s' = scheduled_delivered s \<or> scheduled_leases s' i = None \<and> scheduled_delivered s' = insert i (scheduled_delivered s)"
  shows "schedule_sound now s'"
proof -
  have "lease_live s j now" if "lease_live s' j now" for j
  proof -
    have "scheduled_leases s' j \<noteq> None" using that by (simp add: lease_live_def split: option.splits)
    then have "scheduled_leases s' j = scheduled_leases s j" by (rule assms(4))
    then show ?thesis using that by (simp add: lease_live_def)
  qed
  moreover have "scheduled_leases s' j = None" if "j \<in> scheduled_delivered s'" for j
  proof (rule ccontr)
    assume n: "scheduled_leases s' j \<noteq> None"
    then have "scheduled_leases s j \<noteq> None" using assms(4) by metis
    then have "j \<notin> scheduled_delivered s" using assms(1) by (auto simp: schedule_sound_def)
    then show False using assms(5) that n by auto
  qed
  ultimately show ?thesis using assms(1-3) by (auto simp: schedule_sound_def distinct_update named_update update_conv')
qed

lemma sound_added:
  assumes "schedule_sound now s" "s' = s \<or> (scheduled s' = AList.update (sched_id v) v (scheduled s)
    \<and> scheduled_leases s' = scheduled_leases s \<and> scheduled_delivered s' = scheduled_delivered s)"
  shows "schedule_sound now s'"
proof (cases "s' = s")
  case False
  then show ?thesis using assms(2) by (intro sound_put [OF assms(1), of v]) simp_all
qed (use assms(1) in simp)

lemma sound_drop:
  assumes "schedule_sound now s" "scheduled s' = AList.delete i (scheduled s)" "\<not> lease_live s i now"
    "scheduled_leases s' = scheduled_leases s" "scheduled_delivered s' = scheduled_delivered s"
  shows "schedule_sound now s'"
proof -
  have "lease_live s' = lease_live s" using assms(4) by (simp add: lease_live_def fun_eq_iff)
  moreover have "list_all (\<lambda>(i, v). sched_id v = i) (AList.delete i al)" if "list_all (\<lambda>(i, v). sched_id v = i) al" for al
    using that by (auto simp: list_all_iff AList.delete_eq)
  ultimately show ?thesis using assms by (auto simp: schedule_sound_def distinct_delete delete_conv')
qed

text \<open>New leases, on rows that are not delivered.\<close>

lemma sound_lease:
  assumes "schedule_sound now s" "scheduled s' = scheduled s" "scheduled_delivered s' = scheduled_delivered s"
    and "\<And>j. scheduled_leases s' j \<noteq> None \<Longrightarrow> scheduled_leases s' j = scheduled_leases s j
      \<or> (map_of (scheduled s) j \<noteq> None \<and> j \<notin> scheduled_delivered s)"
  shows "schedule_sound now s'"
proof -
  have "map_of (scheduled s) j \<noteq> None" if "lease_live s' j now" for j
    using that assms(1) assms(4) [of j] by (auto simp: lease_live_def schedule_sound_def split: option.splits)
  moreover have "scheduled_leases s' j = None" if "j \<in> scheduled_delivered s" for j
    using assms(1) assms(4) [of j] that by (cases "scheduled_leases s' j") (auto simp: schedule_sound_def)
  ultimately show ?thesis using assms(1-3) by (simp add: schedule_sound_def)
qed

lemma claimed_rows:
  assumes "schedule_sound now s"
    "v \<in> set (take n (sort_key due_order (filter (claimable workspace now s) (map snd (scheduled s)))))"
  shows "map_of (scheduled s) (sched_id v) = Some v \<and> sched_id v \<notin> scheduled_delivered s"
proof -
  have "v \<in> snd ` set (scheduled s)" "claimable workspace now s v" using in_set_takeD [OF assms(2)] by auto
  then obtain i where i: "(i, v) \<in> set (scheduled s)" "sched_id v \<notin> scheduled_delivered s" by (auto simp: claimable_def)
  then have "sched_id v = i" "distinct (map fst (scheduled s))" using assms(1) by (auto simp: schedule_sound_def list_all_iff)
  then show ?thesis using i by simp
qed

lemma holds_row: "schedule_sound now s \<Longrightarrow> holds_scheduled owner i now s \<Longrightarrow> \<exists>v. map_of (scheduled s) i = Some v \<and> sched_id v = i"
proof -
  assume k: "schedule_sound now s" and h: "holds_scheduled owner i now s"
  then have "lease_live s i now" by (simp add: holds_scheduled_iff lease_live_iff)
  then obtain v where "map_of (scheduled s) i = Some v" using k unfolding schedule_sound_def by blast
  then show ?thesis using sound_named [OF k] by blast
qed

lemma schedule_step_sound:
  assumes k: "schedule_sound now s"
  shows "schedule_sound now (schedule_step op now s)"
proof (cases op)
  case (Schedule v ev)
  then have "schedule_step op now s = s \<or> (scheduled (schedule_step op now s) = AList.update (sched_id v) v (scheduled s)
      \<and> scheduled_leases (schedule_step op now s) = scheduled_leases s
      \<and> scheduled_delivered (schedule_step op now s) = scheduled_delivered s)"
    by (simp add: create_scheduled_message_def split: option.splits)
  then show ?thesis by (rule sound_added [OF k])
next
  case (ScheduleWithin v window limit ev)
  then have "schedule_step op now s = s \<or> (scheduled (schedule_step op now s) = AList.update (sched_id v) v (scheduled s)
      \<and> scheduled_leases (schedule_step op now s) = scheduled_leases s
      \<and> scheduled_delivered (schedule_step op now s) = scheduled_delivered s)"
    by (simp add: create_scheduled_message_within_limit_def split: option.splits)
  then show ?thesis by (rule sound_added [OF k])
next
  case (Reschedule u window limit ev)
  show ?thesis
  proof (cases "snd (update_scheduled_message_within_limit u window limit ev now s)")
    case (Inr v')
    then obtain v where v: "map_of (scheduled s) (up_id u) = Some v" "sched_id v' = sched_id v"
      and r: "scheduled (schedule_step op now s) = AList.update (up_id u) v' (scheduled s)"
      "scheduled_delivered (schedule_step op now s) = scheduled_delivered s"
      "scheduled_leases (schedule_step op now s) = scheduled_leases s"
      using Reschedule by (auto simp: update_scheduled_message_within_limit_def Let_def split: if_splits option.splits)
    show ?thesis by (rule sound_put [OF k _ r(1)]) (use sound_named [OF k v(1)] v(2) r in simp_all)
  next
    case (Inl e)
    then have "schedule_step op now s = s" using Reschedule
      by (auto simp: update_scheduled_message_within_limit_def Let_def split: if_splits option.splits)
    then show ?thesis using k by simp
  qed
next
  case (Unschedule w u c i ev)
  then show ?thesis using k by (auto simp: delete_scheduled_message_def Let_def intro!: sound_drop [OF k])
next
  case (UnscheduleFor w cred c i ev)
  then show ?thesis using k by (auto simp: delete_scheduled_message_for_credential_def Let_def intro!: sound_drop [OF k])
next
  case (TakeDue w owner limit lease)
  show ?thesis unfolding TakeDue
    by (rule sound_lease [OF k]) (use claimed_rows [OF k] in \<open>auto simp: claim_scheduled_messages_def lease_fold Let_def split: if_splits\<close>)
next
  case (TakeOne w cred i owner lease)
  show ?thesis unfolding TakeOne
    by (rule sound_lease [OF k]) (auto simp: claim_scheduled_message_for_credential_def split: option.splits if_splits)
next
  case (Extend owner i lease now')
  show ?thesis unfolding Extend
  proof (rule sound_lease [OF k])
    fix j
    assume "scheduled_leases (schedule_step (Extend owner i lease now') now s) j \<noteq> None"
    then show "scheduled_leases (schedule_step (Extend owner i lease now') now s) j = scheduled_leases s j
        \<or> (map_of (scheduled s) j \<noteq> None \<and> j \<notin> scheduled_delivered s)"
      using holds_row [OF k, of owner i] k by (auto simp: renew_scheduled_message_def schedule_sound_def split: if_splits)
  qed (auto simp: renew_scheduled_message_def)
next
  case (Settle owner i now')
  show ?thesis
  proof (cases "holds_scheduled owner i now s")
    case True
    then obtain v where "map_of (scheduled s) i = Some v" "sched_id v = i" using holds_row [OF k] by blast
    then show ?thesis using True unfolding Settle
      by (intro sound_put [OF k, of "(scheduled_of s i)\<lparr>sched_delivered_at := now', sched_failed_at := 0, sched_failure_code := []\<rparr>" i])
        (auto simp: mark_scheduled_message_delivered_def scheduled_of_def split: if_splits)
  qed (use k Settle in \<open>simp add: mark_scheduled_message_delivered_def\<close>)
next
  case (GiveUp owner i code failed_at ev)
  show ?thesis
  proof (cases "code \<noteq> [] \<and> holds_scheduled owner i now s")
    case True
    then obtain v where "map_of (scheduled s) i = Some v" "sched_id v = i" using holds_row [OF k] by blast
    then show ?thesis using True unfolding GiveUp
      by (intro sound_put [OF k, of "(scheduled_of s i)\<lparr>sched_failure_code := code, sched_failed_at := failed_at\<rparr>" i])
        (auto simp: mark_scheduled_message_failed_def scheduled_of_def split: if_splits)
  qed (use k GiveUp in \<open>auto simp: mark_scheduled_message_failed_def\<close>)
next
  case (PutBack owner i next_at)
  show ?thesis unfolding PutBack
    by (rule sound_lease [OF k]) (auto simp: release_scheduled_message_def split: if_splits)
qed

text \<open>The service's steps along a clock that does not run backwards.\<close>

inductive clocked_step :: "library \<Rightarrow> time \<times> chat \<Rightarrow> time \<times> chat \<Rightarrow> bool" for L where
  chats: "chat_step L s s' \<Longrightarrow> t \<le> t' \<Longrightarrow> clocked_step L (t, s) (t', s')"
| schedules: "t \<le> now \<Longrightarrow> clocked_step L (t, s) (now, schedule_step op now s)"

lemma sound_same: "schedule_sound t s \<Longrightarrow> schedule_of s' = schedule_of s \<Longrightarrow> schedule_sound t s'"
  by (auto simp: schedule_sound_def schedule_of_def lease_live_def)

lemma clocked_sound: "clocked_step L x y \<Longrightarrow> schedule_sound (fst x) (snd x) \<Longrightarrow> schedule_sound (fst y) (snd y)"
  by (induction rule: clocked_step.induct)
    (auto intro: sound_same [OF _ chat_step_scheduled] sound_later schedule_step_sound)

text \<open>
  C31. The schedule's tables stay well formed. From a schedule nothing was put into, whatever the
  service does along a clock that does not run backwards, every scheduled message stands once, under
  its own identifier; whoever holds an unexpired lease holds it on a message that is there; and a
  message marked delivered is leased to nobody.
\<close>

theorem schedule_stays_sound:
  assumes "(clocked_step L)\<^sup>*\<^sup>* (t0, s0) (t, s)"
    "scheduled s0 = []" "scheduled_delivered s0 = {}" "scheduled_leases s0 = Map.empty"
  shows "distinct (map fst (scheduled s)) \<and> (\<forall>i v. map_of (scheduled s) i = Some v \<longrightarrow> sched_id v = i)
    \<and> (\<forall>i a. schedule_holder s i t = Some a \<longrightarrow> map_of (scheduled s) i \<noteq> None \<and> i \<notin> scheduled_delivered s)"
proof -
  have "schedule_sound (fst y) (snd y)" if "(clocked_step L)\<^sup>*\<^sup>* (t0, s0) y" for y
    using that
  proof (induction rule: rtranclp_induct)
    case base
    then show ?case using assms(2-4) by (simp add: schedule_sound_def lease_live_def)
  next
    case (step y z)
    then show ?case using clocked_sound by blast
  qed
  from this [OF assms(1)] have k: "schedule_sound t s" by simp
  have "map_of (scheduled s) i \<noteq> None \<and> i \<notin> scheduled_delivered s" if "schedule_holder s i t = Some a" for i a
    using that k lease_live_iff [of s i t] by (auto simp: schedule_sound_def schedule_holder_def)
  moreover have "distinct (map fst (scheduled s))" using k by (simp add: schedule_sound_def)
  ultimately show ?thesis using sound_named [OF k] by blast
qed

definition lone_schedule :: chat where
  "lone_schedule = schedule_step (TakeDue [] ''w'' 1 10) 8
     (schedule_step (Schedule (sample_scheduled\<lparr>sched_post_at := 7\<rparr>) sample_event) 5
       ((sample_store [])\<lparr>users := [''U'' \<mapsto> \<lparr>account_workspace = ''T'', account_deleted = False\<rparr>]\<rparr>))"

lemma lone_schedule_held: "schedule_holder lone_schedule ''S'' 8 = Some ''w''"
  by (simp add: lone_schedule_def create_scheduled_message_def refuse_schedule_def sample_defs sample_scheduled_def zero_scheduled_def
      validate_scheduled_attachments_def claim_scheduled_messages_def claimable_def lease_live_def next_attempt_at_def
      put_scheduled_def schedule_holder_def Let_def)

lemma schedule_stays_sound_witness:
  "schedule_holder lone_schedule ''S'' 8 = Some ''w'' \<and> map_of (scheduled lone_schedule) ''S'' \<noteq> None"
proof -
  let ?s = "(sample_store [])\<lparr>users := [''U'' \<mapsto> \<lparr>account_workspace = ''T'', account_deleted = False\<rparr>]\<rparr>"
  let ?s' = "schedule_step (Schedule (sample_scheduled\<lparr>sched_post_at := 7\<rparr>) sample_event) 5 ?s"
  have "clocked_step plain_library (0, ?s) (5, ?s')" by (rule clocked_step.schedules) simp
  moreover have "clocked_step plain_library (5, ?s') (8, lone_schedule)"
    unfolding lone_schedule_def by (rule clocked_step.schedules) simp
  ultimately have "(clocked_step plain_library)\<^sup>*\<^sup>* (0, ?s) (8, lone_schedule)" by simp
  moreover have "scheduled ?s = []" "scheduled_delivered ?s = {}" "scheduled_leases ?s = Map.empty"
    by (simp_all add: sample_store_def new_store_def)
  ultimately show ?thesis using schedule_stays_sound [of plain_library 0 ?s 8 lone_schedule] lone_schedule_held by blast
qed

end
