(* ===== verification/Post_Service.thy ===== *)
theory Post_Service
  imports Schedule_Rows
begin

section \<open>Posting through the service\<close>

text \<open>
  \<^verbatim>\<open>postMessageAs\<close> of \<^verbatim>\<open>internal/service/messages.go\<close> with what it is authorized by, and the two
  ways a scheduled message reaches it: the worker's \<^verbatim>\<open>PostScheduledMessage\<close> and \<^verbatim>\<open>SendScheduledMessageNow\<close>.
  Roles and posting preferences are tables these operations only read: a \<open>directory\<close> beside the
  store. Arguments are the normalizers of a message's JSON, the check of its blocks, the URL parser,
  the linking of names, the encoding of the presentation, and \<open>complete\<close>, which stands for
  \<^verbatim>\<open>completeExternalUploads\<close>, the path of a scheduled message that carries files. The reads of one
  call and its commit happen with nothing in between.
\<close>

datatype service_error =
  Stored store_error | InvalidMessage | InvalidBlocks | NotInConversation | AlreadyArchived
  | PostingRestricted | InvalidTimestamp | ThreadNotFound | Failure | Interrupted

subsection \<open>Roles and posting preferences\<close>

datatype workspace_role = RoleOther | RoleMember | RoleAdmin | RoleOwner

fun role_rank :: "workspace_role \<Rightarrow> nat" where
  "role_rank RoleOwner = 3"
| "role_rank RoleAdmin = 2"
| "role_rank RoleMember = 1"
| "role_rank RoleOther = 0"

record membership =
  mem_user :: string
  mem_role :: workspace_role
  mem_restricted :: bool
  mem_ultra :: bool

definition guest :: "membership \<Rightarrow> bool" where
  "guest m \<longleftrightarrow> mem_restricted m \<or> mem_ultra m"

datatype poster_type = PosterEveryone | PosterRegularMembers | PosterGuests | PosterAdmins | PosterOther

record preference_list =
  pref_types :: "poster_type list"
  pref_users :: "string list"

definition permits :: "preference_list \<Rightarrow> membership \<Rightarrow> bool" where
  "permits p m =
     (if pref_types p = [] \<and> pref_users p = [] then True
      else if role_rank (mem_role m) \<ge> role_rank RoleAdmin then True
      else if list_ex (\<lambda>user. user = mem_user m) (pref_users p) then True
      else list_ex (\<lambda>kind. case kind of
          PosterEveryone \<Rightarrow> True
        | PosterGuests \<Rightarrow> guest m
        | PosterRegularMembers \<Rightarrow> \<not> guest m
        | _ \<Rightarrow> False) (pref_types p))"

record directory =
  dir_memberships :: "string \<Rightarrow> membership"
  dir_can_thread :: "string \<Rightarrow> preference_list"
  dir_who_can_post :: "string \<Rightarrow> preference_list"

subsection \<open>Who may act where\<close>

definition private_flag :: "conversation \<Rightarrow> bool" where
  "private_flag c \<longleftrightarrow> or_public (conv_kind c) \<in> {GroupIM, DirectIM, PrivateChannel}"

definition is_conversation_member :: "chat \<Rightarrow> string \<Rightarrow> string \<Rightarrow> bool" where
  "is_conversation_member s conversation user \<longleftrightarrow> user \<in> set (memberships s conversation)"

definition authorize_access_groups :: "chat \<Rightarrow> string \<Rightarrow> string \<Rightarrow> string \<Rightarrow> service_error option" where
  "authorize_access_groups s workspace user conversation =
     (case conversations s conversation of
        None \<Rightarrow> Some (Stored NotFound)
      | Some c \<Rightarrow>
          if conv_workspace c \<noteq> workspace then Some (Stored NotFound)
          else if conversation_access s conversation = [] then None
          else if list_ex (\<lambda>g. case user_groups s g of
                   None \<Rightarrow> False
                 | Some grp \<Rightarrow> group_workspace grp = workspace \<and> group_enabled grp \<and> user \<in> set (group_users grp))
               (conversation_access s conversation)
          then None else Some (Stored NotFound))"

definition authorize_conversation :: "chat \<Rightarrow> string \<Rightarrow> string \<Rightarrow> string \<Rightarrow> service_error option" where
  "authorize_conversation s workspace user conversation =
     (case conversations s conversation of
        None \<Rightarrow> Some (Stored NotFound)
      | Some c \<Rightarrow>
          if conv_workspace c \<noteq> workspace then Some (Stored NotFound)
          else (case users s user of
              None \<Rightarrow> Some (Stored NotFound)
            | Some u \<Rightarrow>
                if account_workspace u \<noteq> workspace \<or> account_deleted u then Some (Stored NotFound)
                else if private_flag c then
                  (if \<not> is_conversation_member s conversation user then Some (Stored NotFound)
                   else authorize_access_groups s workspace user conversation)
                else None))"

definition require_conversation_membership :: "chat \<Rightarrow> string \<Rightarrow> string \<Rightarrow> string \<Rightarrow> service_error option" where
  "require_conversation_membership s workspace user conversation =
     (case authorize_conversation s workspace user conversation of
        Some e \<Rightarrow> Some e
      | None \<Rightarrow> if \<not> is_conversation_member s conversation user then Some NotInConversation else None)"

definition active_workspace_membership :: "directory \<Rightarrow> chat \<Rightarrow> string \<Rightarrow> string \<Rightarrow> service_error + membership" where
  "active_workspace_membership D s workspace user =
     (if workspace \<notin> workspaces s then Inl (Stored NotFound)
      else case users s user of
        None \<Rightarrow> Inl (Stored NotFound)
      | Some u \<Rightarrow>
          if account_workspace u \<noteq> workspace \<or> account_deleted u then Inl (Stored NotFound)
          else if members s (member_key workspace user) \<noteq> Some True then Inl (Stored NotFound)
          else Inr (dir_memberships D (member_key workspace user)))"

text \<open>What a member may post: messages, and replies.\<close>

definition member_posting_permissions :: "directory \<Rightarrow> chat \<Rightarrow> string \<Rightarrow> string \<Rightarrow> conversation \<Rightarrow> service_error + bool \<times> bool" where
  "member_posting_permissions D s workspace user target =
     (if direct_or_group target then Inr (True, True)
      else case active_workspace_membership D s workspace user of
        Inl e \<Rightarrow> Inl e
      | Inr m \<Rightarrow>
          if conversations s (conv_id target) = None then Inl (Stored NotFound)
          else Inr (permits (dir_who_can_post D (conv_id target)) m, permits (dir_can_thread D (conv_id target)) m))"

subsection \<open>The request\<close>

record post_request =
  req_conversation :: string
  req_text :: string
  req_blocks :: string
  req_attachments :: string
  req_metadata :: string
  req_thread :: string
  req_key :: string
  req_app :: string
  req_markdown :: bool
  req_broadcast :: bool
  req_parse :: string
  req_mrkdwn_disabled :: bool
  req_link_names :: bool
  req_unfurl_links :: "bool option"
  req_unfurl_media :: "bool option"
  req_username :: string
  req_icon_emoji :: string
  req_icon_url :: string
  req_subtype :: string
  req_bot :: string
  req_write_public :: bool
  req_execution :: string

record stream_state =
  ss_active :: bool
  ss_task_mode :: string
  ss_bot :: string
  ss_username :: string
  ss_icon_emoji :: string
  ss_icon_url :: string
  ss_plan :: string
  ss_tasks :: "string list"
  ss_chunks :: "string list"
  ss_warnings :: "string list"
  ss_markdown :: bool
  ss_broadcast :: bool
  ss_parse :: string
  ss_mrkdwn_disabled :: bool
  ss_link_names :: bool
  ss_unfurl_links :: "bool option"
  ss_unfurl_media :: "bool option"
  ss_execution :: string

definition zero_stream_state :: stream_state where
  "zero_stream_state = \<lparr>ss_active = False, ss_task_mode = [], ss_bot = [], ss_username = [], ss_icon_emoji = [], ss_icon_url = [],
     ss_plan = [], ss_tasks = [], ss_chunks = [], ss_warnings = [], ss_markdown = False, ss_broadcast = False, ss_parse = [],
     ss_mrkdwn_disabled = False, ss_link_names = False, ss_unfurl_links = None, ss_unfurl_media = None, ss_execution = []\<rparr>"

record post_tools =
  tool_library :: library
  tool_blocks_valid :: "string \<Rightarrow> bool"
  tool_metadata :: "string \<Rightarrow> string option"
  tool_icon_url :: "string \<Rightarrow> bool"
  tool_link_names :: "chat \<Rightarrow> string \<Rightarrow> string \<Rightarrow> string \<Rightarrow> service_error + string"
  tool_encode :: "stream_state \<Rightarrow> string option"
  tool_decode :: "string \<Rightarrow> stream_state option"

text \<open>\<^verbatim>\<open>utf8.RuneCountInString\<close>: a byte that begins no rune counts as one.\<close>

definition rune_width :: "nat list \<Rightarrow> nat" where
  "rune_width bs = (case bs of
     [] \<Rightarrow> 0
   | b # rest \<Rightarrow>
       if cont 0xC2 0xDF b \<and> (case rest of b1 # _ \<Rightarrow> cont 0x80 0xBF b1 | _ \<Rightarrow> False) then 2
       else if cont 0xE0 0xEF b \<and> (case rest of b1 # b2 # _ \<Rightarrow>
           cont (if b = 0xE0 then 0xA0 else 0x80) (if b = 0xED then 0x9F else 0xBF) b1 \<and> cont 0x80 0xBF b2 | _ \<Rightarrow> False) then 3
       else if cont 0xF0 0xF4 b \<and> (case rest of b1 # b2 # b3 # _ \<Rightarrow>
           cont (if b = 0xF0 then 0x90 else 0x80) (if b = 0xF4 then 0x8F else 0xBF) b1 \<and> cont 0x80 0xBF b2 \<and> cont 0x80 0xBF b3
         | _ \<Rightarrow> False) then 4
       else 1)"

lemma rune_width_pos: "bs \<noteq> [] \<Longrightarrow> 0 < rune_width bs"
  by (simp add: rune_width_def split: list.splits)

function rune_count :: "nat list \<Rightarrow> nat" where
  "rune_count bs = (if bs = [] then 0 else 1 + rune_count (drop (rune_width bs) bs))"
  by pat_completeness auto
termination by (relation "measure length") (auto simp: rune_width_pos)

declare rune_count.simps [simp del]

definition message_text_too_long :: "string \<Rightarrow> bool" where
  "message_text_too_long v \<longleftrightarrow> rune_count (map of_char v) > 40000"

definition message_payload_too_long :: "string \<Rightarrow> string \<Rightarrow> bool" where
  "message_payload_too_long blocks attachments \<longleftrightarrow>
     int (length blocks) > 262144 \<or> int (length attachments) > 262144 - int (length blocks)"

definition no_structured_content :: "string \<Rightarrow> bool" where
  "no_structured_content v \<longleftrightarrow> trim_space v = [] \<or> trim_space v = ''[]''"

definition subtype_valid :: "string \<Rightarrow> bool" where
  "subtype_valid v \<longleftrightarrow> v \<in> {'''', ''channel_join'', ''channel_leave'', ''channel_topic'', ''channel_purpose'', ''channel_name'',
     ''me_message'', ''huddle_thread''}"

definition subtype_system :: "string \<Rightarrow> bool" where
  "subtype_system v \<longleftrightarrow> v \<noteq> '''' \<and> v \<noteq> ''me_message''"

definition has_prefix :: "string \<Rightarrow> char \<Rightarrow> bool" where
  "has_prefix v c \<longleftrightarrow> v \<noteq> [] \<and> hd v = c"

definition has_suffix :: "string \<Rightarrow> char \<Rightarrow> bool" where
  "has_suffix v c \<longleftrightarrow> v \<noteq> [] \<and> last v = c"

definition valid_message_authorship :: "post_tools \<Rightarrow> string \<Rightarrow> string \<Rightarrow> string \<Rightarrow> bool" where
  "valid_message_authorship P username icon_emoji icon_url \<longleftrightarrow>
     rune_count (map of_char username) \<le> 80 \<and> (icon_url = [] \<or> tool_icon_url P icon_url)
     \<and> (icon_emoji = [] \<or> (has_prefix icon_emoji CHR '':'' \<and> has_suffix icon_emoji CHR '':''))"

text \<open>What the request says, checked without the store: the blocks, attachments and metadata to store.\<close>

definition validate_request :: "post_tools \<Rightarrow> post_request \<Rightarrow> service_error + string \<times> string \<times> string" where
  "validate_request P r =
     (if message_payload_too_long (req_blocks r) (req_attachments r) then Inl InvalidMessage
      else case lib_blocks (tool_library P) (req_blocks r) of
        None \<Rightarrow> Inl InvalidBlocks
      | Some blocks \<Rightarrow>
          (case lib_attachments (tool_library P) (req_attachments r) of
             None \<Rightarrow> Inl InvalidMessage
           | Some attachments \<Rightarrow>
               if trim_space (req_conversation r) = []
                  \<or> (trim_space (req_text r) = [] \<and> no_structured_content blocks \<and> no_structured_content attachments)
                  \<or> message_text_too_long (req_text r)
                  \<or> (req_markdown r \<and> rune_count (map of_char (req_text r)) > 12000)
                  \<or> (req_parse r \<noteq> '''' \<and> req_parse r \<noteq> ''none'' \<and> req_parse r \<noteq> ''full'')
                  \<or> (req_broadcast r \<and> req_thread r = [])
                  \<or> \<not> subtype_valid (req_subtype r) \<or> subtype_system (req_subtype r)
               then Inl InvalidMessage
               else if trim_space blocks \<noteq> [] \<and> \<not> tool_blocks_valid P blocks then Inl InvalidBlocks
               else (case (if trim_space (req_metadata r) = [] then Inr ''''
                           else if req_app r = [] then Inl InvalidMessage
                           else case tool_metadata P (req_metadata r) of None \<Rightarrow> Inl InvalidMessage | Some v \<Rightarrow> Inr v) of
                  Inl e \<Rightarrow> Inl e
                | Inr metadata \<Rightarrow>
                    if \<not> valid_message_authorship P (req_username r) (req_icon_emoji r) (req_icon_url r) then Inl InvalidMessage
                    else Inr (blocks, attachments, metadata))))"

text \<open>Whether the author may post it where it goes.\<close>

definition authorize_post :: "directory \<Rightarrow> chat \<Rightarrow> string \<Rightarrow> string \<Rightarrow> post_request \<Rightarrow> service_error option" where
  "authorize_post D s workspace author r =
     (if workspace \<notin> workspaces s then Some (Stored NotFound)
      else case conversations s (req_conversation r) of
        None \<Rightarrow> Some (Stored NotFound)
      | Some target \<Rightarrow>
          if conv_workspace target \<noteq> workspace then Some (Stored NotFound)
          else (case (if \<not> req_write_public r \<or> req_app r = [] \<or> private_flag target \<or> direct_or_group target
                      then require_conversation_membership s workspace author (req_conversation r) else None) of
              Some e \<Rightarrow> Some e
            | None \<Rightarrow>
                if conv_archived target then Some AlreadyArchived
                else if author \<noteq> [] \<and> req_app r = [] then
                  (case member_posting_permissions D s workspace author target of
                     Inl e \<Rightarrow> Some e
                   | Inr (new_messages, replies) \<Rightarrow>
                       if \<not> (if req_thread r \<noteq> [] then replies else new_messages) then Some PostingRestricted else None)
                else None))"

text \<open>The thread the message joins: that of the live message its timestamp names.\<close>

definition thread_of_request :: "chat \<Rightarrow> string \<Rightarrow> post_request \<Rightarrow> service_error + string" where
  "thread_of_request s workspace r =
     (if req_thread r = [] then Inr []
      else case parse_message_timestamp (req_thread r) of
        None \<Rightarrow> Inl InvalidTimestamp
      | Some created \<Rightarrow>
          (case get_message_by_created_at s (req_conversation r) created of
             Inl _ \<Rightarrow> Inl ThreadNotFound
           | Inr parent \<Rightarrow>
               if msg_workspace parent \<noteq> workspace \<or> msg_deleted parent then Inl ThreadNotFound
               else Inr (if msg_thread parent \<noteq> [] then msg_thread parent else new_message_timestamp (msg_created parent))))"

definition presentation :: "post_request \<Rightarrow> stream_state" where
  "presentation r = zero_stream_state\<lparr>ss_bot := req_bot r, ss_execution := req_execution r, ss_username := req_username r,
     ss_icon_emoji := req_icon_emoji r, ss_icon_url := req_icon_url r, ss_markdown := req_markdown r, ss_parse := req_parse r,
     ss_mrkdwn_disabled := req_mrkdwn_disabled r, ss_link_names := req_link_names r, ss_unfurl_links := req_unfurl_links r,
     ss_unfurl_media := req_unfurl_media r\<rparr>"

definition cached_post :: "chat \<Rightarrow> string \<Rightarrow> string \<Rightarrow> string \<Rightarrow> (service_error + message) option" where
  "cached_post s workspace author key =
     (if key = [] then None
      else case get_idempotent_message s workspace author key of
        Inr cached \<Rightarrow> Some (Inr cached)
      | Inl e \<Rightarrow> if e = NotFound then None else Some (Inl (Stored e)))"

definition new_post :: "string \<Rightarrow> time \<Rightarrow> string \<Rightarrow> string \<Rightarrow> post_request \<Rightarrow> string \<times> string \<times> string \<Rightarrow> string \<Rightarrow> string \<Rightarrow> string \<Rightarrow> message" where
  "new_post i now workspace author r = (\<lambda>(blocks, attachments, metadata) thread body stream.
     \<lparr>msg_id = i, msg_workspace = workspace, msg_conversation = req_conversation r, msg_author = author, msg_app = req_app r,
      msg_text = body, msg_blocks = blocks, msg_attachments = attachments, msg_metadata = metadata, msg_stream = stream,
      msg_thread = thread, msg_broadcast = req_broadcast r, msg_created = message_instant now, msg_edited_at = 0,
      msg_edited_by = [], msg_subtype = req_subtype r, msg_deleted = False, msg_unfurls = Map.empty, msg_files = []\<rparr>)"

definition post_message_as ::
  "post_tools \<Rightarrow> directory \<Rightarrow> (message \<Rightarrow> event option) \<Rightarrow> (message \<Rightarrow> event list option) \<Rightarrow> string option \<Rightarrow> time
    \<Rightarrow> string \<Rightarrow> string \<Rightarrow> post_request \<Rightarrow> string \<Rightarrow> chat \<Rightarrow> chat \<times> (service_error + message)" where
  "post_message_as P D mk_event mk_links fresh now workspace author r scheduled_id s =
     (if scheduled_id \<noteq> [] \<and> req_key r \<noteq> scheduled_id then (s, Inl InvalidMessage)
      else case cached_post s workspace author (req_key r) of
        Some answer \<Rightarrow> (s, answer)
      | None \<Rightarrow>
          (case validate_request P r of
             Inl e \<Rightarrow> (s, Inl e)
           | Inr content \<Rightarrow>
               (case authorize_post D s workspace author r of
                  Some e \<Rightarrow> (s, Inl e)
                | None \<Rightarrow>
                    (case thread_of_request s workspace r of
                       Inl e \<Rightarrow> (s, Inl e)
                     | Inr thread \<Rightarrow>
                         (case (if req_link_names r \<and> \<not> req_markdown r \<and> \<not> req_mrkdwn_disabled r
                                then tool_link_names P s workspace author (req_text r) else Inr (req_text r)) of
                            Inl e \<Rightarrow> (s, Inl e)
                          | Inr body \<Rightarrow>
                              (case (fresh, tool_encode P (presentation r)) of
                                 (Some i, Some encoded) \<Rightarrow>
                                   (case post_message (tool_library P) mk_event mk_links (req_key r) scheduled_id
                                      (new_post i now workspace author r content thread body (if encoded = ''{}'' then [] else encoded)) s of
                                      (s', Inl e) \<Rightarrow> (s', Inl (Stored e))
                                    | (s', Inr m) \<Rightarrow> (s', Inr m))
                               | _ \<Rightarrow> (s, Inl Failure)))))))"

subsection \<open>Delivering a scheduled message\<close>

definition scheduled_message_post_request :: "post_tools \<Rightarrow> scheduled_message \<Rightarrow> service_error + post_request" where
  "scheduled_message_post_request P v =
     (case (if sched_stream v = [] then Some zero_stream_state else tool_decode P (sched_stream v)) of
        None \<Rightarrow> Inl InvalidMessage
      | Some state \<Rightarrow> Inr \<lparr>req_conversation = sched_channel v, req_text = sched_text v, req_blocks = sched_blocks v,
          req_attachments = sched_attachments v, req_metadata = sched_metadata v, req_thread = sched_thread v, req_key = sched_id v,
          req_app = sched_app v, req_markdown = ss_markdown state, req_broadcast = ss_broadcast state, req_parse = ss_parse state,
          req_mrkdwn_disabled = ss_mrkdwn_disabled state, req_link_names = ss_link_names state,
          req_unfurl_links = ss_unfurl_links state, req_unfurl_media = ss_unfurl_media state, req_username = ss_username state,
          req_icon_emoji = ss_icon_emoji state, req_icon_url = ss_icon_url state, req_subtype = [], req_bot = sched_bot v,
          req_write_public = False, req_execution = []\<rparr>)"

definition post_scheduled_message ::
  "post_tools \<Rightarrow> directory \<Rightarrow> (message \<Rightarrow> event option) \<Rightarrow> (message \<Rightarrow> event list option)
    \<Rightarrow> (scheduled_message \<Rightarrow> post_request \<Rightarrow> chat \<Rightarrow> chat \<times> service_error option) \<Rightarrow> string option \<Rightarrow> time
    \<Rightarrow> string \<Rightarrow> string \<Rightarrow> chat \<Rightarrow> chat \<times> (service_error + message)" where
  "post_scheduled_message P D mk_event mk_links complete fresh now workspace i s =
     (case get_scheduled_message workspace i s of
        Inl e \<Rightarrow> (s, Inl (Stored e))
      | Inr v \<Rightarrow>
          (case scheduled_message_post_request P v of
             Inl e \<Rightarrow> (s, Inl e)
           | Inr r \<Rightarrow>
               if sched_files v = []
               then post_message_as P D mk_event mk_links fresh now (sched_workspace v) (sched_author v) r (sched_id v) s
               else (case complete v r s of
                   (s', Some e) \<Rightarrow> (s', Inl e)
                 | (s', None) \<Rightarrow>
                     (s', map_sum Stored id (get_idempotent_message s' (sched_workspace v) (sched_author v) (sched_id v))))))"

text \<open>\<open>hash_token\<close> is the hex of the SHA-256 of a string.\<close>

definition scheduled_message_owner :: "(string \<Rightarrow> string) \<Rightarrow> string \<Rightarrow> string \<Rightarrow> string \<Rightarrow> string \<Rightarrow> string" where
  "scheduled_message_owner hash_token workspace user app bot_id =
     (if bot_id \<noteq> [] then hash_token (''scheduled-owner'' @ nul # ''bot'' @ nul # workspace @ nul # app @ nul # bot_id)
      else hash_token (''scheduled-owner'' @ nul # ''user'' @ nul # workspace @ nul # user @ nul # app))"

definition internal_scheduled_credential :: "(string \<Rightarrow> string) \<Rightarrow> string \<Rightarrow> string \<Rightarrow> string" where
  "internal_scheduled_credential hash_token workspace user = scheduled_message_owner hash_token workspace user [] []"

definition send_now_owner :: "string \<Rightarrow> string \<Rightarrow> string" where
  "send_now_owner user i = ''send-now:'' @ user @ '':'' @ i"

text \<open>The clock is read by the claim, by the post and by what settles the lease, twice by a delivery.\<close>

definition send_scheduled_message_now ::
  "(string \<Rightarrow> string) \<Rightarrow> directory \<Rightarrow> (time \<Rightarrow> string \<Rightarrow> string \<Rightarrow> chat \<Rightarrow> chat \<times> (service_error + message))
    \<Rightarrow> time \<Rightarrow> time \<Rightarrow> time \<Rightarrow> time \<Rightarrow> string \<Rightarrow> string \<Rightarrow> string \<Rightarrow> chat \<Rightarrow> chat \<times> (service_error list + message)" where
  "send_scheduled_message_now hash_token D post now1 now2 now3 now4 workspace user i s =
     (case active_workspace_membership D s workspace user of
        Inl e \<Rightarrow> (s, Inl [e])
      | Inr _ \<Rightarrow>
          if i = [] then (s, Inl [Stored InvalidArgument])
          else (case claim_scheduled_message_for_credential workspace (internal_scheduled_credential hash_token workspace user) i
                       (send_now_owner user i) 60000000000 now1 s of
              (s1, Inl e) \<Rightarrow> (s1, Inl [Stored e])
            | (s1, Inr v) \<Rightarrow>
                (case post now2 (sched_workspace v) (sched_id v) s1 of
                   (s2, Inl e) \<Rightarrow>
                     (case release_scheduled_message (send_now_owner user i) (sched_id v) (sched_post_at v) now3 s2 of
                        (s3, None) \<Rightarrow> (s3, Inl [e])
                      | (s3, Some e') \<Rightarrow> (s3, Inl [e, Stored e']))
                 | (s2, Inr m) \<Rightarrow>
                     (case mark_scheduled_message_delivered (send_now_owner user i) (sched_id v) now3 now4 s2 of
                        (s3, None) \<Rightarrow> (s3, Inr m)
                      | (s3, Some e) \<Rightarrow> (s3, Inl [Stored e])))))"

subsection \<open>What a post does\<close>

lemma delayed_simps [simp]:
  "msg_id (delayed k m) = msg_id m" "msg_workspace (delayed k m) = msg_workspace m" "msg_author (delayed k m) = msg_author m"
  "msg_conversation (delayed k m) = msg_conversation m" "msg_thread (delayed k m) = msg_thread m" "delayed 0 m = m"
  by (simp_all add: delayed_def)

lemma delayed_next: "m\<lparr>msg_created := msg_created m + 1000\<rparr> = delayed 1 m" "delayed k (delayed j m) = delayed (j + k) m"
  by (simp_all add: delayed_def algebra_simps)

text \<open>A refused post leaves the store as it was; an accepted one is one attempt at some delay, or a repetition.\<close>

lemma post_once_refused: "post_once L mk_event mk_links key sid m s = (s', Some e) \<Longrightarrow> s' = s"
  by (auto simp: post_once_def create_message_def create_scheduled_message_post_def create_message_locked_def Let_def
      split: option.splits if_splits sum.splits)

lemma post_messageD:
  assumes "post_message L mk_event mk_links key sid m s = (s', r)"
  obtains (refused) e where "r = Inl e" "s' = s"
    | (repeated) m' where "r = Inr m'" "s' = s" "get_idempotent_message s (msg_workspace m) (msg_author m) key = Inr m'"
    | (posted) k where "r = Inr (delayed k m)" "post_once L mk_event mk_links key sid (delayed k m) s = (s', None)"
proof -
  have "(\<exists>e. r = Inl e \<and> s' = s)
      \<or> (\<exists>m'. r = Inr m' \<and> s' = s \<and> get_idempotent_message s (msg_workspace m) (msg_author m) key = Inr m')
      \<or> (\<exists>k. r = Inr (delayed k m) \<and> post_once L mk_event mk_links key sid (delayed k m) s = (s', None))"
    using assms
  proof (induction L mk_event mk_links key sid m s rule: post_message.induct)
    case (1 L mk_event mk_links key sid m s)
    obtain s1 o1 where once: "post_once L mk_event mk_links key sid m s = (s1, o1)" by fastforce
    show ?case
    proof (cases o1)
      case None
      then show ?thesis using "1.prems" once by (subst (asm) post_message.simps) (auto intro: exI [of _ 0])
    next
      case (Some e)
      then have s1: "s1 = s" using once post_once_refused by blast
      show ?thesis
      proof (cases "e = MessageTimestampTaken")
        case True
        then have "post_message L mk_event mk_links key sid (delayed 1 m) s = (s', r)"
          using "1.prems" once Some s1 by (subst (asm) post_message.simps) (simp add: delayed_next)
        then show ?thesis using "1.IH" [OF once [symmetric] Some True] s1
          by (auto simp: delayed_next)
      next
        case False
        then show ?thesis using "1.prems" once Some s1
          by (subst (asm) post_message.simps) (auto split: if_splits, metis sum.exhaust)
      qed
    qed
  qed
  then show ?thesis using that by blast
qed

lemma post_message_asD:
  assumes "post_message_as P D mk_event mk_links fresh now w a r sid s = (s', answer)"
  obtains (refused) e where "answer = Inl e" "s' = s"
    | (repeated) m where "answer = Inr m" "s' = s" "get_idempotent_message s w a (req_key r) = Inr m" "sid \<noteq> [] \<longrightarrow> req_key r = sid"
    | (posted) i content thread body stream k where "sid \<noteq> [] \<longrightarrow> req_key r = sid" "validate_request P r = Inr content"
      "authorize_post D s w a r = None" "thread_of_request s w r = Inr thread"
      "answer = Inr (delayed k (new_post i now w a r content thread body stream))"
      "post_once (tool_library P) mk_event mk_links (req_key r) sid (delayed k (new_post i now w a r content thread body stream)) s = (s', None)"
proof (cases "(sid \<noteq> [] \<and> req_key r \<noteq> sid) \<or> cached_post s w a (req_key r) \<noteq> None")
  case True
  then show ?thesis using assms refused repeated
    by (cases "cached_post s w a (req_key r)"; cases answer) (auto simp: post_message_as_def cached_post_def split: if_splits sum.splits)
next
  case False
  show ?thesis
  proof (cases "\<exists>e. answer = Inl e \<and> s' = s")
    case refusal: False
    then obtain content thread body i encoded where parts: "validate_request P r = Inr content" "authorize_post D s w a r = None"
      "thread_of_request s w r = Inr thread"
      and run: "(case post_message (tool_library P) mk_event mk_links (req_key r) sid
          (new_post i now w a r content thread body (if encoded = ''{}'' then [] else encoded)) s of
          (s', Inl e) \<Rightarrow> (s', Inl (Stored e)) | (s', Inr m) \<Rightarrow> (s', Inr m)) = (s', answer)"
      using assms False by (auto simp: post_message_as_def split: sum.splits option.splits if_splits)
    let ?m = "new_post i now w a r content thread body (if encoded = ''{}'' then [] else encoded)"
    have m: "msg_workspace ?m = w" "msg_author ?m = a" by (simp_all add: new_post_def split: prod.splits)
    obtain s2 r2 where p: "post_message (tool_library P) mk_event mk_links (req_key r) sid ?m s = (s2, r2)" by fastforce
    from p show ?thesis
    proof (cases rule: post_messageD)
      case (refused e)
      then show ?thesis using run p refusal by auto
    next
      case (repeated m')
      then show ?thesis using run p m False by (intro that(2)) auto
    next
      case (posted k)
      then show ?thesis using run p parts False by (intro that(3)) auto
    qed
  qed (use refused in blast)
qed

lemma membership_required:
  "require_conversation_membership s w a c = None \<Longrightarrow> is_conversation_member s c a"
  by (auto simp: require_conversation_membership_def split: option.splits if_splits)

lemma authorize_postD:
  assumes "authorize_post D s w a r = None"
  obtains target where "conversations s (req_conversation r) = Some target" "conv_workspace target = w" "\<not> conv_archived target"
    "is_conversation_member s (req_conversation r) a \<or> req_write_public r \<and> req_app r \<noteq> [] \<and> \<not> private_flag target"
    "a \<noteq> [] \<and> req_app r = [] \<and> \<not> direct_or_group target \<Longrightarrow>
      permits ((if req_thread r \<noteq> [] then dir_can_thread else dir_who_can_post) D (conv_id target)) (dir_memberships D (member_key w a))"
  using assms membership_required
  by (fastforce simp: authorize_post_def member_posting_permissions_def active_workspace_membership_def
      split: option.splits if_splits sum.splits prod.splits)

text \<open>
  C32. Nobody posts where they may not. When a post changes the store, the conversation is one of the
  workspace and not archived; the author is a member of it, unless an app with the grant for public
  channels posts to one; a member posting to a channel is permitted by its preferences, those for
  replies when it is a reply; and a reply joins the thread of a live message of that conversation.
\<close>

theorem post_needs_standing:
  assumes "post_message_as P D mk_event mk_links fresh now w a r sid s = (s', answer)" "s' \<noteq> s"
  shows "\<exists>target m. answer = Inr m \<and> conversations s (req_conversation r) = Some target \<and> conv_workspace target = w
    \<and> \<not> conv_archived target
    \<and> (is_conversation_member s (req_conversation r) a \<or> req_write_public r \<and> req_app r \<noteq> [] \<and> \<not> private_flag target)
    \<and> (a \<noteq> [] \<and> req_app r = [] \<and> \<not> direct_or_group target \<longrightarrow>
        permits ((if req_thread r \<noteq> [] then dir_can_thread else dir_who_can_post) D (conv_id target)) (dir_memberships D (member_key w a)))
    \<and> (req_thread r \<noteq> [] \<longrightarrow> (\<exists>parent \<in> set (messages_of s (req_conversation r)).
        msg_workspace parent = w \<and> \<not> msg_deleted parent \<and> msg_thread m = thread_root parent))"
  using assms(1)
proof (cases rule: post_message_asD)
  case (posted i content thread body stream k)
  have t: "req_thread r \<noteq> [] \<longrightarrow> (\<exists>parent \<in> set (messages_of s (req_conversation r)).
      msg_workspace parent = w \<and> \<not> msg_deleted parent \<and> thread = thread_root parent)"
    using posted(4)
    by (auto simp: thread_of_request_def get_message_by_created_at_def clone_message_def thread_root_def find_Some_iff
        split: if_splits option.splits intro!: bexI)
  have "msg_thread (delayed k (new_post i now w a r content thread body stream)) = thread"
    by (simp add: new_post_def split: prod.splits)
  moreover obtain target where "conversations s (req_conversation r) = Some target" "conv_workspace target = w"
    "\<not> conv_archived target"
    "is_conversation_member s (req_conversation r) a \<or> req_write_public r \<and> req_app r \<noteq> [] \<and> \<not> private_flag target"
    "a \<noteq> [] \<and> req_app r = [] \<and> \<not> direct_or_group target \<Longrightarrow>
      permits ((if req_thread r \<noteq> [] then dir_can_thread else dir_who_can_post) D (conv_id target)) (dir_memberships D (member_key w a))"
    using authorize_postD [OF posted(3)] by blast
  ultimately show ?thesis using posted(5) t
    by (intro exI [of _ target] exI [of _ "delayed k (new_post i now w a r content thread body stream)"]) simp
qed (use assms(2) in simp_all)

subsection \<open>What delivering one does\<close>

definition posted_row :: "chat \<Rightarrow> string \<Rightarrow> bool" where
  "posted_row s i \<longleftrightarrow> (\<exists>v. map_of (scheduled s) i = Some v
     \<and> idempotency s (idempotency_key_for (sched_workspace v) (sched_author v) (sched_id v)) \<noteq> None)"

lemma post_once_schedule: "post_once L mk_event mk_links key sid m s = (s', r) \<Longrightarrow> schedule_of s' = schedule_of s"
  by (auto simp: post_once_def split: option.splits if_splits dest: posts_scheduled)

lemma post_message_as_schedule:
  assumes "post_message_as P D mk_event mk_links fresh now w a r sid s = (s', answer)"
  shows "schedule_of s' = schedule_of s"
  using assms by (cases rule: post_message_asD) (auto dest: post_once_schedule)

lemma post_once_scheduled_keyed:
  assumes "post_once L mk_event mk_links key sid m s = (s', None)" "sid \<noteq> []"
  shows "idempotency s' (idempotency_key_for (msg_workspace m) (msg_author m) sid) \<noteq> None"
proof -
  obtain n ev links where n: "normalize_message L m = Some n" "create_message_locked L n ev sid links s = (s', None)"
    using assms by (auto simp: post_once_def create_scheduled_message_post_def split: option.splits if_splits)
  from n(2) have "idempotency s' (idempotency_key_for (msg_workspace n) (msg_author n) sid) \<noteq> None"
    by (cases rule: create_lockedD) (use assms(2) in auto)
  then show ?thesis using normalize_created [OF n(1)] by simp
qed

lemma post_scheduled_schedule:
  assumes "\<And>v r s. schedule_of (fst (complete v r s)) = schedule_of s"
    "post_scheduled_message P D mk_event mk_links complete fresh now w i s = (s', answer)"
  shows "schedule_of s' = schedule_of s"
  using assms(2) assms(1) [THEN sym]
  by (auto simp: post_scheduled_message_def split: sum.splits if_splits prod.splits option.splits dest: post_message_as_schedule)
    (metis fst_conv)+

lemma map_sum_eq_Inr: "map_sum f id x = Inr y \<longleftrightarrow> x = Inr y"
  by (cases x) simp_all

lemma post_scheduled_posted:
  assumes "\<And>v r s. schedule_of (fst (complete v r s)) = schedule_of s" "i \<noteq> []"
    "\<And>v. map_of (scheduled s) i = Some v \<Longrightarrow> sched_id v = i"
    "post_scheduled_message P D mk_event mk_links complete fresh now w i s = (s', Inr m)"
  shows "posted_row s' i"
proof -
  obtain v r where v: "map_of (scheduled s) i = Some v" "scheduled_message_post_request P v = Inr r"
    using assms(4) by (auto simp: post_scheduled_message_def get_scheduled_message_def split: sum.splits option.splits if_splits)
  have row: "map_of (scheduled s') i = Some v"
    using post_scheduled_schedule [OF assms(1,4)] v(1) by (simp add: schedule_of_def)
  have key: "req_key r = sched_id v" using v(2) by (auto simp: scheduled_message_post_request_def split: option.splits)
  have id: "sched_id v = i" using assms(3) v(1) by blast
  have "idempotency s' (idempotency_key_for (sched_workspace v) (sched_author v) (sched_id v)) \<noteq> None"
  proof (cases "sched_files v = []")
    case True
    have p: "post_message_as P D mk_event mk_links fresh now (sched_workspace v) (sched_author v) r (sched_id v) s = (s', Inr m)"
      using assms(4) v True by (auto simp: post_scheduled_message_def get_scheduled_message_def split: if_splits)
    from p show ?thesis
    proof (cases rule: post_message_asD)
      case (repeated m')
      then show ?thesis using get_idempotent_keyed key by fastforce
    next
      case (posted i' content thread body stream k)
      show ?thesis using post_once_scheduled_keyed [OF posted(6)] id assms(2)
        by (simp add: new_post_def split: prod.splits)
    qed simp
  next
    case False
    then have "get_idempotent_message s' (sched_workspace v) (sched_author v) (sched_id v) = Inr m"
      using assms(4) v by (auto simp: post_scheduled_message_def get_scheduled_message_def map_sum_eq_Inr
          split: if_splits prod.splits option.splits)
    then show ?thesis using get_idempotent_keyed by fastforce
  qed
  then show ?thesis using row by (auto simp: posted_row_def)
qed

lemma posted_row_settled:
  assumes "posted_row s i" "mark_scheduled_message_delivered owner i now now' s = (s', r)"
  shows "posted_row s' i"
  using assms by (auto simp: posted_row_def mark_scheduled_message_delivered_def scheduled_of_def update_conv' split: if_splits)

lemma mark_held:
  "holds_scheduled owner i now s \<Longrightarrow> \<exists>s'. mark_scheduled_message_delivered owner i now now' s = (s', None)
    \<and> i \<in> scheduled_delivered s' \<and> scheduled_leases s' i = None"
  by (simp add: mark_scheduled_message_delivered_def)


subsection \<open>An example\<close>

definition plain_tools :: post_tools where
  "plain_tools = \<lparr>tool_library = plain_library, tool_blocks_valid = (\<lambda>_. True), tool_metadata = Some, tool_icon_url = (\<lambda>_. True),
     tool_link_names = (\<lambda>_ _ _ body. Inr body), tool_encode = (\<lambda>_. Some ''{}''), tool_decode = (\<lambda>_. None)\<rparr>"

definition plain_directory :: directory where
  "plain_directory = \<lparr>dir_memberships = (\<lambda>_. \<lparr>mem_user = ''U'', mem_role = RoleMember, mem_restricted = False, mem_ultra = False\<rparr>),
     dir_can_thread = (\<lambda>_. \<lparr>pref_types = [], pref_users = []\<rparr>),
     dir_who_can_post = (\<lambda>_. \<lparr>pref_types = [PosterRegularMembers], pref_users = []\<rparr>)\<rparr>"

definition plain_chat :: "(string \<rightharpoonup> lease) \<Rightarrow> chat" where
  "plain_chat l = (sample_store [])\<lparr>users := [''U'' \<mapsto> \<lparr>account_workspace = ''T'', account_deleted = False\<rparr>],
     members := [member_key ''T'' ''U'' \<mapsto> True], memberships := (\<lambda>_. [''U'']),
     scheduled := [(''S'', sample_scheduled\<lparr>sched_text := ''hi'', sched_credential := internal_scheduled_credential id ''T'' ''U''\<rparr>)], scheduled_leases := l\<rparr>"

lemma plain_chat_simps:
  "workspaces (plain_chat l) = {''T''}" "users (plain_chat l) ''U'' = Some \<lparr>account_workspace = ''T'', account_deleted = False\<rparr>"
  "members (plain_chat l) (member_key ''T'' ''U'') = Some True" "memberships (plain_chat l) c = [''U'']"
  "conversations (plain_chat l) ''C'' = Some \<lparr>conv_id = ''C'', conv_workspace = ''T'', conv_name = [], conv_kind = PublicChannel, conv_archived = False\<rparr>"
  "idempotency (plain_chat l) = Map.empty" "scheduled_delivered (plain_chat l) = {}" "scheduled_leases (plain_chat l) = l"
  "messages_of (plain_chat l) ''C'' = []" "all_messages (plain_chat l) = []"
  "scheduled (plain_chat l) = [(''S'', sample_scheduled\<lparr>sched_text := ''hi'', sched_credential := internal_scheduled_credential id ''T'' ''U''\<rparr>)]"
  by (simp_all add: plain_chat_def sample_store_def new_store_def messages_of_def all_messages_def)

lemma plain_chat_sound: "schedule_sound t (plain_chat Map.empty)"
  by (simp add: schedule_sound_def plain_chat_simps lease_live_def sample_scheduled_def)

definition plain_request :: post_request where
  "plain_request = \<lparr>req_conversation = ''C'', req_text = ''hi'', req_blocks = [], req_attachments = [], req_metadata = [], req_thread = [],
     req_key = ''S'', req_app = [], req_markdown = False, req_broadcast = False, req_parse = [], req_mrkdwn_disabled = False,
     req_link_names = False, req_unfurl_links = None, req_unfurl_media = None, req_username = [], req_icon_emoji = [],
     req_icon_url = [], req_subtype = [], req_bot = [], req_write_public = False, req_execution = []\<rparr>"

lemma plain_validates: "validate_request plain_tools plain_request = Inr ([], [], [])"
  by (simp add: validate_request_def plain_request_def plain_tools_def plain_library_def message_payload_too_long_def
      message_text_too_long_def rune_count.simps rune_width_def trim_space_def go_space_def valid_message_authorship_def
      subtype_valid_def subtype_system_def cont_def)

lemma plain_authorized: "authorize_post plain_directory (plain_chat l) ''T'' ''U'' plain_request = None"
  by (simp add: authorize_post_def plain_chat_simps plain_request_def require_conversation_membership_def authorize_conversation_def
      is_conversation_member_def private_flag_def or_public_def member_posting_permissions_def direct_or_group_def
      active_workspace_membership_def plain_directory_def permits_def guest_def)

definition plain_message :: message where
  "plain_message = new_post ''A'' 5000 ''T'' ''U'' plain_request ([], [], []) [] ''hi'' []"

lemma plain_posts:
  "\<exists>s'. post_message_as plain_tools plain_directory (\<lambda>_. Some sample_event) (\<lambda>_. Some []) (Some ''A'') 5000 ''T'' ''U''
      plain_request ''S'' (plain_chat l) = (s', Inr plain_message) \<and> idempotency s' \<noteq> Map.empty"
proof -
  have m: "msg_workspace plain_message = ''T''" "msg_author plain_message = ''U''" "msg_conversation plain_message = ''C''"
    "msg_files plain_message = []" "msg_blocks plain_message = []" "msg_attachments plain_message = []"
    by (simp_all add: plain_message_def new_post_def plain_request_def)
  obtain n where n: "normalize_message plain_library plain_message = Some n" "msg_files n = []"
    by (simp add: normalize_message_def plain_library_def m)
  note N = normalize_created [OF n(1)]
  have "prepare_message n ''S'' (plain_chat l) = Inr (n\<lparr>msg_files := []\<rparr>)"
    using N n by (simp add: prepare_message_def m plain_chat_simps message_locked_def)
  then obtain s' where c: "create_message_locked plain_library n sample_event ''S'' [] (plain_chat l) = (s', None)"
    by (simp add: create_message_locked_def Let_def)
  have "post_once plain_library (\<lambda>_. Some sample_event) (\<lambda>_. Some []) ''S'' ''S'' plain_message (plain_chat l) = (s', None)"
    using N n c by (simp add: post_once_def create_scheduled_message_post_def m plain_chat_simps sample_scheduled_def)
  then have p: "post_message plain_library (\<lambda>_. Some sample_event) (\<lambda>_. Some []) ''S'' ''S'' plain_message (plain_chat l)
      = (s', Inr plain_message)" by (subst post_message.simps) simp
  from c have "idempotency s' \<noteq> Map.empty" by (cases rule: create_lockedD) auto
  moreover have "cached_post (plain_chat l) ''T'' ''U'' ''S'' = None"
    by (simp add: cached_post_def get_idempotent_message_def plain_chat_simps)
  moreover have "thread_of_request (plain_chat l) ''T'' plain_request = Inr []"
    by (simp add: thread_of_request_def plain_request_def)
  moreover have "new_post ''A'' 5000 ''T'' ''U'' plain_request ([], [], []) [] ''hi'' [] = plain_message" by (simp add: plain_message_def)
  ultimately show ?thesis using p plain_validates plain_authorized [of l]
    by (simp add: post_message_as_def plain_tools_def) (simp add: plain_request_def)
qed

lemma post_needs_standing_witness:
  "is_conversation_member (plain_chat Map.empty) ''C'' ''U''
    \<and> permits (dir_who_can_post plain_directory ''C'') (dir_memberships plain_directory (member_key ''T'' ''U''))"
proof -
  obtain s' where p: "post_message_as plain_tools plain_directory (\<lambda>_. Some sample_event) (\<lambda>_. Some []) (Some ''A'') 5000 ''T'' ''U''
      plain_request ''S'' (plain_chat Map.empty) = (s', Inr plain_message)" "idempotency s' \<noteq> Map.empty"
    using plain_posts by blast
  have "s' \<noteq> plain_chat Map.empty" using p(2) by (auto simp: plain_chat_simps)
  from post_needs_standing [OF p(1) this] show ?thesis
    by (auto simp: plain_chat_simps plain_request_def direct_or_group_def)
qed

lemma plain_claim:
  "claim_scheduled_message_for_credential ''T'' (internal_scheduled_credential id ''T'' ''U'') ''S'' (send_now_owner ''U'' ''S'') 60000000000 1000
      (plain_chat Map.empty)
    = (plain_chat [''S'' \<mapsto> \<lparr>le_owner = send_now_owner ''U'' ''S'', le_expires = 60000001000\<rparr>],
       Inr (sample_scheduled\<lparr>sched_text := ''hi'', sched_credential := internal_scheduled_credential id ''T'' ''U''\<rparr>))"
  by (simp add: claim_scheduled_message_for_credential_def plain_chat_simps lease_live_def send_now_owner_def sample_scheduled_def)
    (simp add: plain_chat_def internal_scheduled_credential_def scheduled_message_owner_def)

lemma plain_delivery:
  "\<exists>s'. post_scheduled_message plain_tools plain_directory (\<lambda>_. Some sample_event) (\<lambda>_. Some []) (\<lambda>_ _ s. (s, None)) (Some ''A'') 5000 ''T'' ''S''
      (plain_chat l) = (s', Inr plain_message)"
proof -
  have "get_scheduled_message ''T'' ''S'' (plain_chat l)
      = Inr (sample_scheduled\<lparr>sched_text := ''hi'', sched_credential := internal_scheduled_credential id ''T'' ''U''\<rparr>)"
    by (simp add: get_scheduled_message_def plain_chat_simps sample_scheduled_def)
  moreover have "scheduled_message_post_request plain_tools
      (sample_scheduled\<lparr>sched_text := ''hi'', sched_credential := internal_scheduled_credential id ''T'' ''U''\<rparr>) = Inr plain_request"
    by (simp add: scheduled_message_post_request_def sample_scheduled_def zero_scheduled_def zero_stream_state_def plain_request_def)
  ultimately show ?thesis using plain_posts [of l]
    by (auto simp: post_scheduled_message_def sample_scheduled_def zero_scheduled_def)
qed


end
