(* ===== verification/Schedule_Worker.thy ===== *)
theory Schedule_Worker
  imports Post_Service Lease_While
begin

section \<open>The worker that posts scheduled messages\<close>

text \<open>
  \<^verbatim>\<open>internal/scheduler/worker.go\<close> over the store's schedule. Between any two of the worker's calls the
  rest of the deployment may act: \<open>sw_others\<close> is what it does to the store before each call. The
  clock is a sequence of readings, \<open>sw_ticks\<close> tells how often the lease is renewed during each post,
  \<open>sw_interrupts\<close> whether the context is done when an item is begun, and the log keeps every call with
  whether it succeeded. The poster is an interface here, as it is there. A joined error is the list of
  its parts.
\<close>

datatype schedule_call = SRenew string | SPost string | SSettle string | SGiveUp string string | SPutBack string

record schedule_world =
  sw_store :: chat
  sw_clock :: "nat \<Rightarrow> time"
  sw_reads :: nat
  sw_others :: "(chat \<Rightarrow> chat) list"
  sw_interrupts :: "bool list"
  sw_ticks :: "nat list"
  sw_log :: "(schedule_call \<times> bool) list"

type_synonym poster = "bool \<Rightarrow> time \<Rightarrow> string \<Rightarrow> string \<Rightarrow> chat \<Rightarrow> chat \<times> (service_error + message)"

definition others_act :: "schedule_world \<Rightarrow> schedule_world" where
  "others_act w = (case sw_others w of [] \<Rightarrow> w | f # fs \<Rightarrow> w\<lparr>sw_others := fs, sw_store := f (sw_store w)\<rparr>)"

definition read_clock :: "schedule_world \<Rightarrow> schedule_world \<times> time" where
  "read_clock w = (w\<lparr>sw_reads := sw_reads w + 1\<rparr>, sw_clock w (sw_reads w))"

definition finish_call :: "schedule_call \<Rightarrow> bool \<Rightarrow> chat \<Rightarrow> schedule_world \<Rightarrow> schedule_world" where
  "finish_call c ok s w = w\<lparr>sw_store := s, sw_log := sw_log w @ [(c, ok)]\<rparr>"

definition as_errors :: "store_error option \<Rightarrow> service_error list" where
  "as_errors e = (case e of None \<Rightarrow> [] | Some x \<Rightarrow> [Stored x])"

subsection \<open>The calls\<close>

definition renew_item :: "string \<Rightarrow> duration \<Rightarrow> string \<Rightarrow> schedule_world \<Rightarrow> schedule_world \<times> service_error list" where
  "renew_item owner lease i w =
     (let (w, now) = read_clock (others_act w);
          (w, now') = read_clock w;
          (s, e) = renew_scheduled_message owner i lease now now' (sw_store w)
      in (finish_call (SRenew i) (e = None) s w, as_errors e))"

definition post_item :: "poster \<Rightarrow> scheduled_message \<Rightarrow> bool \<Rightarrow> schedule_world \<Rightarrow> schedule_world \<times> service_error list" where
  "post_item post v interrupted w =
     (let (w, now) = read_clock (others_act w);
          (s, r) = post interrupted now (sched_workspace v) (sched_id v) (sw_store w)
      in case r of
           Inl e \<Rightarrow> (finish_call (SPost (sched_id v)) False s w, [e])
         | Inr _ \<Rightarrow> (finish_call (SPost (sched_id v)) True s w, []))"

definition settle_item :: "string \<Rightarrow> string \<Rightarrow> schedule_world \<Rightarrow> schedule_world \<times> service_error list" where
  "settle_item owner i w =
     (let (w, now) = read_clock (others_act w);
          (w, now') = read_clock w;
          (s, e) = mark_scheduled_message_delivered owner i now now' (sw_store w)
      in (finish_call (SSettle i) (e = None) s w, as_errors e))"

definition give_up_item :: "string \<Rightarrow> string \<Rightarrow> string \<Rightarrow> time \<Rightarrow> event \<Rightarrow> schedule_world \<Rightarrow> schedule_world \<times> service_error list" where
  "give_up_item owner i code failed_at ev w =
     (let (w, now) = read_clock (others_act w);
          (s, e) = mark_scheduled_message_failed owner i code failed_at ev now (sw_store w)
      in (finish_call (SGiveUp i code) (e = None) s w, as_errors e))"

definition put_back_item :: "string \<Rightarrow> duration \<Rightarrow> string \<Rightarrow> schedule_world \<Rightarrow> schedule_world \<times> service_error list" where
  "put_back_item owner lease i w =
     (let (w, retry) = read_clock w;
          (w, now) = read_clock (others_act w);
          (s, e) = release_scheduled_message owner i (retry + lease) now (sw_store w)
      in (finish_call (SPutBack i) (e = None) s w, as_errors e))"

definition post_with_lease :: "poster \<Rightarrow> string \<Rightarrow> duration \<Rightarrow> scheduled_message \<Rightarrow> schedule_world \<Rightarrow> schedule_world \<times> service_error list" where
  "post_with_lease post owner lease v w =
     while_held Interrupted (renew_item owner lease (sched_id v)) (case sw_ticks w of [] \<Rightarrow> 0 | n # _ \<Rightarrow> n) (post_item post v)
       (w\<lparr>sw_ticks := tl (sw_ticks w)\<rparr>)"

definition permanent_failure_code :: "service_error list \<Rightarrow> string" where
  "permanent_failure_code err =
     (if NotInConversation \<in> set err then ''not_in_channel''
      else if AlreadyArchived \<in> set err then ''is_archived''
      else if InvalidTimestamp \<in> set err then ''invalid_thread_ts''
      else if InvalidMessage \<in> set err \<or> Stored InvalidArgument \<in> set err then ''invalid_arguments''
      else if Stored NotFound \<in> set err then ''channel_not_found''
      else '''')"

subsection \<open>The batch\<close>

text \<open>
  One item: whether it was completed, and the failures to report. \<open>fail_event\<close> builds the event of a
  failure; \<open>None\<close> is its error. An item whose failure could not be recorded is put back like one that
  may be tried again.
\<close>

definition record_failure ::
  "(scheduled_message \<Rightarrow> string \<Rightarrow> time \<Rightarrow> event option) \<Rightarrow> string \<Rightarrow> scheduled_message \<Rightarrow> service_error list \<Rightarrow> schedule_world
    \<Rightarrow> schedule_world \<times> bool \<times> service_error list" where
  "record_failure fail_event owner v post_err w =
     (let code = permanent_failure_code post_err
      in if code \<noteq> '''' then
           let (w, failed_at) = read_clock w
           in case fail_event v code failed_at of
                None \<Rightarrow> (w, False, [Failure])
              | Some ev \<Rightarrow>
                  (let (w, mark_err) = give_up_item owner (sched_id v) code failed_at ev w
                   in (w, mark_err = [], mark_err))
         else (w, False, post_err))"

definition deliver_item ::
  "poster \<Rightarrow> (scheduled_message \<Rightarrow> string \<Rightarrow> time \<Rightarrow> event option) \<Rightarrow> string \<Rightarrow> duration \<Rightarrow> scheduled_message \<Rightarrow> schedule_world
    \<Rightarrow> schedule_world \<times> bool \<times> service_error list" where
  "deliver_item post fail_event owner lease v w =
     (let (w, post_err) = post_with_lease post owner lease v w
      in if post_err \<noteq> [] then
           let (w, recorded, failures) = record_failure fail_event owner v post_err w
           in if recorded then (w, True, failures)
              else let (w, release_err) = put_back_item owner lease (sched_id v) w in (w, False, failures @ release_err)
         else let (w, settle_err) = settle_item owner (sched_id v) w in (w, settle_err = [], settle_err))"

fun schedule_batch ::
  "poster \<Rightarrow> (scheduled_message \<Rightarrow> string \<Rightarrow> time \<Rightarrow> event option) \<Rightarrow> string \<Rightarrow> duration \<Rightarrow> scheduled_message list \<Rightarrow> int
    \<Rightarrow> service_error list \<Rightarrow> schedule_world \<Rightarrow> schedule_world \<times> int \<times> service_error list" where
  "schedule_batch post fail_event owner lease [] completed failures w = (w, completed, failures)"
| "schedule_batch post fail_event owner lease (v # vs) completed failures w =
     (let interrupted = (case sw_interrupts w of [] \<Rightarrow> False | b # _ \<Rightarrow> b);
          w = w\<lparr>sw_interrupts := tl (sw_interrupts w)\<rparr>
      in if interrupted then (w, completed, failures @ [Interrupted])
      else let (w, done', errs) = deliver_item post fail_event owner lease v w
        in schedule_batch post fail_event owner lease vs (if done' then completed + 1 else completed) (failures @ errs) w)"

definition claimed_batch :: "string \<Rightarrow> string \<Rightarrow> int \<Rightarrow> duration \<Rightarrow> schedule_world \<Rightarrow> schedule_world \<times> (store_error + scheduled_message list)" where
  "claimed_batch workspace owner limit lease w =
     (let (w, now) = read_clock (others_act w);
          (s, r) = claim_scheduled_messages workspace owner limit lease now (sw_store w)
      in (w\<lparr>sw_store := s\<rparr>, r))"

definition run_scheduled_once ::
  "poster \<Rightarrow> (scheduled_message \<Rightarrow> string \<Rightarrow> time \<Rightarrow> event option) \<Rightarrow> string \<Rightarrow> int \<Rightarrow> duration \<Rightarrow> string \<Rightarrow> schedule_world
    \<Rightarrow> schedule_world \<times> int \<times> service_error list" where
  "run_scheduled_once post fail_event owner limit lease workspace w =
     (case claimed_batch workspace owner limit lease w of
        (w, Inl e) \<Rightarrow> (w, 0, [Stored e])
      | (w, Inr vs) \<Rightarrow> schedule_batch post fail_event owner lease vs 0 [] w)"

subsection \<open>The log\<close>

text \<open>What each entry of a log may follow.\<close>

fun orderly :: "(schedule_call \<times> bool) option \<Rightarrow> (schedule_call \<times> bool) list \<Rightarrow> bool" where
  "orderly before [] = True"
| "orderly before (x # l) = ((case fst x of
       SSettle i \<Rightarrow> before = Some (SPost i, True)
     | SGiveUp i c \<Rightarrow> before = Some (SPost i, False)
     | _ \<Rightarrow> True) \<and> orderly (Some x) l)"

lemma orderly_append: "orderly before (a @ b) \<longleftrightarrow> orderly before a \<and> orderly (if a = [] then before else Some (last a)) b"
  by (induction a arbitrary: before) auto

lemma orderly_free: "orderly None l \<Longrightarrow> orderly before l"
  by (cases l) (auto split: schedule_call.splits)

lemma orderly_concat: "orderly None a \<Longrightarrow> orderly None b \<Longrightarrow> orderly None (a @ b)"
  by (simp add: orderly_append orderly_free)

lemma orderly_at: "orderly None (pre @ (SSettle i, ok) # post) \<Longrightarrow> pre \<noteq> [] \<and> last pre = (SPost i, True)"
  "orderly None (pre @ (SGiveUp i c, ok) # post) \<Longrightarrow> pre \<noteq> [] \<and> last pre = (SPost i, False)"
  by (auto simp: orderly_append split: if_splits)

lemma calls_log [simp]:
  "sw_log (others_act w) = sw_log w" "sw_log (fst (read_clock w)) = sw_log w" "sw_log (finish_call c ok s w) = sw_log w @ [(c, ok)]"
  by (simp_all add: others_act_def read_clock_def finish_call_def split: list.splits)

lemma as_errors_none [simp]: "as_errors e = [] \<longleftrightarrow> e = None"
  by (simp add: as_errors_def split: option.splits)

lemma renew_item_log:
  "\<exists>ok. sw_log (fst (renew_item owner lease i w)) = sw_log w @ [(SRenew i, ok)]"
  "snd (renew_item owner lease i w) = [] \<or> snd (renew_item owner lease i w) = [Stored LeaseConflict]"
  by (auto simp: renew_item_def Let_def case_prod_beta renew_scheduled_message_def as_errors_def)

lemma renew_ticks_log:
  "\<exists>rs. sw_log (fst (renew_ticks (renew_item owner lease i) n w)) = sw_log w @ rs \<and> (\<forall>c \<in> set rs. \<exists>ok. c = (SRenew i, ok))"
proof (induction n arbitrary: w)
  case (Suc n)
  obtain w' e where r: "renew_item owner lease i w = (w', e)" by fastforce
  obtain ok where l: "sw_log w' = sw_log w @ [(SRenew i, ok)]" using renew_item_log(1) [of owner lease i w] r by auto
  obtain rs where "sw_log (fst (renew_ticks (renew_item owner lease i) n w')) = sw_log w' @ rs" "\<forall>c \<in> set rs. \<exists>ok. c = (SRenew i, ok)"
    using Suc by blast
  then show ?case using l
    by (cases e) (auto simp: r intro: exI [of _ "[(SRenew i, ok)]"] exI [of _ "(SRenew i, ok) # rs"])
qed simp

lemma renew_ticks_errors:
  "snd (renew_ticks (renew_item owner lease i) n w) = [] \<or> snd (renew_ticks (renew_item owner lease i) n w) = [Stored LeaseConflict]"
proof (induction n arbitrary: w)
  case (Suc n)
  obtain w' e where r: "renew_item owner lease i w = (w', e)" by fastforce
  then have "e = [] \<or> e = [Stored LeaseConflict]" using renew_item_log(2) [of owner lease i w] by simp
  then show ?case using Suc [of w'] by (auto simp: r)
qed simp

lemma post_item_log:
  "\<exists>ok. sw_log (fst (post_item post v b w)) = sw_log w @ [(SPost (sched_id v), ok)] \<and> (ok \<longleftrightarrow> snd (post_item post v b w) = [])"
  by (auto simp: post_item_def Let_def case_prod_beta split: sum.splits)

lemma not_permanent: "permanent_failure_code [] = []" "permanent_failure_code [Stored LeaseConflict] = []"
  by (simp_all add: permanent_failure_code_def)

lemma post_with_lease_log:
  assumes "post_with_lease post owner lease v w = (w', errs)"
  obtains rs ok where "sw_log w' = sw_log w @ rs @ [(SPost (sched_id v), ok)]" "\<forall>c \<in> set rs. \<exists>ok. c = (SRenew (sched_id v), ok)"
    "errs = [] \<longrightarrow> ok" "permanent_failure_code errs \<noteq> [] \<longrightarrow> \<not> ok"
proof -
  let ?w = "w\<lparr>sw_ticks := tl (sw_ticks w)\<rparr>" and ?n = "case sw_ticks w of [] \<Rightarrow> 0 | n # _ \<Rightarrow> n"
  obtain w1 e1 where r: "renew_ticks (renew_item owner lease (sched_id v)) ?n ?w = (w1, e1)" by fastforce
  obtain rs where rs: "sw_log w1 = sw_log w @ rs" "\<forall>c \<in> set rs. \<exists>ok. c = (SRenew (sched_id v), ok)"
    using renew_ticks_log [of owner lease "sched_id v" ?n ?w] r by auto
  have e1: "e1 = [] \<or> e1 = [Stored LeaseConflict]" using renew_ticks_errors [of owner lease "sched_id v" ?n ?w] r by auto
  obtain w2 e2 where p: "post_item post v (e1 \<noteq> []) w1 = (w2, e2)" by fastforce
  obtain ok where ok: "sw_log w2 = sw_log w1 @ [(SPost (sched_id v), ok)]" "ok \<longleftrightarrow> e2 = []"
    using post_item_log [of post v "e1 \<noteq> []" w1] p by auto
  have "w' = w2" "errs = e2 \<or> errs = e1 @ e2" "errs = [] \<longrightarrow> e2 = []"
    using assms r p by (auto simp: post_with_lease_def while_held_def Let_def split: if_splits)
  then show ?thesis using that [of rs ok] rs ok e1 not_permanent by auto
qed

lemma record_failure_log:
  assumes "record_failure fail_event owner v post_err w = (w', recorded, failures)"
  obtains (silent) "sw_log w' = sw_log w" "\<not> recorded" "failures \<noteq> [] \<or> post_err = []"
    | (tried) "sw_log w' = sw_log w @ [(SGiveUp (sched_id v) (permanent_failure_code post_err), recorded)]"
      "permanent_failure_code post_err \<noteq> []" "recorded \<longleftrightarrow> failures = []"
proof (cases "permanent_failure_code post_err = []")
  case True
  then show ?thesis using assms silent by (auto simp: record_failure_def)
next
  case False
  obtain w1 failed_at where c: "read_clock w = (w1, failed_at)" by fastforce
  then have l: "sw_log w1 = sw_log w" using calls_log(2) [of w] by simp
  show ?thesis
  proof (cases "fail_event v (permanent_failure_code post_err) failed_at")
    case None
    then show ?thesis using assms silent False c l by (auto simp: record_failure_def Let_def)
  next
    case (Some ev)
    then show ?thesis using assms tried False c l
      by (auto simp: record_failure_def Let_def give_up_item_def case_prod_beta)
  qed
qed

lemma put_back_item_log: "\<exists>ok. sw_log (fst (put_back_item owner lease i w)) = sw_log w @ [(SPutBack i, ok)]
    \<and> (ok \<longleftrightarrow> snd (put_back_item owner lease i w) = [])"
  by (auto simp: put_back_item_def Let_def case_prod_beta)

lemma settle_item_log: "\<exists>ok. sw_log (fst (settle_item owner i w)) = sw_log w @ [(SSettle i, ok)] \<and> (ok \<longleftrightarrow> snd (settle_item owner i w) = [])"
  by (auto simp: settle_item_def Let_def case_prod_beta)

lemma deliver_item_log:
  assumes "deliver_item post fail_event owner lease v w = (w', done', errs)"
  shows "\<exists>ext. sw_log w' = sw_log w @ ext \<and> orderly None ext"
proof -
  obtain w1 post_err where p: "post_with_lease post owner lease v w = (w1, post_err)" by fastforce
  then obtain rs ok where l: "sw_log w1 = sw_log w @ rs @ [(SPost (sched_id v), ok)]" "\<forall>c \<in> set rs. \<exists>ok. c = (SRenew (sched_id v), ok)"
    "post_err = [] \<longrightarrow> ok" "permanent_failure_code post_err \<noteq> [] \<longrightarrow> \<not> ok"
    by (rule post_with_lease_log)
  have rs: "orderly before rs" for before using l(2) by (induction rs arbitrary: before) auto
  show ?thesis
  proof (cases "post_err = []")
    case True
    obtain w2 e2 ok2 where "settle_item owner (sched_id v) w1 = (w2, e2)" "sw_log w2 = sw_log w1 @ [(SSettle (sched_id v), ok2)]"
      using settle_item_log [of owner "sched_id v" w1] by (metis fst_conv surj_pair)
    then show ?thesis using assms p l rs True by (auto simp: deliver_item_def orderly_append)
  next
    case False
    obtain w2 recorded failures where r: "record_failure fail_event owner v post_err w1 = (w2, recorded, failures)"
      by (metis prod_cases3)
    obtain w3 e3 ok3 where b: "put_back_item owner lease (sched_id v) w2 = (w3, e3)" "sw_log w3 = sw_log w2 @ [(SPutBack (sched_id v), ok3)]"
      using put_back_item_log [of owner lease "sched_id v" w2] by (metis fst_conv surj_pair)
    have w': "w' = (if recorded then w2 else w3)" using assms p r b False by (simp add: deliver_item_def split: if_splits)
    from r show ?thesis
    proof (cases rule: record_failure_log)
      case silent
      then show ?thesis using w' b l rs by (auto simp: orderly_append)
    next
      case tried
      then show ?thesis using w' b l rs by (auto simp: orderly_append)
    qed
  qed
qed

lemma schedule_batch_log:
  "schedule_batch post fail_event owner lease vs completed failures w = (w', n, errs) \<Longrightarrow>
    \<exists>ext. sw_log w' = sw_log w @ ext \<and> orderly None ext"
proof (induction post fail_event owner lease vs completed failures w rule: schedule_batch.induct)
  case (2 post fail_event owner lease v vs completed failures w)
  let ?w = "w\<lparr>sw_interrupts := tl (sw_interrupts w)\<rparr>"
  show ?case
  proof (cases "case sw_interrupts w of [] \<Rightarrow> False | b # _ \<Rightarrow> b")
    case True
    then show ?thesis using "2.prems" by auto
  next
    case False
    obtain w1 d e where i: "deliver_item post fail_event owner lease v ?w = (w1, d, e)" by (metis prod_cases3)
    obtain a where a: "sw_log w1 = sw_log w @ a" "orderly None a" using deliver_item_log [OF i] by auto
    have "\<exists>ext. sw_log w' = sw_log w1 @ ext \<and> orderly None ext"
      by (rule "2.IH" [OF refl refl False i [symmetric] refl]) (use "2.prems" False in \<open>auto simp: i Let_def split: list.splits\<close>)
    then show ?thesis using a orderly_concat by auto
  qed
qed simp

text \<open>
  C34. The worker marks delivered what it has just posted, and marks failed what was just refused.
  Whatever the rest of the deployment does between its calls, however often leases are lost and
  whichever call fails, each request to mark a message delivered follows at once a post of that
  message that was answered, and each request to mark one failed a post of it that was refused.
\<close>

theorem worker_marks_what_it_posted:
  assumes "run_scheduled_once post fail_event owner limit lease workspace w = (w', n, errs)"
  shows "\<exists>ext. sw_log w' = sw_log w @ ext
    \<and> (\<forall>pre i ok rest. ext = pre @ (SSettle i, ok) # rest \<longrightarrow> pre \<noteq> [] \<and> last pre = (SPost i, True))
    \<and> (\<forall>pre i c ok rest. ext = pre @ (SGiveUp i c, ok) # rest \<longrightarrow> pre \<noteq> [] \<and> last pre = (SPost i, False))"
proof -
  obtain w1 r where c: "claimed_batch workspace owner limit lease w = (w1, r)" by fastforce
  then have l: "sw_log w1 = sw_log w"
    by (auto simp: claimed_batch_def Let_def case_prod_beta)
  have "\<exists>ext. sw_log w' = sw_log w @ ext \<and> orderly None ext"
  proof (cases r)
    case (Inl e)
    then show ?thesis using assms c l by (simp add: run_scheduled_once_def)
  next
    case (Inr vs)
    then show ?thesis using assms c l schedule_batch_log by (fastforce simp: run_scheduled_once_def)
  qed
  then show ?thesis using orderly_at by blast
qed

subsection \<open>Every claimed item is settled\<close>

text \<open>What the other processes do: any operation on messages, and on the schedule as somebody else.\<close>

inductive foreign_step :: "library \<Rightarrow> string \<Rightarrow> time \<Rightarrow> chat \<Rightarrow> chat \<Rightarrow> bool" for L owner until where
  chats: "chat_step L s s' \<Longrightarrow> foreign_step L owner until s s'"
| schedules: "schedule_actor op \<noteq> Some owner \<Longrightarrow> now \<le> until \<Longrightarrow> foreign_step L owner until s (schedule_step op now s)"

lemma holder_same: "schedule_of s' = schedule_of s \<Longrightarrow> schedule_holder s' = schedule_holder s"
  by (simp add: schedule_holder_def schedule_of_def fun_eq_iff)

lemma foreign_holds:
  "(foreign_step L owner until)\<^sup>*\<^sup>* s s' \<Longrightarrow> schedule_holder s i until = Some owner \<Longrightarrow> schedule_holder s' i until = Some owner"
proof (induction rule: rtranclp_induct)
  case (step y z)
  from step(2) show ?case
  proof cases
    case chats
    then show ?thesis using holder_same [OF chat_step_scheduled] step by metis
  next
    case (schedules op now)
    then show ?thesis using schedule_keeps_lease step by blast
  qed
qed

definition unhindered :: "string \<Rightarrow> time \<Rightarrow> time \<Rightarrow> string set \<Rightarrow> schedule_world \<Rightarrow> bool" where
  "unhindered owner start until ids w \<longleftrightarrow> (\<forall>i \<in> ids. schedule_holder (sw_store w) i until = Some owner)
     \<and> (\<forall>n \<ge> sw_reads w. start \<le> sw_clock w n \<and> sw_clock w n \<le> until) \<and> True \<notin> set (sw_interrupts w)
     \<and> (\<forall>f \<in> set (sw_others w). \<forall>s i. schedule_holder s i until = Some owner \<longrightarrow> schedule_holder (f s) i until = Some owner)"

lemma unhindered_others: "unhindered owner start until ids w \<Longrightarrow> unhindered owner start until ids (others_act w)"
  by (auto simp: unhindered_def others_act_def split: list.splits)

lemma unhindered_read:
  assumes "unhindered owner start until ids w" "read_clock w = (w', t)"
  shows "unhindered owner start until ids w' \<and> start \<le> t \<and> t \<le> until"
  using assms by (auto simp: unhindered_def read_clock_def)

lemma unhindered_finish:
  assumes "unhindered owner start until ids' w" "\<And>i. i \<in> ids \<Longrightarrow> schedule_holder s i until = Some owner"
  shows "unhindered owner start until ids (finish_call c ok s w)"
  using assms by (auto simp: unhindered_def finish_call_def)

lemma unhindered_holds:
  "unhindered owner start until ids w \<Longrightarrow> i \<in> ids \<Longrightarrow> now \<le> until \<Longrightarrow> holds_scheduled owner i now (sw_store w)"
  unfolding holds_scheduled_iff by (rule schedule.earlier) (auto simp: unhindered_def)

lemma unhinderedD: "unhindered owner start until ids w \<Longrightarrow> i \<in> ids \<Longrightarrow> schedule_holder (sw_store w) i until = Some owner"
  by (simp add: unhindered_def)

text \<open>The store's side of the calls that end a lease: what they leave to the other holders.\<close>

lemma ends_lease:
  assumes "holds_scheduled owner i now s" "schedule_holder s j until = Some owner" "j \<noteq> i"
  shows "snd (mark_scheduled_message_delivered owner i now now' s) = None"
    "schedule_holder (fst (mark_scheduled_message_delivered owner i now now' s)) j until = Some owner"
    "code \<noteq> [] \<Longrightarrow> snd (mark_scheduled_message_failed owner i code failed_at ev now s) = None"
    "schedule_holder (fst (mark_scheduled_message_failed owner i code failed_at ev now s)) j until = Some owner"
    "snd (release_scheduled_message owner i next_at now s) = None"
    "schedule_holder (fst (release_scheduled_message owner i next_at now s)) j until = Some owner"
  using assms by (auto simp: mark_scheduled_message_delivered_def mark_scheduled_message_failed_def release_scheduled_message_def
      schedule_holder_def)

lemma settle_held:
  assumes "unhindered owner start until (insert i ids) w" "i \<notin> ids"
  shows "unhindered owner start until ids (fst (settle_item owner i w)) \<and> snd (settle_item owner i w) = []"
proof -
  obtain w1 now where 1: "read_clock (others_act w) = (w1, now)" by fastforce
  obtain w2 now' where 2: "read_clock w1 = (w2, now')" by fastforce
  have u: "unhindered owner start until (insert i ids) w2" "now \<le> until"
    using unhindered_read [OF unhindered_others [OF assms(1)] 1] unhindered_read [OF _ 2] by auto
  have h: "holds_scheduled owner i now (sw_store w2)" using unhindered_holds [OF u(1)] u(2) by simp
  have "schedule_holder (fst (mark_scheduled_message_delivered owner i now now' (sw_store w2))) j until = Some owner" if "j \<in> ids" for j
    by (rule ends_lease(2) [OF h unhinderedD [OF u(1)]]) (use that assms(2) in auto)
  moreover have "snd (mark_scheduled_message_delivered owner i now now' (sw_store w2)) = None"
    using h by (simp add: mark_scheduled_message_delivered_def)
  ultimately show ?thesis using unhindered_finish [OF u(1)]
    by (simp add: settle_item_def Let_def 1 2 case_prod_beta)
qed

lemma give_up_held:
  assumes "unhindered owner start until (insert i ids) w" "i \<notin> ids" "code \<noteq> []"
  shows "unhindered owner start until ids (fst (give_up_item owner i code failed_at ev w)) \<and> snd (give_up_item owner i code failed_at ev w) = []"
proof -
  obtain w1 now where 1: "read_clock (others_act w) = (w1, now)" by fastforce
  have u: "unhindered owner start until (insert i ids) w1" "now \<le> until"
    using unhindered_read [OF unhindered_others [OF assms(1)] 1] by auto
  have h: "holds_scheduled owner i now (sw_store w1)" using unhindered_holds [OF u(1)] u(2) by simp
  have "schedule_holder (fst (mark_scheduled_message_failed owner i code failed_at ev now (sw_store w1))) j until = Some owner"
    if "j \<in> ids" for j by (rule ends_lease(4) [OF h unhinderedD [OF u(1)]]) (use that assms(2) in auto)
  moreover have "snd (mark_scheduled_message_failed owner i code failed_at ev now (sw_store w1)) = None"
    using h assms(3) by (simp add: mark_scheduled_message_failed_def)
  ultimately show ?thesis using unhindered_finish [OF u(1)]
    by (simp add: give_up_item_def Let_def 1 case_prod_beta)
qed

lemma put_back_held:
  assumes "unhindered owner start until (insert i ids) w" "i \<notin> ids"
  shows "unhindered owner start until ids (fst (put_back_item owner lease i w)) \<and> snd (put_back_item owner lease i w) = []"
proof -
  obtain w0 retry where 0: "read_clock w = (w0, retry)" by fastforce
  obtain w1 now where 1: "read_clock (others_act w0) = (w1, now)" by fastforce
  have u: "unhindered owner start until (insert i ids) w1" "now \<le> until"
    using unhindered_read [OF assms(1) 0] unhindered_read [OF unhindered_others 1] by auto
  have h: "holds_scheduled owner i now (sw_store w1)" using unhindered_holds [OF u(1)] u(2) by simp
  have "schedule_holder (fst (release_scheduled_message owner i (retry + lease) now (sw_store w1))) j until = Some owner"
    if "j \<in> ids" for j by (rule ends_lease(6) [OF h unhinderedD [OF u(1)]]) (use that assms(2) in auto)
  moreover have "snd (release_scheduled_message owner i (retry + lease) now (sw_store w1)) = None"
    using h by (simp add: release_scheduled_message_def)
  ultimately show ?thesis using unhindered_finish [OF u(1)]
    by (simp add: put_back_item_def Let_def 0 1 case_prod_beta)
qed

lemma renew_held:
  assumes "unhindered owner start until ids w" "until = start + lease - 1"
  shows "unhindered owner start until ids (fst (renew_item owner lease i w))"
proof -
  obtain w1 now where 1: "read_clock (others_act w) = (w1, now)" by fastforce
  obtain w2 now' where 2: "read_clock w1 = (w2, now')" by fastforce
  have u: "unhindered owner start until ids w2" "start \<le> now'"
    using unhindered_read [OF unhindered_others [OF assms(1)] 1] unhindered_read [OF _ 2] by auto
  have "schedule_holder (fst (renew_scheduled_message owner i lease now now' (sw_store w2))) j until = Some owner" if "j \<in> ids" for j
    using u that assms(2) by (auto simp: unhindered_def renew_scheduled_message_def schedule_holder_def holds_scheduled_def
        split: option.splits if_splits)
  then show ?thesis using unhindered_finish [OF u(1)] by (simp add: renew_item_def Let_def 1 2 case_prod_beta)
qed

lemma post_held:
  assumes "unhindered owner start until ids w" "\<And>b t x i s. schedule_of (fst (post b t x i s)) = schedule_of s"
  shows "unhindered owner start until ids (fst (post_item post v b w))"
proof -
  obtain w1 now where 1: "read_clock (others_act w) = (w1, now)" by fastforce
  have u: "unhindered owner start until ids w1" using unhindered_read [OF unhindered_others [OF assms(1)] 1] by simp
  have "schedule_holder (fst (post b now (sched_workspace v) (sched_id v) (sw_store w1))) j until = Some owner" if "j \<in> ids" for j
    using holder_same [OF assms(2)] u that by (simp add: unhindered_def)
  then show ?thesis using unhindered_finish [OF u] by (simp add: post_item_def Let_def 1 case_prod_beta split: sum.splits)
qed

lemma post_with_lease_held:
  assumes "unhindered owner start until ids w" "until = start + lease - 1"
    "\<And>b t x i s. schedule_of (fst (post b t x i s)) = schedule_of s"
  shows "unhindered owner start until ids (fst (post_with_lease post owner lease v w))"
proof -
  have "unhindered owner start until ids (w\<lparr>sw_ticks := tl (sw_ticks w)\<rparr>)" using assms(1) by (simp add: unhindered_def)
  then have "unhindered owner start until ids (fst (renew_ticks (renew_item owner lease (sched_id v)) n (w\<lparr>sw_ticks := tl (sw_ticks w)\<rparr>)))"
    for n using renew_ticks_invariant [where P = "unhindered owner start until ids"] renew_held [OF _ assms(2)] by blast
  then show ?thesis unfolding post_with_lease_def while_held_world by (rule post_held [OF _ assms(3)])
qed

definition ended :: "string \<Rightarrow> (schedule_call \<times> bool) list \<Rightarrow> bool" where
  "ended i log \<longleftrightarrow> (SSettle i, True) \<in> set log \<or> (\<exists>c. (SGiveUp i c, True) \<in> set log) \<or> (SPutBack i, True) \<in> set log"

lemma ended_append: "ended i (a @ b) \<longleftrightarrow> ended i a \<or> ended i b"
  by (auto simp: ended_def)

lemma record_failure_held:
  assumes "unhindered owner start until (insert (sched_id v) ids) w" "sched_id v \<notin> ids"
    "record_failure fail_event owner v post_err w = (w', recorded, failures)"
  shows "if recorded then unhindered owner start until ids w' else unhindered owner start until (insert (sched_id v) ids) w'"
proof (cases "permanent_failure_code post_err = []")
  case True
  then show ?thesis using assms by (auto simp: record_failure_def)
next
  case False
  obtain w1 failed_at where c: "read_clock w = (w1, failed_at)" by fastforce
  have u: "unhindered owner start until (insert (sched_id v) ids) w1" using unhindered_read [OF assms(1) c] by simp
  show ?thesis
  proof (cases "fail_event v (permanent_failure_code post_err) failed_at")
    case None
    then show ?thesis using assms(3) False c u by (auto simp: record_failure_def Let_def)
  next
    case (Some ev)
    then show ?thesis using assms(3) False c give_up_held [OF u assms(2) False]
      by (auto simp: record_failure_def Let_def case_prod_beta)
  qed
qed

lemma deliver_item_held:
  assumes u: "unhindered owner start until (insert (sched_id v) ids) w" "sched_id v \<notin> ids" "until = start + lease - 1"
    and post: "\<And>b t x i s. schedule_of (fst (post b t x i s)) = schedule_of s"
    and run: "deliver_item post fail_event owner lease v w = (w', done', errs)"
  shows "unhindered owner start until ids w' \<and> (\<exists>ext. sw_log w' = sw_log w @ ext \<and> ended (sched_id v) ext)"
proof -
  obtain w1 post_err where p: "post_with_lease post owner lease v w = (w1, post_err)" by fastforce
  then obtain a where a: "sw_log w1 = sw_log w @ a" by (rule post_with_lease_log)
  have u1: "unhindered owner start until (insert (sched_id v) ids) w1" using post_with_lease_held [where post = post and v = v, OF u(1,3) post] by (simp add: p)
  show ?thesis
  proof (cases "post_err = []")
    case True
    then show ?thesis using run p a settle_held [OF u1 u(2)] settle_item_log [of owner "sched_id v" w1]
      by (auto simp: deliver_item_def case_prod_beta ended_def)
  next
    case False
    obtain w2 recorded failures where r: "record_failure fail_event owner v post_err w1 = (w2, recorded, failures)"
      by (metis prod_cases3)
    note held = record_failure_held [OF u1 u(2) r]
    show ?thesis
    proof (cases recorded)
      case True
      from r have "ended (sched_id v) (drop (length (sw_log w1)) (sw_log w2)) \<and> (\<exists>b. sw_log w2 = sw_log w1 @ b)"
        by (cases rule: record_failure_log) (use True in \<open>auto simp: ended_def\<close>)
      then show ?thesis using run p r held True False a by (auto simp: deliver_item_def ended_append)
    next
      case put: False
      from r obtain b where b: "sw_log w2 = sw_log w1 @ b" by (cases rule: record_failure_log) auto
      show ?thesis
        using run p r held put False a b put_back_held [OF _ u(2), of owner start until w2 lease]
          put_back_item_log [of owner lease "sched_id v" w2]
        by (auto simp: deliver_item_def case_prod_beta ended_def)
    qed
  qed
qed

lemma schedule_batch_held:
  assumes "distinct (map sched_id vs)" "unhindered owner start until (sched_id ` set vs) w" "until = start + lease - 1"
    and post: "\<And>b t x i s. schedule_of (fst (post b t x i s)) = schedule_of s"
    and run: "schedule_batch post fail_event owner lease vs completed failures w = (w', n, errs)"
  shows "\<exists>ext. sw_log w' = sw_log w @ ext \<and> (\<forall>v \<in> set vs. ended (sched_id v) ext)"
  using assms(1,2) run
proof (induction vs arbitrary: completed failures w)
  case (Cons v vs)
  have i: "(case sw_interrupts w of [] \<Rightarrow> False | b # _ \<Rightarrow> b) = False"
    using Cons.prems(2) by (auto simp: unhindered_def split: list.splits)
  let ?w = "w\<lparr>sw_interrupts := tl (sw_interrupts w)\<rparr>"
  have u: "unhindered owner start until (insert (sched_id v) (sched_id ` set vs)) ?w"
    using Cons.prems(2) by (cases "sw_interrupts w") (auto simp: unhindered_def)
  obtain w1 d e where r: "deliver_item post fail_event owner lease v ?w = (w1, d, e)" by (metis prod_cases3)
  have fresh: "sched_id v \<notin> sched_id ` set vs" using Cons.prems(1) by auto
  obtain a where a: "unhindered owner start until (sched_id ` set vs) w1" "sw_log w1 = sw_log w @ a" "ended (sched_id v) a"
    using deliver_item_held [where post = post, OF u fresh assms(3) post r] by auto
  have next_items: "schedule_batch post fail_event owner lease vs (if d then completed + 1 else completed) (failures @ e) w1 = (w', n, errs)"
    using Cons.prems(3) i by (simp add: r Let_def)
  have "distinct (map sched_id vs)" using Cons.prems(1) by simp
  then obtain b where "sw_log w' = sw_log w1 @ b" "\<forall>v \<in> set vs. ended (sched_id v) b"
    using Cons.IH [OF _ a(1) next_items] by blast
  then show ?case using a by (auto simp: ended_append)
qed simp

lemma distinct_claim: "distinct (map f xs) \<Longrightarrow> distinct (map f (take n (sort_key g (filter P xs))))"
proof -
  assume d: "distinct (map f xs)"
  have "inj_on f (set (take n (sort_key g (filter P xs))))"
    by (rule inj_on_subset [of f "set xs"]) (use d in \<open>auto simp: distinct_map dest: in_set_takeD\<close>)
  then show ?thesis using d by (simp add: distinct_map)
qed

text \<open>
  C35. No claimed message is left behind. Whatever becomes of the other items, and whatever the other
  processes do meanwhile, a run that nobody interrupts and that stays within the lease it took has,
  for every message it claimed, recorded its delivery, recorded its failure for good, or put it back
  for a later attempt. Of the poster only that it leaves the schedule's tables alone is used.
\<close>

theorem worker_settles_what_it_claimed:
  assumes claim: "claimed_batch workspace owner limit lease w = (w1, Inr vs)"
    and run: "run_scheduled_once post fail_event owner limit lease workspace w = (w', n, errs)"
    and sound: "schedule_sound (sw_clock w (sw_reads w)) (sw_store (others_act w))"
    and clock: "\<forall>k \<ge> sw_reads w. sw_clock w (sw_reads w) \<le> sw_clock w k \<and> sw_clock w k < sw_clock w (sw_reads w) + lease"
    and others: "\<forall>f \<in> set (sw_others w). \<forall>s. (foreign_step L owner (sw_clock w (sw_reads w) + lease - 1))\<^sup>*\<^sup>* s (f s)"
    and post: "\<forall>b t x i s. schedule_of (fst (post b t x i s)) = schedule_of s"
    and calm: "True \<notin> set (sw_interrupts w)"
  shows "\<exists>ext. sw_log w' = sw_log w @ ext \<and> (\<forall>v \<in> set vs.
    (SSettle (sched_id v), True) \<in> set ext \<or> (\<exists>c. (SGiveUp (sched_id v) c, True) \<in> set ext) \<or> (SPutBack (sched_id v), True) \<in> set ext)"
proof -
  let ?start = "sw_clock w (sw_reads w)"
  let ?until = "?start + lease - 1"
  obtain v1 now where r: "read_clock (others_act w) = (v1, now)" by fastforce
  have v1: "now = ?start" "sw_store v1 = sw_store (others_act w)" "sw_clock v1 = sw_clock w" "sw_reads w \<le> sw_reads v1"
    "set (sw_others v1) \<subseteq> set (sw_others w)" "sw_interrupts v1 = sw_interrupts w" "sw_log v1 = sw_log w"
    using r by (auto simp: read_clock_def others_act_def split: list.splits)
  have c: "claim_scheduled_messages workspace owner limit lease ?start (sw_store v1) = (sw_store w1, Inr vs)"
    and w1: "w1 = v1\<lparr>sw_store := sw_store w1\<rparr>"
    using claim r v1(1) by (auto simp: claimed_batch_def Let_def split: prod.splits)
  have vs: "vs = take (nat limit) (sort_key due_order (filter (claimable workspace ?start (sw_store v1)) (map snd (scheduled (sw_store v1)))))"
    using c by (auto simp: claim_scheduled_messages_def Let_def split: if_splits)
  have "distinct (map sched_id (map snd (scheduled (sw_store v1))))"
  proof -
    have "map sched_id (map snd (scheduled (sw_store v1))) = map fst (scheduled (sw_store v1))"
      using sound v1(2) by (auto simp: schedule_sound_def list_all_iff)
    then show ?thesis using sound v1(2) unfolding schedule_sound_def by metis
  qed
  then have d: "distinct (map sched_id vs)" unfolding vs by (rule distinct_claim)
  have h: "schedule_holder (sw_store w1) i ?until = Some owner" if "i \<in> sched_id ` set vs" for i
    using claimed_due(3) [of i workspace owner limit lease ?start "sw_store v1"] that c by (simp add: schedule_holder_def)
  have u: "unhindered owner ?start ?until (sched_id ` set vs) w1"
  proof -
    have "sw_clock w1 = sw_clock w" "sw_reads w \<le> sw_reads w1" "set (sw_others w1) \<subseteq> set (sw_others w)" "sw_interrupts w1 = sw_interrupts w"
      by (subst w1, simp add: v1)+
    moreover have "schedule_holder (f s) i ?until = Some owner" if "f \<in> set (sw_others w)" "schedule_holder s i ?until = Some owner" for f s i
      using others that foreign_holds by blast
    ultimately show ?thesis using h clock calm unfolding unhindered_def by (auto dest: order_trans)
  qed
  have "schedule_batch post fail_event owner lease vs 0 [] w1 = (w', n, errs)" using run claim by (simp add: run_scheduled_once_def)
  moreover have "sw_log w1 = sw_log w" by (subst w1, simp add: v1)
  ultimately show ?thesis
    using schedule_batch_held [where post = post, OF d u refl] post by (auto simp: ended_def)
qed

subsection \<open>An example\<close>

definition plain_row :: scheduled_message where
  "plain_row = sample_scheduled\<lparr>sched_text := ''hi'', sched_credential := internal_scheduled_credential id ''T'' ''U''\<rparr>"

definition worker_world :: schedule_world where
  "worker_world = \<lparr>sw_store = plain_chat Map.empty, sw_clock = (\<lambda>_. 1000), sw_reads = 0, sw_others = [], sw_interrupts = [],
     sw_ticks = [1], sw_log = []\<rparr>"

definition refusing_poster :: poster where
  "refusing_poster interrupted now workspace i s = (s, Inl NotInConversation)"

definition plain_poster :: poster where
  "plain_poster interrupted now = post_scheduled_message plain_tools plain_directory (\<lambda>_. Some sample_event) (\<lambda>_. Some [])
     (\<lambda>_ _ s. (s, None)) (Some ''A'') now"

lemma plain_scheduled: "scheduled (plain_chat l) = [(''S'', plain_row)]"
  by (simp add: plain_row_def plain_chat_simps)

lemma plain_row_simps: "sched_id plain_row = ''S''" "sched_workspace plain_row = ''T''" "sched_post_at plain_row = 0" "sched_failed_at plain_row = 0"
  by (simp_all add: plain_row_def sample_scheduled_def zero_scheduled_def)

lemma worker_claims:
  "claimed_batch ''T'' ''w'' 5 50 worker_world
    = (worker_world\<lparr>sw_reads := 1, sw_store := (plain_chat Map.empty)\<lparr>scheduled_leases := [''S'' \<mapsto> \<lparr>le_owner = ''w'', le_expires = 1050\<rparr>]\<rparr>\<rparr>, Inr [plain_row])"
  by (simp add: claimed_batch_def worker_world_def others_act_def read_clock_def claim_scheduled_messages_def plain_scheduled
      claimable_def plain_row_simps plain_chat_simps lease_live_def next_attempt_at_def Let_def)
    (simp add: plain_chat_def sample_store_def new_store_def)

lemma refused_run:
  "\<exists>w' n errs. run_scheduled_once refusing_poster (\<lambda>_ _ _. Some sample_event) ''w'' 5 50 ''T'' worker_world = (w', n, errs)
    \<and> sw_log w' = [(SRenew ''S'', True), (SPost ''S'', False), (SGiveUp ''S'' ''not_in_channel'', True)]"
  unfolding run_scheduled_once_def worker_claims
  by (simp add: deliver_item_def post_with_lease_def while_held_def renew_item_def post_item_def
      record_failure_def give_up_item_def refusing_poster_def permanent_failure_code_def plain_row_simps worker_world_def
      others_act_def read_clock_def finish_call_def renew_scheduled_message_def mark_scheduled_message_failed_def holds_scheduled_def
      as_errors_def Let_def)

lemma worker_marks_what_it_posted_witness:
  "\<exists>w' n errs. run_scheduled_once refusing_poster (\<lambda>_ _ _. Some sample_event) ''w'' 5 50 ''T'' worker_world = (w', n, errs)
    \<and> last (butlast (sw_log w')) = (SPost ''S'', False)"
proof -
  obtain w' n errs where r: "run_scheduled_once refusing_poster (\<lambda>_ _ _. Some sample_event) ''w'' 5 50 ''T'' worker_world = (w', n, errs)"
    "sw_log w' = [(SRenew ''S'', True), (SPost ''S'', False)] @ (SGiveUp ''S'' ''not_in_channel'', True) # []"
    using refused_run by auto
  have "sw_log worker_world = []" by (simp add: worker_world_def)
  then show ?thesis using worker_marks_what_it_posted [OF r(1)] r by auto
qed

lemma worker_settles_what_it_claimed_witness:
  "\<exists>w' n errs. run_scheduled_once plain_poster (\<lambda>_ _ _. Some sample_event) ''w'' 5 50 ''T'' worker_world = (w', n, errs)
    \<and> ((SSettle ''S'', True) \<in> set (sw_log w') \<or> (\<exists>c. (SGiveUp ''S'' c, True) \<in> set (sw_log w')) \<or> (SPutBack ''S'', True) \<in> set (sw_log w'))"
proof -
  obtain w' n errs where r: "run_scheduled_once plain_poster (\<lambda>_ _ _. Some sample_event) ''w'' 5 50 ''T'' worker_world = (w', n, errs)"
    by (metis prod_cases3)
  have w: "sw_clock worker_world = (\<lambda>_. 1000)" "sw_reads worker_world = 0" "sw_others worker_world = []" "sw_interrupts worker_world = []"
    "sw_log worker_world = []" "sw_store (others_act worker_world) = plain_chat Map.empty"
    by (simp_all add: worker_world_def others_act_def)
  have frame: "schedule_of (fst (plain_poster b t x i s)) = schedule_of s" for b t x i s
  proof -
    obtain s' a where p: "plain_poster b t x i s = (s', a)" by fastforce
    then show ?thesis unfolding plain_poster_def using post_scheduled_schedule by (metis fst_conv)
  qed
  show ?thesis
    using worker_settles_what_it_claimed [OF worker_claims r] r frame by (simp add: w plain_chat_sound plain_row_simps)
qed

subsection \<open>What is retried for ever\<close>

text \<open>
  Only five refusals are final. A reply whose thread was deleted, a message whose author may no longer
  post in the channel and one whose blocks are refused are put back each time, however often they were
  tried: the message stays due, and with it the wake deadline.
\<close>

lemma refusals_retried:
  "permanent_failure_code [ThreadNotFound] = ''''" "permanent_failure_code [PostingRestricted] = ''''"
  "permanent_failure_code [InvalidBlocks] = ''''"
  by (simp_all add: permanent_failure_code_def)

text \<open>
  A scheduled message that was posted, but whose delivery was not recorded, can still be edited: the
  edit is accepted, and never posted, since the next attempt answers the message posted before.
\<close>

lemma edit_after_post_accepted:
  assumes "map_of (scheduled s) i = Some v" "sched_workspace v = w" "sched_channel v = c" "sched_credential v = cred"
    "posted_row s i" "i \<notin> scheduled_delivered s" "\<not> lease_live s i now"
    and "w \<noteq> [] \<and> i \<noteq> [] \<and> c \<noteq> [] \<and> cred \<noteq> [] \<and> at \<noteq> 0 \<and> 0 < window \<and> 0 < limit" "trim_space body \<noteq> []"
    "\<not> scheduled_message_limit_exceeded (nearby w c at window (Some i) s) at window limit"
  shows "\<exists>s' v'. update_scheduled_message_within_limit
      \<lparr>up_workspace = w, up_id = i, up_channel = c, up_text = body, up_post_at = at, up_credential = cred\<rparr> window limit ev now s = (s', Inr v')
    \<and> posted_row s' i \<and> sched_text v' = body"
  using assms by (auto simp: update_scheduled_message_within_limit_def posted_row_def update_conv' Let_def)

end
