(* ===== verification/Calendar.thy ===== *)
theory Calendar
  imports Go_Values "HOL-Library.Signed_Division"
begin

section \<open>Calendar dates and wall clocks\<close>

text \<open>
  What the reminders use of Go's package \<^verbatim>\<open>time\<close>: the proleptic Gregorian calendar over day numbers
  (day 0 is Monday, 1 January of year 1, the date of Go's zero time), \<^verbatim>\<open>time.Date\<close> with the months and
  days it normalizes, and locations. A location is the offset east of UTC in force at each instant;
  what a wall clock there shows is the instant plus that offset.
\<close>

subsection \<open>Years, months and days\<close>

definition leap :: "int \<Rightarrow> bool" where
  "leap y \<longleftrightarrow> y mod 4 = 0 \<and> (y mod 100 \<noteq> 0 \<or> y mod 400 = 0)"

definition days_before_year :: "int \<Rightarrow> int" where
  "days_before_year y = 365 * (y - 1) + (y - 1) div 4 - (y - 1) div 100 + (y - 1) div 400"

definition days_before_month :: "bool \<Rightarrow> int \<Rightarrow> int" where
  "days_before_month lp m = (367 * m - 362) div 12 - (if m \<le> 2 then 0 else if lp then 1 else 2)"

lemma month_starts:
  "map (days_before_month False) [1, 2, 3, 4, 5, 6, 7, 8, 9, 10, 11, 12, 13] = [0, 31, 59, 90, 120, 151, 181, 212, 243, 273, 304, 334, 365]"
  "map (days_before_month True) [1, 2, 3, 4, 5, 6, 7, 8, 9, 10, 11, 12, 13] = [0, 31, 60, 91, 121, 152, 182, 213, 244, 274, 305, 335, 366]"
  by (simp_all add: days_before_month_def)

text \<open>The day number \<^verbatim>\<open>time.Date\<close> gives a year, a month and a day, each of which may be out of range.\<close>

definition date_days :: "int \<Rightarrow> int \<Rightarrow> int \<Rightarrow> int" where
  "date_days y m d =
     (let y' = y + (m - 1) div 12 in days_before_year y' + days_before_month (leap y') ((m - 1) mod 12 + 1) + (d - 1))"

definition civil_year :: "int \<Rightarrow> int" where
  "civil_year n =
     (let y = 400 * n div 146097 + 1
      in if n < days_before_year y then y - 1 else if n < days_before_year (y + 1) then y else y + 1)"

definition civil :: "int \<Rightarrow> int \<times> int \<times> int" where
  "civil n =
     (let y = civil_year n; r = n - days_before_year y;
        m = int (length (filter (\<lambda>m. days_before_month (leap y) m \<le> r) [1, 2, 3, 4, 5, 6, 7, 8, 9, 10, 11, 12]))
      in (y, m, r - days_before_month (leap y) m + 1))"

text \<open>\<^verbatim>\<open>Time.Weekday\<close>, Sunday being 0.\<close>

definition weekday :: "int \<Rightarrow> int" where
  "weekday n = (n + 1) mod 7"

lemma int_div_step: "0 < n \<Longrightarrow> (k + 1) div n = k div n + (if (k + 1) mod n = 0 then 1 else 0)" for k n :: int
proof -
  assume n: "0 < n"
  have r: "0 \<le> k mod n" "k mod n < n" using n by auto
  have k: "k = n * (k div n) + k mod n" by simp
  show ?thesis
  proof (cases "k mod n = n - 1")
    case True
    then have "k + 1 = (k div n + 1) * n" using k by (simp only: distrib_left distrib_right mult.commute [of n])
    then have "(k + 1) div n = k div n + 1" "(k + 1) mod n = 0" using n by simp_all
    then show ?thesis by simp
  next
    case False
    then have "k mod n + 1 < n" using r by simp
    moreover have "k + 1 = n * (k div n) + (k mod n + 1)" using k by simp
    ultimately have "(k + 1) div n = k div n \<and> (k + 1) mod n = k mod n + 1"
      using r(1) by (metis add_nonneg_nonneg int_div_pos_eq int_mod_pos_eq zero_le_one)
    then show ?thesis using r by auto
  qed
qed

lemma year_length: "days_before_year (y + 1) = days_before_year y + (if leap y then 366 else 365)"
proof -
  have step: "y div n = (y - 1) div n + (if y mod n = 0 then 1 else 0)" if "0 < n" for n using int_div_step [OF that, of "y - 1"] by simp
  have m: "y mod 400 = 0 \<Longrightarrow> y mod 100 = 0" "y mod 100 = 0 \<Longrightarrow> y mod 4 = 0"
    using mod_mod_cancel [of 100 400 y] mod_mod_cancel [of 4 100 y] by auto
  define a where "a n = (y - 1) div n" for n
  have "days_before_year (y + 1) = 365 * y + y div 4 - y div 100 + y div 400" by (simp add: days_before_year_def)
  moreover have "days_before_year y = 365 * y - 365 + a 4 - a 100 + a 400" by (simp add: days_before_year_def a_def)
  moreover have "y div 4 = a 4 + (if y mod 4 = 0 then 1 else 0)" "y div 100 = a 100 + (if y mod 100 = 0 then 1 else 0)"
    "y div 400 = a 400 + (if y mod 400 = 0 then 1 else 0)"
    unfolding a_def by (rule step, simp)+
  ultimately have "days_before_year (y + 1) = days_before_year y + 365
      + (if y mod 4 = 0 then 1 else 0) - (if y mod 100 = 0 then 1 else 0) + (if y mod 400 = 0 then 1 else 0)"
    by linarith
  then show ?thesis using m by (cases "y mod 4 = 0"; cases "y mod 100 = 0"; cases "y mod 400 = 0") (simp_all add: leap_def)
qed

lemma days_before_year_mono: "x < y \<Longrightarrow> days_before_year x + 365 \<le> days_before_year y"
proof (induction "nat (y - x)" arbitrary: y)
  case (Suc n)
  show ?case
  proof (cases "y = x + 1")
    case False
    then have "days_before_year x + 365 \<le> days_before_year (y - 1)" using Suc by simp
    then show ?thesis using year_length [of "y - 1"] by auto
  qed (simp add: year_length)
qed simp

lemma days_before_year_scaled:
  "400 * days_before_year y = 146097 * (y - 1) - 100 * ((y - 1) mod 4) + 4 * ((y - 1) mod 100) - (y - 1) mod 400"
proof -
  define k where "k = y - 1"
  have "4 * (k div 4) + k mod 4 = k" "100 * (k div 100) + k mod 100 = k" "400 * (k div 400) + k mod 400 = k" by simp_all
  then have "400 * (365 * k) + 400 * (k div 4) - 400 * (k div 100) + 400 * (k div 400)
      = 146097 * k - 100 * (k mod 4) + 4 * (k mod 100) - k mod 400"
    by linarith
  then show ?thesis by (simp only: days_before_year_def k_def [symmetric] distrib_left right_diff_distrib)
qed

lemma days_before_year_bounds:
  "400 * days_before_year y \<le> 146097 * (y - 1) + 396" "146097 * (y - 1) - 699 \<le> 400 * days_before_year y"
proof -
  have "0 \<le> (y - 1) mod 4" "(y - 1) mod 4 < 4" "0 \<le> (y - 1) mod 100" "(y - 1) mod 100 < 100" "0 \<le> (y - 1) mod 400" "(y - 1) mod 400 < 400"
    by simp_all
  then show "400 * days_before_year y \<le> 146097 * (y - 1) + 396" "146097 * (y - 1) - 699 \<le> 400 * days_before_year y"
    unfolding days_before_year_scaled by linarith+
qed

lemma civil_year_in: "days_before_year (civil_year n) \<le> n" "n < days_before_year (civil_year n + 1)"
proof -
  define k where "k = 400 * n div 146097"
  have "400 * n = 146097 * k + 400 * n mod 146097" by (simp add: k_def)
  moreover have "0 \<le> 400 * n mod 146097" "400 * n mod 146097 < 146097" by simp_all
  ultimately have k: "146097 * k \<le> 400 * n" "400 * n < 146097 * k + 146097" by linarith+
  have "400 * days_before_year k \<le> 400 * n" using days_before_year_bounds(1) [of k] k by (simp add: algebra_simps)
  moreover have "400 * n < 400 * days_before_year (k + 3)" using days_before_year_bounds(2) [of "k + 3"] k by (simp add: algebra_simps)
  ultimately have "days_before_year k \<le> n" "n < days_before_year (k + 3)" by simp_all
  then show "days_before_year (civil_year n) \<le> n" "n < days_before_year (civil_year n + 1)"
    unfolding civil_year_def Let_def k_def by (auto simp: add.assoc)
qed

lemma civil_year_eq: "days_before_year y \<le> n \<Longrightarrow> n < days_before_year (y + 1) \<Longrightarrow> civil_year n = y"
  using civil_year_in [of n] days_before_year_mono [of "civil_year n + 1" y] days_before_year_mono [of "y + 1" "civil_year n"]
  by (cases "civil_year n < y"; cases "y < civil_year n") (fastforce simp: order_less_le)+

subsection \<open>Months counted through the years\<close>

text \<open>Month \<open>i\<close> is month \<open>i mod 12 + 1\<close> of year \<open>i div 12\<close>: its first day and its length.\<close>

definition month_first :: "int \<Rightarrow> int" where
  "month_first i = days_before_year (i div 12) + days_before_month (leap (i div 12)) (i mod 12 + 1)"

definition month_len :: "int \<Rightarrow> int" where
  "month_len i = month_first (i + 1) - month_first i"

definition month_of :: "int \<Rightarrow> int" where
  "month_of n = (case civil n of (y, m, d) \<Rightarrow> 12 * y + (m - 1))"

lemma twelve: "(0::int) \<le> j \<Longrightarrow> j < 12 \<Longrightarrow> j \<in> {0, 1, 2, 3, 4, 5, 6, 7, 8, 9, 10, 11}"
  unfolding insert_iff empty_iff by presburger

lemma month_table:
  assumes "0 \<le> j" "j < 12"
  shows "0 \<le> days_before_month lp (j + 1)" "days_before_month lp (j + 2) \<le> (if lp then 366 else 365)"
    "28 \<le> days_before_month lp (j + 2) - days_before_month lp (j + 1)"
    "days_before_month lp (j + 2) - days_before_month lp (j + 1) \<le> 31"
proof -
  note starts = month_starts [simplified]
  consider "j = 0" | "j = 1" | "j = 2" | "j = 3" | "j = 4" | "j = 5" | "j = 6" | "j = 7" | "j = 8" | "j = 9" | "j = 10" | "j = 11"
    using twelve [OF assms] by blast
  then have "0 \<le> days_before_month lp (j + 1) \<and> days_before_month lp (j + 2) \<le> (if lp then 366 else 365)
      \<and> 28 \<le> days_before_month lp (j + 2) - days_before_month lp (j + 1) \<and> days_before_month lp (j + 2) - days_before_month lp (j + 1) \<le> 31"
    by cases (cases lp; simp add: starts)+
  then show "0 \<le> days_before_month lp (j + 1)" "days_before_month lp (j + 2) \<le> (if lp then 366 else 365)"
    "28 \<le> days_before_month lp (j + 2) - days_before_month lp (j + 1)"
    "days_before_month lp (j + 2) - days_before_month lp (j + 1) \<le> 31"
    by blast+
qed

lemma month_table_find:
  assumes "0 \<le> j" "j < 12" "days_before_month lp (j + 1) \<le> r" "r < days_before_month lp (j + 2)"
  shows "int (length (filter (\<lambda>m. days_before_month lp m \<le> r) [1, 2, 3, 4, 5, 6, 7, 8, 9, 10, 11, 12])) = j + 1"
proof -
  note starts = month_starts [simplified]
  consider "j = 0" | "j = 1" | "j = 2" | "j = 3" | "j = 4" | "j = 5" | "j = 6" | "j = 7" | "j = 8" | "j = 9" | "j = 10" | "j = 11"
    using twelve [OF assms(1,2)] by blast
  then show ?thesis using assms(3,4) by cases (cases lp; simp add: starts)+
qed

lemma month_table_covers:
  assumes "0 \<le> r" "r < (if lp then 366 else 365)"
  shows "\<exists>j. 0 \<le> j \<and> j < 12 \<and> days_before_month lp (j + 1) \<le> r \<and> r < days_before_month lp (j + 2)"
proof (rule ccontr)
  assume no: "\<not> ?thesis"
  have step: "days_before_month lp (j + 2) \<le> r" if "0 \<le> j" "j < 12" "days_before_month lp (j + 1) \<le> r" for j
    using no that by force
  have "days_before_month lp 1 \<le> r" using assms by (simp add: days_before_month_def)
  then have "days_before_month lp 13 \<le> r"
    using step [of 0] step [of 1] step [of 2] step [of 3] step [of 4] step [of 5] step [of 6] step [of 7] step [of 8] step [of 9]
      step [of 10] step [of 11]
    by simp
  then show False using assms by (simp add: days_before_month_def split: if_splits)
qed

lemma month_first_next:
  "month_first (i + 1) = days_before_year (i div 12) + days_before_month (leap (i div 12)) (i mod 12 + 2)"
proof (cases "i mod 12 = 11")
  case True
  then have m: "(i + 1) mod 12 = 0" using mod_add_left_eq [of i 12 1] by simp
  moreover have "(i + 1) div 12 = i div 12 + 1" using int_div_step [of 12 i] m by simp
  ultimately show ?thesis using True by (simp add: month_first_def year_length days_before_month_def)
next
  case False
  moreover have r: "0 \<le> i mod 12" "i mod 12 < 12" by simp_all
  ultimately have "(i mod 12 + 1) mod 12 = i mod 12 + 1" by (intro mod_pos_pos_trivial) linarith+
  then have m: "(i + 1) mod 12 = i mod 12 + 1" by (simp add: mod_add_left_eq)
  moreover have "(i + 1) div 12 = i div 12" using int_div_step [of 12 i] m r by simp
  moreover have "i mod 12 + 1 + 1 = i mod 12 + 2" by linarith
  ultimately show ?thesis unfolding month_first_def by (simp only:)
qed

lemma month_len_bounds: "28 \<le> month_len i" "month_len i \<le> 31"
  unfolding month_len_def month_first_next month_first_def [of i]
  using month_table(3,4) [of "i mod 12" "leap (i div 12)"] by simp_all

lemma month_first_mono: "i < j \<Longrightarrow> month_first (i + 1) \<le> month_first j"
proof (induction "nat (j - i)" arbitrary: j)
  case (Suc n)
  show ?case
  proof (cases "j = i + 1")
    case False
    then have "month_first (i + 1) \<le> month_first (j - 1)" using Suc by simp
    then show ?thesis using month_len_bounds(1) [of "j - 1"] by (simp add: month_len_def)
  qed simp
qed simp

lemma date_days_month: "date_days y m d = month_first (12 * y + (m - 1)) + (d - 1)"
proof -
  have "(12 * y + (m - 1)) div 12 = y + (m - 1) div 12" "(12 * y + (m - 1)) mod 12 = (m - 1) mod 12" by simp_all
  then show ?thesis by (simp only: date_days_def month_first_def Let_def)
qed

lemma civil_in_month:
  assumes "month_first i \<le> n" "n < month_first (i + 1)"
  shows "civil n = (i div 12, i mod 12 + 1, n - month_first i + 1)"
proof -
  have j: "0 \<le> i mod 12" "i mod 12 < 12" by simp_all
  have "days_before_year (i div 12) \<le> n" "n < days_before_year (i div 12 + 1)"
    using assms month_table(1,2) [OF j, of "leap (i div 12)"] unfolding month_first_next year_length month_first_def [of i] by (auto split: if_splits)
  then have y: "civil_year n = i div 12" by (rule civil_year_eq)
  have "int (length (filter (\<lambda>m. days_before_month (leap (i div 12)) m \<le> n - days_before_year (i div 12))
      [1, 2, 3, 4, 5, 6, 7, 8, 9, 10, 11, 12])) = i mod 12 + 1"
    using assms by (intro month_table_find [OF j]) (simp_all add: month_first_def [of i] month_first_next)
  then show ?thesis unfolding civil_def Let_def y by (simp add: month_first_def [of i])
qed

lemma month_of_unique: "month_first i \<le> n \<Longrightarrow> n < month_first (i + 1) \<Longrightarrow> month_of n = i"
  by (simp add: month_of_def civil_in_month)

lemma month_of_in: "month_first (month_of n) \<le> n" "n < month_first (month_of n + 1)"
proof -
  define y where "y = civil_year n"
  have "0 \<le> n - days_before_year y" "n - days_before_year y < (if leap y then 366 else 365)"
    using civil_year_in [of n] by (simp_all add: y_def year_length split: if_splits)
  then obtain j where j: "0 \<le> j" "j < 12" "days_before_month (leap y) (j + 1) \<le> n - days_before_year y"
      "n - days_before_year y < days_before_month (leap y) (j + 2)"
    using month_table_covers by blast
  define i where "i = 12 * y + j"
  have "i div 12 = y" "i mod 12 = j" using j by (simp_all add: i_def)
  then have "month_first i \<le> n" "n < month_first (i + 1)" using j by (simp_all add: month_first_next month_first_def [of i])
  then show "month_first (month_of n) \<le> n" "n < month_first (month_of n + 1)" using month_of_unique by auto
qed

lemma civil_month_of: "civil n = (month_of n div 12, month_of n mod 12 + 1, n - month_first (month_of n) + 1)"
  by (rule civil_in_month [OF month_of_in])

text \<open>The calendar and its inverse: every day has one date, every date in range names its own day.\<close>

theorem civil_dates_round_trip:
  "(case civil n of (y, m, d) \<Rightarrow> date_days y m d = n \<and> 1 \<le> m \<and> m \<le> 12 \<and> 1 \<le> d \<and> d \<le> month_len (12 * y + (m - 1)))
   \<and> (1 \<le> m \<and> m \<le> 12 \<and> 1 \<le> d \<and> d \<le> month_len (12 * y + (m - 1)) \<longrightarrow> civil (date_days y m d) = (y, m, d))"
proof -
  have "0 \<le> month_of n mod 12" "month_of n mod 12 < 12" "12 * (month_of n div 12) + month_of n mod 12 = month_of n" by simp_all
  then have a: "case civil n of (y, m, d) \<Rightarrow> date_days y m d = n \<and> 1 \<le> m \<and> m \<le> 12 \<and> 1 \<le> d \<and> d \<le> month_len (12 * y + (m - 1))"
    unfolding civil_month_of using month_of_in [of n] by (simp add: date_days_month month_len_def)
  have b: "civil (date_days y m d) = (y, m, d)" if "1 \<le> m" "m \<le> 12" "1 \<le> d" "d \<le> month_len (12 * y + (m - 1))"
  proof -
    have "civil (date_days y m d) = ((12 * y + (m - 1)) div 12, (12 * y + (m - 1)) mod 12 + 1, d)"
      using that civil_in_month [of "12 * y + (m - 1)" "date_days y m d"] by (simp add: date_days_month month_len_def)
    moreover have "(m - 1) div 12 = 0" "(m - 1) mod 12 = m - 1" using that by simp_all
    ultimately show ?thesis by (simp only: div_mult_self4 mod_mult_self4) simp
  qed
  show ?thesis using a b by blast
qed

subsection \<open>Locations\<close>

type_synonym location = "time \<Rightarrow> duration"

definition day_ns :: duration where
  "day_ns = 86400 * 1000000000"

definition minute_ns :: duration where
  "minute_ns = 60 * 1000000000"

definition utc :: location where
  "utc t = 0"

text \<open>What the clock and the calendar of a place show at an instant.\<close>

definition wall :: "location \<Rightarrow> time \<Rightarrow> time" where
  "wall loc t = t + loc t"

definition wall_day :: "location \<Rightarrow> time \<Rightarrow> int" where
  "wall_day loc t = wall loc t div day_ns"

definition wall_clock :: "location \<Rightarrow> time \<Rightarrow> duration" where
  "wall_clock loc t = wall loc t mod day_ns"

text \<open>
  \<^verbatim>\<open>time.Date\<close> from a wall clock to an instant: the offset in force had the clock been UTC is tried,
  and where that does not hold at the instant it gives, the offset that does is taken.
\<close>

definition instant_of :: "location \<Rightarrow> time \<Rightarrow> time" where
  "instant_of loc w = (let o1 = loc w in if o1 = 0 then w else w - loc (w - o1))"

text \<open>\<^verbatim>\<open>Time.AddDate(0, 0, n)\<close>\<close>

definition add_days :: "location \<Rightarrow> time \<Rightarrow> int \<Rightarrow> time" where
  "add_days loc t n = instant_of loc ((wall_day loc t + n) * day_ns + wall_clock loc t)"

lemma wall_parts: "wall loc t = wall_day loc t * day_ns + wall_clock loc t"
  by (simp add: wall_day_def wall_clock_def)

lemma wall_clock_bounds: "0 \<le> wall_clock loc t" "wall_clock loc t < day_ns"
  by (simp_all add: wall_clock_def day_ns_def)

lemma wall_split:
  "wall loc t = d * day_ns + c \<Longrightarrow> 0 \<le> c \<Longrightarrow> c < day_ns \<Longrightarrow> wall_day loc t = d \<and> wall_clock loc t = c"
  by (simp add: wall_day_def wall_clock_def day_ns_def)

text \<open>Where the offset never changes, every wall clock is shown, at one instant.\<close>

lemma fixed_offset: "wall (\<lambda>t. off) (instant_of (\<lambda>t. off) w) = w"
  by (simp add: wall_def instant_of_def)

end
