(* ===== verification/Recurrence.thy ===== *)
theory Recurrence
  imports Calendar
begin

section \<open>Recurring reminders\<close>

text \<open>
  \<^verbatim>\<open>internal/domain/reminder_recurrence.go\<close> and \<open>nextRecurrence\<close> of \<^verbatim>\<open>internal/scheduler/reminders.go\<close>:
  how a recurring reminder gets its next instant. The database of time zones is an argument: it gives a
  name its location or refuses it. A recurrence is its stored string, so any string may be met.
\<close>

datatype recurrence = Once | Daily | Weekly | Monthly | Yearly | Unknown_Recurrence string

datatype recurrence_error = Unknown_Time_Zone | Recurrence_Invalid

text \<open>The last day of a month is what \<^verbatim>\<open>time.Date\<close> makes of day 0 of the month after it.\<close>

definition clamp_reminder_day :: "int \<Rightarrow> int \<Rightarrow> int \<Rightarrow> int" where
  "clamp_reminder_day d y m = (let l = snd (snd (civil (date_days y (m + 1) 0))) in if d > l then l else d)"

definition date_at :: "location \<Rightarrow> int \<Rightarrow> int \<Rightarrow> int \<Rightarrow> duration \<Rightarrow> time" where
  "date_at loc y m d clock = instant_of loc (date_days y m d * day_ns + clock)"

text \<open>The hour and the minute of a wall clock.\<close>

definition hour_minute :: "location \<Rightarrow> time \<Rightarrow> duration" where
  "hour_minute loc t = wall_clock loc t div minute_ns * minute_ns"

definition next_weekday :: "int list \<Rightarrow> location \<Rightarrow> time \<Rightarrow> int option" where
  "next_weekday weekdays loc t = find (\<lambda>n. weekday (wall_day loc (add_days loc t n)) \<in> set weekdays) [1, 2, 3, 4, 5, 6, 7]"

definition advance_reminder :: "recurrence \<Rightarrow> int list \<Rightarrow> time \<Rightarrow> time \<Rightarrow> location \<Rightarrow> time" where
  "advance_reminder r weekdays anchor t loc =
     (let clock = hour_minute loc anchor;
        (ay, am, ad) = civil (wall_day loc anchor);
        (vy, vm, vd) = civil (wall_day loc t)
      in case r of
           Daily \<Rightarrow> add_days loc t 1
         | Weekly \<Rightarrow>
             (if weekdays = [] then add_days loc t 7
              else (case next_weekday weekdays loc t of
                      None \<Rightarrow> 0
                    | Some n \<Rightarrow> (case civil (wall_day loc (add_days loc t n)) of (y, m, d) \<Rightarrow> date_at loc y m d clock)))
         | Monthly \<Rightarrow>
             (let (y, m) = (if vm = 12 then (vy + 1, 1) else (vy, vm + 1)) in date_at loc y m (clamp_reminder_day ad y m) clock)
         | Yearly \<Rightarrow> date_at loc (vy + 1) am (clamp_reminder_day ad (vy + 1) am) clock
         | _ \<Rightarrow> 0)"

text \<open>Go's division rounds towards zero; the correction for a negative remainder is the code's.\<close>

definition add_calendar_months :: "location \<Rightarrow> time \<Rightarrow> int \<Rightarrow> time" where
  "add_calendar_months loc t months =
     (let (vy, vm, vd) = civil (wall_day loc t); total = vm - 1 + months;
        y = (if total smod 12 < 0 then vy + total sdiv 12 - 1 else vy + total sdiv 12);
        m = (total smod 12 + 12) smod 12 + 1
      in date_at loc y m (clamp_reminder_day vd y m) (wall_clock loc t))"

definition reminder_series_anchor :: "recurrence \<Rightarrow> int list \<Rightarrow> time \<Rightarrow> time \<Rightarrow> location \<Rightarrow> time option" where
  "reminder_series_anchor r weekdays anchor due loc =
     (if is_zero_time anchor \<or> r = Once \<or> anchor = due then Some due
      else if \<not> anchor < due \<or> advance_reminder r weekdays anchor anchor loc \<noteq> due then None
      else Some anchor)"

text \<open>The loop of \<open>nextRecurrence\<close>, which need not end.\<close>

partial_function (option) next_loop :: "(time \<Rightarrow> time) \<Rightarrow> time \<Rightarrow> time \<Rightarrow> (recurrence_error + time) option" where
  "next_loop step after t =
     (if t > after then Some (Inr t)
      else if is_zero_time (step t) then Some (Inl Recurrence_Invalid)
      else next_loop step after (step t))"

definition next_recurrence ::
  "(string \<Rightarrow> location option) \<Rightarrow> recurrence \<Rightarrow> int list \<Rightarrow> string \<Rightarrow> time \<Rightarrow> time \<Rightarrow> time \<Rightarrow> (recurrence_error + time) option" where
  "next_recurrence load r weekdays zone anchor due after =
     (if r = Once then Some (Inr 0)
      else (case load (if zone = [] then ''UTC'' else zone) of
              None \<Rightarrow> Some (Inl Unknown_Time_Zone)
            | Some loc \<Rightarrow>
                (let anchor = (if is_zero_time anchor then due else anchor)
                 in next_loop (\<lambda>t. advance_reminder r weekdays anchor t loc) after due)))"

subsection \<open>The clamped day\<close>

lemma clamp_reminder_day_eq: "clamp_reminder_day d y m = min d (month_len (12 * y + (m - 1)))"
proof -
  define i where "i = 12 * y + (m - 1)"
  have "date_days y (m + 1) 0 = month_first (i + 1) - 1" by (simp add: date_days_month i_def)
  moreover have "month_first i \<le> month_first (i + 1) - 1" using month_len_bounds(1) [of i] by (simp add: month_len_def)
  ultimately have "civil (date_days y (m + 1) 0) = (i div 12, i mod 12 + 1, month_len i)"
    using civil_in_month [of i "month_first (i + 1) - 1"] by (simp add: month_len_def)
  then show ?thesis by (simp add: clamp_reminder_day_def i_def min_def)
qed

text \<open>The day month \<open>i\<close> gives an anchor's day of the month.\<close>

definition month_day :: "int \<Rightarrow> int \<Rightarrow> int" where
  "month_day ad i = month_first i + min ad (month_len i) - 1"

lemma month_of_month_day: "1 \<le> ad \<Longrightarrow> month_of (month_day ad i) = i"
  using month_len_bounds(1) [of i] by (intro month_of_unique) (auto simp: month_day_def month_len_def min_def)

lemma date_at_clamped:
  "date_at loc y m (clamp_reminder_day ad y m) clock = instant_of loc (month_day ad (12 * y + (m - 1)) * day_ns + clock)"
  by (simp add: date_at_def date_days_month clamp_reminder_day_eq month_day_def add_diff_eq)

lemma next_month:
  assumes "civil n = (y, m, d)" "(y', m') = (if m = 12 then (y + 1, 1) else (y, m + 1))"
  shows "12 * y' + (m' - 1) = month_of n + 1"
  using assms by (auto simp: month_of_def split: if_splits)

lemma month_of_mono: "m \<le> n \<Longrightarrow> month_of m \<le> month_of n"
  using month_of_in [of m] month_of_in [of n] month_first_mono [of "month_of n" "month_of m"] by (cases "month_of n < month_of m") auto

lemma advance_monthly:
  "advance_reminder Monthly weekdays anchor t loc
   = instant_of loc (month_day (snd (snd (civil (wall_day loc anchor)))) (month_of (wall_day loc t) + 1) * day_ns + hour_minute loc anchor)"
proof -
  obtain ay am ad where a: "civil (wall_day loc anchor) = (ay, am, ad)" by (cases "civil (wall_day loc anchor)")
  obtain vy vm vd where v: "civil (wall_day loc t) = (vy, vm, vd)" by (cases "civil (wall_day loc t)")
  obtain y m where ym: "(y, m) = (if vm = 12 then (vy + 1, 1) else (vy, vm + 1))" by (cases "if vm = 12 then (vy + 1, 1) else (vy, vm + 1)") auto
  show ?thesis unfolding next_month [OF v ym, symmetric]
    by (simp add: advance_reminder_def a v ym [symmetric] date_at_clamped del: if_split)
qed

lemma advance_yearly:
  "advance_reminder Yearly weekdays anchor t loc
   = instant_of loc (month_day (snd (snd (civil (wall_day loc anchor))))
       (12 * (month_of (wall_day loc t) div 12 + 1) + month_of (wall_day loc anchor) mod 12) * day_ns + hour_minute loc anchor)"
  by (simp add: advance_reminder_def civil_month_of date_at_clamped distrib_left add.commute add.left_commute)

subsection \<open>The reference: the days a reminder falls on\<close>

text \<open>
  Which days belong to the series of an anchor on day \<open>a\<close> first due on day \<open>f\<close>. A month too short for
  the anchor's day has its last day instead.
\<close>

definition day_of_month :: "int \<Rightarrow> int" where
  "day_of_month n = snd (snd (civil n))"

definition falls_on :: "recurrence \<Rightarrow> int list \<Rightarrow> int \<Rightarrow> int \<Rightarrow> int \<Rightarrow> bool" where
  "falls_on r weekdays a f n =
     (case r of
        Daily \<Rightarrow> True
      | Weekly \<Rightarrow> if weekdays = [] then (n - f) mod 7 = 0 else weekday n \<in> set weekdays
      | Monthly \<Rightarrow> day_of_month n = min (day_of_month a) (month_len (month_of n))
      | Yearly \<Rightarrow> month_of n mod 12 = month_of a mod 12 \<and> day_of_month n = min (day_of_month a) (month_len (month_of n))
      | _ \<Rightarrow> False)"

text \<open>
  A location keeps a clock if every day has that time of day, and its offsets differ by less than a
  day: it is false only of times of day that a change of the offset skips.
\<close>

definition keeps_clock :: "location \<Rightarrow> duration \<Rightarrow> bool" where
  "keeps_clock loc c \<longleftrightarrow> (\<forall>n. wall loc (instant_of loc (n * day_ns + c)) = n * day_ns + c) \<and> (\<forall>t u. \<bar>loc t - loc u\<bar> < day_ns)"

lemma day_of_month_ge: "1 \<le> day_of_month n"
  using month_of_in [of n] by (simp add: day_of_month_def civil_month_of)

lemma month_day_iff: "day_of_month n = min ad (month_len (month_of n)) \<longleftrightarrow> n = month_day ad (month_of n)"
  by (auto simp: day_of_month_def civil_month_of month_day_def)

lemma month_day_falls: "1 \<le> ad \<Longrightarrow> day_of_month (month_day ad i) = min ad (month_len i)"
  using month_day_iff [of "month_day ad i" ad] by (simp add: month_of_month_day)

lemma month_day_mono: "1 \<le> ad \<Longrightarrow> i < j \<Longrightarrow> month_day ad i < month_day ad j"
  using month_first_mono [of i j] month_len_bounds(1) [of j] by (auto simp: month_day_def month_len_def min_def)

lemma month_day_less_iff: "1 \<le> ad \<Longrightarrow> month_day ad i < month_day ad j \<longleftrightarrow> i < j"
  using month_day_mono [of ad i j] month_day_mono [of ad j i] by (metis linorder_less_linear order_less_asym order_less_irrefl)

lemma instants_increase:
  assumes "keeps_clock loc c" "m < n"
  shows "instant_of loc (m * day_ns + c) < instant_of loc (n * day_ns + c)"
proof -
  have w: "wall loc (instant_of loc (k * day_ns + c)) = k * day_ns + c" for k using assms(1) by (simp add: keeps_clock_def)
  have "loc (instant_of loc (n * day_ns + c)) - loc (instant_of loc (m * day_ns + c)) < day_ns"
    using assms(1) unfolding keeps_clock_def by (metis abs_less_iff)
  moreover have "(m + 1) * day_ns \<le> n * day_ns" using assms(2) by (intro mult_right_mono) (auto simp: day_ns_def)
  ultimately show ?thesis using w [of m] w [of n] by (simp add: wall_def distrib_right)
qed

lemma clock_kept:
  assumes "keeps_clock loc c" "0 \<le> c" "c < day_ns"
  shows "wall_day loc (instant_of loc (n * day_ns + c)) = n" "wall_clock loc (instant_of loc (n * day_ns + c)) = c"
  using assms wall_split [of loc "instant_of loc (n * day_ns + c)" n c] by (simp_all add: keeps_clock_def)

lemma hour_minute_bounds: "0 \<le> hour_minute loc t" "hour_minute loc t < day_ns"
proof -
  have "wall_clock loc t div minute_ns * minute_ns \<le> wall_clock loc t" by (simp add: minute_ns_def div_times_less_eq_dividend)
  then show "hour_minute loc t < day_ns" using wall_clock_bounds [of loc t] by (simp add: hour_minute_def)
  show "0 \<le> hour_minute loc t" using wall_clock_bounds [of loc t]
    by (simp add: hour_minute_def minute_ns_def pos_imp_zdiv_nonneg_iff)
qed

lemma add_days_kept:
  assumes "keeps_clock loc c" "0 \<le> c" "c < day_ns"
  shows "add_days loc (instant_of loc (n * day_ns + c)) k = instant_of loc ((n + k) * day_ns + c)"
  using clock_kept [OF assms] by (simp add: add_days_def)

lemma some_weekday:
  assumes "weekday f \<in> W"
  shows "\<exists>k \<in> {1, 2, 3, 4, 5, 6, 7}. weekday (n + k) \<in> W"
proof -
  define k where "k = (f - n - 1) mod 7 + 1"
  have "0 \<le> (f - n - 1) mod 7" "(f - n - 1) mod 7 < 7" by simp_all
  then have "1 \<le> k" "k \<le> 7" by (simp_all add: k_def)
  then have k: "k \<in> {1, 2, 3, 4, 5, 6, 7}" by auto
  have "(n + k + 1) mod 7 = ((n + 2) + (f - n - 1) mod 7) mod 7" by (simp add: k_def algebra_simps)
  also have "\<dots> = (f + 1) mod 7" unfolding mod_add_right_eq by (simp add: algebra_simps)
  finally have "weekday (n + k) = weekday f" by (simp add: weekday_def)
  with assms k show ?thesis by metis
qed

lemma first_found:
  assumes "find P [1, 2, 3, 4, 5, 6, 7] = Some (k::int)"
  shows "P k" "1 \<le> k" "\<And>j. 1 \<le> j \<Longrightarrow> j < k \<Longrightarrow> \<not> P j"
proof -
  have e: "[1, 2, 3, 4, 5, 6, 7] = map (\<lambda>i. int i + 1) [0..<7]" by (simp add: upt_rec)
  obtain i where i: "i < 7" "P (int i + 1)" "k = int i + 1" "\<forall>j<i. \<not> P (int j + 1)"
    using assms unfolding e find_Some_iff by auto
  then show "P k" "1 \<le> k" by simp_all
  show "\<not> P j" if "1 \<le> j" "j < k" for j
    using i(4)[rule_format, of "nat (j - 1)"] i(3) that by auto
qed

subsection \<open>Each step goes to the next day of the series\<close>

text \<open>The step of a series is its successor: the least day after \<open>n\<close> the reminder falls on.\<close>

definition next_day_of :: "(int \<Rightarrow> bool) \<Rightarrow> int \<Rightarrow> int \<Rightarrow> bool" where
  "next_day_of F n m \<longleftrightarrow> n < m \<and> F m \<and> (\<forall>k. n < k \<and> k < m \<longrightarrow> \<not> F k)"

lemma step_weekdays:
  assumes "keeps_clock loc (hour_minute loc anchor)" "weekday f \<in> set weekdays"
  shows "\<exists>m. next_day_of (\<lambda>n. weekday n \<in> set weekdays) n m
    \<and> advance_reminder Weekly weekdays anchor (instant_of loc (n * day_ns + hour_minute loc anchor)) loc
      = instant_of loc (m * day_ns + hour_minute loc anchor)"
proof -
  note c = assms(1) hour_minute_bounds [of loc anchor]
  define t where "t = instant_of loc (n * day_ns + hour_minute loc anchor)"
  have day: "wall_day loc (add_days loc t k) = n + k" for k unfolding t_def add_days_kept [OF c] by (rule clock_kept(1) [OF c])
  have "find (\<lambda>k. weekday (n + k) \<in> set weekdays) [1, 2, 3, 4, 5, 6, 7] \<noteq> None"
    using some_weekday [OF assms(2), of n] unfolding find_None_iff by auto
  then obtain k where k: "find (\<lambda>k. weekday (n + k) \<in> set weekdays) [1, 2, 3, 4, 5, 6, 7] = Some k" by blast
  have "next_day_of (\<lambda>n. weekday n \<in> set weekdays) n (n + k)"
    unfolding next_day_of_def
  proof (intro conjI allI impI)
    fix j assume "n < j \<and> j < n + k"
    then show "weekday j \<notin> set weekdays" using first_found(3) [OF k, of "j - n"] by simp
  qed (use first_found [OF k] in auto)
  moreover have "advance_reminder Weekly weekdays anchor t loc = instant_of loc ((n + k) * day_ns + hour_minute loc anchor)"
    using k civil_dates_round_trip [of "n + k"] assms(2)
    by (auto simp: advance_reminder_def next_weekday_def day date_at_def Let_def split: prod.splits)
  ultimately show ?thesis unfolding t_def by blast
qed

lemma step_monthly:
  assumes "1 \<le> ad" "n = month_day ad (month_of n)"
  shows "next_day_of (\<lambda>n. n = month_day ad (month_of n)) n (month_day ad (month_of n + 1))"
proof -
  have "k \<noteq> month_day ad (month_of k)" if "n < k" "k < month_day ad (month_of n + 1)" for k
  proof
    assume k: "k = month_day ad (month_of k)"
    then have "month_of n < month_of k" using that(1) assms month_day_less_iff [OF assms(1)] by metis
    moreover have "month_of k < month_of n + 1" using that(2) k month_day_less_iff [OF assms(1)] by metis
    ultimately show False by simp
  qed
  moreover have "n < month_day ad (month_of n + 1)" using assms month_day_mono [OF assms(1), of "month_of n" "month_of n + 1"] by simp
  ultimately show ?thesis by (simp add: next_day_of_def month_of_month_day assms(1))
qed

lemma step_yearly:
  assumes "1 \<le> ad" "n = month_day ad (month_of n)" "month_of n mod 12 = am" "i = 12 * (month_of n div 12 + 1) + am"
  shows "next_day_of (\<lambda>n. month_of n mod 12 = am \<and> n = month_day ad (month_of n)) n (month_day ad i)"
proof -
  have i: "i = month_of n + 12" using assms(3,4) by auto
  have "\<not> (month_of k mod 12 = am \<and> k = month_day ad (month_of k))" if "n < k" "k < month_day ad i" for k
  proof
    assume k: "month_of k mod 12 = am \<and> k = month_day ad (month_of k)"
    then have "month_of n < month_of k" using that(1) assms(1,2) month_day_less_iff [OF assms(1)] by metis
    moreover have "month_of k < month_of n + 12" using that(2) k i month_day_less_iff [OF assms(1)] by metis
    ultimately show False
      using k assms(3) mod_eq_dvd_iff [of "month_of k" 12 "month_of n"] zdvd_imp_le [of 12 "month_of k - month_of n"] by simp
  qed
  moreover have "n < month_day ad i" using assms month_day_mono [OF assms(1), of "month_of n" i] i by simp
  moreover have "i mod 12 = am" using i assms(3) by simp
  ultimately show ?thesis by (simp add: next_day_of_def month_of_month_day assms(1))
qed

lemma step_in_series:
  assumes c: "keeps_clock loc (hour_minute loc anchor)"
    and f: "falls_on r weekdays (wall_day loc anchor) f n" "falls_on r weekdays (wall_day loc anchor) f f"
  shows "\<exists>m. next_day_of (falls_on r weekdays (wall_day loc anchor) f) n m
    \<and> advance_reminder r weekdays anchor (instant_of loc (n * day_ns + hour_minute loc anchor)) loc
      = instant_of loc (m * day_ns + hour_minute loc anchor)"
proof -
  note c = c hour_minute_bounds [of loc anchor]
  note kept = clock_kept [OF c] add_days_kept [OF c]
  define ad where "ad = day_of_month (wall_day loc anchor)"
  have ad: "1 \<le> ad" by (simp add: ad_def day_of_month_ge)
  show ?thesis
  proof (cases r)
    case Daily
    then show ?thesis by (intro exI [of _ "n + 1"]) (auto simp: next_day_of_def falls_on_def advance_reminder_def kept civil_month_of)
  next
    case Weekly
    show ?thesis
    proof (cases "weekdays = []")
      case True
      have "(n - f) mod 7 = 0" using f(1) Weekly True by (simp add: falls_on_def)
      then have "next_day_of (\<lambda>k. (k - f) mod 7 = 0) n (n + 7)" unfolding next_day_of_def by (intro conjI allI impI) presburger+
      then show ?thesis using Weekly True
        by (intro exI [of _ "n + 7"]) (simp add: falls_on_def [abs_def] advance_reminder_def kept civil_month_of)
    next
      case False
      then show ?thesis using step_weekdays [OF c(1), of f weekdays n] f(2) Weekly by (simp add: falls_on_def [abs_def])
    qed
  next
    case Monthly
    have F: "falls_on r weekdays (wall_day loc anchor) f = (\<lambda>n. n = month_day ad (month_of n))"
      using Monthly by (simp add: falls_on_def fun_eq_iff ad_def month_day_iff)
    then show ?thesis using step_monthly [OF ad, of n] f(1) Monthly
      by (intro exI [of _ "month_day ad (month_of n + 1)"]) (simp add: F advance_monthly kept ad_def [unfolded day_of_month_def, symmetric])
  next
    case Yearly
    have F: "falls_on r weekdays (wall_day loc anchor) f
        = (\<lambda>n. month_of n mod 12 = month_of (wall_day loc anchor) mod 12 \<and> n = month_day ad (month_of n))"
      using Yearly by (simp add: falls_on_def fun_eq_iff ad_def month_day_iff)
    then show ?thesis using step_yearly [OF ad, of n _ "12 * (month_of n div 12 + 1) + month_of (wall_day loc anchor) mod 12"] f(1) Yearly
      by (intro exI [of _ "month_day ad (12 * (month_of n div 12 + 1) + month_of (wall_day loc anchor) mod 12)"])
        (simp add: F advance_yearly kept ad_def [unfolded day_of_month_def, symmetric])
  qed (use f(1) in \<open>simp_all add: falls_on_def\<close>)
qed

subsection \<open>The loop reaches the first instant of the series after a delivery\<close>

lemma next_loop_first:
  assumes up: "\<And>m n. m < n \<Longrightarrow> at m < at n"
    and step: "\<And>n. F n \<Longrightarrow> \<exists>m. next_day_of F n m \<and> step (at n) = at m"
    and start: "F n" "0 < at n"
  shows "\<exists>m\<ge>n. next_loop step after (at n) = Some (Inr (at m)) \<and> F m \<and> after < at m \<and> (\<forall>k. n \<le> k \<and> k < m \<and> F k \<longrightarrow> at k \<le> after)"
  using start
proof (induction "nat (after + 1 - at n)" arbitrary: n rule: less_induct)
  case less
  show ?case
  proof (cases "after < at n")
    case True
    then have "next_loop step after (at n) = Some (Inr (at n))" by (simp add: next_loop.simps)
    then show ?thesis using True less.prems(1) by (intro exI [of _ n]) simp
  next
    case False
    obtain m where m: "n < m" "F m" "\<And>k. n < k \<Longrightarrow> k < m \<Longrightarrow> \<not> F k" "step (at n) = at m"
      using step [OF less.prems(1)] by (auto simp: next_day_of_def)
    have u: "at n < at m" using up m(1) .
    have "next_loop step after (at n) = next_loop step after (at m)"
      using False u less.prems(2) m(4) by (simp add: next_loop.simps [of step after "at n"])
    moreover obtain p where p: "m \<le> p" "next_loop step after (at m) = Some (Inr (at p))" "F p" "after < at p"
        "\<forall>k. m \<le> k \<and> k < p \<and> F k \<longrightarrow> at k \<le> after"
      using less.hyps [of m] m(2) u False less.prems(2) by auto
    moreover have "at k \<le> after" if "n \<le> k" "k < p" "F k" for k
      using that m(3) [of k] p(5) False by (cases "k = n"; cases "k < m") auto
    ultimately show ?thesis using m(1) by (intro exI [of _ p]) auto
  qed
qed

lemma first_of_series:
  fixes anchor due after :: time and loc :: location and load :: "string \<Rightarrow> location option" and r :: recurrence
    and weekdays :: "int list" and f :: int and zone :: string
  defines "a \<equiv> if is_zero_time anchor then due else anchor"
  defines "c \<equiv> hour_minute loc a"
  defines "F \<equiv> falls_on r weekdays (wall_day loc a) f"
  assumes "r \<noteq> Once" "load (if zone = [] then ''UTC'' else zone) = Some loc" "keeps_clock loc c"
    and "F f" "due = instant_of loc (f * day_ns + c)" "0 < due"
  shows "\<exists>m\<ge>f. next_recurrence load r weekdays zone anchor due after = Some (Inr (instant_of loc (m * day_ns + c)))
    \<and> F m \<and> after < instant_of loc (m * day_ns + c) \<and> (\<forall>k. f \<le> k \<and> k < m \<and> F k \<longrightarrow> instant_of loc (k * day_ns + c) \<le> after)"
proof -
  have "\<exists>m\<ge>f. next_loop (\<lambda>t. advance_reminder r weekdays a t loc) after (instant_of loc (f * day_ns + c)) = Some (Inr (instant_of loc (m * day_ns + c)))
      \<and> F m \<and> after < instant_of loc (m * day_ns + c) \<and> (\<forall>k. f \<le> k \<and> k < m \<and> F k \<longrightarrow> instant_of loc (k * day_ns + c) \<le> after)"
  proof (rule next_loop_first)
    show "instant_of loc (m * day_ns + c) < instant_of loc (n * day_ns + c)" if "m < n" for m n using instants_increase assms(6) that .
    show "\<exists>m. next_day_of F n m \<and> advance_reminder r weekdays a (instant_of loc (n * day_ns + c)) loc = instant_of loc (m * day_ns + c)" if "F n" for n
      using step_in_series [of loc a r weekdays f n] assms(6,7) that unfolding F_def c_def by blast
  qed (use assms(7-9) in auto)
  then show ?thesis using assms(4,5,8) unfolding next_recurrence_def by (simp add: a_def [symmetric])
qed


subsection \<open>What is accepted is in its own series\<close>

text \<open>
  A new or edited reminder of a to-do or a channel (no named days) that \<open>reminder_series_anchor\<close> accepts
  is first due on a day of its series, so the theorem above applies to it.
\<close>

lemma accepted_reminder_in_series:
  assumes acc: "reminder_series_anchor r [] anchor due loc = Some a" and r: "r \<in> {Daily, Weekly, Monthly, Yearly}"
    and c: "keeps_clock loc (hour_minute loc a)" and a: "a = instant_of loc (wall_day loc a * day_ns + hour_minute loc a)"
  shows "\<exists>f\<ge>wall_day loc a. falls_on r [] (wall_day loc a) f f \<and> due = instant_of loc (f * day_ns + hour_minute loc a)"
proof -
  let ?d = "wall_day loc a"
  have clamp: "day_of_month n = min (day_of_month n) (month_len (month_of n))" for n
    using month_of_in [of n] by (simp add: day_of_month_def civil_month_of month_len_def)
  have self: "falls_on r [] ?d ?d ?d" using r clamp by (auto simp: falls_on_def)
  show ?thesis
  proof (cases "a = due")
    case True
    then show ?thesis using a self by (intro exI [of _ ?d]) auto
  next
    case False
    then have "a = anchor" "advance_reminder r [] a a loc = due" using acc by (auto simp: reminder_series_anchor_def split: if_splits)
    moreover obtain m where m: "next_day_of (falls_on r [] ?d ?d) ?d m" "advance_reminder r [] a a loc = instant_of loc (m * day_ns + hour_minute loc a)"
      using step_in_series [OF c self self] a by auto
    moreover have "falls_on r [] ?d m m" using m(1) r by (auto simp: next_day_of_def falls_on_def)
    ultimately show ?thesis using m by (intro exI [of _ m]) (auto simp: next_day_of_def)
  qed
qed

subsection \<open>Where a change of the offset skips the time of day\<close>

text \<open>Two real changes of 2024: New York at 02:00 on Sunday 10 March, Santiago at 00:00 on Sunday 8 September.\<close>

definition hours :: "int \<Rightarrow> duration" where
  "hours h = h * 3600 * 1000000000"

definition new_york_2024 :: location where
  "new_york_2024 t = (if t < date_days 2024 3 10 * day_ns + hours 7 then hours (- 5) else hours (- 4))"

definition santiago_2024 :: location where
  "santiago_2024 t = (if t < date_days 2024 9 8 * day_ns + hours 4 then hours (- 4) else hours (- 3))"

definition clock_time :: "location \<Rightarrow> int \<Rightarrow> int \<Rightarrow> int \<Rightarrow> duration \<Rightarrow> time" where
  "clock_time loc y m d c = instant_of loc (date_days y m d * day_ns + c)"

lemma new_york_days: "date_days 2024 3 10 = 738954" "date_days 2024 9 8 = 739136"
  by (simp_all add: date_days_def days_before_year_def days_before_month_def leap_def)

lemma new_york_keeps_nine: "keeps_clock new_york_2024 (hours 9)"
  unfolding keeps_clock_def
proof (intro conjI allI)
  fix n
  show "wall new_york_2024 (instant_of new_york_2024 (n * day_ns + hours 9)) = n * day_ns + hours 9"
    by (cases "n \<le> 738953") (auto simp: wall_def instant_of_def new_york_2024_def new_york_days day_ns_def hours_def Let_def)
next
  fix t u show "\<bar>new_york_2024 t - new_york_2024 u\<bar> < day_ns" by (simp add: new_york_2024_def day_ns_def hours_def)
qed

text \<open>The 31st of January at nine in New York, delivered until the end of February: next due on 31 March at nine, summer time.\<close>

lemma end_of_january:
  "hour_minute new_york_2024 63842306400000000000 = hours 9 \<and> wall_day new_york_2024 63842306400000000000 = 738915
   \<and> 63842306400000000000 = instant_of new_york_2024 (738915 * day_ns + hours 9) \<and> falls_on Monthly [] 738915 738915 738915"
  by code_simp


text \<open>
  A daily reminder for half past two, delivered on 9 March 2024 in New York, is next due at half past one,
  and on every later day too: the step starts from the instant before, not from the anchor's hour.
\<close>

lemma daily_reminder_slips:
  "next_recurrence (\<lambda>z. Some new_york_2024) Daily [] ''America/New_York'' (clock_time new_york_2024 2024 3 9 (hours 5 div 2))
     (clock_time new_york_2024 2024 3 9 (hours 5 div 2)) (clock_time new_york_2024 2024 3 9 (hours 5 div 2))
   = Some (Inr (clock_time new_york_2024 2024 3 10 (hours 3 div 2)))
   \<and> next_recurrence (\<lambda>z. Some new_york_2024) Daily [] ''America/New_York'' (clock_time new_york_2024 2024 3 9 (hours 5 div 2))
     (clock_time new_york_2024 2024 3 10 (hours 3 div 2)) (clock_time new_york_2024 2024 3 10 (hours 3 div 2))
   = Some (Inr (clock_time new_york_2024 2024 3 11 (hours 3 div 2)))"
proof -
  let ?a = 63845566200000000000 and ?b = 63845649000000000000 and ?c = 63845731800000000000
  have t: "clock_time new_york_2024 2024 3 9 (hours 5 div 2) = ?a" "clock_time new_york_2024 2024 3 10 (hours 3 div 2) = ?b"
    "clock_time new_york_2024 2024 3 11 (hours 3 div 2) = ?c"
    by code_simp+
  have "advance_reminder Daily [] ?a ?a new_york_2024 = ?b" "advance_reminder Daily [] ?a ?b new_york_2024 = ?c" by code_simp+
  then show ?thesis unfolding t by (simp add: next_recurrence_def next_loop.simps)
qed

text \<open>
  A reminder for Saturdays and Sundays at half past midnight in Santiago: from Saturday 7 September 2024
  the step comes back to the same instant, and the loop does not end.
\<close>

lemma next_loop_stuck:
  assumes "step t = t" "t \<le> after" "t \<noteq> 0"
  shows "next_loop step after t = None"
proof (rule ccontr)
  assume "next_loop step after t \<noteq> None"
  then obtain r where r: "next_loop step after t = Some r" by blast
  have "t \<noteq> t \<or> step t \<noteq> t \<or> after < t"
  proof (rule next_loop.raw_induct [where P = "\<lambda>s a u r. u \<noteq> t \<or> s t \<noteq> t \<or> a < t", OF _ r])
    fix f s a u r
    assume IH: "\<And>s a u r. f s a u = Some r \<Longrightarrow> u \<noteq> t \<or> s t \<noteq> t \<or> a < t"
      and eq: "(if u > a then Some (Inr u) else if is_zero_time (s u) then Some (Inl Recurrence_Invalid) else f s a (s u)) = Some r"
    show "u \<noteq> t \<or> s t \<noteq> t \<or> a < t"
    proof (rule ccontr)
      assume no: "\<not> ?thesis"
      then show False using eq IH [of s a t r] assms(3) by auto
    qed
  qed
  then show False using assms by simp
qed

lemma weekend_reminder_never_advances:
  fixes due :: time
  defines "due \<equiv> clock_time santiago_2024 2024 9 7 (hours 1 div 2)"
  assumes "due \<le> after"
  shows "next_recurrence (\<lambda>z. Some santiago_2024) Weekly [0, 6] ''America/Santiago'' due due after = None"
proof -
  have d: "due = 63861280200000000000"
    unfolding due_def by code_simp
  have "advance_reminder Weekly [0, 6] 63861280200000000000 63861280200000000000 santiago_2024 = 63861280200000000000" by code_simp
  then show ?thesis using next_loop_stuck assms(2) unfolding d by (simp add: next_recurrence_def)
qed

text \<open>One for Sundays only fails where the Sunday is skipped, a week before it: the reminder due then is not delivered.\<close>

lemma sunday_reminder_refused:
  "next_recurrence (\<lambda>z. Some santiago_2024) Weekly [0] ''America/Santiago'' (clock_time santiago_2024 2024 9 1 (hours 1 div 2))
     (clock_time santiago_2024 2024 9 1 (hours 1 div 2)) (clock_time santiago_2024 2024 9 1 (hours 1 div 2)) = Some (Inl Recurrence_Invalid)"
proof -
  have t: "clock_time santiago_2024 2024 9 1 (hours 1 div 2) = 63860761800000000000"
    "advance_reminder Weekly [0] 63860761800000000000 63860761800000000000 santiago_2024 = 0"
    by code_simp+
  then show ?thesis unfolding t(1) by (simp add: next_recurrence_def next_loop.simps)
qed

text \<open>\<open>AddCalendarMonths\<close> moves by whole months, backwards too, to the same clock on the same or the month's last day.\<close>

lemma month_arithmetic:
  fixes y total :: int
  assumes "y' = (if total smod 12 < 0 then y + total sdiv 12 - 1 else y + total sdiv 12)"
  shows "12 * y' + (total smod 12 + 12) smod 12 = 12 * y + total"
proof -
  have t: "total = 12 * (total sdiv 12) + total smod 12" by (simp only: mult_sdiv_smod_eq)
  have b: "- 12 < total smod 12" "total smod 12 < 12"
    using smod_int_range [of 12 total] by auto
  then have "(total smod 12 + 12) smod 12 = (total smod 12 + 12) mod 12" by (simp add: smod_int_alt_def)
  also have "\<dots> = (if total smod 12 < 0 then total smod 12 + 12 else total smod 12)"
    using b mod_pos_pos_trivial [of "total smod 12 + 12" 12] mod_pos_pos_trivial [of "total smod 12" 12] by auto
  finally show ?thesis using t assms by auto
qed

lemma add_calendar_months_eq:
  "add_calendar_months loc t k
   = instant_of loc (month_day (day_of_month (wall_day loc t)) (month_of (wall_day loc t) + k) * day_ns + wall_clock loc t)"
proof -
  obtain y m d where c: "civil (wall_day loc t) = (y, m, d)" by (cases "civil (wall_day loc t)")
  define total where "total = m - 1 + k"
  define y' where "y' = (if total smod 12 < 0 then y + total sdiv 12 - 1 else y + total sdiv 12)"
  have "12 * y' + (total smod 12 + 12) smod 12 = month_of (wall_day loc t) + k"
    using month_arithmetic [OF y'_def] by (simp add: month_of_def c total_def)
  then show ?thesis
    using date_at_clamped [of loc y' "(total smod 12 + 12) smod 12 + 1" d "wall_clock loc t"]
    unfolding add_calendar_months_def c prod.case Let_def total_def [symmetric] y'_def [symmetric] day_of_month_def by simp
qed

end
