(* ===== verification/Stored_Time.thy ===== *)
theory Stored_Time
  imports Calendar
begin

section \<open>Instants in text columns\<close>

text \<open>
  \<^verbatim>\<open>internal/domain/timestamps.go\<close>: the one encoding the repositories write. Comparing two encodings
  byte by byte, as the SQL stores do in every ordering, page boundary and lease guard, must be
  comparing the instants. Reading one back is \<^verbatim>\<open>time.Parse\<close> and not modelled.
\<close>

definition pad :: "nat \<Rightarrow> int \<Rightarrow> string" where
  "pad k n = replicate (k - length (decimal (nat n))) (CHR ''0'') @ decimal (nat n)"

definition stored_time_ceiling :: time where
  "stored_time_ceiling = date_days 9999 12 31 * day_ns + (day_ns - 1)"

definition format_stored :: "time \<Rightarrow> string" where
  "format_stored t =
     (let (y, m, d) = civil (t div day_ns); clock = t mod day_ns; seconds = clock div 1000000000
      in pad 4 y @ CHR ''-'' # pad 2 m @ CHR ''-'' # pad 2 d @ CHR ''T'' # pad 2 (seconds div 3600) @ CHR '':'' #
         pad 2 (seconds div 60 mod 60) @ CHR '':'' # pad 2 (seconds mod 60) @ CHR ''.'' # pad 9 (clock mod 1000000000) @ ''Z'')"

definition new_stored_time :: "time \<Rightarrow> string" where
  "new_stored_time t =
     (if is_zero_time t then []
      else format_stored (if t < 0 then 0 else if t > stored_time_ceiling then stored_time_ceiling else t))"

definition stored_time_ordered :: "string \<Rightarrow> bool" where
  "stored_time_ordered v \<longleftrightarrow> v = [] \<or> (length v = 30 \<and> v ! 29 = CHR ''Z'')"

subsection \<open>Numbers of a fixed width\<close>

definition digit :: "int \<Rightarrow> char" where
  "digit n = char_of (48 + nat n)"

lemma digit_less: "0 \<le> m \<Longrightarrow> m < 10 \<Longrightarrow> 0 \<le> n \<Longrightarrow> n < 10 \<Longrightarrow> digit m < digit n \<longleftrightarrow> m < n"
  by (auto simp: digit_def less_char_def of_char_of)

lemma digit_eq: "0 \<le> m \<Longrightarrow> m < 10 \<Longrightarrow> 0 \<le> n \<Longrightarrow> n < 10 \<Longrightarrow> digit m = digit n \<longleftrightarrow> m = n"
  using digit_less by (metis order_less_irrefl linorder_neqE)

lemma decimal_digit: "0 \<le> n \<Longrightarrow> n < 10 \<Longrightarrow> decimal (nat n) = [digit n]"
  using decimal.simps [of "nat n"] by (simp add: digit_def nat_less_iff)

lemma pad_one: "0 \<le> n \<Longrightarrow> n < 10 \<Longrightarrow> pad (Suc 0) n = [digit n]"
  by (simp add: pad_def decimal_digit)

lemma pad_snoc: "0 \<le> n \<Longrightarrow> pad (Suc (Suc k)) n = pad (Suc k) (n div 10) @ [digit (n mod 10)]"
proof (cases "n < 10")
  case True
  assume "0 \<le> n"
  moreover have zero: "char_of (48::nat) = CHR ''0''" by code_simp
  ultimately show ?thesis using True decimal_digit [of 0] by (simp add: pad_def decimal_digit) (simp add: digit_def zero replicate_append_same)
next
  case False
  assume n: "0 \<le> n"
  then have "decimal (nat n) = decimal (nat (n div 10)) @ [digit (n mod 10)]"
    using False decimal.simps [of "nat n"] by (simp add: digit_def nat_div_distrib nat_mod_distrib nat_less_iff)
  then show ?thesis by (simp add: pad_def)
qed

lemma pad_length: "0 \<le> n \<Longrightarrow> n < 10 ^ Suc k \<Longrightarrow> length (pad (Suc k) n) = Suc k"
proof (induction k arbitrary: n)
  case (Suc k)
  then show ?case using Suc.IH [of "n div 10"] by (simp add: pad_snoc)
qed (simp add: pad_one)

lemma pad_lengths:
  "0 \<le> n \<Longrightarrow> n < 10000 \<Longrightarrow> length (pad 4 n) = 4" "0 \<le> n \<Longrightarrow> n < 100 \<Longrightarrow> length (pad 2 n) = 2"
  "0 \<le> n \<Longrightarrow> n < 1000000000 \<Longrightarrow> length (pad 9 n) = 9"
  using pad_length [of n 3] pad_length [of n 1] pad_length [of n 8] by (simp_all add: numeral_2_eq_2)

lemma list_less_same_length:
  "length a = length b \<Longrightarrow> a @ x < b @ (y :: 'a::linorder list) \<longleftrightarrow> a < b \<or> (a = b \<and> x < y)"
  by (induction a b rule: list_induct2) auto

lemma pad_less_eq:
  "0 \<le> m \<Longrightarrow> m < 10 ^ Suc k \<Longrightarrow> 0 \<le> n \<Longrightarrow> n < 10 ^ Suc k \<Longrightarrow>
   (pad (Suc k) m < pad (Suc k) n \<longleftrightarrow> m < n) \<and> (pad (Suc k) m = pad (Suc k) n \<longleftrightarrow> m = n)"
proof (induction k arbitrary: m n)
  case 0
  then show ?case by (simp add: pad_one digit_less digit_eq)
next
  case (Suc k)
  have IH: "pad (Suc k) (m div 10) < pad (Suc k) (n div 10) \<longleftrightarrow> m div 10 < n div 10" "pad (Suc k) (m div 10) = pad (Suc k) (n div 10) \<longleftrightarrow> m div 10 = n div 10"
    using Suc.IH [of "m div 10" "n div 10"] Suc.prems by simp_all
  have l: "length (pad (Suc k) (m div 10)) = length (pad (Suc k) (n div 10))"
    using Suc.prems pad_length [of "m div 10" k] pad_length [of "n div 10" k] by simp
  have d: "0 \<le> m mod 10" "m mod 10 < 10" "0 \<le> n mod 10" "n mod 10 < 10" by simp_all
  have "m < n \<longleftrightarrow> m div 10 < n div 10 \<or> (m div 10 = n div 10 \<and> m mod 10 < n mod 10)"
    using d mult_div_mod_eq [of 10 m] mult_div_mod_eq [of 10 n] by linarith
  moreover have "m = n \<longleftrightarrow> m div 10 = n div 10 \<and> m mod 10 = n mod 10"
    by (metis mult_div_mod_eq)
  ultimately show ?case
    unfolding pad_snoc [OF Suc.prems(1)] pad_snoc [OF Suc.prems(3)] list_less_same_length [OF l]
    using IH l d by (simp add: digit_less digit_eq append_eq_append_conv)
qed

text \<open>A field before the rest of the encoding: the field decides unless it is the same.\<close>

lemma pad_field:
  assumes "0 \<le> m" "m < 10 ^ Suc k" "0 \<le> n" "n < 10 ^ Suc k"
  shows "pad (Suc k) m @ c # x < pad (Suc k) n @ c # y \<longleftrightarrow> m < n \<or> (m = n \<and> x < y)"
    "pad (Suc k) m @ c # x = pad (Suc k) n @ c # y \<longleftrightarrow> m = n \<and> x = y"
  using pad_less_eq [OF assms] pad_length [OF assms(1,2)] pad_length [OF assms(3,4)]
  by (simp_all add: list_less_same_length append_eq_append_conv)

lemma pad_field4:
  "0 \<le> m \<Longrightarrow> m < 10000 \<Longrightarrow> 0 \<le> n \<Longrightarrow> n < 10000 \<Longrightarrow> pad 4 m @ c # x < pad 4 n @ c # y \<longleftrightarrow> m < n \<or> (m = n \<and> x < y)"
  using pad_field(1) [of m 3 n c x y] by simp

lemma pad_field2:
  "0 \<le> m \<Longrightarrow> m < 100 \<Longrightarrow> 0 \<le> n \<Longrightarrow> n < 100 \<Longrightarrow> pad 2 m @ c # x < pad 2 n @ c # y \<longleftrightarrow> m < n \<or> (m = n \<and> x < y)"
  using pad_field(1) [of m 1 n c x y] by (simp add: numeral_2_eq_2)

lemma pad_field9:
  "0 \<le> m \<Longrightarrow> m < 1000000000 \<Longrightarrow> 0 \<le> n \<Longrightarrow> n < 1000000000 \<Longrightarrow> pad 9 m @ c # x < pad 9 n @ c # y \<longleftrightarrow> m < n \<or> (m = n \<and> x < y)"
  using pad_field(1) [of m 8 n c x y] by simp

subsection \<open>Dates and clocks, field by field\<close>

lemma less_by_div: "0 < k \<Longrightarrow> m < n \<longleftrightarrow> m div k < n div k \<or> (m div k = n div k \<and> m mod k < n mod k)" for k m n :: int
proof -
  assume k: "0 < k"
  have "m div k < n div k \<Longrightarrow> m < n" using k zdiv_mono1 [of n m k] by linarith
  moreover have "m < n \<Longrightarrow> m div k \<le> n div k" using k by (simp add: zdiv_mono1)
  moreover have "m div k = n div k \<Longrightarrow> m < n \<longleftrightarrow> m mod k < n mod k"
    using mult_div_mod_eq [of k m] mult_div_mod_eq [of k n] by (metis add_less_cancel_left)
  ultimately show ?thesis by linarith
qed

lemma equal_by_div: "m = n \<longleftrightarrow> m div k = n div k \<and> m mod k = n mod k" for k m n :: int
  by (metis mult_div_mod_eq)

lemma day_less:
  assumes "civil n = (y, m, d)" "civil n' = (y', m', d')"
  shows "n < n' \<longleftrightarrow> y < y' \<or> (y = y' \<and> (m < m' \<or> (m = m' \<and> d < d')))" "n = n' \<longleftrightarrow> y = y' \<and> m = m' \<and> d = d'"
proof -
  have e: "y = month_of n div 12" "m = month_of n mod 12 + 1" "d = n - month_first (month_of n) + 1"
    "y' = month_of n' div 12" "m' = month_of n' mod 12 + 1" "d' = n' - month_first (month_of n') + 1"
    using assms civil_month_of [of n] civil_month_of [of n'] by simp_all
  have mo: "month_of n < month_of n' \<longleftrightarrow> y < y' \<or> (y = y' \<and> m < m')" using less_by_div [of 12 "month_of n" "month_of n'"] unfolding e by auto
  have eq: "month_of n = month_of n' \<longleftrightarrow> y = y' \<and> m = m'" using equal_by_div [of "month_of n" "month_of n'" 12] e by simp
  have up: "i < n'" if "i < month_first (month_of n + 1)" "month_of n < month_of n'" for i
    using month_first_mono [OF that(2)] month_of_in(1) [of n'] that(1) by linarith
  have down: "n' < i" if "month_first (month_of n) \<le> i" "month_of n' < month_of n" for i
    using month_first_mono [OF that(2)] month_of_in(2) [of n'] that(1) by linarith
  have "n < n' \<longleftrightarrow> month_of n < month_of n' \<or> (month_of n = month_of n' \<and> d < d')"
    using up [of n] down [of n] month_of_in [of n] e by (cases "month_of n" "month_of n'" rule: linorder_cases) auto
  then show "n < n' \<longleftrightarrow> y < y' \<or> (y = y' \<and> (m < m' \<or> (m = m' \<and> d < d')))" using mo eq by blast
  show "n = n' \<longleftrightarrow> y = y' \<and> m = m' \<and> d = d'" using assms e eq by auto
qed

lemma clock_fields:
  "s div 60 mod 60 = s mod 3600 div 60" "s mod 60 = s mod 3600 mod 60" for s :: int
  using zmod_zmult2_eq [of 60 s 60] mod_mod_cancel [of 60 3600 s] by (simp_all add: mod_mult2_eq)

lemma date_bounds:
  assumes "0 \<le> n" "n \<le> date_days 9999 12 31" "civil n = (y, m, d)"
  shows "0 \<le> y" "y < 10000" "0 \<le> m" "m < 100" "0 \<le> d" "d < 100"
proof -
  have y: "y = civil_year n" using assms(3) by (simp add: civil_def Let_def)
  have "days_before_year 1 = 0" "days_before_year 10000 = date_days 9999 12 31 + 1" by code_simp+
  then show "0 \<le> y" "y < 10000"
    using civil_year_in [of n] days_before_year_mono [of "y + 1" 1] days_before_year_mono [of 10000 y] assms(1,2) y
    by (cases "y + 1 = 1"; cases "y = 10000"; force)+
  show "0 \<le> m" "m < 100" "0 \<le> d" "d < 100"
    using conjunct1 [OF civil_dates_round_trip [of n]] assms(3) month_len_bounds(2) [of "12 * y + (m - 1)"] by auto
qed

subsection \<open>The order of the encodings\<close>

lemma format_order:
  assumes "0 \<le> t" "t \<le> stored_time_ceiling" "0 \<le> u" "u \<le> stored_time_ceiling"
  shows "format_stored t < format_stored u \<longleftrightarrow> t < u"
proof -
  obtain y m d where c: "civil (t div day_ns) = (y, m, d)" by (metis prod_cases3)
  obtain y' m' d' where c': "civil (u div day_ns) = (y', m', d')" by (metis prod_cases3)
  define a b where "a = t mod day_ns" and "b = u mod day_ns"
  define s s' where "s = a div 1000000000" and "s' = b div 1000000000"
  have day: "0 \<le> t div day_ns" "t div day_ns \<le> date_days 9999 12 31" "0 \<le> u div day_ns" "u div day_ns \<le> date_days 9999 12 31"
    using assms by (simp_all add: stored_time_ceiling_def day_ns_def pos_imp_zdiv_nonneg_iff)
  note D = date_bounds [OF day(1,2) c] date_bounds [OF day(3,4) c']
  have ab: "0 \<le> a" "a < day_ns" "0 \<le> b" "b < day_ns" by (simp_all add: a_def b_def day_ns_def)
  then have ss: "0 \<le> s" "s < 86400" "0 \<le> s'" "s' < 86400"
    by (simp_all add: s_def s'_def day_ns_def pos_imp_zdiv_nonneg_iff)
  have F: "0 \<le> s div 3600" "s div 3600 < 100" "0 \<le> s div 60 mod 60" "s div 60 mod 60 < 100" "0 \<le> s mod 60" "s mod 60 < 100"
    "0 \<le> s' div 3600" "s' div 3600 < 100" "0 \<le> s' div 60 mod 60" "s' div 60 mod 60 < 100" "0 \<le> s' mod 60" "s' mod 60 < 100"
    "0 \<le> a mod 1000000000" "a mod 1000000000 < 1000000000" "0 \<le> b mod 1000000000" "b mod 1000000000 < 1000000000"
    using ss pos_mod_bound [of 60 "s div 60"] pos_mod_bound [of 60 "s' div 60"] pos_mod_bound [of 60 s] pos_mod_bound [of 60 s']
    by (simp_all add: pos_imp_zdiv_nonneg_iff)
  have sec: "s < s' \<longleftrightarrow> s div 3600 < s' div 3600 \<or> (s div 3600 = s' div 3600 \<and> (s div 60 mod 60 < s' div 60 mod 60
      \<or> (s div 60 mod 60 = s' div 60 mod 60 \<and> s mod 60 < s' mod 60)))"
    "s = s' \<longleftrightarrow> s div 3600 = s' div 3600 \<and> s div 60 mod 60 = s' div 60 mod 60 \<and> s mod 60 = s' mod 60"
    unfolding clock_fields [of s] clock_fields [of s'] using less_by_div [of 3600 s s'] less_by_div [of 60 "s mod 3600" "s' mod 3600"]
      equal_by_div [of s s' 3600] equal_by_div [of "s mod 3600" "s' mod 3600" 60] by simp_all
  have t: "t < u \<longleftrightarrow> t div day_ns < u div day_ns \<or> (t div day_ns = u div day_ns \<and> a < b)"
    using less_by_div [of day_ns t u] by (simp add: a_def b_def day_ns_def)
  have ab: "a < b \<longleftrightarrow> s < s' \<or> (s = s' \<and> a mod 1000000000 < b mod 1000000000)"
    using less_by_div [of 1000000000 a b] by (simp add: s_def s'_def)
  show ?thesis
    unfolding format_stored_def Let_def c c' prod.case a_def [symmetric] b_def [symmetric] s_def [symmetric] s'_def [symmetric]
    unfolding pad_field4 [OF D(1,2,7,8)] pad_field2 [OF D(3,4,9,10)] pad_field2 [OF D(5,6,11,12)] pad_field2 [OF F(1,2,7,8)]
      pad_field2 [OF F(3,4,9,10)] pad_field2 [OF F(5,6,11,12)] pad_field9 [OF F(13-16)] t ab sec day_less [OF c c']
    by auto
qed

lemma nil_less_stored: "[] < format_stored t"
proof -
  have "format_stored t \<noteq> []" by (simp add: format_stored_def Let_def case_prod_beta)
  then show ?thesis by (cases "format_stored t") simp_all
qed

lemma format_width:
  assumes "0 \<le> t" "t \<le> stored_time_ceiling"
  shows "stored_time_ordered (format_stored t)"
proof -
  obtain y m d where c: "civil (t div day_ns) = (y, m, d)" by (metis prod_cases3)
  define a s where "a = t mod day_ns" and "s = t mod day_ns div 1000000000"
  have day: "0 \<le> t div day_ns" "t div day_ns \<le> date_days 9999 12 31"
    using assms by (simp_all add: stored_time_ceiling_def day_ns_def pos_imp_zdiv_nonneg_iff)
  note D = date_bounds [OF day c]
  have "0 \<le> s" "s < 86400" by (simp_all add: s_def day_ns_def pos_imp_zdiv_nonneg_iff)
  then have F: "0 \<le> s div 3600" "s div 3600 < 100" "0 \<le> s div 60 mod 60" "s div 60 mod 60 < 100" "0 \<le> s mod 60" "s mod 60 < 100"
    "0 \<le> a mod 1000000000" "a mod 1000000000 < 1000000000"
    using pos_mod_bound [of 60 "s div 60"] pos_mod_bound [of 60 s] by (simp_all add: pos_imp_zdiv_nonneg_iff)
  note l = pad_lengths(1) [OF D(1,2)] pad_lengths(2) [OF D(3,4)] pad_lengths(2) [OF D(5,6)] pad_lengths(2) [OF F(1,2)]
    pad_lengths(2) [OF F(3,4)] pad_lengths(2) [OF F(5,6)] pad_lengths(3) [OF F(7,8)]
  define p where "p = pad 4 y @ CHR ''-'' # pad 2 m @ CHR ''-'' # pad 2 d @ CHR ''T'' # pad 2 (s div 3600) @ CHR '':'' #
         pad 2 (s div 60 mod 60) @ CHR '':'' # pad 2 (s mod 60) @ CHR ''.'' # pad 9 (a mod 1000000000)"
  have "length p = 29" by (simp add: p_def l)
  moreover have "format_stored t = p @ ''Z''" by (simp add: format_stored_def c p_def a_def s_def Let_def)
  ultimately show ?thesis by (simp add: stored_time_ordered_def nth_append)
qed

text \<open>
  C37. The text a repository stores for an instant has the fixed width and ends in Z, or is the empty
  mark of the zero time; and for any two instants from year 1 to year 9999 the texts compare, byte by
  byte, as the instants do.
\<close>

theorem stored_times_order_as_instants:
  assumes "0 \<le> t" "t \<le> stored_time_ceiling" "0 \<le> u" "u \<le> stored_time_ceiling"
  shows "(new_stored_time t < new_stored_time u \<longleftrightarrow> t < u) \<and> (new_stored_time t = new_stored_time u \<longleftrightarrow> t = u)
    \<and> stored_time_ordered (new_stored_time t)"
proof -
  have o: "stored_time_ordered (new_stored_time v)" if "0 \<le> v" "v \<le> stored_time_ceiling" for v
    using format_width [OF that] that by (simp add: new_stored_time_def stored_time_ordered_def)
  have ne: "[] < format_stored v" "format_stored v \<noteq> []" for v using nil_less_stored [of v] by auto
  have less: "new_stored_time v < new_stored_time w \<longleftrightarrow> v < w" if "0 \<le> v" "v \<le> stored_time_ceiling" "0 \<le> w" "w \<le> stored_time_ceiling" for v w
    using format_order [OF that] that ne by (cases "v = 0"; cases "w = 0") (auto simp: new_stored_time_def)
  show ?thesis using less [OF assms] less [OF assms(3,4,1,2)] o [OF assms(1,2)] by (metis order_less_irrefl linorder_neqE)
qed

lemma stored_times_order_as_instants_witness:
  "new_stored_time 63845566200120000000 < new_stored_time 63845566200123456000"
  using stored_times_order_as_instants [of 63845566200120000000 63845566200123456000]
  by (simp add: stored_time_ceiling_def date_days_def days_before_year_def days_before_month_def leap_def day_ns_def)

text \<open>Before year 1 the order is lost: such an instant is stored as the first instant of year 1, the zero time as the empty text.\<close>

lemma before_year_one_unordered: "new_stored_time 0 < new_stored_time (- 1)"
  by (simp add: new_stored_time_def nil_less_stored)

end
