(* ===== verification/Reminders.thy ===== *)
theory Reminders
  imports Scheduled Recurrence Stored_Time
begin

section \<open>To-dos and channel reminders in memory\<close>

text \<open>
  \<^verbatim>\<open>internal/store/memory/todos.go\<close> with the types of \<^verbatim>\<open>internal/domain/models.go\<close>: a member's to-dos
  with their reminders, the reminders a member sets for a channel, and the leased queue each kind has.
  Rows are association lists, keyed by identifier. The activity items here are those of to-dos. An
  operation that reads the clock takes its reading.
\<close>

record reminder_timing =
  due_at :: time
  time_zone :: string
  recurs :: recurrence
  anchored_at :: time

record reminder_delivery =
  last_delivered :: time
  acknowledged :: time
  failed_at :: time
  failure_reason :: string

record todo =
  td_id :: string
  td_workspace :: string
  td_user :: string
  td_title :: string
  td_details :: string
  td_message :: string
  td_conversation :: string
  td_timestamp :: string
  td_timing :: reminder_timing
  td_delivery :: reminder_delivery
  td_created :: time
  td_updated :: time
  td_completed :: time

record channel_reminder =
  cr_id :: string
  cr_workspace :: string
  cr_creator :: string
  cr_channel :: string
  cr_text :: string
  cr_timing :: reminder_timing
  cr_delivery :: reminder_delivery
  cr_created :: time
  cr_updated :: time

record reminder_queue =
  q_leases :: "string \<rightharpoonup> lease"
  q_next :: "string \<rightharpoonup> time"

record todo_activity =
  ta_workspace :: string
  ta_user :: string
  ta_todo :: string
  ta_conversation :: string
  ta_message :: string
  ta_occurred :: time
  ta_read :: time

record reminder_store =
  rs_chat :: chat
  rs_todos :: "(string \<times> todo) list"
  rs_todo_queue :: reminder_queue
  rs_channels :: "(string \<times> channel_reminder) list"
  rs_channel_queue :: reminder_queue
  rs_activity :: "string \<rightharpoonup> todo_activity"
  rs_activity_reminders :: "string \<rightharpoonup> bool"

subsection \<open>Timing and delivery\<close>

definition is_scheduled :: "reminder_timing \<Rightarrow> bool" where
  "is_scheduled timing \<longleftrightarrow> \<not> is_zero_time (due_at timing)"

definition recurrence_valid :: "recurrence \<Rightarrow> bool" where
  "recurrence_valid r = (case r of Unknown_Recurrence _ \<Rightarrow> False | _ \<Rightarrow> True)"

definition timing_valid :: "reminder_timing \<Rightarrow> bool" where
  "timing_valid timing =
     (if \<not> is_scheduled timing then recurs timing = Once \<and> is_zero_time (anchored_at timing)
      else recurrence_valid (recurs timing) \<and> time_zone timing \<noteq> [])"

definition pending :: "reminder_delivery \<Rightarrow> reminder_timing \<Rightarrow> bool" where
  "pending d timing \<longleftrightarrow> is_scheduled timing \<and> is_zero_time (failed_at d) \<and> last_delivered d < due_at timing"

definition no_delivery :: reminder_delivery where
  "no_delivery = \<lparr>last_delivered = 0, acknowledged = 0, failed_at = 0, failure_reason = []\<rparr>"

definition todo_done :: "todo \<Rightarrow> bool" where
  "todo_done v \<longleftrightarrow> \<not> is_zero_time (td_completed v)"

definition todo_valid :: "todo \<Rightarrow> bool" where
  "todo_valid v \<longleftrightarrow> td_id v \<noteq> [] \<and> td_workspace v \<noteq> [] \<and> td_user v \<noteq> [] \<and>
     trim_space (td_title v) \<noteq> [] \<and> length (td_title v) \<le> 3000 \<and> length (td_details v) \<le> 4000 \<and>
     (td_message v \<noteq> []) = (td_conversation v \<noteq> [] \<and> td_timestamp v \<noteq> []) \<and> timing_valid (td_timing v)"

definition channel_reminder_valid :: "channel_reminder \<Rightarrow> bool" where
  "channel_reminder_valid v \<longleftrightarrow> cr_id v \<noteq> [] \<and> cr_workspace v \<noteq> [] \<and> cr_creator v \<noteq> [] \<and> cr_channel v \<noteq> [] \<and>
     trim_space (cr_text v) \<noteq> [] \<and> length (cr_text v) \<le> 3000 \<and> is_scheduled (cr_timing v) \<and> timing_valid (cr_timing v)"

definition whole_seconds :: "time \<Rightarrow> time" where
  "whole_seconds t = (if is_zero_time t then 0 else t - t mod 1000000000)"

definition second_ceil :: "time \<Rightarrow> time" where
  "second_ceil t = unix_epoch + (unix_seconds t + (if nanosecond t > 0 then 1 else 0)) * 1000000000"

definition stored_timing :: "reminder_timing \<Rightarrow> reminder_timing" where
  "stored_timing timing = timing\<lparr>due_at := whole_seconds (due_at timing), anchored_at := whole_seconds (anchored_at timing)\<rparr>"

definition stored_delivery :: "reminder_delivery \<Rightarrow> reminder_delivery" where
  "stored_delivery d = d\<lparr>last_delivered := whole_seconds (last_delivered d), acknowledged := whole_seconds (acknowledged d),
     failed_at := whole_seconds (failed_at d)\<rparr>"

definition stored_todo :: "todo \<Rightarrow> todo" where
  "stored_todo v = v\<lparr>td_timing := stored_timing (td_timing v), td_delivery := stored_delivery (td_delivery v),
     td_created := whole_seconds (td_created v), td_updated := whole_seconds (td_updated v), td_completed := whole_seconds (td_completed v)\<rparr>"

definition same_reminder_timing :: "reminder_timing \<Rightarrow> reminder_timing \<Rightarrow> bool" where
  "same_reminder_timing l r \<longleftrightarrow>
     unix_seconds (due_at l) = unix_seconds (due_at r) \<and> is_zero_time (due_at l) = is_zero_time (due_at r) \<and>
     time_zone l = time_zone r \<and> recurs l = recurs r \<and>
     unix_seconds (anchored_at l) = unix_seconds (anchored_at r) \<and> is_zero_time (anchored_at l) = is_zero_time (anchored_at r)"

subsection \<open>The queue of one kind\<close>

definition empty_queue :: reminder_queue where
  "empty_queue = \<lparr>q_leases = Map.empty, q_next = Map.empty\<rparr>"

definition next_of :: "reminder_queue \<Rightarrow> string \<Rightarrow> time" where
  "next_of q i = (case q_next q i of None \<Rightarrow> 0 | Some t \<Rightarrow> t)"

definition leased :: "reminder_queue \<Rightarrow> string \<Rightarrow> time \<Rightarrow> bool" where
  "leased q i now = (case q_leases q i of None \<Rightarrow> False | Some l \<Rightarrow> le_expires l > now)"

definition queue_holds :: "reminder_queue \<Rightarrow> string \<Rightarrow> string \<Rightarrow> time \<Rightarrow> bool" where
  "queue_holds q owner i now = (case q_leases q i of None \<Rightarrow> False | Some l \<Rightarrow> owner \<noteq> [] \<and> le_owner l = owner \<and> le_expires l > now)"

definition forget :: "string \<Rightarrow> reminder_queue \<Rightarrow> reminder_queue" where
  "forget i q = q\<lparr>q_leases := (q_leases q)(i := None), q_next := (q_next q)(i := None)\<rparr>"

definition waiting :: "reminder_queue \<Rightarrow> string \<Rightarrow> reminder_timing \<Rightarrow> time \<Rightarrow> bool" where
  "waiting q i timing now \<longleftrightarrow> \<not> due_at timing > now \<and> \<not> next_of q i > now \<and> \<not> leased q i now"

definition queue_deadline :: "reminder_queue \<Rightarrow> string \<Rightarrow> reminder_timing \<Rightarrow> time" where
  "queue_deadline q i timing = (if next_of q i > due_at timing then next_of q i else due_at timing)"

definition queue_renew :: "string \<Rightarrow> string \<Rightarrow> duration \<Rightarrow> time \<Rightarrow> reminder_queue \<Rightarrow> reminder_queue \<times> store_error option" where
  "queue_renew owner i lease now q =
     (if lease \<le> 0 \<or> is_zero_time now \<or> \<not> queue_holds q owner i now then (q, Some LeaseConflict)
      else (q\<lparr>q_leases := (q_leases q)(i := map_option (\<lambda>l. l\<lparr>le_expires := second_ceil (now + lease)\<rparr>) (q_leases q i))\<rparr>, None))"

definition queue_release :: "string \<Rightarrow> string \<Rightarrow> time \<Rightarrow> time \<Rightarrow> reminder_queue \<Rightarrow> reminder_queue \<times> store_error option" where
  "queue_release owner i next_at now q =
     (if is_zero_time next_at \<or> is_zero_time now \<or> \<not> queue_holds q owner i now then (q, Some LeaseConflict)
      else (q\<lparr>q_leases := (q_leases q)(i := None), q_next := (q_next q)(i \<mapsto> second_ceil next_at)\<rparr>, None))"

definition lease_all :: "string \<Rightarrow> time \<Rightarrow> string list \<Rightarrow> reminder_queue \<Rightarrow> reminder_queue" where
  "lease_all owner expires ids q = q\<lparr>q_leases := fold (\<lambda>i ls. ls(i \<mapsto> \<lparr>le_owner = owner, le_expires = expires\<rparr>)) ids (q_leases q)\<rparr>"

definition record_occurrence :: "time \<Rightarrow> time \<Rightarrow> reminder_timing \<Rightarrow> reminder_delivery \<Rightarrow> store_error + reminder_timing \<times> reminder_delivery" where
  "record_occurrence delivered_at next_at timing d =
     (if recurs timing = Once then
        (if \<not> is_zero_time next_at then Inl InvalidArgument
         else if due_at timing > delivered_at then Inl LeaseConflict
         else Inr (timing, d\<lparr>last_delivered := whole_seconds delivered_at\<rparr>))
      else if is_zero_time next_at \<or> \<not> whole_seconds next_at > due_at timing then Inl InvalidArgument
      else Inr (timing\<lparr>due_at := whole_seconds next_at\<rparr>, d\<lparr>last_delivered := whole_seconds delivered_at\<rparr>))"

subsection \<open>To-dos\<close>

definition log_event :: "event \<Rightarrow> reminder_store \<Rightarrow> reminder_store" where
  "log_event ev s = s\<lparr>rs_chat := (rs_chat s)\<lparr>chat_outbox := chat_outbox (rs_chat s) @ [ev]\<rparr>\<rparr>"

definition put_todo :: "string \<Rightarrow> todo \<Rightarrow> reminder_store \<Rightarrow> reminder_store" where
  "put_todo i v s = s\<lparr>rs_todos := AList.update i v (rs_todos s)\<rparr>"

text \<open>A user of a workspace, and the message a to-do was made from.\<close>

definition user_of :: "chat \<Rightarrow> string \<Rightarrow> string \<Rightarrow> bool" where
  "user_of c workspace user = (case users c user of None \<Rightarrow> False | Some a \<Rightarrow> account_workspace a = workspace)"

definition source_message :: "chat \<Rightarrow> todo \<Rightarrow> bool" where
  "source_message c v = (case find (\<lambda>m. msg_id m = td_message v) (messages_of c (td_conversation v)) of
     None \<Rightarrow> False | Some m \<Rightarrow> msg_workspace m = td_workspace v)"

definition insert_todo_locked :: "todo \<Rightarrow> reminder_store \<Rightarrow> reminder_store \<times> store_error option" where
  "insert_todo_locked v s =
     (if td_workspace v \<notin> workspaces (rs_chat s) then (s, Some NotFound)
      else if \<not> user_of (rs_chat s) (td_workspace v) (td_user v) then (s, Some NotFound)
      else if td_message v \<noteq> [] \<and> \<not> source_message (rs_chat s) v then (s, Some NotFound)
      else if map_of (rs_todos s) (td_id v) \<noteq> None then (s, Some AlreadyExists)
      else (put_todo (td_id v) (stored_todo v) s, None))"

definition create_todo :: "todo \<Rightarrow> event \<Rightarrow> reminder_store \<Rightarrow> reminder_store \<times> store_error option" where
  "create_todo v ev s =
     (if \<not> todo_valid v then (s, Some InvalidArgument)
      else case insert_todo_locked v s of (s, Some e) \<Rightarrow> (s, Some e) | (s, None) \<Rightarrow> (log_event ev s, None))"

definition get_todo :: "string \<Rightarrow> string \<Rightarrow> string \<Rightarrow> reminder_store \<Rightarrow> store_error + todo" where
  "get_todo workspace user i s = (case map_of (rs_todos s) i of
     None \<Rightarrow> Inl NotFound | Some v \<Rightarrow> if td_workspace v \<noteq> workspace \<or> td_user v \<noteq> user then Inl NotFound else Inr v)"

definition update_todo :: "todo \<Rightarrow> event \<Rightarrow> time \<Rightarrow> reminder_store \<Rightarrow> reminder_store \<times> (store_error + todo)" where
  "update_todo v ev now s =
     (if \<not> todo_valid v then (s, Inl InvalidArgument)
      else case map_of (rs_todos s) (td_id v) of
        None \<Rightarrow> (s, Inl NotFound)
      | Some current \<Rightarrow>
          if td_workspace current \<noteq> td_workspace v \<or> td_user current \<noteq> td_user v \<or> leased (rs_todo_queue s) (td_id v) now
          then (s, Inl NotFound)
          else if (td_message current, td_conversation current, td_timestamp current) \<noteq> (td_message v, td_conversation v, td_timestamp v)
          then (s, Inl InvalidArgument)
          else
            let current' = current\<lparr>td_title := td_title v, td_details := td_details v, td_updated := whole_seconds (td_updated v)\<rparr>
            in if \<not> same_reminder_timing (td_timing current) (td_timing v) then
                 let current'' = current'\<lparr>td_timing := stored_timing (td_timing v), td_delivery := no_delivery\<rparr>
                 in (log_event ev (put_todo (td_id v) current'' (s\<lparr>rs_todo_queue := forget (td_id v) (rs_todo_queue s)\<rparr>)), Inr current'')
               else (log_event ev (put_todo (td_id v) current' s), Inr current'))"

definition set_todo_completion :: "string \<Rightarrow> string \<Rightarrow> string \<Rightarrow> time \<Rightarrow> event \<Rightarrow> time \<Rightarrow> reminder_store \<Rightarrow> reminder_store \<times> store_error option" where
  "set_todo_completion workspace user i completed ev now s =
     (case map_of (rs_todos s) i of
        None \<Rightarrow> (s, Some NotFound)
      | Some v \<Rightarrow>
          if td_workspace v \<noteq> workspace \<or> td_user v \<noteq> user \<or> leased (rs_todo_queue s) i now then (s, Some NotFound)
          else if todo_done v = (\<not> is_zero_time completed) then (s, None)
          else (log_event ev (put_todo i (v\<lparr>td_completed := whole_seconds completed,
                  td_updated := whole_seconds (if is_zero_time completed then now else completed)\<rparr>) s), None))"

definition delete_todo :: "string \<Rightarrow> string \<Rightarrow> string \<Rightarrow> event \<Rightarrow> time \<Rightarrow> reminder_store \<Rightarrow> reminder_store \<times> store_error option" where
  "delete_todo workspace user i ev now s =
     (case map_of (rs_todos s) i of
        None \<Rightarrow> (s, Some NotFound)
      | Some v \<Rightarrow>
          if td_workspace v \<noteq> workspace \<or> td_user v \<noteq> user \<or> leased (rs_todo_queue s) i now then (s, Some NotFound)
          else (log_event ev (s\<lparr>rs_todos := AList.delete i (rs_todos s), rs_todo_queue := forget i (rs_todo_queue s),
                  rs_activity := (\<lambda>k. case rs_activity s k of
                    None \<Rightarrow> None
                  | Some a \<Rightarrow> if ta_todo a = i \<and> ta_workspace a = workspace \<and> ta_user a = user then None else Some a)\<rparr>), None))"

definition acknowledge_todo_reminders :: "string \<Rightarrow> string \<Rightarrow> time \<Rightarrow> event \<Rightarrow> reminder_store \<Rightarrow> reminder_store \<times> store_error option" where
  "acknowledge_todo_reminders workspace user at ev s =
     (if workspace = [] \<or> user = [] \<or> is_zero_time at then (s, Some InvalidArgument)
      else
        let unseen = (\<lambda>v. td_workspace v = workspace \<and> td_user v = user \<and> last_delivered (td_delivery v) > acknowledged (td_delivery v))
        in if \<not> list_ex (\<lambda>(i, v). unseen v) (rs_todos s) then (s, None)
           else (log_event ev (s\<lparr>
                   rs_todos := map (\<lambda>(i, v). (i, if unseen v
                     then v\<lparr>td_delivery := (td_delivery v)\<lparr>acknowledged := last_delivered (td_delivery v)\<rparr>\<rparr> else v)) (rs_todos s),
                   rs_activity := (\<lambda>k. map_option (\<lambda>a.
                     if ta_workspace a = workspace \<and> ta_user a = user \<and> ta_todo a \<noteq> [] \<and> is_zero_time (ta_read a)
                     then a\<lparr>ta_read := at\<rparr> else a) (rs_activity s k))\<rparr>), None))"

subsection \<open>Delivering the reminders of to-dos\<close>

definition todo_awaits :: "string \<Rightarrow> todo \<Rightarrow> bool" where
  "todo_awaits workspace v \<longleftrightarrow> \<not> ((workspace \<noteq> [] \<and> td_workspace v \<noteq> workspace) \<or> todo_done v \<or> \<not> pending (td_delivery v) (td_timing v))"

definition earliest_todo_reminder :: "string \<Rightarrow> reminder_store \<Rightarrow> time" where
  "earliest_todo_reminder workspace s =
     fold (\<lambda>(i, v) earliest. if todo_awaits workspace v then earlier_of (queue_deadline (rs_todo_queue s) i (td_timing v)) earliest else earliest)
       (rs_todos s) 0"

definition claim_due_todo_reminders ::
  "string \<Rightarrow> string \<Rightarrow> int \<Rightarrow> duration \<Rightarrow> time \<Rightarrow> reminder_store \<Rightarrow> reminder_store \<times> (store_error + todo list)" where
  "claim_due_todo_reminders workspace owner limit lease now s =
     (if owner = [] \<or> limit \<le> 0 \<or> lease \<le> 0 \<or> is_zero_time now then (s, Inl InvalidArgument)
      else let values = take (nat limit) (sort_key (\<lambda>v. (due_at (td_timing v), td_id v))
               (map snd (filter (\<lambda>(i, v). todo_awaits workspace v \<and> waiting (rs_todo_queue s) i (td_timing v) now) (rs_todos s))))
        in (s\<lparr>rs_todo_queue := lease_all owner (second_ceil (now + lease)) (map td_id values) (rs_todo_queue s)\<rparr>, Inr values))"

definition renew_todo_reminder :: "string \<Rightarrow> string \<Rightarrow> duration \<Rightarrow> time \<Rightarrow> reminder_store \<Rightarrow> reminder_store \<times> store_error option" where
  "renew_todo_reminder owner i lease now s =
     (case queue_renew owner i lease now (rs_todo_queue s) of (q, e) \<Rightarrow> (s\<lparr>rs_todo_queue := q\<rparr>, e))"

definition release_todo_reminder :: "string \<Rightarrow> string \<Rightarrow> time \<Rightarrow> time \<Rightarrow> reminder_store \<Rightarrow> reminder_store \<times> store_error option" where
  "release_todo_reminder owner i next_at now s =
     (case queue_release owner i next_at now (rs_todo_queue s) of (q, e) \<Rightarrow> (s\<lparr>rs_todo_queue := q\<rparr>, e))"

text \<open>The to-do whose reminder \<open>owner\<close> holds and may settle at \<open>now\<close>.\<close>

definition held_todo :: "string \<Rightarrow> string \<Rightarrow> time \<Rightarrow> reminder_store \<Rightarrow> todo option" where
  "held_todo owner i now s = (case map_of (rs_todos s) i of
     None \<Rightarrow> None
   | Some v \<Rightarrow> if todo_done v \<or> \<not> pending (td_delivery v) (td_timing v) \<or> \<not> queue_holds (rs_todo_queue s) owner i now then None else Some v)"

definition mark_todo_reminder_failed ::
  "string \<Rightarrow> string \<Rightarrow> string \<Rightarrow> time \<Rightarrow> event \<Rightarrow> reminder_store \<Rightarrow> reminder_store \<times> store_error option" where
  "mark_todo_reminder_failed owner i code at ev s =
     (if owner = [] \<or> code = [] \<or> is_zero_time at then (s, Some InvalidArgument)
      else case held_todo owner i at s of
        None \<Rightarrow> (s, Some LeaseConflict)
      | Some v \<Rightarrow>
          (log_event ev (put_todo i (v\<lparr>td_delivery := (td_delivery v)\<lparr>failed_at := whole_seconds at, failure_reason := code\<rparr>,
              td_updated := whole_seconds at\<rparr>) (s\<lparr>rs_todo_queue := forget i (rs_todo_queue s)\<rparr>)), None))"

definition reminder_activity_id :: "string \<Rightarrow> string \<Rightarrow> time \<Rightarrow> string" where
  "reminder_activity_id user i at = ''activity:'' @ user @ '':'' @ ''reminder:'' @ i @ '':'' @ new_stored_time at"

definition file_reminder_activity :: "todo \<Rightarrow> string \<Rightarrow> time \<Rightarrow> reminder_store \<Rightarrow> reminder_store" where
  "file_reminder_activity v i at s =
     (let wanted = (case rs_activity_reminders s (member_key (td_workspace v) (td_user v)) of None \<Rightarrow> True | Some b \<Rightarrow> b);
          k = reminder_activity_id (td_user v) i at
      in if wanted \<and> rs_activity s k = None
         then s\<lparr>rs_activity := (rs_activity s)(k \<mapsto> \<lparr>ta_workspace = td_workspace v, ta_user = td_user v, ta_todo = i,
                  ta_conversation = td_conversation v, ta_message = td_message v, ta_occurred = at, ta_read = 0\<rparr>)\<rparr>
         else s)"

definition mark_todo_reminder_delivered ::
  "string \<Rightarrow> string \<Rightarrow> time \<Rightarrow> time \<Rightarrow> event \<Rightarrow> reminder_store \<Rightarrow> reminder_store \<times> store_error option" where
  "mark_todo_reminder_delivered owner i at next_at ev s =
     (if owner = [] \<or> is_zero_time at then (s, Some InvalidArgument)
      else case held_todo owner i at s of
        None \<Rightarrow> (s, Some LeaseConflict)
      | Some v \<Rightarrow>
          (case record_occurrence at next_at (td_timing v) (td_delivery v) of
             Inl e \<Rightarrow> (s, Some e)
           | Inr (timing, d) \<Rightarrow>
               let v' = v\<lparr>td_timing := timing, td_delivery := d, td_updated := whole_seconds at\<rparr>;
                   s = file_reminder_activity v' i at (put_todo i v' s)
               in (log_event ev (s\<lparr>rs_todo_queue := forget i (rs_todo_queue s)\<rparr>), None)))"

subsection \<open>Reminders of a channel\<close>

definition put_channel_reminder :: "string \<Rightarrow> channel_reminder \<Rightarrow> reminder_store \<Rightarrow> reminder_store" where
  "put_channel_reminder i v s = s\<lparr>rs_channels := AList.update i v (rs_channels s)\<rparr>"

definition create_channel_reminder :: "channel_reminder \<Rightarrow> event \<Rightarrow> reminder_store \<Rightarrow> reminder_store \<times> store_error option" where
  "create_channel_reminder v ev s =
     (if \<not> channel_reminder_valid v then (s, Some InvalidArgument)
      else if \<not> user_of (rs_chat s) (cr_workspace v) (cr_creator v) then (s, Some NotFound)
      else if (case conversations (rs_chat s) (cr_channel v) of None \<Rightarrow> True | Some c \<Rightarrow> conv_workspace c \<noteq> cr_workspace v) then (s, Some NotFound)
      else if map_of (rs_channels s) (cr_id v) \<noteq> None then (s, Some AlreadyExists)
      else (log_event ev (put_channel_reminder (cr_id v)
              (v\<lparr>cr_timing := stored_timing (cr_timing v), cr_delivery := stored_delivery (cr_delivery v),
                 cr_created := whole_seconds (cr_created v), cr_updated := whole_seconds (cr_updated v)\<rparr>) s), None))"

definition delete_channel_reminder :: "string \<Rightarrow> string \<Rightarrow> string \<Rightarrow> event \<Rightarrow> time \<Rightarrow> reminder_store \<Rightarrow> reminder_store \<times> store_error option" where
  "delete_channel_reminder workspace creator i ev now s =
     (case map_of (rs_channels s) i of
        None \<Rightarrow> (s, Some NotFound)
      | Some v \<Rightarrow>
          if cr_workspace v \<noteq> workspace \<or> cr_creator v \<noteq> creator \<or> leased (rs_channel_queue s) i now then (s, Some NotFound)
          else (log_event ev (s\<lparr>rs_channels := AList.delete i (rs_channels s), rs_channel_queue := forget i (rs_channel_queue s)\<rparr>), None))"

definition channel_awaits :: "string \<Rightarrow> channel_reminder \<Rightarrow> bool" where
  "channel_awaits workspace v \<longleftrightarrow> \<not> ((workspace \<noteq> [] \<and> cr_workspace v \<noteq> workspace) \<or> \<not> pending (cr_delivery v) (cr_timing v))"

definition earliest_channel_reminder :: "string \<Rightarrow> reminder_store \<Rightarrow> time" where
  "earliest_channel_reminder workspace s =
     fold (\<lambda>(i, v) earliest. if channel_awaits workspace v then earlier_of (queue_deadline (rs_channel_queue s) i (cr_timing v)) earliest else earliest)
       (rs_channels s) 0"

definition claim_due_channel_reminders ::
  "string \<Rightarrow> string \<Rightarrow> int \<Rightarrow> duration \<Rightarrow> time \<Rightarrow> reminder_store \<Rightarrow> reminder_store \<times> (store_error + channel_reminder list)" where
  "claim_due_channel_reminders workspace owner limit lease now s =
     (if owner = [] \<or> limit \<le> 0 \<or> lease \<le> 0 \<or> is_zero_time now then (s, Inl InvalidArgument)
      else let values = take (nat limit) (sort_key (\<lambda>v. (due_at (cr_timing v), cr_id v))
               (map snd (filter (\<lambda>(i, v). channel_awaits workspace v \<and> waiting (rs_channel_queue s) i (cr_timing v) now) (rs_channels s))))
        in (s\<lparr>rs_channel_queue := lease_all owner (second_ceil (now + lease)) (map cr_id values) (rs_channel_queue s)\<rparr>, Inr values))"

definition renew_channel_reminder :: "string \<Rightarrow> string \<Rightarrow> duration \<Rightarrow> time \<Rightarrow> reminder_store \<Rightarrow> reminder_store \<times> store_error option" where
  "renew_channel_reminder owner i lease now s =
     (case queue_renew owner i lease now (rs_channel_queue s) of (q, e) \<Rightarrow> (s\<lparr>rs_channel_queue := q\<rparr>, e))"

definition release_channel_reminder :: "string \<Rightarrow> string \<Rightarrow> time \<Rightarrow> time \<Rightarrow> reminder_store \<Rightarrow> reminder_store \<times> store_error option" where
  "release_channel_reminder owner i next_at now s =
     (case queue_release owner i next_at now (rs_channel_queue s) of (q, e) \<Rightarrow> (s\<lparr>rs_channel_queue := q\<rparr>, e))"

definition held_channel_reminder :: "string \<Rightarrow> string \<Rightarrow> time \<Rightarrow> reminder_store \<Rightarrow> channel_reminder option" where
  "held_channel_reminder owner i now s = (case map_of (rs_channels s) i of
     None \<Rightarrow> None
   | Some v \<Rightarrow> if \<not> pending (cr_delivery v) (cr_timing v) \<or> \<not> queue_holds (rs_channel_queue s) owner i now then None else Some v)"

definition mark_channel_reminder_failed ::
  "string \<Rightarrow> string \<Rightarrow> string \<Rightarrow> time \<Rightarrow> event \<Rightarrow> reminder_store \<Rightarrow> reminder_store \<times> store_error option" where
  "mark_channel_reminder_failed owner i code at ev s =
     (if owner = [] \<or> code = [] \<or> is_zero_time at then (s, Some InvalidArgument)
      else case held_channel_reminder owner i at s of
        None \<Rightarrow> (s, Some LeaseConflict)
      | Some v \<Rightarrow>
          (log_event ev (put_channel_reminder i (v\<lparr>cr_delivery := (cr_delivery v)\<lparr>failed_at := whole_seconds at, failure_reason := code\<rparr>,
              cr_updated := whole_seconds at\<rparr>) (s\<lparr>rs_channel_queue := forget i (rs_channel_queue s)\<rparr>)), None))"

definition mark_channel_reminder_delivered ::
  "string \<Rightarrow> string \<Rightarrow> time \<Rightarrow> time \<Rightarrow> event \<Rightarrow> reminder_store \<Rightarrow> reminder_store \<times> store_error option" where
  "mark_channel_reminder_delivered owner i at next_at ev s =
     (if owner = [] \<or> is_zero_time at then (s, Some InvalidArgument)
      else case held_channel_reminder owner i at s of
        None \<Rightarrow> (s, Some LeaseConflict)
      | Some v \<Rightarrow>
          (case record_occurrence at next_at (cr_timing v) (cr_delivery v) of
             Inl e \<Rightarrow> (s, Some e)
           | Inr (timing, d) \<Rightarrow>
               (log_event ev (put_channel_reminder i (v\<lparr>cr_timing := timing, cr_delivery := d, cr_updated := whole_seconds at\<rparr>)
                  (s\<lparr>rs_channel_queue := forget i (rs_channel_queue s)\<rparr>)), None)))"

text \<open>\<^verbatim>\<open>earliestFirstPartyReminder\<close> of \<^verbatim>\<open>internal/scheduler/reminders.go\<close>\<close>

definition earliest_first_party_reminder :: "string \<Rightarrow> reminder_store \<Rightarrow> time" where
  "earliest_first_party_reminder workspace s =
     (let todo_at = earliest_todo_reminder workspace s; channel_at = earliest_channel_reminder workspace s
      in if is_zero_time todo_at \<or> (\<not> is_zero_time channel_at \<and> channel_at < todo_at) then channel_at else todo_at)"

end
