(* ===== verification/Reminder_Queue.thy ===== *)
theory Reminder_Queue
  imports Reminders
begin

section \<open>What the reminders promise\<close>

text \<open>
  Both leased queues of reminders as one interpretation of \<open>lease_contract\<close>, the invariant of their rows,
  and what follows for a member: no occurrence of a reminder is delivered twice.
\<close>

subsection \<open>The operations as steps\<close>

datatype reminder_op =
    CreateTodo todo event
  | EditTodo todo event
  | CompleteTodo string string string time event
  | DropTodo string string string event
  | SeeTodos string string time event
  | ClaimTodos string string int duration
  | ExtendTodo string string duration
  | PutBackTodo string string time
  | FailTodo string string string time event
  | DeliverTodo string string time time event
  | CreateReminder channel_reminder event
  | DropReminder string string string event
  | ClaimReminders string string int duration
  | ExtendReminder string string duration
  | PutBackReminder string string time
  | FailReminder string string string time event
  | DeliverReminder string string time time event

fun reminder_step :: "reminder_op \<Rightarrow> time \<Rightarrow> reminder_store \<Rightarrow> reminder_store" where
  "reminder_step (CreateTodo v ev) now s = fst (create_todo v ev s)"
| "reminder_step (EditTodo v ev) now s = fst (update_todo v ev now s)"
| "reminder_step (CompleteTodo w u i at ev) now s = fst (set_todo_completion w u i at ev now s)"
| "reminder_step (DropTodo w u i ev) now s = fst (delete_todo w u i ev now s)"
| "reminder_step (SeeTodos w u at ev) now s = fst (acknowledge_todo_reminders w u at ev s)"
| "reminder_step (ClaimTodos w owner limit lease) now s = fst (claim_due_todo_reminders w owner limit lease now s)"
| "reminder_step (ExtendTodo owner i lease) now s = fst (renew_todo_reminder owner i lease now s)"
| "reminder_step (PutBackTodo owner i next_at) now s = fst (release_todo_reminder owner i next_at now s)"
| "reminder_step (FailTodo owner i code at ev) now s = fst (mark_todo_reminder_failed owner i code at ev s)"
| "reminder_step (DeliverTodo owner i at next_at ev) now s = fst (mark_todo_reminder_delivered owner i at next_at ev s)"
| "reminder_step (CreateReminder v ev) now s = fst (create_channel_reminder v ev s)"
| "reminder_step (DropReminder w u i ev) now s = fst (delete_channel_reminder w u i ev now s)"
| "reminder_step (ClaimReminders w owner limit lease) now s = fst (claim_due_channel_reminders w owner limit lease now s)"
| "reminder_step (ExtendReminder owner i lease) now s = fst (renew_channel_reminder owner i lease now s)"
| "reminder_step (PutBackReminder owner i next_at) now s = fst (release_channel_reminder owner i next_at now s)"
| "reminder_step (FailReminder owner i code at ev) now s = fst (mark_channel_reminder_failed owner i code at ev s)"
| "reminder_step (DeliverReminder owner i at next_at ev) now s = fst (mark_channel_reminder_delivered owner i at next_at ev s)"

text \<open>A to-do is \<open>Inl\<close> its identifier, a channel reminder \<open>Inr\<close>.\<close>

fun reminder_claimed :: "reminder_op \<Rightarrow> time \<Rightarrow> reminder_store \<Rightarrow> (string + string) set" where
  "reminder_claimed (ClaimTodos w owner limit lease) now s =
     (case snd (claim_due_todo_reminders w owner limit lease now s) of Inl _ \<Rightarrow> {} | Inr vs \<Rightarrow> (Inl \<circ> td_id) ` set vs)"
| "reminder_claimed (ClaimReminders w owner limit lease) now s =
     (case snd (claim_due_channel_reminders w owner limit lease now s) of Inl _ \<Rightarrow> {} | Inr vs \<Rightarrow> (Inr \<circ> cr_id) ` set vs)"
| "reminder_claimed _ now s = {}"

fun reminder_actor :: "reminder_op \<Rightarrow> string option" where
  "reminder_actor (ClaimTodos w owner limit lease) = Some owner"
| "reminder_actor (ExtendTodo owner i lease) = Some owner"
| "reminder_actor (PutBackTodo owner i next_at) = Some owner"
| "reminder_actor (FailTodo owner i code at ev) = Some owner"
| "reminder_actor (DeliverTodo owner i at next_at ev) = Some owner"
| "reminder_actor (ClaimReminders w owner limit lease) = Some owner"
| "reminder_actor (ExtendReminder owner i lease) = Some owner"
| "reminder_actor (PutBackReminder owner i next_at) = Some owner"
| "reminder_actor (FailReminder owner i code at ev) = Some owner"
| "reminder_actor (DeliverReminder owner i at next_at ev) = Some owner"
| "reminder_actor _ = None"

definition queue_holder :: "reminder_queue \<Rightarrow> string \<Rightarrow> time \<Rightarrow> string option" where
  "queue_holder q i t = (case q_leases q i of None \<Rightarrow> None | Some l \<Rightarrow> if le_expires l > t then Some (le_owner l) else None)"

fun reminder_holder :: "reminder_store \<Rightarrow> string + string \<Rightarrow> time \<Rightarrow> string option" where
  "reminder_holder s (Inl i) t = queue_holder (rs_todo_queue s) i t"
| "reminder_holder s (Inr i) t = queue_holder (rs_channel_queue s) i t"

subsection \<open>The rows\<close>

definition sound_rows :: "('v \<Rightarrow> string) \<Rightarrow> ('v \<Rightarrow> reminder_timing) \<Rightarrow> (string \<times> 'v) list \<Rightarrow> bool" where
  "sound_rows name timing al \<longleftrightarrow> distinct (map fst al) \<and> list_all (\<lambda>(i, v). name v = i \<and> whole_seconds (due_at (timing v)) = due_at (timing v)) al"

definition reminders_sound :: "reminder_store \<Rightarrow> bool" where
  "reminders_sound s \<longleftrightarrow> sound_rows td_id td_timing (rs_todos s) \<and> sound_rows cr_id cr_timing (rs_channels s)"

lemma whole_seconds_idem [simp]: "whole_seconds (whole_seconds t) = whole_seconds t"
  by (auto simp: whole_seconds_def mod_diff_left_eq [symmetric])

lemma sound_rows_put:
  assumes "sound_rows name timing al" "name v = i" "whole_seconds (due_at (timing v)) = due_at (timing v)"
  shows "sound_rows name timing (AList.update i v al)"
proof -
  have "list_all (\<lambda>(i, v). name v = i \<and> whole_seconds (due_at (timing v)) = due_at (timing v)) (AList.update i v al)"
    using assms by (induction al) (auto simp: sound_rows_def)
  then show ?thesis using assms(1) by (simp add: sound_rows_def distinct_update)
qed

lemma sound_rows_delete: "sound_rows name timing al \<Longrightarrow> sound_rows name timing (AList.delete i al)"
  by (auto simp: sound_rows_def list_all_iff AList.delete_eq intro: distinct_map_filter)

lemma sound_row:
  "sound_rows name timing al \<Longrightarrow> map_of al i = Some v \<Longrightarrow> name v = i \<and> whole_seconds (due_at (timing v)) = due_at (timing v)"
  by (auto simp: sound_rows_def list_all_iff dest!: map_of_SomeD)

lemma record_occurrence_whole:
  "record_occurrence at next_at timing d = Inr (timing', d') \<Longrightarrow> whole_seconds (due_at timing) = due_at timing
    \<Longrightarrow> whole_seconds (due_at timing') = due_at timing'"
  by (auto simp: record_occurrence_def split: if_splits)

lemma row_frames [simp]:
  "rs_todos (log_event ev s) = rs_todos s" "rs_channels (log_event ev s) = rs_channels s"
  "rs_todo_queue (log_event ev s) = rs_todo_queue s" "rs_channel_queue (log_event ev s) = rs_channel_queue s"
  "rs_todos (put_todo i v s) = AList.update i v (rs_todos s)" "rs_channels (put_todo i v s) = rs_channels s"
  "rs_todo_queue (put_todo i v s) = rs_todo_queue s" "rs_channel_queue (put_todo i v s) = rs_channel_queue s"
  "rs_todos (put_channel_reminder i w s) = rs_todos s" "rs_channels (put_channel_reminder i w s) = AList.update i w (rs_channels s)"
  "rs_todo_queue (put_channel_reminder i w s) = rs_todo_queue s" "rs_channel_queue (put_channel_reminder i w s) = rs_channel_queue s"
  "rs_todos (file_reminder_activity v i at s) = rs_todos s" "rs_channels (file_reminder_activity v i at s) = rs_channels s"
  "rs_todo_queue (file_reminder_activity v i at s) = rs_todo_queue s" "rs_channel_queue (file_reminder_activity v i at s) = rs_channel_queue s"
  by (simp_all add: log_event_def put_todo_def put_channel_reminder_def file_reminder_activity_def Let_def split: option.splits)

lemmas todo_ops = create_todo_def insert_todo_locked_def update_todo_def set_todo_completion_def delete_todo_def
  acknowledge_todo_reminders_def claim_due_todo_reminders_def renew_todo_reminder_def release_todo_reminder_def
  mark_todo_reminder_failed_def mark_todo_reminder_delivered_def

lemmas channel_ops = create_channel_reminder_def delete_channel_reminder_def claim_due_channel_reminders_def renew_channel_reminder_def
  release_channel_reminder_def mark_channel_reminder_failed_def mark_channel_reminder_delivered_def

lemma held_todo_row: "held_todo owner i now s = Some v \<Longrightarrow> map_of (rs_todos s) i = Some v \<and> \<not> todo_done v \<and> pending (td_delivery v) (td_timing v)
    \<and> queue_holds (rs_todo_queue s) owner i now"
  by (auto simp: held_todo_def split: option.splits if_splits)

lemma held_channel_row: "held_channel_reminder owner i now s = Some v \<Longrightarrow> map_of (rs_channels s) i = Some v \<and> pending (cr_delivery v) (cr_timing v)
    \<and> queue_holds (rs_channel_queue s) owner i now"
  by (auto simp: held_channel_reminder_def split: option.splits if_splits)

lemma recorded_sound:
  "sound_rows td_id td_timing (rs_todos s) \<Longrightarrow> held_todo owner i at s = Some v \<Longrightarrow>
     record_occurrence at next_at (td_timing v) (td_delivery v) = Inr (timing, d) \<Longrightarrow> whole_seconds (due_at timing) = due_at timing"
  "sound_rows cr_id cr_timing (rs_channels s) \<Longrightarrow> held_channel_reminder owner i at s = Some w \<Longrightarrow>
     record_occurrence at next_at (cr_timing w) (cr_delivery w) = Inr (timing, d) \<Longrightarrow> whole_seconds (due_at timing) = due_at timing"
  by (meson held_todo_row held_channel_row record_occurrence_whole sound_row)+

lemma sound_rows_seen:
  "sound_rows td_id td_timing al \<Longrightarrow> sound_rows td_id td_timing (map (\<lambda>(i, v). (i, if P v then v\<lparr>td_delivery := f v\<rparr> else v)) al)"
proof -
  have "map fst (map (\<lambda>(i, v). (i, if P v then v\<lparr>td_delivery := f v\<rparr> else v)) al) = map fst al" by (induction al) auto
  moreover assume "sound_rows td_id td_timing al"
  ultimately show ?thesis unfolding sound_rows_def by (auto simp: list_all_iff simp del: map_map)
qed

lemma reminders_stay_sound: "reminders_sound s \<Longrightarrow> reminders_sound (reminder_step op now s)"
  by (cases op)
    (auto simp: reminders_sound_def todo_ops channel_ops Let_def stored_todo_def stored_timing_def
      intro!: sound_rows_put sound_rows_delete sound_rows_seen
      dest: sound_row held_todo_row held_channel_row recorded_sound
      split: option.splits sum.splits prod.splits if_splits)

subsection \<open>The leases\<close>

lemma second_ceil_ge: "t \<le> second_ceil t"
proof -
  have "t - unix_epoch = 1000000000 * ((t - unix_epoch) div 1000000000) + (t - unix_epoch) mod 1000000000" by simp
  moreover have "(t - unix_epoch) mod 1000000000 < 1000000000" "0 \<le> (t - unix_epoch) mod 1000000000" by simp_all
  ultimately show ?thesis unfolding second_ceil_def unix_seconds_def nanosecond_def by (cases "(t - unix_epoch) mod 1000000000 > 0"; simp)
qed

lemma lease_all_leases: "q_leases (lease_all owner expires ids q) i = (if i \<in> set ids then Some \<lparr>le_owner = owner, le_expires = expires\<rparr> else q_leases q i)"
proof -
  have "fold (\<lambda>i ls. ls(i \<mapsto> l)) ids ls i = (if i \<in> set ids then Some l else ls i)" for l and ls :: "string \<rightharpoonup> lease"
    by (induction ids arbitrary: ls) auto
  then show ?thesis by (simp add: lease_all_def)
qed

lemma queue_holds_holder: "queue_holds q owner i now \<Longrightarrow> queue_holder q i now = Some owner"
  by (auto simp: queue_holds_def queue_holder_def split: option.splits if_splits)

lemma leased_iff: "leased q i now \<longleftrightarrow> queue_holder q i now \<noteq> None"
  by (auto simp: leased_def queue_holder_def split: option.splits)

lemma holder_earlier: "queue_holder q i t = Some a \<Longrightarrow> now \<le> t \<Longrightarrow> queue_holder q i now = Some a"
  by (auto simp: queue_holder_def split: option.splits if_splits)

lemma holder_forget [simp]: "queue_holder (forget j q) i t = (if i = j then None else queue_holder q i t)"
  by (simp add: queue_holder_def forget_def)

lemma holder_lease_all:
  "queue_holder (lease_all owner expires ids q) i t = (if i \<in> set ids then (if expires > t then Some owner else None) else queue_holder q i t)"
  by (simp add: queue_holder_def lease_all_leases)

lemma holder_renew: "queue_renew owner j lease now q = (q', e) \<Longrightarrow> i \<noteq> j \<or> \<not> queue_holds q owner j now \<Longrightarrow> queue_holder q' i t = queue_holder q i t"
  by (auto simp: queue_renew_def queue_holder_def split: if_splits)

lemma holder_release: "queue_release owner j next_at now q = (q', e) \<Longrightarrow> i \<noteq> j \<or> \<not> queue_holds q owner j now \<Longrightarrow> queue_holder q' i t = queue_holder q i t"
  by (auto simp: queue_release_def queue_holder_def split: if_splits)

text \<open>A lease is on one owner: whoever else's call finds it held finds it so at its own reading of the clock too.\<close>

lemma other_holds: "queue_holder q i t = Some a \<Longrightarrow> owner \<noteq> a \<Longrightarrow> \<not> queue_holds q owner i at"
  by (auto simp: queue_holder_def queue_holds_def split: option.splits if_splits)

lemma others_move_no_lease:
  assumes "queue_holder q i t = Some a" "owner \<noteq> a"
  shows "queue_renew owner j lease now q = (q', e) \<Longrightarrow> queue_holder q' i t = Some a"
    "queue_release owner j next_at now q = (q', e) \<Longrightarrow> queue_holder q' i t = Some a"
  using holder_renew [of owner j lease now q q' e i t] holder_release [of owner j next_at now q q' e i t] other_holds [OF assms] assms(1)
  by (cases "i = j"; simp)+

lemma claimed_todos:
  assumes "reminders_sound s" "Inl i \<in> reminder_claimed (ClaimTodos w owner limit lease) now s"
  shows "queue_holder (rs_todo_queue s) i now = None"
    "queue_holder (rs_todo_queue (reminder_step (ClaimTodos w owner limit lease) now s)) i now = Some owner"
proof -
  define vs where "vs = take (nat limit) (sort_key (\<lambda>v. (due_at (td_timing v), td_id v))
      (map snd (filter (\<lambda>(i, v). todo_awaits w v \<and> waiting (rs_todo_queue s) i (td_timing v) now) (rs_todos s))))"
  have g: "\<not> (owner = [] \<or> limit \<le> 0 \<or> lease \<le> 0 \<or> is_zero_time now)" "i \<in> td_id ` set vs"
    using assms(2) by (auto simp: claim_due_todo_reminders_def vs_def Let_def split: if_splits)
  then obtain v where v: "td_id v = i" "v \<in> set vs" by auto
  then obtain j where j: "(j, v) \<in> set (rs_todos s)" "waiting (rs_todo_queue s) j (td_timing v) now"
    by (auto simp: vs_def dest!: in_set_takeD)
  then have "j = i" using assms(1) v(1) by (auto simp: reminders_sound_def sound_rows_def list_all_iff)
  then show "queue_holder (rs_todo_queue s) i now = None" using j(2) by (simp add: waiting_def leased_iff)
  show "queue_holder (rs_todo_queue (reminder_step (ClaimTodos w owner limit lease) now s)) i now = Some owner"
    using g second_ceil_ge [of "now + lease"] by (auto simp: claim_due_todo_reminders_def Let_def vs_def [symmetric] holder_lease_all)
qed

lemma claimed_channels:
  assumes "reminders_sound s" "Inr i \<in> reminder_claimed (ClaimReminders w owner limit lease) now s"
  shows "queue_holder (rs_channel_queue s) i now = None"
    "queue_holder (rs_channel_queue (reminder_step (ClaimReminders w owner limit lease) now s)) i now = Some owner"
proof -
  define vs where "vs = take (nat limit) (sort_key (\<lambda>v. (due_at (cr_timing v), cr_id v))
      (map snd (filter (\<lambda>(i, v). channel_awaits w v \<and> waiting (rs_channel_queue s) i (cr_timing v) now) (rs_channels s))))"
  have g: "\<not> (owner = [] \<or> limit \<le> 0 \<or> lease \<le> 0 \<or> is_zero_time now)" "i \<in> cr_id ` set vs"
    using assms(2) by (auto simp: claim_due_channel_reminders_def vs_def Let_def split: if_splits)
  then obtain v where v: "cr_id v = i" "v \<in> set vs" by auto
  then obtain j where j: "(j, v) \<in> set (rs_channels s)" "waiting (rs_channel_queue s) j (cr_timing v) now"
    by (auto simp: vs_def dest!: in_set_takeD)
  then have "j = i" using assms(1) v(1) by (auto simp: reminders_sound_def sound_rows_def list_all_iff)
  then show "queue_holder (rs_channel_queue s) i now = None" using j(2) by (simp add: waiting_def leased_iff)
  show "queue_holder (rs_channel_queue (reminder_step (ClaimReminders w owner limit lease) now s)) i now = Some owner"
    using g second_ceil_ge [of "now + lease"] by (auto simp: claim_due_channel_reminders_def Let_def vs_def [symmetric] holder_lease_all)
qed

lemma claimed_kinds:
  "k \<in> reminder_claimed op now s \<Longrightarrow> (\<exists>i w owner limit lease. k = Inl i \<and> op = ClaimTodos w owner limit lease)
     \<or> (\<exists>i w owner limit lease. k = Inr i \<and> op = ClaimReminders w owner limit lease)"
  by (cases op) (auto split: sum.splits)

lemma unclaimed_todos:
  "Inl i \<notin> reminder_claimed (ClaimTodos w owner limit lease) now s \<Longrightarrow>
     queue_holder (rs_todo_queue (fst (claim_due_todo_reminders w owner limit lease now s))) i t = queue_holder (rs_todo_queue s) i t"
  by (auto simp: claim_due_todo_reminders_def Let_def holder_lease_all image_iff)

lemma unclaimed_channels:
  "Inr i \<notin> reminder_claimed (ClaimReminders w owner limit lease) now s \<Longrightarrow>
     queue_holder (rs_channel_queue (fst (claim_due_channel_reminders w owner limit lease now s))) i t = queue_holder (rs_channel_queue s) i t"
  by (auto simp: claim_due_channel_reminders_def Let_def holder_lease_all image_iff)

lemma reminder_lease_kept:
  assumes "reminders_sound s" "reminder_holder s k t = Some a" "now \<le> t" "reminder_actor op \<noteq> Some a"
  shows "reminder_holder (reminder_step op now s) k t = Some a"
proof (cases k)
  case (Inl i)
  have h: "queue_holder (rs_todo_queue s) i t = Some a" "queue_holder (rs_todo_queue s) i now = Some a"
    using assms(2) Inl holder_earlier [OF _ assms(3), of "rs_todo_queue s" i a] by simp_all
  have n: "Inl i \<notin> reminder_claimed op now s" using claimed_todos(1) [OF assms(1)] claimed_kinds [of "Inl i" op now s] h(2) by auto
  show ?thesis
  proof (cases op)
    case (ClaimTodos w owner limit lease)
    then show ?thesis using unclaimed_todos n h Inl by simp
  qed (use h assms(4) Inl other_holds [OF h(1)] in \<open>auto simp: todo_ops channel_ops leased_iff Let_def
      intro: others_move_no_lease split: option.splits sum.splits prod.splits if_splits dest!: held_todo_row held_channel_row\<close>)
next
  case (Inr i)
  have h: "queue_holder (rs_channel_queue s) i t = Some a" "queue_holder (rs_channel_queue s) i now = Some a"
    using assms(2) Inr holder_earlier [OF _ assms(3), of "rs_channel_queue s" i a] by simp_all
  have n: "Inr i \<notin> reminder_claimed op now s" using claimed_channels(1) [OF assms(1)] claimed_kinds [of "Inr i" op now s] h(2) by auto
  show ?thesis
  proof (cases op)
    case (ClaimReminders w owner limit lease)
    then show ?thesis using unclaimed_channels n h Inr by simp
  qed (use h assms(4) Inr other_holds [OF h(1)] in \<open>auto simp: todo_ops channel_ops leased_iff Let_def
      intro: others_move_no_lease split: option.splits sum.splits prod.splits if_splits dest!: held_todo_row held_channel_row\<close>)
qed

interpretation reminders: lease_contract reminders_sound reminder_step reminder_claimed reminder_actor reminder_holder
proof
  fix op now s k t a
  show "reminders_sound s \<Longrightarrow> reminders_sound (reminder_step op now s)" by (rule reminders_stay_sound)
  show "reminders_sound s \<Longrightarrow> k \<in> reminder_claimed op now s \<Longrightarrow> reminder_holder s k now = None"
    using claimed_kinds [of k op now s] claimed_todos(1) claimed_channels(1) by fastforce
  show "reminders_sound s \<Longrightarrow> k \<in> reminder_claimed op now s \<Longrightarrow>
      reminder_holder (reminder_step op now s) k now = reminder_actor op \<and> reminder_actor op \<noteq> None"
    using claimed_kinds [of k op now s] claimed_todos(2) claimed_channels(2) by fastforce
  show "reminders_sound s \<Longrightarrow> reminder_holder s k t = Some a \<Longrightarrow> now \<le> t \<Longrightarrow> reminder_actor op \<noteq> Some a \<Longrightarrow>
      reminder_holder (reminder_step op now s) k t = Some a"
    by (rule reminder_lease_kept)
  show "reminder_holder s k t = Some a \<Longrightarrow> now \<le> t \<Longrightarrow> reminder_holder s k now = Some a"
    by (cases k) (auto intro: holder_earlier [of _ _ t])
qed

text \<open>A reminder a worker has taken is given to nobody else while its lease lasts.\<close>

lemma reminder_given_once:
  "reminders_sound s \<Longrightarrow> k \<in> reminder_claimed op now s \<Longrightarrow> reminder_holder (reminder_step op now s) k t = reminder_actor op
    \<Longrightarrow> \<forall>(op', now') \<in> set h. now' \<le> t \<and> reminder_actor op' \<noteq> reminder_actor op
    \<Longrightarrow> reminders.claims_of k h (reminder_step op now s) = []"
  by (rule reminders.no_double_claim)

subsection \<open>No occurrence is delivered twice\<close>

fun row_of :: "reminder_store \<Rightarrow> string + string \<Rightarrow> (reminder_timing \<times> reminder_delivery) option" where
  "row_of s (Inl i) = map_option (\<lambda>v. (td_timing v, td_delivery v)) (map_of (rs_todos s) i)"
| "row_of s (Inr i) = map_option (\<lambda>v. (cr_timing v, cr_delivery v)) (map_of (rs_channels s) i)"

text \<open>Which occurrence a step records as delivered: a reminder and the instant it was due.\<close>

fun delivered_due :: "reminder_op \<Rightarrow> reminder_store \<Rightarrow> ((string + string) \<times> time) option" where
  "delivered_due (DeliverTodo owner i at next_at ev) s =
     (if snd (mark_todo_reminder_delivered owner i at next_at ev s) = None
      then map_option (\<lambda>(timing, d). (Inl i, due_at timing)) (row_of s (Inl i)) else None)"
| "delivered_due (DeliverReminder owner i at next_at ev) s =
     (if snd (mark_channel_reminder_delivered owner i at next_at ev s) = None
      then map_option (\<lambda>(timing, d). (Inr i, due_at timing)) (row_of s (Inr i)) else None)"
| "delivered_due _ s = None"

fun occurrences :: "string + string \<Rightarrow> (reminder_op \<times> time) list \<Rightarrow> reminder_store \<Rightarrow> time list" where
  "occurrences k [] s = []"
| "occurrences k ((op, now) # h) s =
     (case delivered_due op s of
        Some (k', d) \<Rightarrow> if k' = k then d # occurrences k h (reminder_step op now s) else occurrences k h (reminder_step op now s)
      | None \<Rightarrow> occurrences k h (reminder_step op now s))"

text \<open>A member edits a to-do or removes it.\<close>

fun replaces :: "reminder_op \<Rightarrow> string + string \<Rightarrow> bool" where
  "replaces (EditTodo v ev) k = (k = Inl (td_id v))"
| "replaces (DropTodo w u i ev) k = (k = Inl i)"
| "replaces (DropReminder w u i ev) k = (k = Inr i)"
| "replaces _ k = False"

lemma whole_seconds_div: "whole_seconds t = 1000000000 * (t div 1000000000)"
  by (simp add: whole_seconds_def minus_mod_eq_mult_div)

lemma whole_seconds_mono: "t \<le> u \<Longrightarrow> whole_seconds t \<le> whole_seconds u"
  by (simp add: whole_seconds_div zdiv_mono1)

lemma recorded_moves_on:
  "record_occurrence at next_at timing d = Inr (timing', d') \<Longrightarrow> whole_seconds (due_at timing) = due_at timing \<Longrightarrow>
     \<not> pending d' timing' \<or> due_at timing < due_at timing'"
  using whole_seconds_mono [of "due_at timing" at] by (auto simp: record_occurrence_def pending_def split: if_splits)

lemma map_of_seen:
  "map_of (map (\<lambda>(i, v). (i, if P v then g v else v)) al) j = map_option (\<lambda>v. if P v then g v else v) (map_of al j)"
  by (induction al) auto

lemma failed_not_pending: "pending (d\<lparr>failed_at := t, failure_reason := c\<rparr>) timing \<Longrightarrow> pending d timing \<or> failed_at d \<noteq> 0"
  by (auto simp: pending_def)

lemma row_step:
  assumes sound: "reminders_sound s" and row: "row_of s k = Some (timing, d)" and keeps: "\<not> replaces op k"
  obtains timing' d' where "row_of (reminder_step op now s) k = Some (timing', d')"
    "delivered_due op s = Some (k, due) \<Longrightarrow> due = due_at timing \<and> pending d timing \<and> (\<not> pending d' timing' \<or> due < due_at timing')"
    "(\<And>due. delivered_due op s \<noteq> Some (k, due)) \<Longrightarrow> timing' = timing \<and> (pending d' timing' \<longrightarrow> pending d timing)"
proof (cases k)
  case (Inl i)
  then obtain v where v: "map_of (rs_todos s) i = Some v" "timing = td_timing v" "d = td_delivery v" using row by auto
  have w: "whole_seconds (due_at (td_timing v)) = due_at (td_timing v)" using sound v(1) sound_row [of td_id td_timing "rs_todos s" i v] by (simp add: reminders_sound_def)
  have "\<exists>timing' d'. row_of (reminder_step op now s) k = Some (timing', d')
      \<and> (delivered_due op s = Some (k, due) \<longrightarrow> due = due_at timing \<and> pending d timing \<and> (\<not> pending d' timing' \<or> due < due_at timing'))
      \<and> ((\<forall>due. delivered_due op s \<noteq> Some (k, due)) \<longrightarrow> timing' = timing \<and> (pending d' timing' \<longrightarrow> pending d timing))"
    using v keeps Inl w
    by (cases op) (auto simp: todo_ops channel_ops Let_def update_conv' map_of_seen AList.delete_conv' pending_def
        dest!: held_todo_row dest: recorded_moves_on [unfolded pending_def] split: option.splits sum.splits prod.splits if_splits)
  then show ?thesis using that by blast
next
  case (Inr i)
  then obtain v where v: "map_of (rs_channels s) i = Some v" "timing = cr_timing v" "d = cr_delivery v" using row by auto
  have w: "whole_seconds (due_at (cr_timing v)) = due_at (cr_timing v)" using sound v(1) sound_row [of cr_id cr_timing "rs_channels s" i v] by (simp add: reminders_sound_def)
  have "\<exists>timing' d'. row_of (reminder_step op now s) k = Some (timing', d')
      \<and> (delivered_due op s = Some (k, due) \<longrightarrow> due = due_at timing \<and> pending d timing \<and> (\<not> pending d' timing' \<or> due < due_at timing'))
      \<and> ((\<forall>due. delivered_due op s \<noteq> Some (k, due)) \<longrightarrow> timing' = timing \<and> (pending d' timing' \<longrightarrow> pending d timing))"
    using v keeps Inr w
    by (cases op) (auto simp: todo_ops channel_ops Let_def update_conv' AList.delete_conv' pending_def
        dest!: held_channel_row dest: recorded_moves_on [unfolded pending_def] split: option.splits sum.splits prod.splits if_splits)
  then show ?thesis using that by blast
qed

lemma occurrences_increase:
  assumes "reminders_sound s" "\<forall>(op, now) \<in> set h. \<not> replaces op k"
    and "row_of s k = Some (timing, d)" "pending d timing \<Longrightarrow> b < due_at timing"
  shows "sorted_wrt (<) (b # occurrences k h s)"
  using assms
proof (induction h arbitrary: s timing d b)
  case (Cons p h)
  obtain op now where p: "p = (op, now)" by (cases p)
  have keeps: "\<not> replaces op k" "\<forall>(op, now) \<in> set h. \<not> replaces op k" using Cons.prems(2) p by auto
  note sound = reminders_stay_sound [OF Cons.prems(1), of op now]
  show ?case
  proof (cases "\<exists>due. delivered_due op s = Some (k, due)")
    case True
    then obtain due where due: "delivered_due op s = Some (k, due)" by blast
    obtain timing' d' where r: "row_of (reminder_step op now s) k = Some (timing', d')"
      "due = due_at timing" "pending d timing" "\<not> pending d' timing' \<or> due < due_at timing'"
      using row_step [OF Cons.prems(1,3) keeps(1), of now due] due by metis
    have "sorted_wrt (<) (due # occurrences k h (reminder_step op now s))" using Cons.IH [OF sound keeps(2) r(1)] r(4) by blast
    moreover have "b < due" using Cons.prems(4) r(2,3) by simp
    ultimately show ?thesis using p due by fastforce
  next
    case False
    then obtain timing' d' where r: "row_of (reminder_step op now s) k = Some (timing', d')"
      "timing' = timing \<and> (pending d' timing' \<longrightarrow> pending d timing)"
      using row_step [OF Cons.prems(1,3) keeps(1), of now] by metis
    have "sorted_wrt (<) (b # occurrences k h (reminder_step op now s))" using Cons.IH [OF sound keeps(2) r(1)] r(2) Cons.prems(4) by auto
    moreover have "occurrences k (p # h) s = occurrences k h (reminder_step op now s)" using False p by (auto split: option.splits)
    ultimately show ?thesis by simp
  qed
qed simp

lemma no_row_no_delivery: "row_of s k = None \<Longrightarrow> delivered_due op s \<noteq> Some (k, due)"
  by (cases op) auto

text \<open>
  C38. However workers claim, renew, fail, release and deliver reminders, and whatever else members do,
  the instants for which one to-do's reminder, or one channel reminder, is recorded as delivered are
  strictly increasing as long as its member does not edit or remove it: no occurrence is delivered
  twice, and an older one never after a newer.
\<close>

theorem reminder_occurrences_once:
  assumes "reminders_sound s" "\<forall>(op, now) \<in> set h. \<not> replaces op k"
  shows "sorted_wrt (<) (occurrences k h s) \<and> distinct (occurrences k h s)"
proof -
  have "sorted_wrt (<) (occurrences k h s)"
    using assms
  proof (induction h arbitrary: s)
    case (Cons p h)
    show ?case
    proof (cases "row_of s k")
      case None
      obtain op now where p: "p = (op, now)" by (cases p)
      have "occurrences k (p # h) s = occurrences k h (reminder_step op now s)"
        using no_row_no_delivery [OF None, of op] p by (auto split: option.splits)
      then show ?thesis using Cons.IH [of "reminder_step op now s"] Cons.prems reminders_stay_sound p by auto
    next
      case (Some r)
      obtain timing d where "row_of s k = Some (timing, d)" using Some by (cases r) auto
      then show ?thesis using occurrences_increase [OF Cons.prems, of timing d "due_at timing - 1"] by simp
    qed
  qed simp
  then show ?thesis by (simp add: strict_sorted_iff)
qed

text \<open>A daily to-do delivered by two workers, the second claim after the first delivery.\<close>

definition empty_reminders :: "chat \<Rightarrow> reminder_store" where
  "empty_reminders c = \<lparr>rs_chat = c, rs_todos = [], rs_todo_queue = empty_queue, rs_channels = [], rs_channel_queue = empty_queue,
     rs_activity = Map.empty, rs_activity_reminders = Map.empty\<rparr>"

definition sample_event :: event where
  "sample_event = \<lparr>ev_id = ''E'', ev_workspace = ''W'', ev_topic = ''todo.reminder_delivered'', ev_payload = []\<rparr>"

definition daily_todo :: todo where
  "daily_todo = \<lparr>td_id = ''T'', td_workspace = ''W'', td_user = ''U'', td_title = ''water'', td_details = [], td_message = [],
     td_conversation = [], td_timestamp = [], td_timing = \<lparr>due_at = 63845566200000000000, time_zone = ''UTC'', recurs = Daily, anchored_at = 63845566200000000000\<rparr>,
     td_delivery = no_delivery, td_created = 0, td_updated = 0, td_completed = 0\<rparr>"

definition two_deliveries :: "(reminder_op \<times> time) list" where
  "two_deliveries =
     [(ClaimTodos ''W'' ''a'' 10 60000000000, 63845566200000000000),
      (DeliverTodo ''a'' ''T'' 63845566201000000000 63845652600000000000 sample_event, 63845566201000000000),
      (ClaimTodos ''W'' ''b'' 10 60000000000, 63845652600000000000),
      (DeliverTodo ''b'' ''T'' 63845652601000000000 63845739000000000000 sample_event, 63845652601000000000)]"

lemma two_occurrences:
  "occurrences (Inl ''T'') two_deliveries ((empty_reminders new_store)\<lparr>rs_todos := [(''T'', daily_todo)]\<rparr>)
   = [63845566200000000000, 63845652600000000000]"
  by (simp add: two_deliveries_def empty_reminders_def daily_todo_def todo_ops Let_def todo_awaits_def todo_done_def waiting_def next_of_def
      leased_def pending_def is_scheduled_def held_todo_def queue_holds_def lease_all_def record_occurrence_def whole_seconds_def forget_def
      empty_queue_def no_delivery_def second_ceil_def unix_seconds_def nanosecond_def unix_epoch_def)

lemma reminder_occurrences_once_witness:
  "sorted_wrt (<) (occurrences (Inl ''T'') two_deliveries ((empty_reminders new_store)\<lparr>rs_todos := [(''T'', daily_todo)]\<rparr>))
   \<and> distinct (occurrences (Inl ''T'') two_deliveries ((empty_reminders new_store)\<lparr>rs_todos := [(''T'', daily_todo)]\<rparr>))"
proof -
  have "reminders_sound ((empty_reminders new_store)\<lparr>rs_todos := [(''T'', daily_todo)]\<rparr>)"
    by (simp add: reminders_sound_def sound_rows_def empty_reminders_def daily_todo_def whole_seconds_def)
  then show ?thesis by (rule reminder_occurrences_once) (simp add: two_deliveries_def)
qed

end
