(* ===== verification/Reminder_Worker.thy ===== *)
theory Reminder_Worker
  imports Reminder_Queue Schedule_Worker
begin

section \<open>The worker that delivers reminders\<close>

text \<open>
  \<^verbatim>\<open>ReminderWorker\<close> of \<^verbatim>\<open>internal/scheduler/reminders.go\<close>. The world is as for the worker of scheduled
  messages: the others act before each call on the store, the clock is a sequence of readings, the log
  keeps every call with whether it succeeded. The time zones, the builder of the events (\<open>None\<close> is its
  error) and Slackbot's poster are arguments. A run that does not return is \<open>None\<close>.
\<close>

datatype reminder_call = RRenew string | RPost string | RDelivered string time | RFailed string string | RPutBack string

record reminder_world =
  rw_store :: reminder_store
  rw_clock :: "nat \<Rightarrow> time"
  rw_reads :: nat
  rw_others :: "(reminder_store \<Rightarrow> reminder_store) list"
  rw_interrupts :: "bool list"
  rw_ticks :: "nat list"
  rw_log :: "(reminder_call \<times> bool) list"

record slackbot_post =
  sb_conversation :: string
  sb_text :: string
  sb_key :: string

type_synonym slackbot_poster = "bool \<Rightarrow> string \<Rightarrow> string \<Rightarrow> slackbot_post \<Rightarrow> reminder_store \<Rightarrow> reminder_store \<times> (service_error + message)"
type_synonym 'v reminder_events = "'v \<Rightarrow> string \<Rightarrow> time \<Rightarrow> time \<Rightarrow> string \<Rightarrow> event option"

definition rw_now :: "reminder_world \<Rightarrow> reminder_world \<times> time" where
  "rw_now w = (w\<lparr>rw_reads := rw_reads w + 1\<rparr>, rw_clock w (rw_reads w))"

definition rw_act :: "reminder_world \<Rightarrow> reminder_world" where
  "rw_act w = (case rw_others w of [] \<Rightarrow> w | f # fs \<Rightarrow> w\<lparr>rw_others := fs, rw_store := f (rw_store w)\<rparr>)"

definition rw_call ::
  "reminder_call \<Rightarrow> (reminder_store \<Rightarrow> reminder_store \<times> store_error option) \<Rightarrow> reminder_world \<Rightarrow> reminder_world \<times> service_error list" where
  "rw_call c f w =
     (let w = rw_act w; (s, e) = f (rw_store w)
      in (w\<lparr>rw_store := s, rw_log := rw_log w @ [(c, e = None)]\<rparr>, as_errors e))"

subsection \<open>The next instant of a reminder\<close>

definition next_reminder_due :: "(string \<Rightarrow> location option) \<Rightarrow> reminder_timing \<Rightarrow> time \<Rightarrow> (recurrence_error + time) option" where
  "next_reminder_due load timing after =
     next_recurrence load (recurs timing) [] (time_zone timing) (anchored_at timing) (due_at timing) after"

definition recurrence_failure :: "recurrence_error \<Rightarrow> service_error" where
  "recurrence_failure e = (case e of Unknown_Time_Zone \<Rightarrow> Failure | Recurrence_Invalid \<Rightarrow> Stored InvalidArgument)"

subsection \<open>To-dos\<close>

definition deliver_todo ::
  "(string \<Rightarrow> location option) \<Rightarrow> todo reminder_events \<Rightarrow> string \<Rightarrow> duration \<Rightarrow> todo \<Rightarrow> reminder_world
    \<Rightarrow> (reminder_world \<times> bool \<times> service_error list) option" where
  "deliver_todo load build owner lease v w =
     (let (w, at) = rw_now w; i = td_id v
      in case next_reminder_due load (td_timing v) at of
           None \<Rightarrow> None
         | Some (Inl e) \<Rightarrow>
             (case build v ''todo.reminder_failed'' at 0 ''invalid_timezone'' of
                None \<Rightarrow> Some (w, False, [recurrence_failure e, Failure])
              | Some ev \<Rightarrow>
                  (let (w, mark_err) = rw_call (RFailed i ''invalid_timezone'') (mark_todo_reminder_failed owner i ''invalid_timezone'' at ev) w
                   in Some (w, mark_err = [], if mark_err = [] then [] else recurrence_failure e # mark_err)))
         | Some (Inr next_at) \<Rightarrow>
             (case build v ''todo.reminder_delivered'' at next_at [] of
                None \<Rightarrow>
                  (let (w, release_err) = rw_call (RPutBack i) (release_todo_reminder owner i (at + lease) at) w
                   in Some (w, False, Failure # release_err))
              | Some ev \<Rightarrow>
                  (let (w, mark_err) = rw_call (RDelivered i at) (mark_todo_reminder_delivered owner i at next_at ev) w
                   in Some (w, mark_err = [], mark_err))))"

fun reminder_batch ::
  "('v \<Rightarrow> reminder_world \<Rightarrow> (reminder_world \<times> bool \<times> service_error list) option) \<Rightarrow> 'v list \<Rightarrow> int \<Rightarrow> service_error list \<Rightarrow> reminder_world
    \<Rightarrow> (reminder_world \<times> int \<times> service_error list) option" where
  "reminder_batch deliver [] completed failures w = Some (w, completed, failures)"
| "reminder_batch deliver (v # vs) completed failures w =
     (let interrupted = (case rw_interrupts w of [] \<Rightarrow> False | b # _ \<Rightarrow> b);
          w = w\<lparr>rw_interrupts := tl (rw_interrupts w)\<rparr>
      in if interrupted then Some (w, completed, failures @ [Interrupted])
      else case deliver v w of
          None \<Rightarrow> None
        | Some (w, completed_one, errs) \<Rightarrow>
            reminder_batch deliver vs (if completed_one then completed + 1 else completed) (failures @ errs) w)"

definition run_todo_reminders ::
  "(string \<Rightarrow> location option) \<Rightarrow> todo reminder_events \<Rightarrow> string \<Rightarrow> int \<Rightarrow> duration \<Rightarrow> string \<Rightarrow> reminder_world
    \<Rightarrow> (reminder_world \<times> int \<times> service_error list) option" where
  "run_todo_reminders load build owner limit lease workspace w =
     (let (w, now) = rw_now w; w = rw_act w
      in case claim_due_todo_reminders workspace owner limit lease now (rw_store w) of
           (s, Inl e) \<Rightarrow> Some (w\<lparr>rw_store := s\<rparr>, 0, [Stored e])
         | (s, Inr vs) \<Rightarrow> reminder_batch (deliver_todo load build owner lease) vs 0 [] (w\<lparr>rw_store := s\<rparr>))"

subsection \<open>Channel reminders\<close>

definition ends_sentence :: "string \<Rightarrow> bool" where
  "ends_sentence t \<longleftrightarrow> t \<noteq> [] \<and> last t \<in> {CHR ''.'', CHR 0x21, CHR 0x3F}"

definition reminder_text :: "string \<Rightarrow> string" where
  "reminder_text text = (let t = trim_space text in ''Reminder: '' @ (if ends_sentence t then t else t @ ''.''))"

definition channel_post :: "channel_reminder \<Rightarrow> slackbot_post" where
  "channel_post v = \<lparr>sb_conversation = cr_channel v, sb_text = reminder_text (cr_text v),
     sb_key = ''later-reminder:'' @ cr_id v @ '':'' @ signed_decimal (unix_seconds (due_at (cr_timing v)))\<rparr>"

definition renew_reminder_item :: "string \<Rightarrow> duration \<Rightarrow> string \<Rightarrow> reminder_world \<Rightarrow> reminder_world \<times> service_error list" where
  "renew_reminder_item owner lease i w = (let (w, now) = rw_now w in rw_call (RRenew i) (renew_channel_reminder owner i lease now) w)"

definition post_reminder_item :: "slackbot_poster \<Rightarrow> channel_reminder \<Rightarrow> bool \<Rightarrow> reminder_world \<Rightarrow> reminder_world \<times> service_error list" where
  "post_reminder_item post v interrupted w =
     (let w = rw_act w; (s, r) = post interrupted (cr_workspace v) (cr_creator v) (channel_post v) (rw_store w);
          errs = (case r of Inl e \<Rightarrow> [e] | Inr _ \<Rightarrow> [])
      in (w\<lparr>rw_store := s, rw_log := rw_log w @ [(RPost (cr_id v), errs = [])]\<rparr>, errs))"

definition post_channel_reminder :: "slackbot_poster \<Rightarrow> string \<Rightarrow> duration \<Rightarrow> channel_reminder \<Rightarrow> reminder_world \<Rightarrow> reminder_world \<times> service_error list" where
  "post_channel_reminder post owner lease v w =
     while_held Interrupted (renew_reminder_item owner lease (cr_id v)) (case rw_ticks w of [] \<Rightarrow> 0 | n # _ \<Rightarrow> n)
       (post_reminder_item post v) (w\<lparr>rw_ticks := tl (rw_ticks w)\<rparr>)"

definition put_back_channel :: "string \<Rightarrow> duration \<Rightarrow> string \<Rightarrow> time \<Rightarrow> reminder_world \<Rightarrow> reminder_world \<times> service_error list" where
  "put_back_channel owner lease i at w = rw_call (RPutBack i) (release_channel_reminder owner i (at + lease) at) w"

text \<open>A post that was refused: recorded as failed where it is refused for good, put back otherwise.\<close>

definition channel_refused ::
  "channel_reminder reminder_events \<Rightarrow> string \<Rightarrow> duration \<Rightarrow> channel_reminder \<Rightarrow> service_error list \<Rightarrow> reminder_world
    \<Rightarrow> reminder_world \<times> bool \<times> service_error list" where
  "channel_refused build owner lease v post_err w =
     (let (w, at) = rw_now w; i = cr_id v; code = permanent_failure_code post_err;
          (w, recorded, failures) =
            (if code \<noteq> [] then
               (case build v ''channel_reminder.failed'' at 0 code of
                  None \<Rightarrow> (w, False, [Failure])
                | Some ev \<Rightarrow>
                    (let (w, mark_err) = rw_call (RFailed i code) (mark_channel_reminder_failed owner i code at ev) w in (w, mark_err = [], mark_err)))
             else (w, False, post_err))
      in if recorded then (w, True, failures)
         else let (w, release_err) = put_back_channel owner lease i at w in (w, False, failures @ release_err))"

definition channel_posted ::
  "(string \<Rightarrow> location option) \<Rightarrow> channel_reminder reminder_events \<Rightarrow> string \<Rightarrow> duration \<Rightarrow> channel_reminder \<Rightarrow> reminder_world
    \<Rightarrow> (reminder_world \<times> bool \<times> service_error list) option" where
  "channel_posted load build owner lease v w =
     (let (w, at) = rw_now w; i = cr_id v
      in case next_reminder_due load (cr_timing v) at of
           None \<Rightarrow> None
         | Some (Inl e) \<Rightarrow>
             (case build v ''channel_reminder.failed'' at 0 ''invalid_timezone'' of
                None \<Rightarrow> Some (w, False, [recurrence_failure e, Failure])
              | Some ev \<Rightarrow>
                  (let (w, mark_err) = rw_call (RFailed i ''invalid_timezone'') (mark_channel_reminder_failed owner i ''invalid_timezone'' at ev) w
                   in Some (w, mark_err = [], if mark_err = [] then [] else recurrence_failure e # mark_err)))
         | Some (Inr next_at) \<Rightarrow>
             (case build v ''channel_reminder.delivered'' at next_at [] of
                None \<Rightarrow> (let (w, release_err) = put_back_channel owner lease i at w in Some (w, False, Failure # release_err))
              | Some ev \<Rightarrow>
                  (let (w, mark_err) = rw_call (RDelivered i at) (mark_channel_reminder_delivered owner i at next_at ev) w
                   in Some (w, mark_err = [], mark_err))))"

definition deliver_channel ::
  "slackbot_poster \<Rightarrow> (string \<Rightarrow> location option) \<Rightarrow> channel_reminder reminder_events \<Rightarrow> string \<Rightarrow> duration \<Rightarrow> channel_reminder \<Rightarrow> reminder_world
    \<Rightarrow> (reminder_world \<times> bool \<times> service_error list) option" where
  "deliver_channel post load build owner lease v w =
     (let (w, post_err) = post_channel_reminder post owner lease v w
      in if post_err \<noteq> [] then Some (channel_refused build owner lease v post_err w)
         else channel_posted load build owner lease v w)"

definition run_channel_reminders ::
  "slackbot_poster \<Rightarrow> (string \<Rightarrow> location option) \<Rightarrow> channel_reminder reminder_events \<Rightarrow> string \<Rightarrow> int \<Rightarrow> duration \<Rightarrow> string \<Rightarrow> reminder_world
    \<Rightarrow> (reminder_world \<times> int \<times> service_error list) option" where
  "run_channel_reminders post load build owner limit lease workspace w =
     (let (w, now) = rw_now w; w = rw_act w
      in case claim_due_channel_reminders workspace owner limit lease now (rw_store w) of
           (s, Inl e) \<Rightarrow> Some (w\<lparr>rw_store := s\<rparr>, 0, [Stored e])
         | (s, Inr vs) \<Rightarrow> reminder_batch (deliver_channel post load build owner lease) vs 0 [] (w\<lparr>rw_store := s\<rparr>))"

definition run_reminders_once ::
  "slackbot_poster \<Rightarrow> (string \<Rightarrow> location option) \<Rightarrow> channel_reminder reminder_events \<Rightarrow> todo reminder_events \<Rightarrow> string \<Rightarrow> int \<Rightarrow> duration
    \<Rightarrow> string \<Rightarrow> reminder_world \<Rightarrow> (reminder_world \<times> int \<times> service_error list) option" where
  "run_reminders_once post load build_channel build_todo owner limit lease workspace w =
     (case run_channel_reminders post load build_channel owner limit lease workspace w of
        None \<Rightarrow> None
      | Some (w, channels, channel_err) \<Rightarrow>
          (case run_todo_reminders load build_todo owner limit lease workspace w of
             None \<Rightarrow> None
           | Some (w, todos, todo_err) \<Rightarrow> Some (w, channels + todos, channel_err @ todo_err)))"

subsection \<open>A run delivers what is due\<close>

text \<open>
  A recurring reminder whose series is known: its zone is in the database, keeps the reminder's time of
  day and counts its offsets in whole seconds, and the instant it is due is one of the series.
\<close>

definition placed :: "(string \<Rightarrow> location option) \<Rightarrow> reminder_timing \<Rightarrow> bool" where
  "placed load timing \<longleftrightarrow> recurs timing = Once \<or>
     (\<exists>loc f. let a = (if is_zero_time (anchored_at timing) then due_at timing else anchored_at timing); c = hour_minute loc a
        in load (if time_zone timing = [] then ''UTC'' else time_zone timing) = Some loc \<and> keeps_clock loc c \<and> (\<forall>t. loc t mod 1000000000 = 0)
           \<and> falls_on (recurs timing) [] (wall_day loc a) f f \<and> due_at timing = instant_of loc (f * day_ns + c) \<and> 0 < due_at timing)"

lemma instant_whole:
  assumes "\<forall>t. loc t mod 1000000000 = 0" "w mod 1000000000 = 0"
  shows "whole_seconds (instant_of loc w) = instant_of loc w"
proof -
  have "instant_of loc w mod 1000000000 = 0"
    using assms mod_diff_eq [of w 1000000000 "loc (w - loc w)"] by (simp add: instant_of_def Let_def)
  then show ?thesis by (simp add: whole_seconds_def)
qed

lemma hour_minute_whole: "(n * day_ns + hour_minute loc a) mod 1000000000 = 0"
  by (simp add: day_ns_def hour_minute_def minute_ns_def mod_add_eq [symmetric] mod_mult_right_eq [symmetric] del: mod_add_eq mod_mult_right_eq)

lemma next_of_placed:
  assumes "placed load timing" "recurs timing \<noteq> Once" "due_at timing \<le> at"
  obtains next_at where "next_reminder_due load timing at = Some (Inr next_at)" "at < next_at" "whole_seconds next_at = next_at"
proof -
  define a where "a = (if is_zero_time (anchored_at timing) then due_at timing else anchored_at timing)"
  obtain loc f where l: "load (if time_zone timing = [] then ''UTC'' else time_zone timing) = Some loc"
    "keeps_clock loc (hour_minute loc a)" "\<forall>t. loc t mod 1000000000 = 0" "falls_on (recurs timing) [] (wall_day loc a) f f"
    "due_at timing = instant_of loc (f * day_ns + hour_minute loc a)" "0 < due_at timing"
    using assms(1,2) unfolding placed_def Let_def a_def by blast
  obtain m where "next_reminder_due load timing at = Some (Inr (instant_of loc (m * day_ns + hour_minute loc a)))"
    "at < instant_of loc (m * day_ns + hour_minute loc a)"
    using first_of_series [of "recurs timing" load "time_zone timing" loc "anchored_at timing" "due_at timing" "[]" f at] assms(2) l
    unfolding next_reminder_due_def a_def by auto
  then show ?thesis using that instant_whole [OF l(3) hour_minute_whole] by blast
qed

lemma next_of_once: "recurs timing = Once \<Longrightarrow> next_reminder_due load timing at = Some (Inr 0)"
  by (simp add: next_reminder_due_def next_recurrence_def)

text \<open>What delivering a to-do's reminder at \<open>at\<close> makes of it.\<close>

definition moved_on :: "todo \<Rightarrow> todo \<Rightarrow> time \<Rightarrow> bool" where
  "moved_on v v' at \<longleftrightarrow> last_delivered (td_delivery v') = whole_seconds at
     \<and> (if recurs (td_timing v) = Once then td_timing v' = td_timing v else at < due_at (td_timing v'))"

lemma record_placed:
  assumes "placed load timing" "due_at timing \<le> at"
  obtains next_at timing' d' where "next_reminder_due load timing at = Some (Inr next_at)"
    "record_occurrence at next_at timing d = Inr (timing', d')" "last_delivered d' = whole_seconds at"
    "if recurs timing = Once then timing' = timing else at < due_at timing'"
proof (cases "recurs timing = Once")
  case True
  then show ?thesis using that [OF next_of_once] assms(2) by (simp add: record_occurrence_def)
next
  case False
  obtain next_at where n: "next_reminder_due load timing at = Some (Inr next_at)" "at < next_at" "whole_seconds next_at = next_at"
    using next_of_placed [OF assms(1) False assms(2)] .
  show ?thesis
  proof (cases "next_at = 0")
    case False
    then show ?thesis using that [OF n(1)] n(2,3) assms(2) \<open>recurs timing \<noteq> Once\<close> by (simp add: record_occurrence_def)
  next
    case True
    then show ?thesis using n assms False by (auto simp: placed_def)
  qed
qed

definition due_todo :: "string \<Rightarrow> time \<Rightarrow> reminder_store \<Rightarrow> string \<times> todo \<Rightarrow> bool" where
  "due_todo workspace now s = (\<lambda>(i, v). todo_awaits workspace v \<and> waiting (rs_todo_queue s) i (td_timing v) now)"

text \<open>A to-do the worker holds and whose reminder is due.\<close>

definition in_hand :: "(string \<Rightarrow> location option) \<Rightarrow> string \<Rightarrow> time \<Rightarrow> time \<Rightarrow> reminder_store \<Rightarrow> todo \<Rightarrow> bool" where
  "in_hand load owner now expires s v \<longleftrightarrow> map_of (rs_todos s) (td_id v) = Some v \<and> \<not> todo_done v \<and> pending (td_delivery v) (td_timing v)
     \<and> due_at (td_timing v) \<le> now \<and> placed load (td_timing v)
     \<and> q_leases (rs_todo_queue s) (td_id v) = Some \<lparr>le_owner = owner, le_expires = expires\<rparr>"

definition same_todo :: "reminder_store \<Rightarrow> reminder_store \<Rightarrow> string \<Rightarrow> bool" where
  "same_todo s s' i \<longleftrightarrow> map_of (rs_todos s') i = map_of (rs_todos s) i \<and> q_leases (rs_todo_queue s') i = q_leases (rs_todo_queue s) i
     \<and> q_next (rs_todo_queue s') i = q_next (rs_todo_queue s) i"

lemma same_todo_trans: "same_todo s s' i \<Longrightarrow> same_todo s' s'' i \<Longrightarrow> same_todo s s'' i"
  by (simp add: same_todo_def)

definition quiet :: "time \<Rightarrow> time \<Rightarrow> reminder_world \<Rightarrow> bool" where
  "quiet now expires w \<longleftrightarrow> rw_others w = [] \<and> rw_interrupts w = []
     \<and> (\<forall>n \<ge> rw_reads w. now \<le> rw_clock w n \<and> rw_clock w n < expires)"

lemma deliver_todo_delivers:
  assumes h: "in_hand load owner now expires (rw_store w) v" and q: "quiet now expires w" and o: "owner \<noteq> []" "0 < now"
    and b: "\<And>topic at next_at code. build v topic at next_at code \<noteq> None"
  obtains w' v' at where "deliver_todo load build owner lease v w = Some (w', True, [])" "quiet now expires w'"
    "map_of (rs_todos (rw_store w')) (td_id v) = Some v'" "moved_on v v' at" "now \<le> at"
    "\<And>i. i \<noteq> td_id v \<Longrightarrow> same_todo (rw_store w) (rw_store w') i"
proof -
  define at where "at = rw_clock w (rw_reads w)"
  have at: "now \<le> at" "at < expires" "at \<noteq> 0" using q o(2) by (auto simp: quiet_def at_def)
  have due: "due_at (td_timing v) \<le> at" "placed load (td_timing v)" using h at(1) by (auto simp: in_hand_def)
  obtain next_at timing' d' where r: "next_reminder_due load (td_timing v) at = Some (Inr next_at)"
    "record_occurrence at next_at (td_timing v) (td_delivery v) = Inr (timing', d')" "last_delivered d' = whole_seconds at"
    "if recurs (td_timing v) = Once then timing' = td_timing v else at < due_at timing'"
    using record_placed [OF due(2,1)] .
  obtain ev where ev: "build v ''todo.reminder_delivered'' at next_at [] = Some ev" using b by blast
  define v' where "v' = v\<lparr>td_timing := timing', td_delivery := d', td_updated := whole_seconds at\<rparr>"
  obtain s' where s': "mark_todo_reminder_delivered owner (td_id v) at next_at ev (rw_store w) = (s', None)"
    "rs_todos s' = AList.update (td_id v) v' (rs_todos (rw_store w))" "rs_todo_queue s' = forget (td_id v) (rs_todo_queue (rw_store w))"
    using h at o(1) r(2) by (simp add: mark_todo_reminder_delivered_def held_todo_def in_hand_def queue_holds_def Let_def v'_def)
  define w' where "w' = w\<lparr>rw_reads := rw_reads w + 1, rw_store := s', rw_log := rw_log w @ [(RDelivered (td_id v) at, True)]\<rparr>"
  show ?thesis
  proof (rule that)
    show "deliver_todo load build owner lease v w = Some (w', True, [])"
      using q r(1) ev s'(1)
      by (simp add: deliver_todo_def rw_now_def at_def [symmetric] rw_call_def rw_act_def quiet_def as_errors_def Let_def w'_def)
    show "quiet now expires w'" using q by (simp add: quiet_def w'_def)
    show "map_of (rs_todos (rw_store w')) (td_id v) = Some v'" by (simp add: w'_def s'(2) update_conv')
    show "moved_on v v' at" using r(3,4) by (simp add: moved_on_def v'_def)
    show "now \<le> at" by (rule at(1))
    show "same_todo (rw_store w) (rw_store w') i" if "i \<noteq> td_id v" for i
      using that by (simp add: same_todo_def w'_def s'(2,3) update_conv' forget_def)
  qed
qed

lemma in_hand_kept: "in_hand load owner now expires s v \<Longrightarrow> same_todo s s' (td_id v) \<Longrightarrow> in_hand load owner now expires s' v"
  by (simp add: in_hand_def same_todo_def)

lemma batch_delivers:
  assumes "\<forall>v \<in> set vs. in_hand load owner now expires (rw_store w) v" "distinct (map td_id vs)" "quiet now expires w" "owner \<noteq> []" "0 < now"
    and "\<And>v topic at next_at code. build v topic at next_at code \<noteq> None"
  obtains w' where "reminder_batch (deliver_todo load build owner lease) vs completed [] w = Some (w', completed + int (length vs), [])"
    "quiet now expires w'" "\<forall>v \<in> set vs. \<exists>v' at. map_of (rs_todos (rw_store w')) (td_id v) = Some v' \<and> moved_on v v' at \<and> now \<le> at"
    "\<forall>i. i \<notin> td_id ` set vs \<longrightarrow> same_todo (rw_store w) (rw_store w') i"
  using assms(1-3)
proof (induction vs arbitrary: completed w thesis)
  case Nil
  then show ?case by (simp add: same_todo_def)
next
  case (Cons v vs)
  let ?w = "w\<lparr>rw_interrupts := []\<rparr>"
  have w: "?w = w" using Cons.prems(4) by (simp add: quiet_def)
  obtain w1 v1 at where one: "deliver_todo load build owner lease v w = Some (w1, True, [])" "quiet now expires w1"
    "map_of (rs_todos (rw_store w1)) (td_id v) = Some v1" "moved_on v v1 at" "now \<le> at"
    "\<And>i. i \<noteq> td_id v \<Longrightarrow> same_todo (rw_store w) (rw_store w1) i"
    using deliver_todo_delivers [of load owner now expires w v build lease] Cons.prems(2,4) assms(4-6) by auto
  have distinct: "distinct (map td_id vs)" using Cons.prems(3) by simp
  have "\<forall>u \<in> set vs. in_hand load owner now expires (rw_store w1) u"
  proof
    fix u assume u: "u \<in> set vs"
    then have "td_id u \<noteq> td_id v" using Cons.prems(3) by (auto simp: image_iff)
    then show "in_hand load owner now expires (rw_store w1) u" using in_hand_kept [OF _ one(6)] Cons.prems(2) u by simp
  qed
  then obtain w' where rest: "reminder_batch (deliver_todo load build owner lease) vs (completed + 1) [] w1 = Some (w', completed + 1 + int (length vs), [])"
    "quiet now expires w'" "\<forall>u \<in> set vs. \<exists>v' at. map_of (rs_todos (rw_store w')) (td_id u) = Some v' \<and> moved_on u v' at \<and> now \<le> at"
    "\<forall>i. i \<notin> td_id ` set vs \<longrightarrow> same_todo (rw_store w1) (rw_store w') i"
    using Cons.IH [where w = w1 and completed = "completed + 1"] distinct one(2) by blast
  have one': "deliver_todo load build owner lease v ?w = Some (w1, True, [])" unfolding w by (rule one(1))
  show ?case
  proof (rule Cons.prems(1))
    show "reminder_batch (deliver_todo load build owner lease) (v # vs) completed [] w = Some (w', completed + int (length (v # vs)), [])"
      using Cons.prems(4) one' rest(1) by (simp add: quiet_def Let_def)
    show "quiet now expires w'" by (rule rest(2))
    have "same_todo (rw_store w1) (rw_store w') (td_id v)" using rest(4) Cons.prems(3) by auto
    then have "map_of (rs_todos (rw_store w')) (td_id v) = Some v1" using one(3) by (simp add: same_todo_def)
    then show "\<forall>u \<in> set (v # vs). \<exists>v' at. map_of (rs_todos (rw_store w')) (td_id u) = Some v' \<and> moved_on u v' at \<and> now \<le> at"
      using rest(3) one(4,5) by auto
    show "\<forall>i. i \<notin> td_id ` set (v # vs) \<longrightarrow> same_todo (rw_store w) (rw_store w') i"
      using rest(4) one(6) same_todo_trans by fastforce
  qed
qed

text \<open>What a claim that covers everything due hands out.\<close>

lemma claim_all_due:
  assumes "reminders_sound s" "owner \<noteq> []" "0 < limit" "0 < lease" "0 < now"
    and "length (filter (due_todo workspace now s) (rs_todos s)) \<le> nat limit"
  obtains vs s' where "claim_due_todo_reminders workspace owner limit lease now s = (s', Inr vs)"
    "length vs = length (filter (due_todo workspace now s) (rs_todos s))" "distinct (map td_id vs)"
    "set vs = snd ` set (filter (due_todo workspace now s) (rs_todos s))"
    "rs_todos s' = rs_todos s" "rs_todo_queue s' = lease_all owner (second_ceil (now + lease)) (map td_id vs) (rs_todo_queue s)"
proof -
  let ?due = "filter (due_todo workspace now s) (rs_todos s)" and ?key = "\<lambda>v. (due_at (td_timing v), td_id v)"
  define vs where "vs = sort_key ?key (map snd ?due)"
  have rows: "distinct (map fst (rs_todos s))" "list_all (\<lambda>(i, v). td_id v = i) (rs_todos s)"
    using assms(1) by (auto simp: reminders_sound_def sound_rows_def list_all_iff)
  have "map td_id (map snd ?due) = map fst ?due" using rows(2) by (induction "rs_todos s") (auto simp: list_all_iff)
  then have "distinct (map td_id (map snd ?due))" using rows(1) by (metis distinct_map_filter)
  then have "distinct (map snd ?due) \<and> inj_on td_id (set (map snd ?due))" unfolding distinct_map [of td_id] .
  then have d: "distinct (map td_id vs)" unfolding distinct_map [of td_id] vs_def distinct_sort set_sort .
  have "take (nat limit) vs = vs" using assms(6) by (simp add: vs_def)
  then have "claim_due_todo_reminders workspace owner limit lease now s
      = (s\<lparr>rs_todo_queue := lease_all owner (second_ceil (now + lease)) (map td_id vs) (rs_todo_queue s)\<rparr>, Inr vs)"
    using assms(2-5) by (simp add: claim_due_todo_reminders_def Let_def vs_def due_todo_def)
  then show ?thesis using that d by (simp add: vs_def)
qed

lemma moved_on_not_due:
  assumes "moved_on v v' at" "now \<le> at" "whole_seconds (due_at (td_timing v)) = due_at (td_timing v)" "due_at (td_timing v) \<le> now"
  shows "\<not> (todo_awaits workspace v' \<and> waiting q i (td_timing v') now)"
proof (cases "recurs (td_timing v) = Once")
  case True
  have "due_at (td_timing v) \<le> whole_seconds at" using whole_seconds_mono [of "due_at (td_timing v)" at] assms(2-4) by simp
  then show ?thesis using assms(1) True by (simp add: moved_on_def todo_awaits_def pending_def)
next
  case False
  then show ?thesis using assms(1,2) by (simp add: moved_on_def waiting_def)
qed

text \<open>
  C39. A run of the reminder worker over to-dos ends, whatever the recurrences, and delivers each reminder
  that was due when it claimed: once for a one-time reminder, and a recurring one is moved to an instant
  after its delivery, however many of its occurrences were missed. Nothing that was due is left. Taken
  for granted are a limit not below the number due, a lease that outlasts the run, known time zones and
  nobody else at work.
\<close>

theorem todo_run_leaves_nothing_due:
  fixes w :: reminder_world
  defines "now \<equiv> rw_clock w (rw_reads w)"
  assumes "reminders_sound (rw_store w)" "owner \<noteq> []" "0 < limit" "0 < lease" "0 < now"
    and "rw_others w = []" "rw_interrupts w = []"
    and "\<forall>n \<ge> rw_reads w. now \<le> rw_clock w n \<and> rw_clock w n < now + lease"
    and "\<forall>v topic at next_at code. build v topic at next_at code \<noteq> None"
    and "\<forall>(i, v) \<in> set (rs_todos (rw_store w)). due_todo workspace now (rw_store w) (i, v) \<longrightarrow> placed load (td_timing v)"
    and "length (filter (due_todo workspace now (rw_store w)) (rs_todos (rw_store w))) \<le> nat limit"
  shows "\<exists>w'. run_todo_reminders load build owner limit lease workspace w
        = Some (w', int (length (filter (due_todo workspace now (rw_store w)) (rs_todos (rw_store w)))), [])
      \<and> (\<forall>(i, v) \<in> set (rs_todos (rw_store w)). due_todo workspace now (rw_store w) (i, v) \<longrightarrow>
            (\<exists>v' at. map_of (rs_todos (rw_store w')) i = Some v' \<and> moved_on v v' at \<and> now \<le> at))
      \<and> (\<forall>i v. map_of (rs_todos (rw_store w')) i = Some v \<longrightarrow> \<not> due_todo workspace now (rw_store w') (i, v))"
proof -
  obtain vs s' where vs: "claim_due_todo_reminders workspace owner limit lease now (rw_store w) = (s', Inr vs)"
    "length vs = length (filter (due_todo workspace now (rw_store w)) (rs_todos (rw_store w)))" "distinct (map td_id vs)"
    "set vs = snd ` set (filter (due_todo workspace now (rw_store w)) (rs_todos (rw_store w)))"
    "rs_todos s' = rs_todos (rw_store w)"
    "rs_todo_queue s' = lease_all owner (second_ceil (now + lease)) (map td_id vs) (rs_todo_queue (rw_store w))"
    using claim_all_due [OF assms(2-6,12)] .
  have row: "map_of (rs_todos (rw_store w)) i = Some v" "td_id v = i" "whole_seconds (due_at (td_timing v)) = due_at (td_timing v)"
    if "(i, v) \<in> set (rs_todos (rw_store w))" for i v
    using assms(2) that by (auto simp: reminders_sound_def sound_rows_def list_all_iff)
  have claimed: "map_of (rs_todos (rw_store w)) (td_id v) = Some v \<and> due_todo workspace now (rw_store w) (td_id v, v)
      \<and> whole_seconds (due_at (td_timing v)) = due_at (td_timing v) \<and> placed load (td_timing v)" if "v \<in> set vs" for v
    using that vs(4) row assms(11) by fastforce
  let ?w = "w\<lparr>rw_reads := rw_reads w + 1, rw_store := s'\<rparr>"
  have hand: "\<forall>v \<in> set vs. in_hand load owner now (second_ceil (now + lease)) (rw_store ?w) v"
  proof
    fix v assume v: "v \<in> set vs"
    then show "in_hand load owner now (second_ceil (now + lease)) (rw_store ?w) v"
      using claimed [OF v] by (simp add: in_hand_def vs(5,6) lease_all_leases due_todo_def todo_awaits_def waiting_def)
  qed
  have "quiet now (second_ceil (now + lease)) ?w" using assms(7-9) second_ceil_ge [of "now + lease"]
    unfolding quiet_def by simp (meson Suc_leD order_less_le_trans)
  then obtain w' where w': "reminder_batch (deliver_todo load build owner lease) vs 0 [] ?w = Some (w', int (length vs), [])"
    "\<forall>v \<in> set vs. \<exists>v' at. map_of (rs_todos (rw_store w')) (td_id v) = Some v' \<and> moved_on v v' at \<and> now \<le> at"
    "\<forall>i. i \<notin> td_id ` set vs \<longrightarrow> same_todo (rw_store ?w) (rw_store w') i"
    using batch_delivers [OF hand vs(3) _ assms(3,6), of build lease 0] assms(10) by (metis add_0)
  have run: "run_todo_reminders load build owner limit lease workspace w = Some (w', int (length vs), [])"
    using vs(1) w'(1) assms(7) by (simp add: run_todo_reminders_def rw_now_def rw_act_def now_def [symmetric])
  have none: "\<not> due_todo workspace now (rw_store w') (i, v')" if v': "map_of (rs_todos (rw_store w')) i = Some v'" for i v'
  proof (cases "i \<in> td_id ` set vs")
    case True
    then obtain v at where v: "v \<in> set vs" "td_id v = i" "moved_on v v' at" "now \<le> at" using w'(2) v' by fastforce
    then show ?thesis using claimed [OF v(1)] moved_on_not_due [OF v(3,4)] by (auto simp: due_todo_def waiting_def)
  next
    case False
    then have same: "same_todo (rw_store w) (rw_store w') i"
      using w'(3) by (auto simp: same_todo_def vs(5,6) lease_all_leases) (simp_all add: lease_all_def)
    then have v: "map_of (rs_todos (rw_store w)) i = Some v'" using v' by (simp add: same_todo_def)
    then have "(i, v') \<in> set (rs_todos (rw_store w))" by (rule map_of_SomeD)
    moreover have "i \<in> td_id ` set vs" if "due_todo workspace now (rw_store w) (i, v')" "(i, v') \<in> set (rs_todos (rw_store w))"
      unfolding vs(4) using that row(2) [OF that(2)] by (auto simp: image_iff)
    ultimately have "\<not> due_todo workspace now (rw_store w) (i, v')" using False by blast
    then show ?thesis using same by (simp add: due_todo_def waiting_def leased_def next_of_def same_todo_def)
  qed
  show ?thesis
  proof (intro exI [of _ w'] conjI ballI allI impI)
    show "run_todo_reminders load build owner limit lease workspace w
        = Some (w', int (length (filter (due_todo workspace now (rw_store w)) (rs_todos (rw_store w)))), [])"
      using run vs(2) by simp
    show "case p of (i, v) \<Rightarrow> due_todo workspace now (rw_store w) (i, v) \<longrightarrow>
        (\<exists>v' at. map_of (rs_todos (rw_store w')) i = Some v' \<and> moved_on v v' at \<and> now \<le> at)" if p: "p \<in> set (rs_todos (rw_store w))" for p
    proof (cases p)
      case (Pair i v)
      have "\<exists>v' at. map_of (rs_todos (rw_store w')) i = Some v' \<and> moved_on v v' at \<and> now \<le> at"
        if "due_todo workspace now (rw_store w) (i, v)"
      proof -
        have "v \<in> set vs" unfolding vs(4) using p Pair that by (auto intro: rev_image_eqI)
        then show ?thesis using w'(2) row(2) [of i v] p Pair by blast
      qed
      then show ?thesis using Pair by simp
    qed
  qed (rule none)
qed

text \<open>The daily to-do of before, found due five seconds late by a worker alone.\<close>

lemma utc_keeps_every_clock: "keeps_clock utc c"
  by (simp add: keeps_clock_def wall_def instant_of_def utc_def day_ns_def)

definition lone_worker :: reminder_world where
  "lone_worker = \<lparr>rw_store = (empty_reminders new_store)\<lparr>rs_todos := [(''T'', daily_todo)]\<rparr>, rw_clock = (\<lambda>_. 63845566205000000000),
     rw_reads = 0, rw_others = [], rw_interrupts = [], rw_ticks = [], rw_log = []\<rparr>"

lemma daily_todo_placed: "placed (\<lambda>_. Some utc) (td_timing daily_todo)"
  unfolding placed_def
  by (intro disjI2 exI [of _ utc] exI [of _ "738953::int"])
    (simp add: daily_todo_def utc_keeps_every_clock falls_on_def instant_of_def utc_def hour_minute_def wall_clock_def wall_def
      day_ns_def minute_ns_def Let_def)

lemma lone_worker_facts:
  "rw_clock lone_worker (rw_reads lone_worker) = 63845566205000000000" "rs_todos (rw_store lone_worker) = [(''T'', daily_todo)]"
  "due_todo ''W'' 63845566205000000000 (rw_store lone_worker) (''T'', daily_todo)" "reminders_sound (rw_store lone_worker)"
  by (simp_all add: lone_worker_def due_todo_def todo_awaits_def todo_done_def pending_def is_scheduled_def waiting_def next_of_def leased_def
      empty_reminders_def empty_queue_def no_delivery_def daily_todo_def reminders_sound_def sound_rows_def whole_seconds_def)

lemma todo_run_leaves_nothing_due_witness:
  "\<exists>w' v' at. run_todo_reminders (\<lambda>_. Some utc) (\<lambda>v topic at next_at code. Some sample_event) ''a'' 10 60000000000 ''W'' lone_worker = Some (w', 1, [])
     \<and> map_of (rs_todos (rw_store w')) ''T'' = Some v' \<and> moved_on daily_todo v' at"
  using todo_run_leaves_nothing_due [of lone_worker "''a''" 10 60000000000 "\<lambda>v topic at next_at code. Some sample_event" "''W''" "\<lambda>_. Some utc"]
    daily_todo_placed lone_worker_facts
  by (auto simp: lone_worker_def)

end
