(* ===== verification/App_Reminders.thy ===== *)
theory App_Reminders
  imports Reminder_Worker
begin

section \<open>Reminders set through the Web API\<close>

text \<open>
  The reminders of \<^verbatim>\<open>reminders.add\<close>: their rows in \<^verbatim>\<open>internal/store/memory/memory.go\<close> and the worker of
  \<^verbatim>\<open>internal/scheduler/reminder_delivery.go\<close>, whose claim is the mark: there is no lease. The time
  zones, the builder of events, the builder of the blocks (\<open>None\<close> is its error) and the poster are
  arguments, and before each call the others act.
\<close>

record app_reminder =
  ar_workspace :: string
  ar_id :: string
  ar_creator :: string
  ar_user :: string
  ar_text :: string
  ar_time :: time
  ar_complete :: time
  ar_recurring :: bool
  ar_recurrence :: recurrence
  ar_zone :: string
  ar_anchor :: time
  ar_weekdays :: "int list"

record app_store =
  as_chat :: chat
  as_reminders :: "(string \<times> app_reminder) list"
  as_delivered :: "string \<rightharpoonup> time"

definition as_log :: "event \<Rightarrow> app_store \<Rightarrow> app_store" where
  "as_log ev s = s\<lparr>as_chat := (as_chat s)\<lparr>chat_outbox := chat_outbox (as_chat s) @ [ev]\<rparr>\<rparr>"

definition as_put :: "string \<Rightarrow> app_reminder \<Rightarrow> app_store \<Rightarrow> app_store" where
  "as_put i v s = s\<lparr>as_reminders := AList.update i v (as_reminders s)\<rparr>"

definition undelivered_yet :: "app_store \<Rightarrow> string \<Rightarrow> bool" where
  "undelivered_yet s i = (case as_delivered s i of None \<Rightarrow> True | Some t \<Rightarrow> is_zero_time t)"

definition create_reminder :: "app_reminder \<Rightarrow> event \<Rightarrow> app_store \<Rightarrow> app_store \<times> store_error option" where
  "create_reminder v ev s =
     (if (case users (as_chat s) (ar_user v) of None \<Rightarrow> True | Some a \<Rightarrow> account_workspace a \<noteq> ar_workspace v \<or> account_deleted a)
      then (s, Some NotFound)
      else if map_of (as_reminders s) (ar_id v) \<noteq> None then (s, Some AlreadyExists)
      else (as_log ev (as_put (ar_id v) (if ar_zone v = [] then v\<lparr>ar_zone := ''UTC''\<rparr> else v) s), None))"

definition get_reminder :: "string \<Rightarrow> string \<Rightarrow> string \<Rightarrow> app_store \<Rightarrow> store_error + app_reminder" where
  "get_reminder workspace user i s = (case map_of (as_reminders s) i of
     None \<Rightarrow> Inl NotFound | Some v \<Rightarrow> if ar_workspace v \<noteq> workspace \<or> ar_user v \<noteq> user then Inl NotFound else Inr v)"

definition reminder_in_workspace :: "string \<Rightarrow> string \<Rightarrow> app_store \<Rightarrow> store_error + app_reminder" where
  "reminder_in_workspace workspace i s = (case map_of (as_reminders s) i of
     None \<Rightarrow> Inl NotFound | Some v \<Rightarrow> if ar_workspace v \<noteq> workspace then Inl NotFound else Inr v)"

definition complete_reminder :: "string \<Rightarrow> string \<Rightarrow> string \<Rightarrow> time \<Rightarrow> event \<Rightarrow> app_store \<Rightarrow> app_store \<times> store_error option" where
  "complete_reminder workspace user i at ev s = (case get_reminder workspace user i s of
     Inl e \<Rightarrow> (s, Some e) | Inr v \<Rightarrow> (as_log ev (as_put i (v\<lparr>ar_complete := at\<rparr>) s), None))"

definition delete_reminder :: "string \<Rightarrow> string \<Rightarrow> string \<Rightarrow> event \<Rightarrow> app_store \<Rightarrow> app_store \<times> store_error option" where
  "delete_reminder workspace user i ev s = (case get_reminder workspace user i s of
     Inl e \<Rightarrow> (s, Some e) | Inr v \<Rightarrow> (as_log ev (s\<lparr>as_reminders := AList.delete i (as_reminders s)\<rparr>), None))"

definition reminder_open :: "string \<Rightarrow> app_store \<Rightarrow> string \<times> app_reminder \<Rightarrow> bool" where
  "reminder_open workspace s = (\<lambda>(i, v). \<not> (workspace \<noteq> [] \<and> ar_workspace v \<noteq> workspace) \<and> undelivered_yet s i \<and> is_zero_time (ar_complete v))"

definition due_reminders :: "string \<Rightarrow> time \<Rightarrow> int \<Rightarrow> app_store \<Rightarrow> store_error + app_reminder list" where
  "due_reminders workspace now limit s =
     (if limit \<le> 0 \<or> is_zero_time now then Inl InvalidArgument
      else Inr (take (nat limit) (sort_key (\<lambda>v. (ar_time v, ar_id v))
             (map snd (filter (\<lambda>p. reminder_open workspace s p \<and> \<not> ar_time (snd p) > now) (as_reminders s))))))"

definition mark_reminder_delivered :: "string \<Rightarrow> string \<Rightarrow> time \<Rightarrow> time \<Rightarrow> event \<Rightarrow> app_store \<Rightarrow> app_store \<times> bool" where
  "mark_reminder_delivered workspace i at next_at ev s =
     (case map_of (as_reminders s) i of
        None \<Rightarrow> (s, False)
      | Some v \<Rightarrow>
          if ar_workspace v \<noteq> workspace \<or> \<not> undelivered_yet s i \<or> ar_time v > at then (s, False)
          else if is_zero_time next_at then (as_log ev (s\<lparr>as_delivered := (as_delivered s)(i \<mapsto> at)\<rparr>), True)
          else (as_log ev (as_put i (v\<lparr>ar_time := next_at - next_at mod 1000000000\<rparr>) s), True))"

definition earliest_reminder :: "string \<Rightarrow> app_store \<Rightarrow> time" where
  "earliest_reminder workspace s =
     fold (\<lambda>p earliest. if reminder_open workspace s p then earlier_of (ar_time (snd p)) earliest else earliest) (as_reminders s) 0"

subsection \<open>The worker\<close>

record app_world =
  aw_store :: app_store
  aw_others :: "(app_store \<Rightarrow> app_store) list"
  aw_interrupts :: "bool list"
  aw_posts :: "(string \<times> bool) list"

definition aw_act :: "app_world \<Rightarrow> app_world" where
  "aw_act w = (case aw_others w of [] \<Rightarrow> w | f # fs \<Rightarrow> w\<lparr>aw_others := fs, aw_store := f (aw_store w)\<rparr>)"

type_synonym app_poster = "string \<Rightarrow> string \<Rightarrow> string \<Rightarrow> string \<Rightarrow> string \<Rightarrow> app_store \<Rightarrow> app_store \<times> (service_error + message)"

definition deliver_app_reminder ::
  "(string \<Rightarrow> location option) \<Rightarrow> (app_reminder \<Rightarrow> time \<Rightarrow> event option) \<Rightarrow> (string \<Rightarrow> string \<Rightarrow> bool \<Rightarrow> string option) \<Rightarrow> app_poster
    \<Rightarrow> time \<Rightarrow> app_reminder \<Rightarrow> app_world \<Rightarrow> (app_world \<times> bool \<times> service_error list) option" where
  "deliver_app_reminder load build blocks post now v w =
     (case build v now of
        None \<Rightarrow> Some (w, False, [Failure])
      | Some ev \<Rightarrow>
          (case next_recurrence load (ar_recurrence v) (ar_weekdays v) (ar_zone v) (ar_anchor v) (ar_time v) now of
             None \<Rightarrow> None
           | Some (Inl e) \<Rightarrow> Some (w, False, [recurrence_failure e])
           | Some (Inr next_at) \<Rightarrow>
               (case blocks (reminder_text (ar_text v)) (ar_id v) (ar_recurring v) of
                  None \<Rightarrow> Some (w, False, [Failure])
                | Some b \<Rightarrow>
                    (let w = aw_act w;
                         (s, r) = post (ar_workspace v) (ar_user v) (reminder_text (ar_text v)) b
                           (''reminder:'' @ ar_id v @ '':'' @ signed_decimal (unix_seconds (ar_time v))) (aw_store w);
                         errs = (case r of Inl e \<Rightarrow> [e] | Inr _ \<Rightarrow> []);
                         w = w\<lparr>aw_store := s, aw_posts := aw_posts w @ [(ar_id v, errs = [])]\<rparr>
                     in if errs \<noteq> [] \<and> permanent_failure_code errs = [] then Some (w, False, errs)
                        else
                          let w = aw_act w; (s, claimed) = mark_reminder_delivered (ar_workspace v) (ar_id v) now next_at ev (aw_store w)
                          in Some (w\<lparr>aw_store := s\<rparr>, claimed, [])))))"

fun app_batch ::
  "(app_reminder \<Rightarrow> app_world \<Rightarrow> (app_world \<times> bool \<times> service_error list) option) \<Rightarrow> app_reminder list \<Rightarrow> int \<Rightarrow> service_error list \<Rightarrow> app_world
    \<Rightarrow> (app_world \<times> int \<times> service_error list) option" where
  "app_batch deliver [] n failures w = Some (w, n, failures)"
| "app_batch deliver (v # vs) n failures w =
     (let interrupted = (case aw_interrupts w of [] \<Rightarrow> False | b # _ \<Rightarrow> b);
          w = w\<lparr>aw_interrupts := tl (aw_interrupts w)\<rparr>
      in if interrupted then Some (w, n, failures @ [Interrupted])
      else case deliver v w of
          None \<Rightarrow> None
        | Some (w, claimed, errs) \<Rightarrow> app_batch deliver vs (if claimed then n + 1 else n) (failures @ errs) w)"

definition run_app_reminders_at ::
  "(string \<Rightarrow> location option) \<Rightarrow> (app_reminder \<Rightarrow> time \<Rightarrow> event option) \<Rightarrow> (string \<Rightarrow> string \<Rightarrow> bool \<Rightarrow> string option) \<Rightarrow> app_poster
    \<Rightarrow> int \<Rightarrow> string \<Rightarrow> time \<Rightarrow> app_world \<Rightarrow> (app_world \<times> int \<times> service_error list) option" where
  "run_app_reminders_at load build blocks post limit workspace at w =
     (let now = at - at mod 1000000000; w = aw_act w
      in case due_reminders workspace now limit (aw_store w) of
           Inl e \<Rightarrow> Some (w, 0, [Stored e])
         | Inr vs \<Rightarrow> app_batch (deliver_app_reminder load build blocks post now) vs 0 [] w)"

subsection \<open>The claim is the mark\<close>

text \<open>
  After one worker has marked an occurrence, another that read it in the same batch marks nothing, as long
  as its instant is before the next occurrence.
\<close>

lemma occurrence_marked_once:
  assumes "mark_reminder_delivered workspace i at next_at ev s = (s', True)"
    and "if is_zero_time next_at then at \<noteq> 0 else at' < next_at - next_at mod 1000000000"
  shows "mark_reminder_delivered workspace i at' next_at' ev' s' = (s', False)"
proof -
  define n where "n = next_at - next_at mod 1000000000"
  obtain v where v: "map_of (as_reminders s) i = Some v" "undelivered_yet s i"
    "s' = (if next_at = 0 then as_log ev (s\<lparr>as_delivered := (as_delivered s)(i \<mapsto> at)\<rparr>) else as_log ev (as_put i (v\<lparr>ar_time := n\<rparr>) s))"
    using assms(1) unfolding mark_reminder_delivered_def n_def by (auto split: option.splits if_splits)
  show ?thesis
  proof (cases "next_at = 0")
    case True
    then have "\<not> undelivered_yet s' i" using assms(2) v(3) by (simp add: undelivered_yet_def as_log_def)
    then show ?thesis by (simp add: mark_reminder_delivered_def split: option.split)
  next
    case False
    then have "map_of (as_reminders s') i = Some (v\<lparr>ar_time := n\<rparr>)" using v(3) by (simp add: as_log_def as_put_def update_conv')
    moreover have "at' < n" using assms(2) False by (simp add: n_def)
    ultimately show ?thesis by (simp add: mark_reminder_delivered_def)
  qed
qed

subsection \<open>Where the clock skips midnight\<close>

text \<open>
  A weekend reminder in Santiago at half past midnight: once it is due on the Saturday before the change,
  the run of the worker never ends, and nothing behind it in the batch is delivered.
\<close>

definition weekend_reminder :: app_reminder where
  "weekend_reminder = \<lparr>ar_workspace = ''W'', ar_id = ''R'', ar_creator = ''U'', ar_user = ''U'', ar_text = ''stretch'',
     ar_time = clock_time santiago_2024 2024 9 7 (hours 1 div 2), ar_complete = 0, ar_recurring = True, ar_recurrence = Weekly,
     ar_zone = ''America/Santiago'', ar_anchor = clock_time santiago_2024 2024 9 7 (hours 1 div 2), ar_weekdays = [0, 6]\<rparr>"

lemma weekend_reminder_stops_the_worker:
  assumes "ar_time weekend_reminder \<le> now" "\<And>v. build v now \<noteq> None" "aw_interrupts w = []"
  shows "app_batch (deliver_app_reminder (\<lambda>_. Some santiago_2024) build blocks post now) (weekend_reminder # vs) n failures w = None"
proof -
  obtain ev where "build weekend_reminder now = Some ev" using assms(2) by blast
  moreover have "next_recurrence (\<lambda>z. Some santiago_2024) Weekly [0, 6] ''America/Santiago'' (ar_time weekend_reminder) (ar_time weekend_reminder) now = None"
    using weekend_reminder_never_advances assms(1) by (simp add: weekend_reminder_def)
  ultimately have "deliver_app_reminder (\<lambda>_. Some santiago_2024) build blocks post now weekend_reminder u = None" for u
    by (simp add: deliver_app_reminder_def weekend_reminder_def)
  then show ?thesis using assms(3) by (simp add: Let_def)
qed

end
