(* ===== verification/Wake_Deadline.thy ===== *)
theory Wake_Deadline
  imports App_Reminders Lifecycle
begin

section \<open>When a hibernated stack must be awake again\<close>

text \<open>
  \<^verbatim>\<open>internal/scheduler/deadline.go\<close>: the worker publishes the earliest instant any of its timers needs, against
  the generation it read; \<^verbatim>\<open>cmd/activator/main.go\<close>: the handler that records it and the loop that wakes a
  hibernated stack in time. The store's timers are those of the theories before, with the three tables
  read only here. Between two reads the others act, and a read may fail. The request to the activator is
  carried exactly; the generation it was fenced with, or that it could not be read, is an argument.
\<close>

record status_holder =
  sh_workspace :: string
  sh_deleted :: bool
  sh_expiration :: time

record future_status =
  fs_workspace :: string
  fs_starts :: time

record workflow_trigger =
  wt_workspace :: string
  wt_scheduled :: bool
  wt_enabled :: bool
  wt_next_run :: time

record timers =
  tm_chat :: chat
  tm_reminders :: reminder_store
  tm_apps :: app_store
  tm_users :: "status_holder list"
  tm_statuses :: "future_status list"
  tm_triggers :: "workflow_trigger list"

definition in_scope :: "string \<Rightarrow> string \<Rightarrow> bool" where
  "in_scope workspace w \<longleftrightarrow> workspace = [] \<or> w = workspace"

definition status_awaits :: "string \<Rightarrow> status_holder \<Rightarrow> bool" where
  "status_awaits workspace u \<longleftrightarrow> \<not> sh_deleted u \<and> \<not> is_zero_time (sh_expiration u) \<and> in_scope workspace (sh_workspace u)"

definition earliest_user_status_expiration :: "string \<Rightarrow> timers \<Rightarrow> time" where
  "earliest_user_status_expiration workspace t =
     fold (\<lambda>u earliest. if status_awaits workspace u then earlier_of (sh_expiration u) earliest else earliest) (tm_users t) 0"

definition earliest_scheduled_status_start :: "string \<Rightarrow> timers \<Rightarrow> time" where
  "earliest_scheduled_status_start workspace t =
     fold (\<lambda>v earliest. if in_scope workspace (fs_workspace v) then earlier_of (fs_starts v) earliest else earliest) (tm_statuses t) 0"

definition trigger_awaits :: "string \<Rightarrow> workflow_trigger \<Rightarrow> bool" where
  "trigger_awaits workspace v \<longleftrightarrow> wt_scheduled v \<and> wt_enabled v \<and> \<not> is_zero_time (wt_next_run v) \<and> in_scope workspace (wt_workspace v)"

definition earliest_scheduled_workflow_trigger :: "string \<Rightarrow> timers \<Rightarrow> time" where
  "earliest_scheduled_workflow_trigger workspace t =
     fold (\<lambda>v earliest. if trigger_awaits workspace v then earlier_of (wt_next_run v) earliest else earliest) (tm_triggers t) 0"

subsection \<open>Reading and publishing\<close>

datatype publish_error = NoFence | ReadFailed | BadRequest | Refused_Status nat

record timer_world =
  tw_timers :: timers
  tw_others :: "(timers \<Rightarrow> timers) list"
  tw_faults :: "bool list"

type_synonym timer_read = "timer_world \<Rightarrow> timer_world \<times> time option"

definition read_timer :: "(timers \<Rightarrow> time) \<Rightarrow> timer_read" where
  "read_timer f w =
     (let w = (case tw_others w of [] \<Rightarrow> w | g # gs \<Rightarrow> w\<lparr>tw_others := gs, tw_timers := g (tw_timers w)\<rparr>);
          fault = (case tw_faults w of [] \<Rightarrow> False | b # _ \<Rightarrow> b)
      in (w\<lparr>tw_faults := tl (tw_faults w)\<rparr>, if fault then None else Some (f (tw_timers w))))"

definition read_scheduled :: "string \<Rightarrow> timer_read" where
  "read_scheduled workspace = read_timer (\<lambda>t. earliest_scheduled_message workspace (tm_chat t))"

definition first_party_of :: "time \<Rightarrow> time \<Rightarrow> time" where
  "first_party_of todo_at channel_at =
     (if is_zero_time todo_at \<or> (\<not> is_zero_time channel_at \<and> channel_at < todo_at) then channel_at else todo_at)"

definition read_first_party :: "string \<Rightarrow> timer_read" where
  "read_first_party workspace w =
     (case read_timer (\<lambda>t. earliest_todo_reminder workspace (tm_reminders t)) w of
        (w, None) \<Rightarrow> (w, None)
      | (w, Some todo_at) \<Rightarrow>
          (case read_timer (\<lambda>t. earliest_channel_reminder workspace (tm_reminders t)) w of
             (w, None) \<Rightarrow> (w, None)
           | (w, Some channel_at) \<Rightarrow> (w, Some (first_party_of todo_at channel_at))))"

definition read_statuses :: "string \<Rightarrow> timer_read" where
  "read_statuses workspace = read_timer (earliest_user_status_expiration workspace)"

definition complete_reads :: "string \<Rightarrow> timer_read list" where
  "complete_reads workspace =
     [read_scheduled workspace, read_first_party workspace, read_statuses workspace,
      read_timer (earliest_scheduled_status_start workspace), read_timer (earliest_scheduled_workflow_trigger workspace),
      read_timer (\<lambda>t. earliest_reminder workspace (tm_apps t))]"

definition product_reads :: "string \<Rightarrow> timer_read list" where
  "product_reads workspace = [read_scheduled workspace, read_first_party workspace]"

definition status_reads :: "string \<Rightarrow> timer_read list" where
  "status_reads workspace = [read_scheduled workspace, read_first_party workspace, read_statuses workspace]"

fun read_all :: "timer_read list \<Rightarrow> timer_world \<Rightarrow> timer_world \<times> time list option" where
  "read_all [] w = (w, Some [])"
| "read_all (r # rs) w =
     (case r w of
        (w, None) \<Rightarrow> (w, None)
      | (w, Some value) \<Rightarrow> (case read_all rs w of (w, None) \<Rightarrow> (w, None) | (w, Some values) \<Rightarrow> (w, Some (value # values))))"

definition pick :: "time \<Rightarrow> time \<Rightarrow> time" where
  "pick candidate earliest = (if \<not> is_zero_time candidate \<and> (is_zero_time earliest \<or> candidate < earliest) then candidate else earliest)"

fun earliest_over :: "(string \<Rightarrow> timer_read list) \<Rightarrow> string list \<Rightarrow> time \<Rightarrow> timer_world \<Rightarrow> timer_world \<times> time option" where
  "earliest_over reads [] earliest w = (w, Some earliest)"
| "earliest_over reads (workspace # rest) earliest w =
     (case read_all (reads workspace) w of
        (w, None) \<Rightarrow> (w, None)
      | (w, Some candidates) \<Rightarrow> earliest_over reads rest (fold pick candidates earliest) w)"

text \<open>The handler's answer is its status; the publisher takes anything but 204 for an error.\<close>

definition wake_deadline_handler :: "u64 option \<Rightarrow> time option \<Rightarrow> ctl \<Rightarrow> ctl \<times> nat" where
  "wake_deadline_handler gen deadline c =
     (case gen of
        None \<Rightarrow> (c, 400)
      | Some fence \<Rightarrow>
          (case deadline of
             None \<Rightarrow> (c, 400)
           | Some d \<Rightarrow>
               (case set_wake_deadline fence d c of
                  (c, None) \<Rightarrow> (c, 204)
                | (c, Some e) \<Rightarrow> (c, if e = StaleFence then 409 else 502))))"

definition publish_deadline :: "u64 \<Rightarrow> time \<Rightarrow> ctl \<Rightarrow> ctl \<times> publish_error option" where
  "publish_deadline fence deadline c =
     (case wake_deadline_handler (Some fence) (Some deadline) c of
        (c, status) \<Rightarrow> (c, if status \<noteq> 204 then Some (Refused_Status status) else None))"

definition publish_wake_deadline :: "u64 \<Rightarrow> string list \<Rightarrow> timer_world \<Rightarrow> ctl \<Rightarrow> timer_world \<times> ctl \<times> publish_error option" where
  "publish_wake_deadline fence served w c =
     (if served = [] then (w, c, Some BadRequest)
      else case earliest_over (\<lambda>workspace. [read_scheduled workspace]) (takeWhile (\<lambda>x. x \<noteq> []) served) 0 w of
          (w, None) \<Rightarrow> (w, c, Some ReadFailed)
        | (w, Some earliest) \<Rightarrow>
            if list_ex (\<lambda>x. x = []) served then (w, c, Some BadRequest)
            else (case publish_deadline fence earliest c of (c, e) \<Rightarrow> (w, c, e)))"

definition publish_earliest_wake_deadline :: "u64 option \<Rightarrow> string list \<Rightarrow> timer_world \<Rightarrow> ctl \<Rightarrow> timer_world \<times> ctl \<times> publish_error option" where
  "publish_earliest_wake_deadline fence served w c =
     (case fence of None \<Rightarrow> (w, c, Some NoFence) | Some g \<Rightarrow> publish_wake_deadline g served w c)"

definition publish_over ::
  "(string \<Rightarrow> timer_read list) \<Rightarrow> u64 option \<Rightarrow> string list \<Rightarrow> timer_world \<Rightarrow> ctl \<Rightarrow> timer_world \<times> ctl \<times> publish_error option" where
  "publish_over reads fence served w c =
     (case fence of
        None \<Rightarrow> (w, c, Some NoFence)
      | Some g \<Rightarrow>
          (case earliest_over reads (if served = [] then [[]] else served) 0 w of
             (w, None) \<Rightarrow> (w, c, Some ReadFailed)
           | (w, Some earliest) \<Rightarrow> (case publish_deadline g earliest c of (c, e) \<Rightarrow> (w, c, e))))"

definition publish_product_deadline :: "u64 option \<Rightarrow> string list \<Rightarrow> timer_world \<Rightarrow> ctl \<Rightarrow> timer_world \<times> ctl \<times> publish_error option" where
  "publish_product_deadline = publish_over product_reads"

definition publish_product_deadline_with_statuses ::
  "u64 option \<Rightarrow> string list \<Rightarrow> timer_world \<Rightarrow> ctl \<Rightarrow> timer_world \<times> ctl \<times> publish_error option" where
  "publish_product_deadline_with_statuses = publish_over status_reads"

definition publish_product_deadline_complete ::
  "u64 option \<Rightarrow> string list \<Rightarrow> timer_world \<Rightarrow> ctl \<Rightarrow> timer_world \<times> ctl \<times> publish_error option" where
  "publish_product_deadline_complete = publish_over complete_reads"

text \<open>Whether a tick of \<^verbatim>\<open>scheduledWakeLoop\<close> wakes the stack.\<close>

definition wake_loop_wakes :: "duration \<Rightarrow> time \<Rightarrow> ctl \<Rightarrow> bool" where
  "wake_loop_wakes margin now c \<longleftrightarrow>
     \<not> (is_zero_time (wake_deadline (metadata c)) \<or> time_sub (wake_deadline (metadata c)) now > margin) \<and> st (view c) = Hibernated"

subsection \<open>The least of the timers\<close>

definition least_of :: "time \<Rightarrow> time set \<Rightarrow> bool" where
  "least_of d D \<longleftrightarrow> (D = {} \<and> d = 0) \<or> (d \<in> D \<and> (\<forall>x \<in> D. d \<le> x))"

text \<open>The instants at which the timers of a workspace need the stack.\<close>

definition product_deadlines :: "string \<Rightarrow> timers \<Rightarrow> time set" where
  "product_deadlines workspace t =
     scheduled_deadline (tm_chat t) ` {p \<in> set (scheduled (tm_chat t)). awaits workspace (tm_chat t) p}
     \<union> (\<lambda>(i, v). queue_deadline (rs_todo_queue (tm_reminders t)) i (td_timing v)) ` {p \<in> set (rs_todos (tm_reminders t)). todo_awaits workspace (snd p)}
     \<union> (\<lambda>(i, v). queue_deadline (rs_channel_queue (tm_reminders t)) i (cr_timing v)) ` {p \<in> set (rs_channels (tm_reminders t)). channel_awaits workspace (snd p)}
     \<union> sh_expiration ` {u \<in> set (tm_users t). status_awaits workspace u}
     \<union> fs_starts ` {v \<in> set (tm_statuses t). in_scope workspace (fs_workspace v)}
     \<union> wt_next_run ` {v \<in> set (tm_triggers t). trigger_awaits workspace v}
     \<union> (\<lambda>p. ar_time (snd p)) ` {p \<in> set (as_reminders (tm_apps t)). reminder_open workspace (tm_apps t) p}"

lemma earlier_of_least:
  "least_of e D \<Longrightarrow> 0 < d \<Longrightarrow> (\<forall>x \<in> D. 0 < x) \<Longrightarrow> least_of (earlier_of d e) (insert d D)"
  by (auto simp: least_of_def earlier_of_def)

lemma fold_earlier_least:
  "least_of e D \<Longrightarrow> \<forall>x \<in> D. 0 < x \<Longrightarrow> \<forall>x \<in> f ` {x \<in> set xs. P x}. 0 < x \<Longrightarrow>
     least_of (fold (\<lambda>x e. if P x then earlier_of (f x) e else e) xs e) (D \<union> f ` {x \<in> set xs. P x})"
proof (induction xs arbitrary: e D)
  case (Cons x xs)
  show ?case
  proof (cases "P x")
    case True
    have "least_of (fold (\<lambda>x e. if P x then earlier_of (f x) e else e) xs (earlier_of (f x) e)) (insert (f x) D \<union> f ` {x \<in> set xs. P x})"
      using Cons.prems True by (intro Cons.IH earlier_of_least) auto
    moreover have "insert (f x) D \<union> f ` {x \<in> set xs. P x} = D \<union> f ` {y \<in> set (x # xs). P y}" using True by auto
    ultimately show ?thesis using True by simp
  next
    case False
    moreover have "{y \<in> set (x # xs). P y} = {y \<in> set xs. P y}" using False by auto
    ultimately show ?thesis using Cons by simp
  qed
qed (simp add: least_of_def)

lemma least_of_table:
  assumes "\<forall>x \<in> f ` {x \<in> set xs. P x}. 0 < x"
  shows "least_of (fold (\<lambda>x e. if P x then earlier_of (f x) e else e) xs 0) (f ` {x \<in> set xs. P x})"
  using fold_earlier_least [of 0 "{}" f xs P] assms by (simp add: least_of_def)

lemma pick_least: "least_of c C \<Longrightarrow> least_of e D \<Longrightarrow> \<forall>x \<in> C \<union> D. 0 < x \<Longrightarrow> least_of (pick c e) (D \<union> C)"
  by (auto simp: least_of_def pick_def)

lemma first_party_least: "least_of a A \<Longrightarrow> least_of b B \<Longrightarrow> \<forall>x \<in> A \<union> B. 0 < x \<Longrightarrow> least_of (first_party_of a b) (A \<union> B)"
  by (fastforce simp: least_of_def first_party_of_def)

lemma folded_least:
  "list_all2 least_of cs Cs \<Longrightarrow> least_of e D \<Longrightarrow> \<forall>x \<in> D \<union> \<Union> (set Cs). 0 < x \<Longrightarrow> least_of (fold pick cs e) (D \<union> \<Union> (set Cs))"
proof (induction cs Cs arbitrary: e D rule: list_all2_induct)
  case (Cons c cs C Cs)
  have "least_of (fold pick cs (pick c e)) ((D \<union> C) \<union> \<Union> (set Cs))" using Cons.prems Cons.hyps by (intro Cons.IH pick_least) auto
  then show ?case by (simp add: Un_assoc)
qed simp

subsection \<open>What a publication reads\<close>

lemma read_timer_still:
  assumes "tw_others w = []" "read_timer f w = (w', r)"
  shows "tw_timers w' = tw_timers w \<and> tw_others w' = [] \<and> (r = None \<or> r = Some (f (tw_timers w)))"
  using assms by (auto simp: read_timer_def Let_def split: if_splits)

lemma read_first_party_still:
  assumes "tw_others w = []" "read_first_party workspace w = (w', r)"
  shows "tw_timers w' = tw_timers w \<and> tw_others w' = [] \<and> (r = None \<or> r = Some (first_party_of
    (earliest_todo_reminder workspace (tm_reminders (tw_timers w))) (earliest_channel_reminder workspace (tm_reminders (tw_timers w)))))"
proof -
  obtain w1 r1 where 1: "read_timer (\<lambda>t. earliest_todo_reminder workspace (tm_reminders t)) w = (w1, r1)" by fastforce
  obtain w2 r2 where 2: "read_timer (\<lambda>t. earliest_channel_reminder workspace (tm_reminders t)) w1 = (w2, r2)" by fastforce
  show ?thesis using assms(2) read_timer_still [OF assms(1) 1] read_timer_still [OF _ 2] 1 2
    by (auto simp: read_first_party_def split: option.splits)
qed

text \<open>A reading that returns gives the least of a set of instants, and changes nothing it reads.\<close>

definition reads_least :: "(timers \<Rightarrow> time set) \<Rightarrow> timer_read \<Rightarrow> bool" where
  "reads_least D r \<longleftrightarrow> (\<forall>w w' v. tw_others w = [] \<longrightarrow> (\<forall>x \<in> D (tw_timers w). 0 < x) \<longrightarrow> r w = (w', v) \<longrightarrow>
     tw_timers w' = tw_timers w \<and> tw_others w' = [] \<and> (v = None \<or> (\<exists>e. v = Some e \<and> least_of e (D (tw_timers w)))))"

lemma read_timer_least: "(\<And>t. \<forall>x \<in> D t. 0 < x \<Longrightarrow> least_of (f t) (D t)) \<Longrightarrow> reads_least D (read_timer f)"
  unfolding reads_least_def using read_timer_still by blast

lemma scheduled_least:
  "\<forall>x \<in> scheduled_deadline s ` {p \<in> set (scheduled s). awaits workspace s p}. 0 < x
    \<Longrightarrow> least_of (earliest_scheduled_message workspace s) (scheduled_deadline s ` {p \<in> set (scheduled s). awaits workspace s p})"
  unfolding earliest_scheduled_message_def by (rule least_of_table)

definition todo_deadlines :: "string \<Rightarrow> timers \<Rightarrow> time set" where
  "todo_deadlines workspace t =
     (\<lambda>(i, v). queue_deadline (rs_todo_queue (tm_reminders t)) i (td_timing v)) ` {p \<in> set (rs_todos (tm_reminders t)). todo_awaits workspace (snd p)}"

definition channel_deadlines :: "string \<Rightarrow> timers \<Rightarrow> time set" where
  "channel_deadlines workspace t =
     (\<lambda>(i, v). queue_deadline (rs_channel_queue (tm_reminders t)) i (cr_timing v)) ` {p \<in> set (rs_channels (tm_reminders t)). channel_awaits workspace (snd p)}"

lemma guarded_pairs:
  "(\<lambda>(i, v) e. if P v then earlier_of (f i v) e else e) = (\<lambda>p e. if P (snd p) then earlier_of ((\<lambda>(i, v). f i v) p) e else e)"
  by (auto simp: fun_eq_iff)

lemma todo_least:
  "\<forall>x \<in> todo_deadlines workspace t. 0 < x \<Longrightarrow> least_of (earliest_todo_reminder workspace (tm_reminders t)) (todo_deadlines workspace t)"
  unfolding earliest_todo_reminder_def todo_deadlines_def guarded_pairs by (rule least_of_table)

lemma channel_least:
  "\<forall>x \<in> channel_deadlines workspace t. 0 < x \<Longrightarrow> least_of (earliest_channel_reminder workspace (tm_reminders t)) (channel_deadlines workspace t)"
  unfolding earliest_channel_reminder_def channel_deadlines_def guarded_pairs by (rule least_of_table)

lemma first_party_reads: "reads_least (\<lambda>t. todo_deadlines workspace t \<union> channel_deadlines workspace t) (read_first_party workspace)"
  unfolding reads_least_def
proof (intro allI impI)
  fix w w' v
  assume w: "tw_others w = []" "read_first_party workspace w = (w', v)"
    and D: "\<forall>x \<in> todo_deadlines workspace (tw_timers w) \<union> channel_deadlines workspace (tw_timers w). 0 < x"
  then have "least_of (first_party_of (earliest_todo_reminder workspace (tm_reminders (tw_timers w)))
      (earliest_channel_reminder workspace (tm_reminders (tw_timers w)))) (todo_deadlines workspace (tw_timers w) \<union> channel_deadlines workspace (tw_timers w))"
    by (intro first_party_least todo_least channel_least) auto
  then show "tw_timers w' = tw_timers w \<and> tw_others w' = [] \<and>
      (v = None \<or> (\<exists>e. v = Some e \<and> least_of e (todo_deadlines workspace (tw_timers w) \<union> channel_deadlines workspace (tw_timers w))))"
    using read_first_party_still [OF w] by auto
qed

definition table_sets :: "string \<Rightarrow> (timers \<Rightarrow> time set) list" where
  "table_sets workspace =
     [\<lambda>t. scheduled_deadline (tm_chat t) ` {p \<in> set (scheduled (tm_chat t)). awaits workspace (tm_chat t) p},
      \<lambda>t. todo_deadlines workspace t \<union> channel_deadlines workspace t,
      \<lambda>t. sh_expiration ` {u \<in> set (tm_users t). status_awaits workspace u},
      \<lambda>t. fs_starts ` {v \<in> set (tm_statuses t). in_scope workspace (fs_workspace v)},
      \<lambda>t. wt_next_run ` {v \<in> set (tm_triggers t). trigger_awaits workspace v},
      \<lambda>t. (\<lambda>p. ar_time (snd p)) ` {p \<in> set (as_reminders (tm_apps t)). reminder_open workspace (tm_apps t) p}]"

lemma table_sets_all: "\<Union> (set (map (\<lambda>D. D t) (table_sets workspace))) = product_deadlines workspace t"
  by (simp add: table_sets_def product_deadlines_def todo_deadlines_def channel_deadlines_def Un_ac)

lemma single_table_reads:
  "reads_least (\<lambda>t. scheduled_deadline (tm_chat t) ` {p \<in> set (scheduled (tm_chat t)). awaits workspace (tm_chat t) p}) (read_scheduled workspace)"
  "reads_least (\<lambda>t. sh_expiration ` {u \<in> set (tm_users t). status_awaits workspace u}) (read_statuses workspace)"
  "reads_least (\<lambda>t. fs_starts ` {v \<in> set (tm_statuses t). in_scope workspace (fs_workspace v)}) (read_timer (earliest_scheduled_status_start workspace))"
  "reads_least (\<lambda>t. wt_next_run ` {v \<in> set (tm_triggers t). trigger_awaits workspace v}) (read_timer (earliest_scheduled_workflow_trigger workspace))"
  "reads_least (\<lambda>t. (\<lambda>p. ar_time (snd p)) ` {p \<in> set (as_reminders (tm_apps t)). reminder_open workspace (tm_apps t) p})
     (read_timer (\<lambda>t. earliest_reminder workspace (tm_apps t)))"
proof -
  show "reads_least (\<lambda>t. scheduled_deadline (tm_chat t) ` {p \<in> set (scheduled (tm_chat t)). awaits workspace (tm_chat t) p}) (read_scheduled workspace)"
    unfolding read_scheduled_def by (rule read_timer_least) (rule scheduled_least)
  show "reads_least (\<lambda>t. sh_expiration ` {u \<in> set (tm_users t). status_awaits workspace u}) (read_statuses workspace)"
    unfolding read_statuses_def by (rule read_timer_least, unfold earliest_user_status_expiration_def, rule least_of_table)
  show "reads_least (\<lambda>t. fs_starts ` {v \<in> set (tm_statuses t). in_scope workspace (fs_workspace v)}) (read_timer (earliest_scheduled_status_start workspace))"
    by (rule read_timer_least, unfold earliest_scheduled_status_start_def, rule least_of_table)
  show "reads_least (\<lambda>t. wt_next_run ` {v \<in> set (tm_triggers t). trigger_awaits workspace v}) (read_timer (earliest_scheduled_workflow_trigger workspace))"
    by (rule read_timer_least, unfold earliest_scheduled_workflow_trigger_def, rule least_of_table)
  show "reads_least (\<lambda>t. (\<lambda>p. ar_time (snd p)) ` {p \<in> set (as_reminders (tm_apps t)). reminder_open workspace (tm_apps t) p})
     (read_timer (\<lambda>t. earliest_reminder workspace (tm_apps t)))"
    by (rule read_timer_least, unfold earliest_reminder_def, rule least_of_table)
qed

lemma complete_reads_least: "list_all2 reads_least (table_sets workspace) (complete_reads workspace)"
  unfolding table_sets_def complete_reads_def
  by (simp only: list_all2_Cons list_all2_Nil single_table_reads first_party_reads simp_thms)

lemma read_all_least:
  "list_all2 reads_least Ds rs \<Longrightarrow> tw_others w = [] \<Longrightarrow> \<forall>D \<in> set Ds. \<forall>x \<in> D (tw_timers w). 0 < x \<Longrightarrow> read_all rs w = (w', Some cs) \<Longrightarrow>
     tw_timers w' = tw_timers w \<and> tw_others w' = [] \<and> list_all2 least_of cs (map (\<lambda>D. D (tw_timers w)) Ds)"
proof (induction Ds rs arbitrary: w cs rule: list_all2_induct)
  case (Cons D Ds r rs)
  obtain w1 v where r: "r w = (w1, v)" by fastforce
  then obtain e where e: "v = Some e" using Cons.prems(3) by (cases v) auto
  have pos: "\<forall>x \<in> D (tw_timers w). 0 < x" using Cons.prems(2) by simp
  have 1: "tw_timers w1 = tw_timers w" "tw_others w1 = []" "least_of e (D (tw_timers w))"
    using Cons.hyps(1) [unfolded reads_least_def, rule_format, OF Cons.prems(1) _ r] pos e by simp_all
  obtain cs' where cs': "read_all rs w1 = (w', Some cs')" "cs = e # cs'" using Cons.prems(3) r e by (auto split: prod.splits option.splits)
  show ?case using Cons.IH [OF 1(2) _ cs'(1)] Cons.prems(2) 1 cs'(2) by simp
qed simp

lemma earliest_over_least:
  assumes "tw_others w = []" "\<forall>x \<in> D \<union> (\<Union>workspace \<in> set ws. product_deadlines workspace (tw_timers w)). 0 < x" "least_of e D"
    and "earliest_over complete_reads ws e w = (w', Some d)"
  shows "least_of d (D \<union> (\<Union>workspace \<in> set ws. product_deadlines workspace (tw_timers w)))"
  using assms
proof (induction ws arbitrary: w e D)
  case (Cons a ws)
  obtain w1 cs where r: "read_all (complete_reads a) w = (w1, Some cs)" "earliest_over complete_reads ws (fold pick cs e) w1 = (w', Some d)"
    using Cons.prems(4) by (auto split: prod.splits option.splits)
  have pos: "\<forall>S \<in> set (table_sets a). \<forall>x \<in> S (tw_timers w). 0 < x"
    using Cons.prems(2) table_sets_all [of "tw_timers w" a] by fastforce
  have 1: "tw_timers w1 = tw_timers w" "tw_others w1 = []" "list_all2 least_of cs (map (\<lambda>S. S (tw_timers w)) (table_sets a))"
    using read_all_least [OF complete_reads_least Cons.prems(1) pos r(1)] by auto
  have all: "\<forall>x \<in> D \<union> product_deadlines a (tw_timers w). 0 < x" using Cons.prems(2) by auto
  have "least_of (fold pick cs e) (D \<union> product_deadlines a (tw_timers w))"
    using folded_least [OF 1(3) Cons.prems(3)] all unfolding table_sets_all by blast
  then have "least_of d ((D \<union> product_deadlines a (tw_timers w)) \<union> (\<Union>workspace \<in> set ws. product_deadlines workspace (tw_timers w)))"
    using Cons.IH [OF 1(2) _ _ r(2)] Cons.prems(2) 1(1) by simp
  then show ?case by (simp add: Un_assoc)
qed simp

subsection \<open>From the publication to the wake\<close>

definition served_deadlines :: "string list \<Rightarrow> timers \<Rightarrow> time set" where
  "served_deadlines served t = (\<Union>workspace \<in> set (if served = [] then [[]] else served). product_deadlines workspace t)"

lemma published:
  assumes "publish_product_deadline_complete (Some fence) served w c = (w', c', None)"
  obtains d where "earliest_over complete_reads (if served = [] then [[]] else served) 0 w = (w', Some d)"
    and "set_wake_deadline fence d c = (c', None)"
  using assms
  by (auto simp: publish_product_deadline_complete_def publish_over_def publish_deadline_def wake_deadline_handler_def
      split: prod.splits option.splits if_splits)

lemma stale_publication_refused:
  assumes "fence \<noteq> generation (view c)" "publish_product_deadline_complete (Some fence) served w c = (w', c', e)"
  shows "c' = c \<and> e \<in> {Some ReadFailed, Some (Refused_Status 409)}"
  using assms
  by (auto simp: publish_product_deadline_complete_def publish_over_def publish_deadline_def wake_deadline_handler_def set_wake_deadline_def
      split: prod.splits option.splits)

lemma deadline_written:
  assumes "persistent c" "set_wake_deadline fence d c = (c', None)"
  shows "fence = generation (view c) \<and> persistent c' \<and> wake_deadline (view c') = d"
  using persist_frame(1) [OF assms(1), of "(view c)\<lparr>wake_deadline := d\<rparr>"] assms(2)
  by (auto simp: set_wake_deadline_def split: if_splits prod.splits option.splits)

lemma transition_done:
  assumes "persistent c" "transition fence s nxt c = (c', None)"
  shows "persistent c' \<and> view c' = nxt \<and> row c' = nxt"
  using persist_frame [OF assms(1), of nxt] assms(2) by (auto simp: transition_def split: if_splits prod.splits option.splits)

lemma begin_hibernate_keeps:
  assumes "persistent c" "begin_hibernate fence c = (c', g, None)"
  shows "persistent c' \<and> wake_deadline (view c') = wake_deadline (view c)"
  using persist_frame [OF assms(1), of "carry Quiescing (generation (view c) + 1) c"] assms(2)
  by (auto simp: begin_hibernate_def Let_def split: if_splits prod.splits option.splits)

lemma hibernation_keeps_deadline:
  assumes "persistent c" "begin_hibernate fence c = (c1, g, None)" "begin_snapshot g c1 = (c2, None)"
    and "begin_stop g c2 = (c3, None)" "complete_hibernate g c3 = (c4, None)"
  shows "st (view c4) = Hibernated \<and> row c4 = view c4 \<and> wake_deadline (view c4) = wake_deadline (view c)"
proof -
  note 1 = begin_hibernate_keeps [OF assms(1,2)]
  note 2 = transition_done [OF _ assms(3) [unfolded begin_snapshot_def]]
  note 3 = transition_done [OF _ assms(4) [unfolded begin_stop_def]]
  note 4 = transition_done [OF _ assms(5) [unfolded complete_hibernate_def]]
  from 1 2 3 4 show ?thesis by (simp add: carry_def)
qed

lemma woken_by_least:
  assumes "least_of (wake_deadline (view c)) D" "\<forall>x \<in> D. 0 < x" "st (view c) = Hibernated" "0 \<le> margin" "margin < 2 ^ 63 - 1"
  shows "wake_loop_wakes margin now c \<longleftrightarrow> (\<exists>x \<in> D. x - now \<le> margin)"
proof -
  have "wake_loop_wakes margin now c \<longleftrightarrow> wake_deadline (view c) \<noteq> 0 \<and> wake_deadline (view c) - now \<le> margin"
    using assms(3-5) by (auto simp: wake_loop_wakes_def metadata_def time_sub_def)
  then show ?thesis using assms(1,2) by (fastforce simp: least_of_def)
qed


definition idle_stack :: ctl where
  "idle_stack = (let r = \<lparr>st = Active, generation = 4, wake_deadline = 0, snap_auth = False, restore_gen = 0\<rparr>
     in \<lparr>view = r, persistent = True, row = r, faults = []\<rparr>)"

definition two_timers :: timer_world where
  "two_timers = \<lparr>tw_timers = \<lparr>tm_chat = new_store, tm_reminders = empty_reminders new_store, tm_apps = \<lparr>as_chat = new_store, as_reminders = [], as_delivered = Map.empty\<rparr>,
       tm_users = [\<lparr>sh_workspace = ''T1'', sh_deleted = False, sh_expiration = 900\<rparr>],
       tm_statuses = [\<lparr>fs_workspace = ''T1'', fs_starts = 500\<rparr>, \<lparr>fs_workspace = ''T2'', fs_starts = 100\<rparr>], tm_triggers = []\<rparr>,
     tw_others = [], tw_faults = []\<rparr>"

definition asleep :: "state_record \<Rightarrow> ctl" where
  "asleep r = \<lparr>view = r, persistent = True, row = r, faults = []\<rparr>"

lemma two_timers_deadlines: "served_deadlines [''T1''] (tw_timers two_timers) = {500, 900}"
  unfolding served_deadlines_def product_deadlines_def set_filter [symmetric]
  by (auto simp: two_timers_def empty_reminders_def new_store_def in_scope_def status_awaits_def simp del: set_filter)

lemma two_timers_read: "earliest_over complete_reads [''T1''] 0 two_timers = (two_timers, Some 500)"
  by (simp add: complete_reads_def read_scheduled_def read_first_party_def read_statuses_def read_timer_def two_timers_def Let_def
      earliest_scheduled_message_def earliest_todo_reminder_def earliest_channel_reminder_def earliest_user_status_expiration_def
      earliest_scheduled_status_start_def earliest_scheduled_workflow_trigger_def earliest_reminder_def empty_reminders_def new_store_def
      in_scope_def status_awaits_def earlier_of_def first_party_of_def pick_def)

lemmas idle_runs = set_wake_deadline_def begin_hibernate_def begin_snapshot_def begin_stop_def complete_hibernate_def transition_def
  carry_def persist_def store_cas_def next_fault_def asleep_def idle_stack_def Let_def


end
