(* ===== verification/Spec2Isabelle.thy ===== *)
theory Spec2Isabelle
  imports Crdt_Convergence Crdt_Edits Crdt_Storage Coordinator Outbox_Worker App_Events Activator Rate_Limit Huddle History Retention_Effects Schedule_Limit Schedule_Worker Wake_Deadline
begin

text \<open>
  SameOldChat (README.md) is a self-hosted, Slack-compatible chat server: a Web API and a browser
  interface (\<^verbatim>\<open>internal/api/slack\<close>, \<^verbatim>\<open>internal/web\<close>) over a chat service (\<^verbatim>\<open>internal/service\<close>), a
  repository per storage engine (\<^verbatim>\<open>internal/store\<close>), workers that drain a durable event journal
  (\<^verbatim>\<open>internal/outbox\<close>, \<^verbatim>\<open>internal/scheduler\<close>, \<^verbatim>\<open>internal/socketmode\<close>), collaborative documents
  (\<^verbatim>\<open>internal/crdt\<close>), huddles (\<^verbatim>\<open>internal/huddlesfu\<close>), and a scale-to-zero front that hibernates the
  whole stack and wakes it on demand (\<^verbatim>\<open>internal/lifecycle\<close>, \<^verbatim>\<open>internal/activator\<close>). This development
  models the parts whose correctness is not visible from one call at a time: what converges, what is
  never lost, who may act, and in which order.

  \<^bold>\<open>Shared.\<close> \<open>SOC_Prelude\<close>: instants and durations as integers of nanoseconds, \<open>uint64\<close> as 64-bit
  words, strings as byte lists, and programs that end with a value, an error or the crash of the
  process (\<open>bindP\<close>, \<open>handleP\<close>, \<open>triple\<close>). Three locales state contracts that several components
  share: \<open>Held_Back\<close> (replicas that hold operations back), \<open>Cas_Register\<close> (clients of one
  compare-and-swap register) and \<open>Lease_Contract\<close> (work handed out under leases: a claim lasts, a
  foreign owner is refused).

  \<^bold>\<open>Canvas documents\<close> (\<^verbatim>\<open>internal/crdt/sequence.go\<close>). \<open>Crdt\<close> has the sequence, \<^verbatim>\<open>Apply\<close> and its
  hold-back queue; \<open>Crdt_Convergence\<close> interprets \<open>Held_Back\<close> and derives that replicas that received
  the same operations agree; \<open>Crdt_Edits\<close> has the local edits and their effect on the text;
  \<open>Crdt_Storage\<close> the run-length storage and its round trip.

  \<^bold>\<open>Scale to zero.\<close> \<open>Lifecycle\<close> (\<^verbatim>\<open>state.go\<close>, \<^verbatim>\<open>sqlite_state.go\<close>) has the controller's operations over
  the durable record; they refine an abstract life of the record by \<open>Cas_Register\<close>, with fences
  granted once. \<open>Coordinator\<close> (\<^verbatim>\<open>coordinator.go\<close>) has hibernation, wake, operator restore and
  recovery over drivers that refuse or die at any call, and shows that no write of the active volume
  is lost. \<open>Spool\<close>, \<open>Replay\<close>, \<open>Lease_While\<close>, \<open>Waking\<close> and \<open>Activator\<close> (\<^verbatim>\<open>internal/activator\<close>,
  \<^verbatim>\<open>internal/lease\<close>) have the request path: a request that arrives while the stack sleeps is sealed
  into the spool, one of the replicas is elected to wake the stack through the controller, and the
  spool is drained in order; an accepted request is kept until it was forwarded.

  \<^bold>\<open>Journal and workers.\<close> \<open>Outbox_Store\<close> and \<open>App_Events\<close> (\<^verbatim>\<open>internal/store/memory/memory.go\<close>) have
  the two leased queues over the event journal, each an interpretation of \<open>Lease_Contract\<close>;
  \<open>Outbox_Worker\<close> (\<^verbatim>\<open>internal/outbox/worker.go\<close>) has the worker that renews, delivers, acknowledges
  and releases its batch.

  \<^bold>\<open>Messages.\<close> \<open>Timestamps\<close> (\<^verbatim>\<open>internal/domain/ids.go\<close>) has the timestamps that identify messages,
  \<open>Mentions\<close> (\<^verbatim>\<open>mentions.go\<close>) whom a text names. \<open>Messages\<close> has the message tables of
  \<^verbatim>\<open>internal/store/memory/memory.go\<close> as the record \<open>chat\<close>: posting with its activity items, thread
  follows and read cursors, editing, deleting, file shares and notices, and the service's retry;
  \<open>Message_Order\<close> that every operation keeps a conversation in order and findable, \<open>Message_Posts\<close>
  what the retry and the idempotency key give a poster. \<open>Paging\<close> has the walk of a client from page
  to page and the locale \<open>keyset_pages\<close> of a paged read; \<open>History\<close> interprets it on \<^verbatim>\<open>ListMessages\<close>
  and \<^verbatim>\<open>ListThreadMessages\<close>. \<open>Retention\<close> and \<open>Retention_Effects\<close> have the sweeps that remove what a
  policy has let expire (\<^verbatim>\<open>internal/scheduler/retention.go\<close>), what they remove and how often. The JSON
  decoder and normalizers, case folding and the Unicode letter classes are the arguments \<open>library\<close>; the
  order of an iteration over a Go map is an argument where it decides the outcome; a page cursor is
  what its base64 text decodes to. \<open>Go_Values\<close> has what these parts use of Go's standard library.

  \<^bold>\<open>Scheduled messages.\<close> \<open>Scheduled\<close> has the schedule of the memory store: the rolling limit of a channel
  (\<^verbatim>\<open>internal/store/store.go\<close>), scheduling, editing, withdrawing and the leased queue. \<open>Scheduled_Queue\<close>
  interprets \<open>Lease_Contract\<close> on it and the locale \<open>retention_steps\<close> of \<open>Message_Order\<close>, and shows that a
  scheduled message is posted once; \<open>Schedule_Limit\<close> that the limit is exact and kept, \<open>Schedule_Rows\<close>
  that the tables stay well formed. \<open>Post_Service\<close> has the service's \<^verbatim>\<open>postMessageAs\<close> with what authorizes
  a post, and the two ways a scheduled message is delivered; \<open>Schedule_Worker\<close>
  (\<^verbatim>\<open>internal/scheduler/worker.go\<close>) the worker over that store while the rest of the deployment acts
  between its calls. Roles and posting preferences are a read-only table beside the store; the path of
  composer files (\<^verbatim>\<open>completeExternalUploads\<close>), name linking, the URL parser and the JSON codecs are
  arguments.

  \<^bold>\<open>Reminders.\<close> \<open>Calendar\<close> has what the code uses of Go's calendar and time zones, \<open>Recurrence\<close>
  (\<^verbatim>\<open>internal/domain/reminder_recurrence.go\<close>, \<^verbatim>\<open>nextRecurrence\<close>) the series of a recurring reminder and
  the search for its next instant, \<open>Stored_Time\<close> (\<^verbatim>\<open>timestamps.go\<close>) the text of an instant in a database
  column. \<open>Reminders\<close> has the to-dos and channel reminders of \<^verbatim>\<open>internal/store/memory/todos.go\<close> with their
  leased queues; \<open>Reminder_Queue\<close> interprets \<open>Lease_Contract\<close> on them and shows that no occurrence is
  delivered twice; \<open>Reminder_Worker\<close> and \<open>App_Reminders\<close> have the two workers
  (\<^verbatim>\<open>internal/scheduler/reminders.go\<close>, \<^verbatim>\<open>reminder_delivery.go\<close>) over stores that the others use too.
  \<open>Wake_Deadline\<close> (\<^verbatim>\<open>internal/scheduler/deadline.go\<close>, \<^verbatim>\<open>cmd/activator/main.go\<close>) joins the timers to the
  lifecycle: the least of them is published to the durable record, which wakes the hibernated stack.

  \<^bold>\<open>Rate limits.\<close> \<open>Rate_Limit\<close> has \<^verbatim>\<open>RateAllowance\<close>, its three stores and the middleware; the locale
  \<open>rate_tokens\<close> is what a store promises, each store interprets it, and inside it the equivalence
  with token buckets and the budget bound are proved once.

  \<^bold>\<open>Huddles.\<close> \<open>Huddle\<close> (\<^verbatim>\<open>room.go\<close>, \<^verbatim>\<open>manager.go\<close>, \<^verbatim>\<open>forward.go\<close>) has the forwarding unit as a state
  machine of room operations over a WebRTC library that may refuse any call: negotiation never
  collides, no change of tracks is stranded, and everyone receives everyone else.

  \<^bold>\<open>Bounds and fuel.\<close> Recursion is structural or has a measure: the drain of a spool shortens it, a
  wake has its budget of attempts, an attempt at the rate table is repeated at most twice, a held
  operation leaves the queue or stays. The search for a reminder's next instant need not end: it is a
  partial function, shown to end where the zone keeps the reminder's time of day, and shown not to
  where it does not. Nothing runs on fuel. Where a width matters the code's is
  kept: clocks and fences are 64-bit words, durations of a rate allowance wrap (\<open>int64\<close>) and the
  theorems carry the bound under which they do not.

  \<^bold>\<open>Assumed of code that is not in the repository.\<close> Databases run transactions one at a time; sealed
  blobs open under their key only; random tokens do not repeat; the WebRTC library and the drivers
  answer arbitrarily. These are arguments or scripts of the definitions, not axioms.

  \<^bold>\<open>Not modelled.\<close> The conversion layers (gRPC, Web API argument parsing, HTML), the SQL text of the
  repositories other than the rate limits, the activator's tables and the retention candidates, authentication against external
  providers, Slack payload encodings, websocket and file I/O, snapshots as archives, image and block
  validation, metrics, and the wiring of the programs. The manifest lists each with its reason.
\<close>

end
